(* ===== verification/TaskSpec.thy ===== *)
theory TaskSpec
  imports Prelude
begin

text \<open>
  The data of pkg/task: the structs of spec.go, overrides.go, pipeline.go and
  onfailurechain.go. A pointer field is an \<open>option\<close> (\<open>None\<close> is \<open>nil\<close>), a slice is a
  list, and a map of a parsed YAML document is an association list with distinct
  keys. \<open>Overrides\<close>, \<open>TriggerPatch\<close>, \<open>ChainTrigger\<close> and \<open>Defaults\<close> refer to each other,
  so they are datatypes; the other structs are records.
\<close>

section \<open>Values of parsed documents\<close>

text \<open>
  Go's \<open>any\<close>, as JSON and YAML decoding fill it. A float64 is kept as its shortest
  decimal text, which is all the modelled code ever does with it
  (\<open>strconv.FormatFloat(v, 'f', -1, 64)\<close>). \<open>JStrMap\<close> is a \<open>map[string]string\<close>.
\<close>

datatype json =
    JNull
  | JBool bool
  | JInt int
  | JFloat string
  | JStr string
  | JArr "json list"
  | JObj "(string \<times> json) list"
  | JStrMap "(string \<times> string) list"

section \<open>Permissions\<close>

record fs_entry =
  fs_path :: string
  fs_permission :: string

record if_missing =
  im_task :: string
  im_params :: "(string \<times> string) list"

record env_entry =
  ee_name :: string
  ee_from :: string
  ee_secret :: string
  ee_value :: string
  ee_default :: string
  ee_optional :: bool
  ee_if_missing :: "if_missing option"

datatype dicode_perms = DicodePerms
  (dp_tasks: "string list")
  (dp_mcp: "string list")
  (dp_list_tasks: bool)
  (dp_get_runs: bool)
  (dp_secrets_write: bool)
  (dp_secrets_has: bool)
  (dp_runs_list_expired: bool)
  (dp_runs_delete_input: bool)
  (dp_runs_pin_input: bool)
  (dp_runs_unpin_input: bool)
  (dp_runs_list_expired_resume_state: bool)
  (dp_runs_delete_resume_state: bool)
  (dp_runs_replay: bool)
  (dp_runs_get_input: bool)
  (dp_tasks_test: bool)
  (dp_sources_list: bool)
  (dp_sources_set_dev_mode: bool)
  (dp_git_commit_push: bool)
  (dp_crypto: "string list")
  (dp_audit_query: bool)

record permissions =
  pm_env :: "env_entry list"
  pm_env_read_exposed :: bool
  pm_fs :: "fs_entry list"
  pm_run :: "string list"
  pm_net :: "string list"
  pm_sys :: "string list"
  pm_dicode :: "dicode_perms option"

section \<open>Params\<close>

record param =
  pa_name :: string
  pa_type :: string
  pa_default :: string
  pa_description :: string
  pa_required :: bool

record param_override =
  po_name :: string
  po_default :: string
  po_required :: "bool option"

record retry_config =
  rc_attempts :: int
  rc_backoff :: duration

section \<open>Triggers and overrides\<close>

datatype webhook_auth = AuthNone | AuthSession | AuthAny

datatype chain_trigger = ChainTrigger
    (ct_from: string)
    (ct_on: string)
    (ct_params: "(string \<times> json) list")
    (ct_overrides: "overrides option")
and trigger_patch = TriggerPatch
    (tp_cron: "string option")
    (tp_webhook: "string option")
    (tp_auth: "bool option")
    (tp_manual: "bool option")
    (tp_chain: "chain_trigger option")
    (tp_daemon: "bool option")
    (tp_restart: "string option")
and overrides = Overrides
    (ov_enabled: "bool option")
    (ov_name: string)
    (ov_description: string)
    (ov_trigger: "trigger_patch option")
    (ov_params: "param_override list")
    (ov_env: "env_entry list")
    (ov_net: "string list")
    (ov_fs: "fs_entry list")
    (ov_timeout: duration)
    (ov_retry: "retry_config option")
    (ov_runtime: string)
    (ov_dicode: "dicode_perms option")
    (ov_defaults: "defaults option")
    (ov_entries: "(string \<times> overrides) list option")
and defaults = Defaults
    (df_timeout: duration)
    (df_retry: "retry_config option")
    (df_env: "env_entry list")
    (df_trigger: "trigger_patch option")

record trigger_config =
  tc_cron :: string
  tc_webhook :: string
  tc_webhook_secret :: string
  tc_webhook_auth :: webhook_auth
  tc_replay_protection :: "bool option"
  tc_require_timestamp :: "bool option"
  tc_manual :: bool
  tc_chain :: "chain_trigger option"
  tc_daemon :: bool
  tc_restart :: string

section \<open>Containers, failure chains, specs\<close>

record docker_build =
  db_dockerfile :: string
  db_context :: string

record docker_config =
  dc_image :: string
  dc_build :: "docker_build option"
  dc_command :: "string list"
  dc_entrypoint :: "string list"
  dc_volumes :: "string list"
  dc_ports :: "string list"
  dc_working_dir :: string
  dc_env_vars :: "(string \<times> string) list"
  dc_pull_policy :: string
  dc_network_mode :: string
  dc_extra_hosts :: "string list"
  dc_cap_drop :: "string list"
  dc_cap_add :: "string list"
  dc_security_opt :: "string list"
  dc_read_only :: bool
  dc_user :: string

record storm_spec =
  st_rate :: int
  st_window :: duration
  st_suppress :: duration
  st_scope :: string

record on_failure_chain_spec =
  oc_task :: string
  oc_params :: "(string \<times> json) list"
  oc_max_depth :: int
  oc_cooldown :: duration
  oc_max_concurrent :: int
  oc_max_concurrent_global :: int
  oc_storm :: storm_spec

record webui_nav =
  wn_label :: string
  wn_order :: int
  wn_icon :: string

record run_inputs_override =
  ri_enabled :: "bool option"
  ri_retention :: duration
  ri_body_full_textual :: "bool option"

text \<open>
  \<open>sp_webui\<close> is \<open>Webui.Nav\<close> with both pointers followed, \<open>sp_provider\<close> the provider's
  \<open>CacheTTL\<close>, \<open>sp_run_result\<close> the \<open>Enabled\<close> pointer of \<open>RunResult\<close>, \<open>sp_auto_fix\<close> the two
  pointers of \<open>AutoFixConfig\<close>.
\<close>

record spec =
  sp_name :: string
  sp_description :: string
  sp_version :: string
  sp_author :: string
  sp_runtime :: string
  sp_docker :: "docker_config option"
  sp_trigger :: trigger_config
  sp_params :: "param list"
  sp_permissions :: permissions
  sp_timeout :: duration
  sp_mcp_exposed :: bool
  sp_mcp_port :: int
  sp_on_failure_chain :: "on_failure_chain_spec option"
  sp_silent :: bool
  sp_provider :: "duration option"
  sp_webui :: "webui_nav option"
  sp_run_inputs :: "run_inputs_override option"
  sp_run_result :: "bool option"
  sp_auto_fix :: "(bool option \<times> bool option) option"
  sp_hash_include :: "string list"
  sp_enabled :: bool
  sp_template :: string
  sp_task_dir :: string
  sp_id :: task_id
  sp_warnings :: "string list"

record pipeline_trigger =
  pt_manual :: bool
  pt_cron :: string
  pt_webhook :: string
  pt_webhook_secret :: string
  pt_webhook_auth :: webhook_auth
  pt_replay_protection :: "bool option"
  pt_require_timestamp :: "bool option"
  pt_chain :: "chain_trigger option"

record stage =
  sg_task :: task_id
  sg_depends_on :: "task_id list"
  sg_overrides :: "overrides option"

record pipeline_task =
  pl_api_version :: string
  pl_kind :: string
  pl_name :: string
  pl_description :: string
  pl_subtype :: string
  pl_trigger :: pipeline_trigger
  pl_stages :: "stage list"
  pl_timeout :: duration
  pl_task_dir :: string
  pl_id :: task_id
  pl_enabled :: bool
  pl_warnings :: "string list"

text \<open>The interface \<open>Kinded\<close>: its two implementations, and the methods both provide.\<close>

datatype kinded = KSpec spec | KPipeline pipeline_task

fun task_id_of :: "kinded \<Rightarrow> task_id" where
  "task_id_of (KSpec s) = sp_id s"
| "task_id_of (KPipeline p) = pl_id p"

fun is_enabled :: "kinded \<Rightarrow> bool" where
  "is_enabled (KSpec s) = sp_enabled s"
| "is_enabled (KPipeline p) = pl_enabled p"

fun kind_of :: "kinded \<Rightarrow> string" where
  "kind_of (KSpec s) = ''Task''"
| "kind_of (KPipeline p) = ''PipelineTask''"

fun chain_trigger_of :: "kinded \<Rightarrow> chain_trigger option" where
  "chain_trigger_of (KSpec s) = tc_chain (sp_trigger s)"
| "chain_trigger_of (KPipeline p) = pt_chain (pl_trigger p)"

section \<open>Zero values\<close>

text \<open>The zero values of the structs, from which concrete examples are built.\<close>

definition no_trigger :: trigger_config where
  "no_trigger = \<lparr>tc_cron = [], tc_webhook = [], tc_webhook_secret = [],
     tc_webhook_auth = AuthNone, tc_replay_protection = None, tc_require_timestamp = None,
     tc_manual = False, tc_chain = None, tc_daemon = False, tc_restart = []\<rparr>"

definition no_permissions :: permissions where
  "no_permissions = \<lparr>pm_env = [], pm_env_read_exposed = False, pm_fs = [], pm_run = [],
     pm_net = [], pm_sys = [], pm_dicode = None\<rparr>"

definition no_env :: env_entry where
  "no_env = \<lparr>ee_name = [], ee_from = [], ee_secret = [], ee_value = [], ee_default = [],
     ee_optional = False, ee_if_missing = None\<rparr>"

definition no_dicode :: dicode_perms where
  "no_dicode = DicodePerms [] [] False False False False False False False False False False
     False False False False False False [] False"

definition no_overrides :: overrides where
  "no_overrides = Overrides None [] [] None [] [] [] [] 0 None [] None None None"

definition no_patch :: trigger_patch where
  "no_patch = TriggerPatch None None None None None None None"

definition no_storm :: storm_spec where
  "no_storm = \<lparr>st_rate = 0, st_window = 0, st_suppress = 0, st_scope = []\<rparr>"

definition no_failure_chain :: on_failure_chain_spec where
  "no_failure_chain = \<lparr>oc_task = [], oc_params = [], oc_max_depth = 0, oc_cooldown = 0,
     oc_max_concurrent = 0, oc_max_concurrent_global = 0, oc_storm = no_storm\<rparr>"

definition no_docker :: docker_config where
  "no_docker = \<lparr>dc_image = [], dc_build = None, dc_command = [], dc_entrypoint = [],
     dc_volumes = [], dc_ports = [], dc_working_dir = [], dc_env_vars = [], dc_pull_policy = [],
     dc_network_mode = [], dc_extra_hosts = [], dc_cap_drop = [], dc_cap_add = [],
     dc_security_opt = [], dc_read_only = False, dc_user = []\<rparr>"

definition empty_spec :: spec where
  "empty_spec = \<lparr>sp_name = [], sp_description = [], sp_version = [], sp_author = [],
     sp_runtime = [], sp_docker = None, sp_trigger = no_trigger, sp_params = [],
     sp_permissions = no_permissions, sp_timeout = 0, sp_mcp_exposed = False, sp_mcp_port = 0,
     sp_on_failure_chain = None, sp_silent = False, sp_provider = None, sp_webui = None,
     sp_run_inputs = None, sp_run_result = None, sp_auto_fix = None, sp_hash_include = [], sp_enabled = False,
     sp_template = [], sp_task_dir = [], sp_id = [], sp_warnings = []\<rparr>"

definition no_pipeline_trigger :: pipeline_trigger where
  "no_pipeline_trigger = \<lparr>pt_manual = False, pt_cron = [], pt_webhook = [],
     pt_webhook_secret = [], pt_webhook_auth = AuthNone, pt_replay_protection = None,
     pt_require_timestamp = None, pt_chain = None\<rparr>"

definition empty_pipeline :: pipeline_task where
  "empty_pipeline = \<lparr>pl_api_version = [], pl_kind = [], pl_name = [], pl_description = [],
     pl_subtype = [], pl_trigger = no_pipeline_trigger, pl_stages = [], pl_timeout = 0,
     pl_task_dir = [], pl_id = [], pl_enabled = False, pl_warnings = []\<rparr>"

lemmas zero_values = no_trigger_def no_permissions_def no_env_def no_dicode_def
  no_overrides_def no_patch_def no_storm_def no_failure_chain_def no_docker_def empty_spec_def
  no_pipeline_trigger_def empty_pipeline_def

section \<open>Small methods\<close>

definition chain_on :: "chain_trigger \<Rightarrow> string" where
  "chain_on c = (if ct_on c = [] then ''success'' else ct_on c)"

definition webhook_secret_resolved :: "string \<Rightarrow> bool" where
  "webhook_secret_resolved s = (s \<noteq> [] \<and> \<not> contains_sub ''${'' s)"

definition persist_return_value :: "spec \<Rightarrow> bool" where
  "persist_return_value s = (case sp_run_result s of None \<Rightarrow> True | Some b \<Rightarrow> b)"

definition effective_max_depth :: "on_failure_chain_spec \<Rightarrow> int" where
  "effective_max_depth s = (if 0 < oc_max_depth s then oc_max_depth s else 2)"

text \<open>The message holds an em dash, three bytes of UTF-8.\<close>

definition webhook_auth_downgrade_warning :: string where
  "webhook_auth_downgrade_warning =
     ''trigger.auth: \"any\" needs a resolved webhook_secret but none is set '' @
     [CHR 0xE2, CHR 0x80, CHR 0x94] @
     '' serving session auth only (the HMAC/relay path is disabled)''"

text \<open>
  \<open>normalizeWebhookAuthFields\<close> on the trigger of a task: an \<open>any\<close> trigger whose secret
  is empty or still a placeholder is downgraded to session authentication.
\<close>

definition normalize_webhook_auth :: "spec \<Rightarrow> spec" where
  "normalize_webhook_auth s =
     (let t = sp_trigger s in
      if tc_webhook_auth t \<noteq> AuthAny \<or> webhook_secret_resolved (tc_webhook_secret t) then s
      else s\<lparr>sp_trigger := t\<lparr>tc_webhook_auth := AuthSession, tc_webhook_secret := [],
               tc_replay_protection := None, tc_require_timestamp := None\<rparr>,
             sp_warnings := sp_warnings s @ [webhook_auth_downgrade_warning]\<rparr>)"

definition reserved_chain_param_keys :: "string list" where
  "reserved_chain_param_keys =
     [''taskID'', ''runID'', ''status'', ''output'', ''_chain_depth'', ''run_url'']"

definition is_reserved_chain_param_key :: "string \<Rightarrow> bool" where
  "is_reserved_chain_param_key k = (k \<in> set reserved_chain_param_keys)"

end
