(* ===== verification/InputRef.thy ===== *)
theory InputRef
  imports TaskSpec
begin

text \<open>
  Dispatch-time interpolation of upstream results, pkg/task/inputref.go: the references
  \<open>${input.output}\<close>, \<open>${input.output.<field>}\<close> and \<open>${input.params.<name>}\<close> in the parameters of
  a chain edge or a pipeline stage. The regular expressions of the source are scanners here.
  The reference definition splits a string into literal bytes and references once; the
  resolver must agree with substituting each reference on its own.
\<close>

section \<open>The regular expressions\<close>

definition ident_start :: "char \<Rightarrow> bool" where
  "ident_start c = (is_letter c \<or> c = CHR ''_'')"

definition ident_char :: "char \<Rightarrow> bool" where
  "ident_char c = (is_letter c \<or> is_digit c \<or> c = CHR ''_'' \<or> c = CHR ''.'' \<or> c = CHR ''-'')"

definition input_mark :: string where
  "input_mark = ''${input.''"

datatype ref_kind = RefOutput | RefParams

definition kind_name :: "ref_kind \<Rightarrow> string" where
  "kind_name k = (case k of RefOutput \<Rightarrow> ''output'' | RefParams \<Rightarrow> ''params'')"

text \<open>The optional group and the closing brace: the field and the rest of the string. No
  identifier byte is a brace, so the greedy match never backtracks.\<close>

definition match_field :: "string \<Rightarrow> (string \<times> string) option" where
  "match_field s =
     (case s of
        [] \<Rightarrow> None
      | c # r \<Rightarrow>
          if c = CHR ''}'' then Some ([], r)
          else if c = CHR ''.'' \<and> r \<noteq> [] \<and> ident_start (hd r) then
            (case dropWhile ident_char r of
               [] \<Rightarrow> None
             | d # t \<Rightarrow> if d = CHR ''}'' then Some (takeWhile ident_char r, t) else None)
          else None)"

text \<open>\<open>inputRefRe\<close> at the start of a string: kind, field and the rest.\<close>

definition match_ref :: "string \<Rightarrow> (ref_kind \<times> string \<times> string) option" where
  "match_ref s =
     (case cut_prefix input_mark s of
        None \<Rightarrow> None
      | Some r \<Rightarrow>
          (case cut_prefix ''output'' r of
             Some t \<Rightarrow> map_option (Pair RefOutput) (match_field t)
           | None \<Rightarrow>
               (case cut_prefix ''params'' r of
                  Some t \<Rightarrow> map_option (Pair RefParams) (match_field t)
                | None \<Rightarrow> None)))"

definition ref_text :: "ref_kind \<Rightarrow> string \<Rightarrow> string" where
  "ref_text k f = input_mark @ kind_name k @ (if f = [] then [] else CHR ''.'' # f) @ ''}''"

definition field_ok :: "string \<Rightarrow> bool" where
  "field_ok f = (f = [] \<or> ident_start (hd f) \<and> list_all ident_char f)"

text \<open>The first match anywhere in a string, \<open>FindStringSubmatch\<close>.\<close>

fun find_ref :: "string \<Rightarrow> (ref_kind \<times> string) option" where
  "find_ref [] = None"
| "find_ref (c # s) =
     (case match_ref (c # s) of Some (k, f, r) \<Rightarrow> Some (k, f) | None \<Rightarrow> find_ref s)"

text \<open>\<open>inputRefPrefixRe\<close> at the start of a string: the match, up to the first closing brace.\<close>

definition match_attempt :: "string \<Rightarrow> (string \<times> string) option" where
  "match_attempt s =
     (case cut_prefix input_mark s of
        None \<Rightarrow> None
      | Some r \<Rightarrow>
          (case dropWhile (\<lambda>c. c \<noteq> CHR ''}'') r of
             [] \<Rightarrow> None
           | d # t \<Rightarrow> Some (input_mark @ takeWhile (\<lambda>c. c \<noteq> CHR ''}'') r @ ''}'', t)))"

lemma match_field_shorter: "match_field s = Some (f, r) \<Longrightarrow> length r < length s"
  by (auto simp: match_field_def split: list.splits if_splits)
    (metis dropWhile_eq_Cons_conv length_Cons length_append less_Suc_eq_le le_add2 takeWhile_dropWhile_id
      add_Suc_right le_imp_less_Suc le_SucI)

lemma match_ref_shorter: "match_ref s = Some (k, f, r) \<Longrightarrow> length r < length s"
  by (auto simp: match_ref_def cut_prefix_Some split: option.splits dest!: match_field_shorter)

lemma match_attempt_shorter: "match_attempt s = Some (m, r) \<Longrightarrow> length r < length s"
proof -
  assume "match_attempt s = Some (m, r)"
  then obtain t d where s: "s = input_mark @ t" "dropWhile (\<lambda>c. c \<noteq> CHR ''}'') t = d # r"
    by (auto simp: match_attempt_def cut_prefix_Some split: option.splits list.splits)
  then have "length t = length (takeWhile (\<lambda>c. c \<noteq> CHR ''}'') t) + Suc (length r)"
    by (metis length_Cons length_append takeWhile_dropWhile_id)
  with s show ?thesis by simp
qed

text \<open>\<open>FindAllString\<close>: the matches from the left, none overlapping another.\<close>

function find_attempts :: "string \<Rightarrow> string list" where
  "find_attempts s =
     (case match_attempt s of
        Some (m, r) \<Rightarrow> m # find_attempts r
      | None \<Rightarrow> (case s of [] \<Rightarrow> [] | c # t \<Rightarrow> find_attempts t))"
  by pat_completeness auto
termination
  by (relation "measure length") (auto dest: match_attempt_shorter)

declare find_attempts.simps [simp del]

section \<open>The registration-time gate\<close>

datatype ref_error = UnknownShape string | NeedsField string

definition check_attempt :: "string \<Rightarrow> ref_error option" where
  "check_attempt m =
     (case find_ref m of
        None \<Rightarrow> Some (UnknownShape m)
      | Some (k, f) \<Rightarrow> if k = RefParams \<and> f = [] then Some (NeedsField m) else None)"

fun first_error :: "('a \<Rightarrow> 'e option) \<Rightarrow> 'a list \<Rightarrow> 'e option" where
  "first_error f [] = None"
| "first_error f (x # xs) = (case f x of Some e \<Rightarrow> Some e | None \<Rightarrow> first_error f xs)"

definition validate_input_refs :: "string \<Rightarrow> ref_error option" where
  "validate_input_refs s =
     (if \<not> contains_sub input_mark s then None else first_error check_attempt (find_attempts s))"

section \<open>Resolution\<close>

record input_context =
  ic_output :: json
  ic_params :: "(string \<rightharpoonup> string) option"

datatype input_unavailable =
    NoStringOutput
  | EmptyValue
  | NotAnObject
  | NoField string
  | FieldNotString string
  | ParamsNeedField
  | NoParams
  | NoParam string

definition non_empty :: "string \<Rightarrow> input_unavailable + string" where
  "non_empty s = (if s = [] then Inl EmptyValue else Inr s)"

definition resolve_token :: "input_context \<Rightarrow> ref_kind \<Rightarrow> string \<Rightarrow> input_unavailable + string" where
  "resolve_token ctx k f =
     (case k of
        RefOutput \<Rightarrow>
          if f = [] then (case ic_output ctx of JStr s \<Rightarrow> non_empty s | _ \<Rightarrow> Inl NoStringOutput)
          else (case ic_output ctx of
                  JObj m \<Rightarrow>
                    (case map_of m f of
                       None \<Rightarrow> Inl (NoField f)
                     | Some (JStr s) \<Rightarrow> non_empty s
                     | Some _ \<Rightarrow> Inl (FieldNotString f))
                | JStrMap m \<Rightarrow> (case map_of m f of None \<Rightarrow> Inl (NoField f) | Some s \<Rightarrow> non_empty s)
                | _ \<Rightarrow> Inl NotAnObject)
      | RefParams \<Rightarrow>
          if f = [] then Inl ParamsNeedField
          else (case ic_params ctx of
                  None \<Rightarrow> Inl NoParams
                | Some m \<Rightarrow> (case m f of None \<Rightarrow> Inl (NoParam f) | Some v \<Rightarrow> non_empty v)))"

text \<open>\<open>ReplaceAllStringFunc\<close> with the closure that remembers its first error.\<close>

function replace_refs :: "input_context \<Rightarrow> string \<Rightarrow> input_unavailable option \<Rightarrow> string \<times> input_unavailable option" where
  "replace_refs ctx s err =
     (case match_ref s of
        Some (k, f, r) \<Rightarrow>
          (case (if err = None then resolve_token ctx k f else Inr (ref_text k f)) of
             Inr v \<Rightarrow> (case replace_refs ctx r err of (t, e) \<Rightarrow> (v @ t, e))
           | Inl e \<Rightarrow> (case replace_refs ctx r (Some e) of (t, e') \<Rightarrow> (ref_text k f @ t, e')))
      | None \<Rightarrow>
          (case s of
             [] \<Rightarrow> ([], err)
           | c # t \<Rightarrow> (case replace_refs ctx t err of (t', e) \<Rightarrow> (c # t', e))))"
  by pat_completeness auto
termination
  by (relation "measure (\<lambda>(ctx, s, err). length s)") (auto dest: match_ref_shorter)

declare replace_refs.simps [simp del]

definition resolve_string :: "input_context \<Rightarrow> string \<Rightarrow> input_unavailable + string" where
  "resolve_string ctx s =
     (if \<not> contains_sub input_mark s then Inr s
      else (case replace_refs ctx s None of (out, None) \<Rightarrow> Inr out | (out, Some e) \<Rightarrow> Inl e))"

fun resolve_input_output_map ::
  "input_context \<Rightarrow> (string \<times> json) list \<Rightarrow> (string \<times> input_unavailable) + (string \<times> json) list" where
  "resolve_input_output_map ctx [] = Inr []"
| "resolve_input_output_map ctx ((k, v) # ps) =
     (case v of
        JStr s \<Rightarrow>
          (case resolve_string ctx s of
             Inl e \<Rightarrow> Inl (k, e)
           | Inr t \<Rightarrow> map_sum id (Cons (k, JStr t)) (resolve_input_output_map ctx ps))
      | _ \<Rightarrow> map_sum id (Cons (k, v)) (resolve_input_output_map ctx ps))"

fun resolve_input_output_list ::
  "input_context \<Rightarrow> param_override list \<Rightarrow> (string \<times> input_unavailable) + param_override list" where
  "resolve_input_output_list ctx [] = Inr []"
| "resolve_input_output_list ctx (p # ps) =
     (case resolve_string ctx (po_default p) of
        Inl e \<Rightarrow> Inl (po_name p, e)
      | Inr t \<Rightarrow> map_sum id (Cons (p\<lparr>po_default := t\<rparr>)) (resolve_input_output_list ctx ps))"

section \<open>The reference: one split, then substitution\<close>

datatype segment = Byte char | Ref ref_kind string

function segments :: "string \<Rightarrow> segment list" where
  "segments s =
     (case match_ref s of
        Some (k, f, r) \<Rightarrow> Ref k f # segments r
      | None \<Rightarrow> (case s of [] \<Rightarrow> [] | c # t \<Rightarrow> Byte c # segments t))"
  by pat_completeness auto
termination
  by (relation "measure length") (auto dest: match_ref_shorter)

declare segments.simps [simp del]

fun segment_text :: "segment \<Rightarrow> string" where
  "segment_text (Byte c) = [c]"
| "segment_text (Ref k f) = ref_text k f"

fun substitute :: "input_context \<Rightarrow> segment \<Rightarrow> input_unavailable + string" where
  "substitute ctx (Byte c) = Inr [c]"
| "substitute ctx (Ref k f) = resolve_token ctx k f"

text \<open>All the results, or the first error.\<close>

fun collect :: "('e + 'a) list \<Rightarrow> 'e + 'a list" where
  "collect [] = Inr []"
| "collect (Inl e # xs) = Inl e"
| "collect (Inr x # xs) = map_sum id (Cons x) (collect xs)"

lemma match_field_text:
  "match_field s = Some (f, r) \<Longrightarrow> s = (if f = [] then [] else CHR ''.'' # f) @ CHR ''}'' # r \<and> field_ok f"
proof (cases s)
  case (Cons c t)
  assume m: "match_field s = Some (f, r)"
  show ?thesis
  proof (cases "c = CHR ''}''")
    case True
    with m Cons show ?thesis by (auto simp: match_field_def field_ok_def)
  next
    case False
    with m Cons have t: "c = CHR ''.''" "t \<noteq> []" "ident_start (hd t)" "f = takeWhile ident_char t"
      "dropWhile ident_char t = CHR ''}'' # r"
      by (auto simp: match_field_def split: if_splits list.splits)
    then have "t = f @ CHR ''}'' # r"
      by (metis takeWhile_dropWhile_id)
    moreover have "ident_char (hd t)"
      using t(3) by (auto simp: ident_start_def ident_char_def)
    then have "f \<noteq> []"
      using t(2,4) by (cases t) auto
    ultimately have "hd f = hd t" by simp
    have "\<And>x. x \<in> set (takeWhile ident_char t) \<Longrightarrow> ident_char x"
      by (rule set_takeWhileD [THEN conjunct2])
    then have "list_all ident_char f"
      unfolding t(4) list_all_iff by blast
    with \<open>f \<noteq> []\<close> \<open>hd f = hd t\<close> t(1,3) \<open>t = f @ CHR ''}'' # r\<close> Cons show ?thesis
      by (simp add: field_ok_def)
  qed
qed (simp add: match_field_def)

lemma match_ref_text: "match_ref s = Some (k, f, r) \<Longrightarrow> s = ref_text k f @ r \<and> field_ok f"
  by (auto simp: match_ref_def cut_prefix_Some ref_text_def kind_name_def
      split: option.splits dest!: match_field_text)

lemma segments_unfold:
  "segments [] = []"
  "match_ref (c # t) = None \<Longrightarrow> segments (c # t) = Byte c # segments t"
  "match_ref s = Some (k, f, r) \<Longrightarrow> segments s = Ref k f # segments r"
  by (simp_all add: segments.simps match_ref_def cut_prefix_def input_mark_def)

lemma replace_refs_unfold:
  "replace_refs ctx [] err = ([], err)"
  "match_ref (c # t) = None \<Longrightarrow> replace_refs ctx (c # t) err = apfst (Cons c) (replace_refs ctx t err)"
  "match_ref s = Some (k, f, r) \<Longrightarrow>
     replace_refs ctx s err =
       (case (if err = None then resolve_token ctx k f else Inr (ref_text k f)) of
          Inr v \<Rightarrow> apfst ((@) v) (replace_refs ctx r err)
        | Inl e \<Rightarrow> apfst ((@) (ref_text k f)) (replace_refs ctx r (Some e)))"
  by (simp_all add: replace_refs.simps match_ref_def cut_prefix_def input_mark_def apfst_def map_prod_def
      split: sum.splits)

lemma segment_induct [case_names Nil Byte Ref]:
  assumes "P []"
    and "\<And>c t. match_ref (c # t) = None \<Longrightarrow> P t \<Longrightarrow> P (c # t)"
    and "\<And>s k f r. match_ref s = Some (k, f, r) \<Longrightarrow> P r \<Longrightarrow> P s"
  shows "P s"
proof (induction s rule: segments.induct)
  case (1 s)
  show ?case
  proof (cases "match_ref s")
    case None
    show ?thesis
    proof (cases s)
      case (Cons c t)
      with assms(2) None "1.IH"(1) [OF None Cons] show ?thesis by simp
    qed (simp add: assms(1))
  next
    case (Some m)
    obtain k f r where m: "m = (k, f, r)" by (cases m)
    with assms(3) Some "1.IH"(2) [OF Some] show ?thesis by blast
  qed
qed

lemma segments_text: "concat (map segment_text (segments s)) = s"
  by (induction s rule: segment_induct) (auto simp: segments_unfold dest: match_ref_text)

lemma replace_refs_after_error: "snd (replace_refs ctx s (Some e)) = Some e"
  by (induction s rule: segment_induct) (simp_all add: replace_refs_unfold)

definition closure_result :: "string \<times> input_unavailable option \<Rightarrow> input_unavailable + string" where
  "closure_result p = (case p of (out, None) \<Rightarrow> Inr out | (out, Some e) \<Rightarrow> Inl e)"

lemma replace_refs_collect:
  "closure_result (replace_refs ctx s None) = map_sum id concat (collect (map (substitute ctx) (segments s)))"
proof (induction s rule: segment_induct)
  case Nil
  then show ?case by (simp add: replace_refs_unfold segments_unfold closure_result_def)
next
  case (Byte c t)
  then show ?case
    by (cases "collect (map (substitute ctx) (segments t))")
      (auto simp: replace_refs_unfold segments_unfold closure_result_def split: prod.splits option.splits)
next
  case (Ref s k f r)
  show ?case
  proof (cases "resolve_token ctx k f")
    case (Inl e)
    with Ref(1) replace_refs_after_error [of ctx r e] show ?thesis
      by (cases "replace_refs ctx r (Some e)")
        (auto simp: replace_refs_unfold segments_unfold closure_result_def)
  next
    case (Inr v)
    with Ref show ?thesis
      by (cases "collect (map (substitute ctx) (segments r))")
        (auto simp: replace_refs_unfold segments_unfold closure_result_def split: prod.splits option.splits)
  qed
qed

section \<open>What a match looks like\<close>

lemma ident_char_plain: "ident_char c \<Longrightarrow> c \<noteq> CHR ''}'' \<and> c \<noteq> CHR ''$''"
  by (auto simp: ident_char_def is_letter_def is_digit_def char_between_def)

lemma ref_text_body:
  assumes "field_ok f"
  obtains x where "ref_text k f = CHR ''$'' # x @ ''}''" "CHR ''}'' \<notin> set x" "CHR ''$'' \<notin> set x"
proof -
  have "CHR ''}'' \<notin> set f \<and> CHR ''$'' \<notin> set f"
    using assms by (auto simp: field_ok_def list_all_iff dest: ident_char_plain)
  then show thesis
    by (intro that [of "''{input.'' @ kind_name k @ (if f = [] then [] else CHR ''.'' # f)"])
      (auto simp: ref_text_def input_mark_def kind_name_def split: ref_kind.splits)
qed

lemma match_field_complete:
  assumes "field_ok f"
  shows "match_field ((if f = [] then [] else CHR ''.'' # f) @ CHR ''}'' # v) = Some (f, v)"
proof (cases "f = []")
  case True
  then show ?thesis by (simp add: match_field_def)
next
  case False
  with assms have f: "ident_start (hd f)" "\<forall>c \<in> set f. ident_char c"
    by (auto simp: field_ok_def list_all_iff)
  have "\<not> ident_char CHR ''}''"
    using ident_char_plain by blast
  with f(2) have "takeWhile ident_char (f @ CHR ''}'' # v) = f"
    "dropWhile ident_char (f @ CHR ''}'' # v) = CHR ''}'' # v"
    by (simp_all add: takeWhile_append2 dropWhile_append2)
  with False f(1) show ?thesis
    by (simp add: match_field_def)
qed

lemma cut_prefix_append [simp]: "cut_prefix p (p @ s) = Some s"
  by (simp add: cut_prefix_Some)

lemma match_ref_complete:
  assumes "field_ok f"
  shows "match_ref (ref_text k f @ v) = Some (k, f, v)"
proof -
  note m = match_field_complete [OF assms, of v]
  have out: "cut_prefix ''output'' (''params'' @ t) = None" for t
    by (simp add: cut_prefix_def)
  have r: "cut_prefix input_mark (ref_text k f @ v) =
      Some (kind_name k @ (if f = [] then [] else CHR ''.'' # f) @ CHR ''}'' # v)"
    unfolding ref_text_def append_assoc cut_prefix_append by simp
  show ?thesis
  proof (cases k)
    case RefOutput
    then show ?thesis
      unfolding match_ref_def r by (simp only: option.case kind_name_def ref_kind.case cut_prefix_append m option.map)
  next
    case RefParams
    then show ?thesis
      unfolding match_ref_def r
      by (simp only: option.case kind_name_def ref_kind.case cut_prefix_append out m option.map)
  qed
qed

lemma first_sep_unique:
  "c \<notin> set x \<Longrightarrow> c \<notin> set y \<Longrightarrow> x @ c # r = y @ c # s \<longleftrightarrow> x = y \<and> r = s"
proof (induction x arbitrary: y)
  case Nil
  then show ?case by (cases y) auto
next
  case (Cons a x)
  then show ?case by (cases y) auto
qed

lemma find_ref_text:
  "find_ref m = Some (k, f) \<Longrightarrow> \<exists>u v. m = u @ ref_text k f @ v \<and> field_ok f"
proof (induction m)
  case (Cons c s)
  show ?case
  proof (cases "match_ref (c # s)")
    case None
    with Cons have "\<exists>u v. s = u @ ref_text k f @ v \<and> field_ok f" by simp
    then show ?thesis by (metis append_Cons)
  next
    case (Some p)
    with Cons.prems obtain r where "match_ref (c # s) = Some (k, f, r)"
      by (cases p) auto
    then show ?thesis by (metis append_Nil match_ref_text)
  qed
qed simp

lemma find_ref_skip:
  "(\<And>w. w \<noteq> [] \<Longrightarrow> \<exists>z. u = z @ w \<Longrightarrow> match_ref (w @ s) = None) \<Longrightarrow> find_ref (u @ s) = find_ref s"
proof (induction u)
  case (Cons c u)
  from Cons.prems [of "c # u"] have "match_ref (c # u @ s) = None" by auto
  moreover have "find_ref (u @ s) = find_ref s"
  proof (rule Cons.IH)
    fix w assume "w \<noteq> []" "\<exists>z. u = z @ w"
    then show "match_ref (w @ s) = None" using Cons.prems [of w] by (metis append_Cons)
  qed
  ultimately show ?case by simp
qed simp

text \<open>A match ends at the first closing brace and holds no second dollar sign.\<close>

lemma match_ref_blocked:
  assumes "CHR ''}'' \<notin> set w" "w \<noteq> []"
  shows "match_ref (w @ CHR ''$'' # s) = None"
proof (rule ccontr)
  assume "match_ref (w @ CHR ''$'' # s) \<noteq> None"
  then obtain k f r where m: "match_ref (w @ CHR ''$'' # s) = Some (k, f, r)" by auto
  then have f: "field_ok f" and eq: "w @ CHR ''$'' # s = ref_text k f @ r"
    using match_ref_text by blast+
  from f obtain x where x: "ref_text k f = CHR ''$'' # x @ ''}''" "CHR ''}'' \<notin> set x" "CHR ''$'' \<notin> set x"
    by (rule ref_text_body)
  obtain c w' where w: "w = c # w'" using assms(2) by (cases w) auto
  from eq x(1) w have "w' @ CHR ''$'' # s = x @ CHR ''}'' # r" by simp
  moreover have "CHR ''}'' \<notin> set w'" using assms(1) w by simp
  ultimately have "CHR ''$'' \<in> set x \<or> (CHR ''}'' :: char) = CHR ''$''"
  proof (induction w' arbitrary: x)
    case Nil
    then show ?case by (cases x) auto
  next
    case (Cons a w')
    then show ?case by (cases x) auto
  qed
  with x(3) show False by simp
qed

lemma match_attempt_shape:
  "match_attempt s = Some (m, r) \<Longrightarrow> \<exists>w. m = input_mark @ w @ ''}'' \<and> CHR ''}'' \<notin> set w"
  by (auto simp: match_attempt_def split: option.splits list.splits dest: set_takeWhileD)

lemma find_attempts_shape:
  "m \<in> set (find_attempts s) \<Longrightarrow> \<exists>w. m = input_mark @ w @ ''}'' \<and> CHR ''}'' \<notin> set w"
proof (induction s rule: find_attempts.induct)
  case (1 s)
  show ?case
  proof (cases "match_attempt s")
    case None
    show ?thesis
    proof (cases s)
      case Nil
      with "1.prems" None show ?thesis by (simp add: find_attempts.simps)
    next
      case (Cons c t)
      with "1.prems" None have "m \<in> set (find_attempts t)"
        by (subst (asm) find_attempts.simps) simp
      with "1.IH"(1) [OF None Cons] show ?thesis .
    qed
  next
    case (Some p)
    obtain m' r where p: "p = (m', r)" by (cases p)
    with "1.prems" Some have "m = m' \<or> m \<in> set (find_attempts r)"
      by (subst (asm) find_attempts.simps) simp
    with "1.IH"(2) [OF Some p [symmetric]] match_attempt_shape [of s m' r] Some p show ?thesis by auto
  qed
qed

lemma check_attempt_exact:
  assumes m: "m = input_mark @ w @ ''}''" "CHR ''}'' \<notin> set w" and one: "\<not> contains_sub input_mark (tl m)"
  shows "check_attempt m = None \<longleftrightarrow> (\<exists>k f. m = ref_text k f \<and> field_ok f \<and> \<not> (k = RefParams \<and> f = []))"
proof -
  have exact: "m = ref_text k f \<and> field_ok f" if "find_ref m = Some (k, f)" for k f
  proof -
    from find_ref_text [OF that] obtain u v where uv: "m = u @ ref_text k f @ v" "field_ok f" by blast
    have "u = []"
    proof (rule ccontr)
      assume "u \<noteq> []"
      with uv have "tl m = tl u @ input_mark @ (kind_name k @ (if f = [] then [] else CHR ''.'' # f) @ ''}'' @ v)"
        by (cases u) (simp_all add: ref_text_def)
      with one show False by (metis contains_sub_iff)
    qed
    moreover obtain x where x: "ref_text k f = CHR ''$'' # x @ ''}''" "CHR ''}'' \<notin> set x"
      using uv(2) by (rule ref_text_body)
    ultimately have "(tl input_mark @ w) @ CHR ''}'' # [] = x @ CHR ''}'' # v"
      using uv m by (simp add: input_mark_def)
    moreover have "CHR ''}'' \<notin> set (tl input_mark @ w)"
      using m(2) by (simp add: input_mark_def)
    ultimately have "v = []"
      using x(2) first_sep_unique by metis
    with uv \<open>u = []\<close> show ?thesis by simp
  qed
  have "find_ref (ref_text k f) = Some (k, f)" if "field_ok f" for k f
  proof -
    have "ref_text k f \<noteq> []" by (simp add: ref_text_def)
    then obtain c t where ct: "ref_text k f = c # t" by (cases "ref_text k f") auto
    with match_ref_complete [OF that, of k "[]"] show ?thesis by simp
  qed
  then have complete: "find_ref m = Some (k, f)" if "m = ref_text k f \<and> field_ok f" for k f
    using that by blast
  show ?thesis
  proof (cases "find_ref m")
    case None
    with complete have "\<not> (\<exists>k f. m = ref_text k f \<and> field_ok f)" by auto
    with None show ?thesis by (auto simp: check_attempt_def)
  next
    case (Some p)
    obtain k f where p: "p = (k, f)" by (cases p)
    with Some complete have "k' = k \<and> f' = f" if "m = ref_text k' f' \<and> field_ok f'" for k' f'
      using that by fastforce
    with Some p exact [of k f] show ?thesis
      by (simp add: check_attempt_def) metis
  qed
qed

lemma first_error_None: "first_error g xs = None \<longleftrightarrow> (\<forall>x \<in> set xs. g x = None)"
  by (induction xs) (auto split: option.splits)

lemma find_attempts_empty: "\<not> contains_sub input_mark s \<Longrightarrow> find_attempts s = []"
proof (induction s)
  case Nil
  then show ?case by (simp add: find_attempts.simps match_attempt_def cut_prefix_def input_mark_def)
next
  case (Cons c s)
  then show ?case by (simp add: find_attempts.simps [of "c # s"] match_attempt_def cut_prefix_def)
qed

section \<open>Properties\<close>

lemma resolve_string_collect:
  "resolve_string ctx s = map_sum id concat (collect (map (substitute ctx) (segments s)))"
proof (cases "contains_sub input_mark s")
  case True
  have "resolve_string ctx s = closure_result (replace_refs ctx s None)"
    using True by (simp add: resolve_string_def closure_result_def)
  then show ?thesis by (simp add: replace_refs_collect)
next
  case False
  have none: "match_ref (u @ t) = None" if "s = w @ u @ t" for w u t
  proof (rule ccontr)
    assume "match_ref (u @ t) \<noteq> None"
    then obtain k f r where "match_ref (u @ t) = Some (k, f, r)" by auto
    then have "u @ t = ref_text k f @ r" by (simp add: match_ref_text)
    with that have "s = w @ input_mark @ (kind_name k @ (if f = [] then [] else CHR ''.'' # f) @ ''}'' @ r)"
      by (simp add: ref_text_def)
    with False show False by (metis contains_sub_iff)
  qed
  have "collect (map (substitute ctx) (segments t)) = Inr (map (\<lambda>c. [c]) t)" if "s = w @ t" for w t
    using that
  proof (induction t arbitrary: w)
    case Nil
    then show ?case by (simp add: segments_unfold)
  next
    case (Cons c t)
    with Cons.IH [of "w @ [c]"] none [of w "[c]" t] show ?case by (simp add: segments_unfold)
  qed
  from this [of "[]" s] False show ?thesis by (simp add: resolve_string_def concat_map_singleton)
qed

lemma resolve_token_non_empty: "resolve_token ctx k f = Inr v \<Longrightarrow> v \<noteq> []"
  by (auto simp: resolve_token_def non_empty_def split: ref_kind.splits if_splits json.splits option.splits)

lemma collect_Inr_iff: "collect xs = Inr ys \<longleftrightarrow> xs = map Inr ys"
proof (induction xs arbitrary: ys rule: collect.induct)
  case (3 x xs)
  then show ?case by (cases "collect xs") (auto simp: Cons_eq_map_conv)
qed auto

text \<open>Resolution substitutes every reference exactly once. A string splits, losing nothing, into
  literal bytes and references; its resolution is the concatenation of the literal bytes and
  the values of the references, and fails if and only if some reference has no value. The
  values are never scanned again, so a value that looks like a reference is passed on as it
  is, and no reference is ever replaced by the empty string.\<close>

lemma resolver_substitutes_once:
  "concat (map segment_text (segments s)) = s \<and>
   (case resolve_string ctx s of
      Inr out \<Rightarrow> \<exists>vs. map (substitute ctx) (segments s) = map Inr vs \<and> out = concat vs \<and> [] \<notin> set vs
    | Inl e \<Rightarrow> Inl e \<in> set (map (substitute ctx) (segments s)))"
proof -
  have "[] \<notin> set vs" if "map (substitute ctx) sg = map Inr vs" for vs sg
    using that
  proof (induction sg arbitrary: vs)
    case (Cons x sg)
    then show ?case by (cases x) (auto simp: Cons_eq_map_conv dest: resolve_token_non_empty)
  qed simp
  moreover have "Inl e \<in> set xs" if "collect xs = Inl e" for e and xs :: "(input_unavailable + string) list"
    using that
  proof (induction xs rule: collect.induct)
    case (3 x xs)
    then show ?case by (cases "collect xs") auto
  qed auto
  ultimately show ?thesis
  proof (cases "collect (map (substitute ctx) (segments s))")
    case (Inl e)
    with \<open>\<And>xs e. collect xs = Inl e \<Longrightarrow> Inl e \<in> set xs\<close> [OF Inl] show ?thesis
      by (simp add: resolve_string_collect segments_text)
  next
    case (Inr vs)
    then have vs: "map (substitute ctx) (segments s) = map Inr vs"
      by (simp add: collect_Inr_iff)
    with \<open>\<And>sg vs. map (substitute ctx) sg = map Inr vs \<Longrightarrow> [] \<notin> set vs\<close> [OF vs] Inr show ?thesis
      by (auto simp: resolve_string_collect segments_text)
  qed
qed

text \<open>The registration-time gate, where it is exact. Take any parameter in which no interpolation
  attempt opens inside another one. It passes if and only if each of its attempts, from the
  opening mark to the first closing brace, is one of the three documented references, with a
  field for \<open>params\<close>. Fields may hold dots and hyphens.\<close>

lemma gate_accepts_exactly_references:
  "(\<forall>m \<in> set (find_attempts s). \<not> contains_sub input_mark (tl m)) \<longrightarrow>
   (validate_input_refs s = None \<longleftrightarrow>
     (\<forall>m \<in> set (find_attempts s).
        \<exists>k f. m = ref_text k f \<and> field_ok f \<and> \<not> (k = RefParams \<and> f = [])))"
proof
  assume one: "\<forall>m \<in> set (find_attempts s). \<not> contains_sub input_mark (tl m)"
  have "validate_input_refs s = None \<longleftrightarrow> (\<forall>m \<in> set (find_attempts s). check_attempt m = None)"
    by (cases "contains_sub input_mark s")
      (simp_all add: validate_input_refs_def first_error_None find_attempts_empty)
  also have "\<dots> \<longleftrightarrow> (\<forall>m \<in> set (find_attempts s).
      \<exists>k f. m = ref_text k f \<and> field_ok f \<and> \<not> (k = RefParams \<and> f = []))"
    using one find_attempts_shape check_attempt_exact by (intro ball_cong) (auto, metis+)
  finally show "validate_input_refs s = None \<longleftrightarrow> (\<forall>m \<in> set (find_attempts s).
      \<exists>k f. m = ref_text k f \<and> field_ok f \<and> \<not> (k = RefParams \<and> f = []))" .
qed

lemma gate_accepts_exactly_references_witness:
  "validate_input_refs ''a-${input.output.db.host}'' = None \<and>
   validate_input_refs ''a-${input.secrets}'' \<noteq> None"
proof -
  have e1: "find_attempts ''a-${input.output.db.host}'' = [''${input.output.db.host}'']"
    by (simp add: find_attempts.simps match_attempt_def cut_prefix_def input_mark_def)
  have e2: "find_attempts ''a-${input.secrets}'' = [''${input.secrets}'']"
    by (simp add: find_attempts.simps match_attempt_def cut_prefix_def input_mark_def)
  have one: "\<not> contains_sub input_mark (tl ''${input.output.db.host}'')"
    "\<not> contains_sub input_mark (tl ''${input.secrets}'')"
    by (simp_all add: input_mark_def)
  have r1: "''${input.output.db.host}'' = ref_text RefOutput ''db.host'' \<and> field_ok ''db.host'' \<and>
      \<not> (RefOutput = RefParams \<and> ''db.host'' = [])"
    by (simp add: ref_text_def input_mark_def kind_name_def field_ok_def ident_start_def ident_char_def
        is_letter_def char_between_def)
  have r2: "\<not> (\<exists>k f. ''${input.secrets}'' = ref_text k f \<and> field_ok f \<and> \<not> (k = RefParams \<and> f = []))"
    by (simp add: ref_text_def input_mark_def kind_name_def split: ref_kind.splits)
  have "validate_input_refs ''a-${input.output.db.host}'' = None"
    using gate_accepts_exactly_references [of "''a-${input.output.db.host}''"] one(1) r1
    unfolding e1 by (metis empty_iff insert_iff list.simps(15) list.set(1))
  moreover have "validate_input_refs ''a-${input.secrets}'' \<noteq> None"
    using gate_accepts_exactly_references [of "''a-${input.secrets}''"] one(2) r2
    unfolding e2 by (metis empty_iff insert_iff list.simps(15) list.set(1))
  ultimately show ?thesis by blast
qed

text \<open>The gate misses an unknown shape that wraps a known one. Whatever text \<open>u\<close> without a closing
  brace stands between an opening mark and a well-formed reference, the parameter is accepted
  at registration; at dispatch the inner reference is replaced and the outer opening mark is
  passed downstream as literal text, which the gate exists to prevent.\<close>

lemma gate_misses_nested_shapes:
  assumes "CHR ''}'' \<notin> set u"
  shows "validate_input_refs (input_mark @ u @ ref_text RefOutput []) = None \<and>
    resolve_string \<lparr>ic_output = JStr (c # v), ic_params = None\<rparr> (input_mark @ u @ ref_text RefOutput []) =
      Inr (input_mark @ u @ c # v)"
proof -
  define w where "w = input_mark @ u"
  define t where "t = ref_text RefOutput []"
  have w: "w \<noteq> []" "CHR ''}'' \<notin> set w" using assms by (auto simp: w_def input_mark_def)
  have t: "t = CHR ''$'' # ''{input.output}''" by (simp add: t_def ref_text_def input_mark_def kind_name_def)
  have blocked: "match_ref (x @ t) = None" if "w = z @ x" "x \<noteq> []" for x z
    unfolding t by (rule match_ref_blocked) (use that w in auto)
  have tref: "match_ref t = Some (RefOutput, [], [])"
    using match_ref_complete [of "[]" RefOutput "[]"] by (simp add: t_def field_ok_def)
  have "cut_prefix input_mark (w @ t) = Some (u @ t)"
    by (simp add: w_def)
  moreover have "takeWhile (\<lambda>c. c \<noteq> CHR ''}'') (u @ t) = u @ ''${input.output''"
    "dropWhile (\<lambda>c. c \<noteq> CHR ''}'') (u @ t) = ''}''"
    using assms by (simp_all add: t) (subst takeWhile_append2 dropWhile_append2, auto)+
  ultimately have "match_attempt (w @ t) = Some (w @ t, [])"
    by (simp add: match_attempt_def w_def t)
  then have att: "find_attempts (w @ t) = [w @ t]"
    by (simp add: find_attempts.simps [of "w @ t"]) (simp add: find_attempts.simps match_attempt_def cut_prefix_def input_mark_def)
  have "find_ref (w @ t) = find_ref t"
    by (rule find_ref_skip) (metis blocked)
  also have "\<dots> = Some (RefOutput, [])"
    using tref by (simp add: t)
  finally have "validate_input_refs (w @ t) = None"
    by (simp add: validate_input_refs_def att check_attempt_def)
  moreover have "segments (x @ t) = map Byte x @ [Ref RefOutput []]" if "w = z @ x" for x z
    using that
  proof (induction x arbitrary: z)
    case Nil
    then show ?case using segments_unfold(3) [OF tref] by (simp add: segments_unfold)
  next
    case (Cons a x)
    with blocked [of z "a # x"] Cons.IH [of "z @ [a]"] show ?case by (simp add: segments_unfold)
  qed
  from this [of "[]" w] have seg: "segments (w @ t) = map Byte w @ [Ref RefOutput []]" by simp
  let ?ctx = "\<lparr>ic_output = JStr (c # v), ic_params = None\<rparr>"
  have "map (substitute ?ctx) (segments (w @ t)) = map Inr (map (\<lambda>b. [b]) w @ [c # v])"
    by (simp add: seg resolve_token_def non_empty_def)
  then have "resolve_string ?ctx (w @ t) = Inr (w @ c # v)"
    by (simp only: resolve_string_collect collect_Inr_iff [THEN iffD2]) (simp add: concat_map_singleton)
  ultimately show ?thesis by (simp add: w_def t_def)
qed

lemma gate_misses_nested_shapes_witness:
  "validate_input_refs ''${input.secrets ${input.output}'' = None \<and>
   resolve_string \<lparr>ic_output = JStr ''x'', ic_params = None\<rparr> ''${input.secrets ${input.output}'' =
     Inr ''${input.secrets x''"
  using gate_misses_nested_shapes [of "''secrets ''" "CHR ''x''" "[]"]
  by (simp add: input_mark_def ref_text_def kind_name_def)

end
