(* ===== verification/Overrides.thy ===== *)
theory Overrides
  imports TaskSpec
begin

text \<open>
  Override layers: pkg/taskset/override.go and the merging half of pkg/taskset/resolver.go.
  A layer is applied to the spec loaded from disk (\<open>apply_layer\<close>); two layers of nested task
  sets are first merged into one (\<open>merge_overrides\<close>). Specs are values here, so the deep copy
  of \<open>copySpec\<close> is the value itself.

  The dicode permissions form a preorder, in which merging is a least upper bound; the
  environment entries are a map given by a list, in which merging is the update of the map.
\<close>

section \<open>Triggers\<close>

text \<open>Which of the five shapes a trigger has; \<open>Validate\<close> wants at most one.\<close>

definition trigger_kinds :: "trigger_config \<Rightarrow> nat" where
  "trigger_kinds t = (if tc_cron t \<noteq> [] then 1 else 0) + (if tc_webhook t \<noteq> [] then 1 else 0) +
     (if tc_manual t then 1 else 0) + (if tc_chain t \<noteq> None then 1 else 0) + (if tc_daemon t then 1 else 0)"

definition patch_cron :: "trigger_patch \<Rightarrow> trigger_config \<Rightarrow> trigger_config" where
  "patch_cron p t = (case tp_cron p of None \<Rightarrow> t
     | Some c \<Rightarrow> t\<lparr>tc_cron := c, tc_webhook := [], tc_webhook_auth := AuthNone, tc_manual := False,
                   tc_chain := None, tc_daemon := False\<rparr>)"

definition patch_webhook :: "trigger_patch \<Rightarrow> trigger_config \<Rightarrow> trigger_config" where
  "patch_webhook p t = (case tp_webhook p of None \<Rightarrow> t
     | Some w \<Rightarrow> t\<lparr>tc_webhook := w, tc_cron := [], tc_manual := False, tc_chain := None, tc_daemon := False\<rparr>)"

definition patch_auth :: "trigger_patch \<Rightarrow> trigger_config \<Rightarrow> trigger_config" where
  "patch_auth p t = (case tp_auth p of None \<Rightarrow> t
     | Some b \<Rightarrow> t\<lparr>tc_webhook_auth := (if b then AuthSession else AuthNone)\<rparr>)"

definition patch_manual :: "trigger_patch \<Rightarrow> trigger_config \<Rightarrow> trigger_config" where
  "patch_manual p t = (case tp_manual p of None \<Rightarrow> t
     | Some b \<Rightarrow> t\<lparr>tc_manual := b, tc_cron := [], tc_webhook := [], tc_webhook_auth := AuthNone,
                   tc_chain := None, tc_daemon := False\<rparr>)"

definition patch_chain :: "trigger_patch \<Rightarrow> trigger_config \<Rightarrow> trigger_config" where
  "patch_chain p t = (case tp_chain p of None \<Rightarrow> t
     | Some c \<Rightarrow> t\<lparr>tc_chain := Some c, tc_cron := [], tc_webhook := [], tc_webhook_auth := AuthNone,
                   tc_manual := False, tc_daemon := False\<rparr>)"

definition patch_daemon :: "trigger_patch \<Rightarrow> trigger_config \<Rightarrow> trigger_config" where
  "patch_daemon p t = (case tp_daemon p of None \<Rightarrow> t
     | Some b \<Rightarrow> t\<lparr>tc_daemon := b, tc_cron := [], tc_webhook := [], tc_webhook_auth := AuthNone,
                   tc_manual := False, tc_chain := None\<rparr>)"

definition patch_restart :: "trigger_patch \<Rightarrow> trigger_config \<Rightarrow> trigger_config" where
  "patch_restart p t = (case tp_restart p of None \<Rightarrow> t | Some r \<Rightarrow> t\<lparr>tc_restart := r\<rparr>)"

definition apply_trigger_patch :: "trigger_patch \<Rightarrow> trigger_config \<Rightarrow> trigger_config" where
  "apply_trigger_patch p t =
     patch_restart p (patch_daemon p (patch_chain p (patch_manual p (patch_auth p
       (patch_webhook p (patch_cron p t))))))"

lemmas patch_defs = patch_cron_def patch_webhook_def patch_auth_def patch_manual_def patch_chain_def
  patch_daemon_def patch_restart_def

section \<open>Parameters\<close>

fun merge_param :: "param_override \<Rightarrow> param list \<Rightarrow> param list" where
  "merge_param po [] =
     [\<lparr>pa_name = po_name po, pa_type = [], pa_default = po_default po, pa_description = [],
       pa_required = (case po_required po of None \<Rightarrow> False | Some b \<Rightarrow> b)\<rparr>]"
| "merge_param po (p # ps) =
     (if pa_name p = po_name po
      then p\<lparr>pa_default := po_default po,
             pa_required := (case po_required po of None \<Rightarrow> pa_required p | Some b \<Rightarrow> b)\<rparr> # ps
      else p # merge_param po ps)"

definition merge_params :: "param_override list \<Rightarrow> param list \<Rightarrow> param list" where
  "merge_params pos ps = fold merge_param pos ps"

section \<open>Environment entries\<close>

text \<open>The loop of \<open>mergeEnvEntries\<close>: the index map and the output list.\<close>

definition merge_env_step ::
  "env_entry \<Rightarrow> (string \<rightharpoonup> nat) \<times> env_entry list \<Rightarrow> (string \<rightharpoonup> nat) \<times> env_entry list" where
  "merge_env_step e s =
     (case fst s (ee_name e) of
        Some i \<Rightarrow> (fst s, (snd s)[i := e])
      | None \<Rightarrow> ((fst s)(ee_name e \<mapsto> length (snd s)), snd s @ [e]))"

definition index_env :: "env_entry list \<Rightarrow> (string \<rightharpoonup> nat)" where
  "index_env es = fold (\<lambda>i m. m(ee_name (es ! i) \<mapsto> i)) [0..<length es] Map.empty"

definition merge_env_entries :: "env_entry list \<Rightarrow> env_entry list \<Rightarrow> env_entry list" where
  "merge_env_entries base overlay = snd (fold merge_env_step overlay (index_env base, base))"

section \<open>Dicode permissions\<close>

fun union_onto :: "string list \<Rightarrow> string list \<Rightarrow> string list" where
  "union_onto out [] = out"
| "union_onto out (s # ss) = union_onto (if s \<in> set out then out else out @ [s]) ss"

definition union_strings :: "string list \<Rightarrow> string list \<Rightarrow> string list" where
  "union_strings base overlay = union_onto (union_onto [] base) overlay"

definition merge_dicode :: "dicode_perms \<Rightarrow> dicode_perms \<Rightarrow> dicode_perms" where
  "merge_dicode b ov = DicodePerms
     (if dp_tasks ov \<noteq> [] then union_strings (dp_tasks b) (dp_tasks ov) else dp_tasks b)
     (if dp_mcp ov \<noteq> [] then dp_mcp ov else dp_mcp b)
     (dp_list_tasks ov \<or> dp_list_tasks b)
     (dp_get_runs ov \<or> dp_get_runs b)
     (dp_secrets_write ov \<or> dp_secrets_write b)
     (dp_secrets_has ov \<or> dp_secrets_has b)
     (dp_runs_list_expired ov \<or> dp_runs_list_expired b)
     (dp_runs_delete_input ov \<or> dp_runs_delete_input b)
     (dp_runs_pin_input ov \<or> dp_runs_pin_input b)
     (dp_runs_unpin_input ov \<or> dp_runs_unpin_input b)
     (dp_runs_list_expired_resume_state ov \<or> dp_runs_list_expired_resume_state b)
     (dp_runs_delete_resume_state ov \<or> dp_runs_delete_resume_state b)
     (dp_runs_replay ov \<or> dp_runs_replay b)
     (dp_runs_get_input ov \<or> dp_runs_get_input b)
     (dp_tasks_test ov \<or> dp_tasks_test b)
     (dp_sources_list ov \<or> dp_sources_list b)
     (dp_sources_set_dev_mode ov \<or> dp_sources_set_dev_mode b)
     (dp_git_commit_push ov \<or> dp_git_commit_push b)
     (if dp_crypto ov \<noteq> [] then union_strings (dp_crypto b) (dp_crypto ov) else dp_crypto b)
     (dp_audit_query ov \<or> dp_audit_query b)"

definition merge_dicode_perms :: "dicode_perms option \<Rightarrow> dicode_perms option \<Rightarrow> dicode_perms option" where
  "merge_dicode_perms b ov =
     (case ov of None \<Rightarrow> b | Some o' \<Rightarrow> (case b of None \<Rightarrow> Some o' | Some b' \<Rightarrow> Some (merge_dicode b' o')))"

section \<open>Layers\<close>

definition apply_layer :: "overrides \<Rightarrow> spec \<Rightarrow> spec" where
  "apply_layer ov s =
     s\<lparr>sp_name := (if ov_name ov \<noteq> [] then ov_name ov else sp_name s),
       sp_description := (if ov_description ov \<noteq> [] then ov_description ov else sp_description s),
       sp_trigger := (case ov_trigger ov of None \<Rightarrow> sp_trigger s | Some p \<Rightarrow> apply_trigger_patch p (sp_trigger s)),
       sp_params := merge_params (ov_params ov) (sp_params s),
       sp_permissions := (sp_permissions s)\<lparr>
         pm_env := (if ov_env ov \<noteq> [] then merge_env_entries (pm_env (sp_permissions s)) (ov_env ov)
                    else pm_env (sp_permissions s)),
         pm_net := (if ov_net ov \<noteq> [] then ov_net ov else pm_net (sp_permissions s)),
         pm_fs := (if ov_fs ov \<noteq> [] then ov_fs ov else pm_fs (sp_permissions s)),
         pm_dicode := merge_dicode_perms (pm_dicode (sp_permissions s)) (ov_dicode ov)\<rparr>,
       sp_timeout := (if ov_timeout ov \<noteq> 0 then ov_timeout ov else sp_timeout s),
       sp_runtime := (if ov_runtime ov \<noteq> [] then ov_runtime ov else sp_runtime s)\<rparr>"

definition apply_overrides :: "overrides option list \<Rightarrow> spec \<Rightarrow> spec" where
  "apply_overrides layers base =
     fold (\<lambda>l s. case l of None \<Rightarrow> s | Some ov \<Rightarrow> apply_layer ov s) layers base"

definition defaults_to_overrides :: "defaults option \<Rightarrow> overrides option" where
  "defaults_to_overrides d = map_option (\<lambda>d. Overrides None [] [] (df_trigger d) [] (df_env d) [] []
     (df_timeout d) (df_retry d) [] None None None) d"

definition build_override_layers ::
  "defaults option \<Rightarrow> overrides option \<Rightarrow> overrides option \<Rightarrow> overrides option list" where
  "build_override_layers set_defaults parent_entry entry =
     [defaults_to_overrides set_defaults, parent_entry, entry]"

section \<open>Merging two layers\<close>

definition filter_reserved_param_keys :: "param_override list \<Rightarrow> param_override list" where
  "filter_reserved_param_keys ps =
     (if \<exists>p \<in> set ps. is_reserved_chain_param_key (po_name p)
      then filter (\<lambda>p. \<not> is_reserved_chain_param_key (po_name p)) ps else ps)"

fun put_param_override :: "param_override \<Rightarrow> param_override list \<Rightarrow> param_override list" where
  "put_param_override p [] = [p]"
| "put_param_override p (q # qs) = (if po_name q = po_name p then p # qs else q # put_param_override p qs)"

definition merge_param_overrides :: "param_override list \<Rightarrow> param_override list \<Rightarrow> param_override list" where
  "merge_param_overrides dst src = fold put_param_override src dst"

definition strip_reserved_param_keys :: "overrides option \<Rightarrow> overrides option" where
  "strip_reserved_param_keys mo = (case mo of None \<Rightarrow> None
     | Some ov \<Rightarrow> Some (Overrides (ov_enabled ov) (ov_name ov) (ov_description ov) (ov_trigger ov)
         (filter_reserved_param_keys (ov_params ov)) (ov_env ov) (ov_net ov) (ov_fs ov) (ov_timeout ov)
         (ov_retry ov) (ov_runtime ov) (ov_dicode ov) (ov_defaults ov) (ov_entries ov)))"

definition or_else :: "'a option \<Rightarrow> 'a option \<Rightarrow> 'a option" where
  "or_else x y = (case x of None \<Rightarrow> y | Some _ \<Rightarrow> x)"

definition merge_entries ::
  "(string \<times> overrides) list option \<Rightarrow> (string \<times> overrides) list option \<Rightarrow> (string \<times> overrides) list option" where
  "merge_entries a b =
     (case a of None \<Rightarrow> b
      | Some ea \<Rightarrow>
          if ea = [] then b
          else (let eb = (case b of None \<Rightarrow> [] | Some eb \<Rightarrow> eb)
                in Some (filter (\<lambda>(k, _). k \<notin> fst ` set eb) ea @ eb)))"

definition merge_overrides :: "overrides option \<Rightarrow> overrides option \<Rightarrow> overrides option" where
  "merge_overrides ma mb =
     (case (ma, mb) of
        (None, _) \<Rightarrow> strip_reserved_param_keys mb
      | (Some a, None) \<Rightarrow> strip_reserved_param_keys ma
      | (Some a, Some b) \<Rightarrow> Some (Overrides
          (or_else (ov_enabled b) (ov_enabled a))
          (if ov_name b = [] then ov_name a else ov_name b)
          (if ov_description b = [] then ov_description a else ov_description b)
          (or_else (ov_trigger b) (ov_trigger a))
          (filter_reserved_param_keys
            (if ov_params a \<noteq> [] then merge_param_overrides (ov_params a) (ov_params b) else ov_params b))
          (if ov_env a \<noteq> [] \<or> ov_env b \<noteq> [] then merge_env_entries (ov_env a) (ov_env b) else ov_env b)
          (if ov_net b = [] then ov_net a else ov_net b)
          (if ov_fs b = [] then ov_fs a else ov_fs b)
          (if ov_timeout b = 0 then ov_timeout a else ov_timeout b)
          (or_else (ov_retry b) (ov_retry a))
          (if ov_runtime b = [] then ov_runtime a else ov_runtime b)
          (or_else (ov_dicode b) (ov_dicode a))
          (or_else (ov_defaults b) (ov_defaults a))
          (merge_entries (ov_entries a) (ov_entries b))))"

section \<open>Lists updated by key\<close>

text \<open>
  The contract the three merge loops share: putting one item changes the entry of its key, to
  a value that may depend on the old one, and no other entry.
\<close>

locale keyed_list =
  fixes find_entry :: "'s \<Rightarrow> string \<Rightarrow> 'a option"
    and put :: "'b \<Rightarrow> 's \<Rightarrow> 's"
    and key :: "'b \<Rightarrow> string"
    and upd :: "'b \<Rightarrow> 'a option \<Rightarrow> 'a"
  assumes ok_put: "find_entry (put y xs) k = (if k = key y then Some (upd y (find_entry xs k)) else find_entry xs k)"
begin

lemma find_fold:
  "find_entry (fold put ys xs) k = fold (\<lambda>y r. if key y = k then Some (upd y r) else r) ys (find_entry xs k)"
  by (induction ys arbitrary: xs) (simp_all add: ok_put)

lemma find_fold_other: "k \<notin> key ` set ys \<Longrightarrow> find_entry (fold put ys xs) k = find_entry xs k"
  by (induction ys arbitrary: xs) (auto simp: ok_put)

lemma find_fold_put:
  "find_entry (fold put (ys @ y # zs) xs) (key y) = Some (upd y (find_entry (fold put ys xs) (key y)))"
  if "key y \<notin> key ` set zs"
  using that find_fold_other [of "key y" zs "put y (fold put ys xs)"] by (simp add: ok_put)

end

subsection \<open>Environment entries\<close>

fun put_env :: "env_entry \<Rightarrow> env_entry list \<Rightarrow> env_entry list" where
  "put_env e [] = [e]"
| "put_env e (x # xs) =
     (if ee_name x = ee_name e \<and> ee_name e \<notin> ee_name ` set xs then e # xs else x # put_env e xs)"

text \<open>The entry that counts is the last one of the name.\<close>

fun env_lookup :: "env_entry list \<Rightarrow> string \<Rightarrow> env_entry option" where
  "env_lookup [] n = None"
| "env_lookup (x # xs) n =
     (case env_lookup xs n of Some e \<Rightarrow> Some e | None \<Rightarrow> if ee_name x = n then Some x else None)"

lemma last_index_snoc: "last_index c (xs @ [x]) = (if x = c then Some (length xs) else last_index c xs)"
  by (induction xs) (auto split: option.splits)

lemma last_index_None: "last_index c xs = None \<longleftrightarrow> c \<notin> set xs"
  by (induction xs) (auto split: option.splits)

lemma index_env_snoc: "index_env (es @ [e]) = (index_env es)(ee_name e \<mapsto> length es)"
proof -
  have "fold (\<lambda>i m. m(ee_name ((es @ [e]) ! i) \<mapsto> i)) [0..<length es] Map.empty = index_env es"
    unfolding index_env_def by (rule fold_cong) (auto simp: nth_append)
  then show ?thesis by (simp add: index_env_def)
qed

lemma index_env_last: "index_env es n = last_index n (map ee_name es)"
proof (induction es rule: rev_induct)
  case Nil
  then show ?case by (simp add: index_env_def)
next
  case (snoc e es)
  then show ?case by (simp add: index_env_snoc last_index_snoc)
qed

lemma put_env_update:
  "put_env e es = (case last_index (ee_name e) (map ee_name es) of Some i \<Rightarrow> es[i := e] | None \<Rightarrow> es @ [e])"
proof (induction es)
  case Nil
  then show ?case by simp
next
  case (Cons x xs)
  have "ee_name e \<notin> ee_name ` set xs \<longleftrightarrow> last_index (ee_name e) (map ee_name xs) = None"
    by (simp add: last_index_None)
  with Cons show ?case by (cases "last_index (ee_name e) (map ee_name xs)") auto
qed

lemma put_env_names:
  "map ee_name (put_env e es) =
     (if ee_name e \<in> ee_name ` set es then map ee_name es else map ee_name es @ [ee_name e])"
  by (induction es) auto

lemma merge_env_step_put: "merge_env_step e (index_env out, out) = (index_env (put_env e out), put_env e out)"
proof (cases "last_index (ee_name e) (map ee_name out)")
  case None
  then show ?thesis
    by (simp add: merge_env_step_def index_env_last put_env_update index_env_snoc)
next
  case (Some i)
  then have "ee_name e \<in> ee_name ` set out"
    using last_index_None [of "ee_name e" "map ee_name out"] by auto
  then have "index_env (put_env e out) = index_env out"
    by (auto simp: index_env_last put_env_names)
  with Some show ?thesis
    by (simp add: merge_env_step_def index_env_last put_env_update)
qed

lemma merge_env_fold: "merge_env_entries base ov = fold put_env ov base"
proof -
  have "fold merge_env_step ov (index_env base, base) = (index_env (fold put_env ov base), fold put_env ov base)"
    by (induction ov arbitrary: base) (simp_all add: merge_env_step_put)
  then show ?thesis by (simp add: merge_env_entries_def)
qed

lemma env_lookup_None: "env_lookup es n = None \<longleftrightarrow> n \<notin> ee_name ` set es"
  by (induction es) (auto split: option.splits)

lemma env_lookup_put: "env_lookup (put_env e es) k = (if k = ee_name e then Some e else env_lookup es k)"
proof (induction es)
  case Nil
  then show ?case by simp
next
  case (Cons x xs)
  show ?case
  proof (cases "ee_name e \<in> ee_name ` set xs")
    case True
    with Cons show ?thesis by simp
  next
    case False
    with Cons env_lookup_None [of xs "ee_name e"] show ?thesis by simp
  qed
qed

interpretation env_map: keyed_list env_lookup put_env ee_name "\<lambda>e _. e"
  by unfold_locales (simp add: env_lookup_put)

subsection \<open>Parameters\<close>

definition param_lookup :: "param list \<Rightarrow> string \<Rightarrow> param option" where
  "param_lookup ps n = find (\<lambda>p. pa_name p = n) ps"

definition patch_param :: "param_override \<Rightarrow> param option \<Rightarrow> param" where
  "patch_param po old = (case old of
      None \<Rightarrow> \<lparr>pa_name = po_name po, pa_type = [], pa_default = po_default po, pa_description = [],
               pa_required = (case po_required po of None \<Rightarrow> False | Some b \<Rightarrow> b)\<rparr>
    | Some p \<Rightarrow> p\<lparr>pa_default := po_default po,
                 pa_required := (case po_required po of None \<Rightarrow> pa_required p | Some b \<Rightarrow> b)\<rparr>)"

interpretation param_map: keyed_list param_lookup merge_param po_name patch_param
proof
  fix po ps k
  show "param_lookup (merge_param po ps) k =
      (if k = po_name po then Some (patch_param po (param_lookup ps k)) else param_lookup ps k)"
    by (induction ps) (auto simp: param_lookup_def patch_param_def)
qed

definition override_lookup :: "param_override list \<Rightarrow> string \<Rightarrow> param_override option" where
  "override_lookup ps n = find (\<lambda>p. po_name p = n) ps"

interpretation override_map: keyed_list override_lookup put_param_override po_name "\<lambda>p _. p"
proof
  fix p qs k
  show "override_lookup (put_param_override p qs) k = (if k = po_name p then Some p else override_lookup qs k)"
    by (induction qs) (auto simp: override_lookup_def)
qed

lemma params_overlay_other: "n \<notin> po_name ` set pos \<Longrightarrow> param_lookup (merge_params pos ps) n = param_lookup ps n"
  unfolding merge_params_def by (rule param_map.find_fold_other)

lemma param_overrides_other:
  "n \<notin> po_name ` set src \<Longrightarrow> override_lookup (merge_param_overrides dst src) n = override_lookup dst n"
  unfolding merge_param_overrides_def by (rule override_map.find_fold_other)

lemma params_overlay_last_wins:
  "po_name po \<notin> po_name ` set later \<Longrightarrow>
   map_option pa_default (param_lookup (merge_params (earlier @ po # later) ps) (po_name po)) = Some (po_default po)"
  unfolding merge_params_def
  using param_map.find_fold_put [of po later earlier ps] by (simp add: patch_param_def split: option.splits)

section \<open>The order of dicode permissions\<close>

lemma set_union_onto: "set (union_onto out ss) = set out \<union> set ss"
  by (induction ss arbitrary: out) auto

lemma set_union_strings [simp]: "set (union_strings a b) = set a \<union> set b"
  by (simp add: union_strings_def set_union_onto)

lemma distinct_union_onto: "distinct out \<Longrightarrow> distinct (union_onto out ss)"
  by (induction ss arbitrary: out) auto

text \<open>The fields that are single capabilities, in the order of the struct.\<close>

definition perm_flags :: "dicode_perms \<Rightarrow> bool list" where
  "perm_flags p = [dp_list_tasks p, dp_get_runs p, dp_secrets_write p, dp_secrets_has p,
     dp_runs_list_expired p, dp_runs_delete_input p, dp_runs_pin_input p, dp_runs_unpin_input p,
     dp_runs_list_expired_resume_state p, dp_runs_delete_resume_state p, dp_runs_replay p,
     dp_runs_get_input p, dp_tasks_test p, dp_sources_list p, dp_sources_set_dev_mode p,
     dp_git_commit_push p, dp_audit_query p]"

definition flags_le :: "bool list \<Rightarrow> bool list \<Rightarrow> bool" where
  "flags_le = list_all2 (\<longrightarrow>)"

lemma flags_le_refl [simp]: "flags_le bs bs"
  by (simp add: flags_le_def list_all2_refl)

lemma flags_le_trans: "flags_le as bs \<Longrightarrow> flags_le bs cs \<Longrightarrow> flags_le as cs"
  unfolding flags_le_def by (rule list_all2_trans [of "(\<longrightarrow>)" "(\<longrightarrow>)" "(\<longrightarrow>)"]) auto

lemma flags_le_Cons [simp]: "flags_le (a # as) (b # bs) \<longleftrightarrow> (a \<longrightarrow> b) \<and> flags_le as bs"
  by (simp add: flags_le_def)

instantiation dicode_perms :: preorder
begin

definition less_eq_dicode_perms :: "dicode_perms \<Rightarrow> dicode_perms \<Rightarrow> bool" where
  "p \<le> q \<longleftrightarrow> set (dp_tasks p) \<subseteq> set (dp_tasks q) \<and> set (dp_mcp p) \<subseteq> set (dp_mcp q) \<and>
     set (dp_crypto p) \<subseteq> set (dp_crypto q) \<and> flags_le (perm_flags p) (perm_flags q)"

definition less_dicode_perms :: "dicode_perms \<Rightarrow> dicode_perms \<Rightarrow> bool" where
  "(p :: dicode_perms) < q \<longleftrightarrow> p \<le> q \<and> \<not> q \<le> p"

instance
  by standard (auto simp: less_dicode_perms_def less_eq_dicode_perms_def intro: flags_le_trans)

end

lemma flags_le_or:
  "flags_le (map2 (\<or>) os bs) cs \<longleftrightarrow> flags_le bs cs \<and> flags_le os cs" if "length bs = length os"
  using that
proof (induction bs os arbitrary: cs rule: list_induct2)
  case Nil
  then show ?case by simp
next
  case (Cons b bs q qs)
  then show ?case by (cases cs) (auto simp: flags_le_def)
qed

lemma merge_dicode_flags: "perm_flags (merge_dicode b ov) = map2 (\<or>) (perm_flags ov) (perm_flags b)"
  by (simp add: perm_flags_def merge_dicode_def)

lemma merge_dicode_le:
  "merge_dicode b ov \<le> q \<longleftrightarrow>
   set (dp_tasks b) \<subseteq> set (dp_tasks q) \<and> set (dp_crypto b) \<subseteq> set (dp_crypto q) \<and>
   flags_le (perm_flags b) (perm_flags q) \<and> (dp_mcp ov = [] \<longrightarrow> set (dp_mcp b) \<subseteq> set (dp_mcp q)) \<and> ov \<le> q"
proof -
  have "flags_le (perm_flags (merge_dicode b ov)) (perm_flags q) \<longleftrightarrow>
      flags_le (perm_flags b) (perm_flags q) \<and> flags_le (perm_flags ov) (perm_flags q)"
    unfolding merge_dicode_flags by (rule flags_le_or) (simp add: perm_flags_def)
  then show ?thesis by (auto simp: less_eq_dicode_perms_def merge_dicode_def)
qed

section \<open>Merging layers\<close>

lemma put_env_member: "ee_name e \<notin> ee_name ` set es \<Longrightarrow> put_env e es = es @ [e]"
  by (induction es) auto

lemma put_env_name_set: "ee_name ` set (put_env e es) = insert (ee_name e) (ee_name ` set es)"
  using arg_cong [OF put_env_names [of e es], of set] by auto

lemma env_lookup_snoc: "env_lookup (xs @ [x]) n = (if ee_name x = n then Some x else env_lookup xs n)"
  by (induction xs) (auto split: option.splits)

lemma put_env_append:
  "put_env e (xs @ ys) = (if ee_name e \<in> ee_name ` set ys then xs @ put_env e ys
     else if ee_name e \<in> ee_name ` set xs then put_env e xs @ ys else xs @ ys @ [e])"
  by (induction xs) (auto simp: put_env_member)

lemma put_env_same: "ee_name e = ee_name x \<Longrightarrow> put_env e (put_env x es) = put_env e es"
proof (induction es)
  case (Cons y es)
  then show ?case by (auto simp: put_env_name_set)
qed simp

lemma put_env_commute:
  assumes "ee_name e \<noteq> ee_name y" "ee_name e \<in> ee_name ` set es"
  shows "put_env e (put_env y es) = put_env y (put_env e es)"
  using assms(2)
proof (induction es)
  case Nil
  then show ?case by simp
next
  case (Cons x es)
  show ?case
  proof (cases "ee_name e \<in> ee_name ` set es")
    case True
    with Cons assms(1) show ?thesis by (auto simp: put_env_name_set)
  next
    case False
    with Cons.prems have "ee_name x = ee_name e" by auto
    with False assms(1) show ?thesis by (auto simp: put_env_name_set)
  qed
qed

lemma put_env_fold_commute:
  "ee_name e \<notin> ee_name ` set ys \<Longrightarrow> ee_name e \<in> ee_name ` set es \<Longrightarrow>
   fold put_env ys (put_env e es) = put_env e (fold put_env ys es)"
proof (induction ys arbitrary: es)
  case Nil
  then show ?case by simp
next
  case (Cons y ys)
  then have "fold put_env ys (put_env e (put_env y es)) = put_env e (fold put_env ys (put_env y es))"
    by (intro Cons.IH) (auto simp: put_env_name_set)
  moreover have "put_env e (put_env y es) = put_env y (put_env e es)"
    using Cons.prems by (intro put_env_commute) auto
  ultimately show ?case by simp
qed

lemma fold_put_env_insert: "fold put_env (put_env e a) base = put_env e (fold put_env a base)"
proof (cases "ee_name e \<in> ee_name ` set a")
  case False
  then show ?thesis by (simp add: put_env_member)
next
  case True
  then obtain p x q where a: "a = p @ x # q" "ee_name x = ee_name e" "ee_name e \<notin> ee_name ` set q"
    using split_list_last_prop [of a "\<lambda>x. ee_name x = ee_name e"] by fastforce
  let ?o = "put_env x (fold put_env p base)"
  have mem: "ee_name e \<in> ee_name ` set ?o"
    using a(2) by (simp add: put_env_name_set)
  have "put_env e a = p @ e # q"
    using a by (simp add: put_env_append)
  then have "fold put_env (put_env e a) base = fold put_env q (put_env e ?o)"
    using put_env_same [of e x] a(2) by simp
  also have "\<dots> = put_env e (fold put_env q ?o)" by (rule put_env_fold_commute [OF a(3) mem])
  finally show ?thesis by (simp add: a(1))
qed

lemma merge_env_assoc:
  "merge_env_entries base (merge_env_entries a b) = merge_env_entries (merge_env_entries base a) b"
  unfolding merge_env_fold
  by (induction b arbitrary: a rule: rev_induct) (simp_all add: fold_put_env_insert)

lemma merge_env_Nil [simp]: "merge_env_entries base [] = base"
  by (simp add: merge_env_fold)

lemma put_env_not_Nil [simp]: "put_env e es \<noteq> []"
  by (cases es) auto

lemma fold_put_env_Nil: "fold put_env b a = [] \<longleftrightarrow> a = [] \<and> b = []"
  by (induction b arbitrary: a) auto

lemma filter_reserved: "filter_reserved_param_keys ps = filter (\<lambda>p. \<not> is_reserved_chain_param_key (po_name p)) ps"
  by (auto simp: filter_reserved_param_keys_def filter_id_conv)

lemma patch_cron_kinds: "trigger_kinds (patch_cron p t) \<le> (if tp_cron p = None then trigger_kinds t else 1)"
  by (cases "tp_cron p") (simp_all add: patch_cron_def trigger_kinds_def)

lemma patch_webhook_kinds: "trigger_kinds (patch_webhook p t) \<le> (if tp_webhook p = None then trigger_kinds t else 1)"
  by (cases "tp_webhook p") (simp_all add: patch_webhook_def trigger_kinds_def)

lemma patch_manual_kinds: "trigger_kinds (patch_manual p t) \<le> (if tp_manual p = None then trigger_kinds t else 1)"
  by (cases "tp_manual p") (simp_all add: patch_manual_def trigger_kinds_def)

lemma patch_chain_kinds: "trigger_kinds (patch_chain p t) \<le> (if tp_chain p = None then trigger_kinds t else 1)"
  by (cases "tp_chain p") (simp_all add: patch_chain_def trigger_kinds_def)

lemma patch_daemon_kinds: "trigger_kinds (patch_daemon p t) \<le> (if tp_daemon p = None then trigger_kinds t else 1)"
  by (cases "tp_daemon p") (simp_all add: patch_daemon_def trigger_kinds_def)

lemma patch_other_kinds: "trigger_kinds (patch_auth p t) = trigger_kinds t"
  "trigger_kinds (patch_restart p t) = trigger_kinds t"
  by (cases "tp_auth p"; simp add: patch_auth_def trigger_kinds_def)
    (cases "tp_restart p"; simp add: patch_restart_def trigger_kinds_def)

lemma apply_trigger_patch_kinds:
  assumes "trigger_kinds t \<le> 1 \<or> tp_cron p \<noteq> None \<or> tp_webhook p \<noteq> None \<or> tp_manual p \<noteq> None \<or>
      tp_chain p \<noteq> None \<or> tp_daemon p \<noteq> None"
  shows "trigger_kinds (apply_trigger_patch p t) \<le> 1"
proof -
  let ?a = "patch_cron p t"
  let ?b = "patch_webhook p ?a"
  let ?c = "patch_auth p ?b"
  let ?d = "patch_manual p ?c"
  let ?e = "patch_chain p ?d"
  have "trigger_kinds (apply_trigger_patch p t) = trigger_kinds (patch_daemon p ?e)"
    by (simp add: apply_trigger_patch_def patch_other_kinds)
  moreover note patch_cron_kinds [of p t] patch_webhook_kinds [of p ?a] patch_other_kinds(1) [of p ?b]
    patch_manual_kinds [of p ?c] patch_chain_kinds [of p ?d] patch_daemon_kinds [of p ?e]
  ultimately show ?thesis using assms by (auto split: if_splits)
qed

lemma apply_layer_fields:
  "sp_name (apply_layer ov s) = (if ov_name ov \<noteq> [] then ov_name ov else sp_name s)"
  "sp_description (apply_layer ov s) = (if ov_description ov \<noteq> [] then ov_description ov else sp_description s)"
  "sp_trigger (apply_layer ov s) =
     (case ov_trigger ov of None \<Rightarrow> sp_trigger s | Some p \<Rightarrow> apply_trigger_patch p (sp_trigger s))"
  "sp_params (apply_layer ov s) = merge_params (ov_params ov) (sp_params s)"
  "pm_env (sp_permissions (apply_layer ov s)) = merge_env_entries (pm_env (sp_permissions s)) (ov_env ov)"
  "pm_net (sp_permissions (apply_layer ov s)) = (if ov_net ov \<noteq> [] then ov_net ov else pm_net (sp_permissions s))"
  "pm_fs (sp_permissions (apply_layer ov s)) = (if ov_fs ov \<noteq> [] then ov_fs ov else pm_fs (sp_permissions s))"
  "pm_dicode (sp_permissions (apply_layer ov s)) = merge_dicode_perms (pm_dicode (sp_permissions s)) (ov_dicode ov)"
  "sp_timeout (apply_layer ov s) = (if ov_timeout ov \<noteq> 0 then ov_timeout ov else sp_timeout s)"
  "sp_runtime (apply_layer ov s) = (if ov_runtime ov \<noteq> [] then ov_runtime ov else sp_runtime s)"
  by (simp_all add: apply_layer_def)

section \<open>Properties\<close>

text \<open>Patching a trigger keeps it in one shape: a trigger of at most one shape has at most one
  after any patch, and a patch that names a shape leaves at most one whatever was there. A
  shape other than a webhook never keeps webhook authentication from before: unless the
  patch itself sets it, authentication is public.\<close>

lemma trigger_patch_single_shape:
  "(trigger_kinds t \<le> 1 \<longrightarrow> trigger_kinds (apply_trigger_patch p t) \<le> 1) \<and>
   (tp_cron p \<noteq> None \<or> tp_webhook p \<noteq> None \<or> tp_manual p \<noteq> None \<or> tp_chain p \<noteq> None \<or> tp_daemon p \<noteq> None
      \<longrightarrow> trigger_kinds (apply_trigger_patch p t) \<le> 1) \<and>
   (tp_manual p \<noteq> None \<or> tp_chain p \<noteq> None \<or> tp_daemon p \<noteq> None \<or>
      tp_cron p \<noteq> None \<and> (tp_auth p = None \<or> tp_auth p = Some False)
      \<longrightarrow> tc_webhook_auth (apply_trigger_patch p t) = AuthNone) \<and>
   (tp_webhook p = None \<and> (tp_cron p \<noteq> None \<or> tp_manual p \<noteq> None \<or> tp_chain p \<noteq> None \<or> tp_daemon p \<noteq> None)
      \<longrightarrow> tc_webhook (apply_trigger_patch p t) = [])"
proof -
  have "tp_manual p \<noteq> None \<or> tp_chain p \<noteq> None \<or> tp_daemon p \<noteq> None \<or>
      tp_cron p \<noteq> None \<and> (tp_auth p = None \<or> tp_auth p = Some False)
      \<longrightarrow> tc_webhook_auth (apply_trigger_patch p t) = AuthNone"
    by (auto simp: apply_trigger_patch_def patch_defs split: option.splits)
  moreover have "tp_webhook p = None \<and> (tp_cron p \<noteq> None \<or> tp_manual p \<noteq> None \<or> tp_chain p \<noteq> None \<or> tp_daemon p \<noteq> None)
      \<longrightarrow> tc_webhook (apply_trigger_patch p t) = []"
    by (auto simp: apply_trigger_patch_def patch_defs split: option.splits)
  ultimately show ?thesis using apply_trigger_patch_kinds [of t p] by blast
qed

lemma trigger_patch_single_shape_witness:
  "trigger_kinds (apply_trigger_patch (TriggerPatch (Some ''@daily'') None None None None None None)
     (no_trigger\<lparr>tc_webhook := ''/w'', tc_webhook_auth := AuthSession\<rparr>)) \<le> 1 \<and>
   tc_webhook_auth (apply_trigger_patch (TriggerPatch (Some ''@daily'') None None None None None None)
     (no_trigger\<lparr>tc_webhook := ''/w'', tc_webhook_auth := AuthSession\<rparr>)) = AuthNone"
  using trigger_patch_single_shape [of "no_trigger\<lparr>tc_webhook := ''/w'', tc_webhook_auth := AuthSession\<rparr>"
      "TriggerPatch (Some ''@daily'') None None None None None None"]
  by simp

text \<open>Overlaying environment entries is the update of a map: under every name stands the last
  overlay entry of that name, or else what the base had; entries keep their places, new names
  are appended, and a base without duplicate names stays so.\<close>

lemma env_overlay_is_map_update:
  "env_lookup (merge_env_entries base overlay) n =
     (case env_lookup overlay n of Some e \<Rightarrow> Some e | None \<Rightarrow> env_lookup base n) \<and>
   (\<exists>new. map ee_name (merge_env_entries base overlay) = map ee_name base @ new \<and>
      set new = ee_name ` set overlay - ee_name ` set base \<and> distinct new)"
proof
  show "env_lookup (merge_env_entries base overlay) n =
     (case env_lookup overlay n of Some e \<Rightarrow> Some e | None \<Rightarrow> env_lookup base n)"
    unfolding merge_env_fold env_map.find_fold
    by (induction overlay rule: rev_induct) (simp_all add: env_lookup_snoc)
  show "\<exists>new. map ee_name (merge_env_entries base overlay) = map ee_name base @ new \<and>
      set new = ee_name ` set overlay - ee_name ` set base \<and> distinct new"
    unfolding merge_env_fold
  proof (induction overlay rule: rev_induct)
    case Nil
    then show ?case by simp
  next
    case (snoc e overlay)
    then obtain new where new: "map ee_name (fold put_env overlay base) = map ee_name base @ new"
      "set new = ee_name ` set overlay - ee_name ` set base" "distinct new" by blast
    let ?out = "fold put_env overlay base"
    have mem: "ee_name e \<in> ee_name ` set ?out \<longleftrightarrow> ee_name e \<in> ee_name ` set base \<union> set new"
      using arg_cong [OF new(1), of set] by auto
    show ?case
    proof (cases "ee_name e \<in> ee_name ` set ?out")
      case True
      then show ?thesis using new mem by (intro exI [of _ new]) (auto simp: put_env_names)
    next
      case False
      then show ?thesis using new mem by (intro exI [of _ "new @ [ee_name e]"]) (auto simp: put_env_names)
    qed
  qed
qed

text \<open>Merging dicode permissions gives the least set of capabilities that holds both, except that
  a non-empty list of MCP servers replaces the old one. So an override layer can never take a
  capability away: whatever it says, the task keeps every task grant, key grant and
  single capability it had.\<close>

lemma dicode_override_only_grants:
  assumes "pm_dicode (sp_permissions s) = Some b" "ov_dicode ov = Some o'"
  shows "\<exists>m. pm_dicode (sp_permissions (apply_layer ov s)) = Some m \<and> o' \<le> m \<and>
    set (dp_tasks b) \<subseteq> set (dp_tasks m) \<and> set (dp_crypto b) \<subseteq> set (dp_crypto m) \<and>
    flags_le (perm_flags b) (perm_flags m) \<and>
    (dp_mcp o' = [] \<or> set (dp_mcp b) \<subseteq> set (dp_mcp o') \<longrightarrow>
       b \<le> m \<and> (\<forall>q. b \<le> q \<and> o' \<le> q \<longleftrightarrow> m \<le> q))"
proof -
  let ?m = "merge_dicode b o'"
  have "pm_dicode (sp_permissions (apply_layer ov s)) = Some ?m"
    using assms by (simp add: apply_layer_def merge_dicode_perms_def)
  moreover have le: "?m \<le> q \<longleftrightarrow>
      set (dp_tasks b) \<subseteq> set (dp_tasks q) \<and> set (dp_crypto b) \<subseteq> set (dp_crypto q) \<and>
      flags_le (perm_flags b) (perm_flags q) \<and> (dp_mcp o' = [] \<longrightarrow> set (dp_mcp b) \<subseteq> set (dp_mcp q)) \<and> o' \<le> q" for q
    by (rule merge_dicode_le)
  moreover have "b \<le> q \<longleftrightarrow> set (dp_tasks b) \<subseteq> set (dp_tasks q) \<and> set (dp_mcp b) \<subseteq> set (dp_mcp q) \<and>
      set (dp_crypto b) \<subseteq> set (dp_crypto q) \<and> flags_le (perm_flags b) (perm_flags q)" for q
    by (simp add: less_eq_dicode_perms_def)
  moreover have "o' \<le> q \<Longrightarrow> set (dp_mcp o') \<subseteq> set (dp_mcp q)" for q
    by (simp add: less_eq_dicode_perms_def)
  moreover have "?m \<le> ?m" by simp
  ultimately show ?thesis by (smt (verit, best) order.trans)
qed

lemma dicode_override_only_grants_witness:
  "\<exists>m. pm_dicode (sp_permissions (apply_layer
       (Overrides None [] [] None [] [] [] [] 0 None [] (Some no_dicode) None None)
       (empty_spec\<lparr>sp_permissions := no_permissions\<lparr>pm_dicode := Some no_dicode\<rparr>\<rparr>))) = Some m \<and> no_dicode \<le> m"
  using dicode_override_only_grants [of "empty_spec\<lparr>sp_permissions := no_permissions\<lparr>pm_dicode := Some no_dicode\<rparr>\<rparr>"
      no_dicode "Overrides None [] [] None [] [] [] [] 0 None [] (Some no_dicode) None None" no_dicode]
  by auto

text \<open>Merging the layers of nested task sets into one and applying it gives what applying them one
  after the other gives, for the name, the description, the runtime, the timeout, the
  environment, the network and the file permissions; for the trigger if at most one of the
  layers patches it, and for the dicode permissions if at most one layer sets them. No engine key
  survives in the merged parameters.\<close>

lemma merged_layers_agree:
  assumes "merge_overrides (Some a) (Some b) = Some m"
    and "x = apply_overrides [Some a, Some b] s" "y = apply_layer m s"
  shows "sp_name y = sp_name x \<and> sp_description y = sp_description x \<and> sp_runtime y = sp_runtime x \<and>
    sp_timeout y = sp_timeout x \<and> pm_env (sp_permissions y) = pm_env (sp_permissions x) \<and>
    pm_net (sp_permissions y) = pm_net (sp_permissions x) \<and> pm_fs (sp_permissions y) = pm_fs (sp_permissions x) \<and>
    (ov_trigger a = None \<or> ov_trigger b = None \<longrightarrow> sp_trigger y = sp_trigger x) \<and>
    (ov_dicode a = None \<or> ov_dicode b = None \<longrightarrow> pm_dicode (sp_permissions y) = pm_dicode (sp_permissions x)) \<and>
    (\<forall>p \<in> set (ov_params m). \<not> is_reserved_chain_param_key (po_name p))"
proof -
  have m: "ov_name m = (if ov_name b = [] then ov_name a else ov_name b)"
    "ov_description m = (if ov_description b = [] then ov_description a else ov_description b)"
    "ov_runtime m = (if ov_runtime b = [] then ov_runtime a else ov_runtime b)"
    "ov_timeout m = (if ov_timeout b = 0 then ov_timeout a else ov_timeout b)"
    "ov_net m = (if ov_net b = [] then ov_net a else ov_net b)"
    "ov_fs m = (if ov_fs b = [] then ov_fs a else ov_fs b)"
    "ov_env m = merge_env_entries (ov_env a) (ov_env b)"
    "ov_trigger m = or_else (ov_trigger b) (ov_trigger a)" "ov_dicode m = or_else (ov_dicode b) (ov_dicode a)"
    and params: "\<forall>p \<in> set (ov_params m). \<not> is_reserved_chain_param_key (po_name p)"
    using assms(1) by (auto simp: merge_overrides_def merge_env_fold filter_reserved)
  have x: "x = apply_layer b (apply_layer a s)" using assms(2) by (simp add: apply_overrides_def)
  have "sp_trigger y = sp_trigger x" if "ov_trigger a = None \<or> ov_trigger b = None"
    using that unfolding x assms(3) apply_layer_fields m(8) by (auto simp: or_else_def split: option.splits)
  moreover have "pm_dicode (sp_permissions y) = pm_dicode (sp_permissions x)" if "ov_dicode a = None \<or> ov_dicode b = None"
    using that unfolding x assms(3) apply_layer_fields m(9)
    by (auto simp: or_else_def merge_dicode_perms_def split: option.splits)
  moreover have "pm_env (sp_permissions y) = pm_env (sp_permissions x)"
    unfolding x assms(3) apply_layer_fields m(7) merge_env_assoc ..
  moreover have "sp_name y = sp_name x" "sp_description y = sp_description x" "sp_runtime y = sp_runtime x"
    "sp_timeout y = sp_timeout x" "pm_net (sp_permissions y) = pm_net (sp_permissions x)"
    "pm_fs (sp_permissions y) = pm_fs (sp_permissions x)"
    unfolding x assms(3) apply_layer_fields m(1-6) by simp_all
  ultimately show ?thesis using params by blast
qed

definition ex_webhook_layer :: overrides where
  "ex_webhook_layer = Overrides None [] [] (Some (TriggerPatch None (Some ''/w'') None None None None None))
     [] [] [] [] 0 None [] None None None"

definition ex_auth_layer :: overrides where
  "ex_auth_layer = Overrides None [] [] (Some (TriggerPatch None None (Some True) None None None None))
     [] [no_env\<lparr>ee_name := ''A''\<rparr>] [] [] 0 None [] None None None"

lemma merged_layers_agree_witness:
  "\<exists>m. merge_overrides (Some ex_webhook_layer) (Some ex_auth_layer) = Some m \<and>
     pm_env (sp_permissions (apply_layer m empty_spec)) =
       pm_env (sp_permissions (apply_overrides [Some ex_webhook_layer, Some ex_auth_layer] empty_spec))"
proof -
  obtain m where "merge_overrides (Some ex_webhook_layer) (Some ex_auth_layer) = Some m"
    by (simp add: merge_overrides_def)
  with merged_layers_agree [OF this refl refl, of empty_spec] show ?thesis by blast
qed

text \<open>The trigger is where merging and layering part: a parent layer that makes a nested task a
  webhook and an entry layer that asks for session authentication give an authenticated webhook
  when applied in turn, but merged the entry's patch replaces the parent's whole, and
  the webhook is lost.\<close>

lemma merged_trigger_patch_is_lost:
  "\<exists>m. merge_overrides (Some ex_webhook_layer) (Some ex_auth_layer) = Some m \<and>
     tc_webhook (sp_trigger (apply_overrides [Some ex_webhook_layer, Some ex_auth_layer] s)) = ''/w'' \<and>
     tc_webhook_auth (sp_trigger (apply_overrides [Some ex_webhook_layer, Some ex_auth_layer] s)) = AuthSession \<and>
     tc_webhook (sp_trigger (apply_layer m s)) = tc_webhook (sp_trigger s) \<and>
     trigger_kinds (sp_trigger (apply_layer m s)) = trigger_kinds (sp_trigger s)"
  by (simp add: merge_overrides_def ex_webhook_layer_def ex_auth_layer_def apply_overrides_def apply_layer_def
      apply_trigger_patch_def patch_defs or_else_def trigger_kinds_def)

end
