(* ===== verification/SpecValidate.thy ===== *)
theory SpecValidate
  imports Overrides InputRef
begin

text \<open>
  Load-time validation: \<open>Spec.validate\<close> and its helpers in pkg/task/spec.go, the override
  allowlists of overrides.go, \<open>OnFailureChainSpec.Validate\<close> and \<open>ValidateAtDefaults\<close> of
  onfailurechain.go and \<open>MissingRequiredParams\<close> of params.go. Errors and warnings are values;
  the text the source formats for them is not kept. A map of parameters is checked in the
  order of its list, so which of several errors is reported is that order's, as Go's is the
  order of its map iteration.
\<close>

section \<open>Lexical paths\<close>

text \<open>\<open>filepath.Clean\<close> on a slash-separated path: the segments that remain, those kept so far
  held in reverse. A parent segment removes the last kept segment, is dropped at the root, and
  is kept where only parent segments come before it.\<close>

fun clean_onto :: "bool \<Rightarrow> string list \<Rightarrow> string list \<Rightarrow> string list" where
  "clean_onto rooted kept [] = rev kept"
| "clean_onto rooted kept (g # gs) =
     (if g = [] \<or> g = ''.'' then clean_onto rooted kept gs
      else if g = ''..'' then
        (case kept of
           [] \<Rightarrow> if rooted then clean_onto rooted [] gs else clean_onto rooted [''..''] gs
         | k # ks \<Rightarrow> if k = ''..'' then clean_onto rooted (''..'' # kept) gs else clean_onto rooted ks gs)
      else clean_onto rooted (g # kept) gs)"

definition is_abs :: "path \<Rightarrow> bool" where
  "is_abs p = has_prefix ''/'' p"

definition clean_path :: "path \<Rightarrow> path" where
  "clean_path p =
     (let gs = clean_onto (is_abs p) [] (split_on CHR ''/'' p);
          q = join_with ''/'' gs
      in if is_abs p then CHR ''/'' # q else if gs = [] then ''.'' else q)"

definition leading_parents :: "string list \<Rightarrow> nat" where
  "leading_parents gs = length (takeWhile (\<lambda>g. g = ''..'') gs)"

definition hash_include_in_bounds :: "path \<Rightarrow> bool" where
  "hash_include_in_bounds p =
     (let c = clean_path p in
      if c = ''..'' then False else leading_parents (split_on CHR ''/'' c) \<le> 1)"

section \<open>Errors and warnings\<close>

datatype spec_error =
    NameRequired
  | EnvStar
  | NavLabelRequired
  | HashIncludeEmpty
  | HashIncludeAbsolute path
  | HashIncludeOutOfBounds path
  | AnyNeedsSecret
  | BadRestart
  | ChainFromRequired
  | BadChainOn
  | ReservedKey string
  | BadReference ref_error
  | UnsupportedField string
  | NoTrigger
  | ManyTriggers
  | DockerRequired
  | ImageOrBuildRequired
  | BadPullPolicy
  | AutonomousDefault

datatype spec_warning =
    ReplayWithoutSecret
  | TimestampWithoutSecret
  | is_UnsatisfiableParam: UnsatisfiableParam string string
  | FailureChainGlobalIgnored int
  | FailureChainStormIgnored
  | HostNetwork
  | DangerousCapability string
  | SandboxDisabled string

definition fails_if :: "bool \<Rightarrow> 'e \<Rightarrow> 'e option" where
  "fails_if b e = (if b then Some e else None)"

text \<open>A sequence of checks, of which the first that fails decides.\<close>

definition checks :: "'e option list \<Rightarrow> 'e option" where
  "checks = first_error id"

lemma checks_simps [simp]:
  "checks [] = None"
  "checks (None # cs) = checks cs"
  "checks (Some e # cs) = Some e"
  by (simp_all add: checks_def)

lemma checks_None: "checks cs = None \<longleftrightarrow> (\<forall>c \<in> set cs. c = None)"
  by (simp add: checks_def first_error_None)

lemma fails_if_None [simp]: "fails_if b e = None \<longleftrightarrow> \<not> b"
  by (simp add: fails_if_def)

section \<open>Parameters of an edge\<close>

definition check_edge_param :: "string \<times> json \<Rightarrow> spec_error option" where
  "check_edge_param kv =
     (if is_reserved_chain_param_key (fst kv) then Some (ReservedKey (fst kv))
      else (case snd kv of
              JStr s \<Rightarrow> map_option BadReference (validate_input_refs s)
            | _ \<Rightarrow> None))"

definition check_override_param :: "param_override \<Rightarrow> spec_error option" where
  "check_override_param p =
     (if is_reserved_chain_param_key (po_name p) then Some (ReservedKey (po_name p))
      else map_option BadReference (validate_input_refs (po_default p)))"

definition validate_per_edge_overrides :: "overrides option \<Rightarrow> spec_error option" where
  "validate_per_edge_overrides ov =
     (case ov of
        None \<Rightarrow> None
      | Some e \<Rightarrow> checks
          [fails_if (ov_enabled e \<noteq> None) (UnsupportedField ''enabled''),
           fails_if (ov_name e \<noteq> []) (UnsupportedField ''name''),
           fails_if (ov_description e \<noteq> []) (UnsupportedField ''description''),
           fails_if (ov_trigger e \<noteq> None) (UnsupportedField ''trigger''),
           fails_if (ov_retry e \<noteq> None) (UnsupportedField ''retry''),
           fails_if (ov_defaults e \<noteq> None) (UnsupportedField ''defaults''),
           fails_if (ov_entries e \<noteq> None) (UnsupportedField ''entries''),
           first_error check_override_param (ov_params e)])"

definition validate_pipeline_stage_overrides :: "overrides option \<Rightarrow> spec_error option" where
  "validate_pipeline_stage_overrides ov =
     (case ov of
        None \<Rightarrow> None
      | Some e \<Rightarrow> checks
          [fails_if (ov_enabled e \<noteq> None) (UnsupportedField ''enabled''),
           fails_if (ov_name e \<noteq> []) (UnsupportedField ''name''),
           fails_if (ov_description e \<noteq> []) (UnsupportedField ''description''),
           fails_if (ov_retry e \<noteq> None) (UnsupportedField ''retry''),
           fails_if (ov_defaults e \<noteq> None) (UnsupportedField ''defaults''),
           fails_if (ov_entries e \<noteq> None) (UnsupportedField ''entries''),
           first_error check_override_param (ov_params e)])"

section \<open>The failure chain\<close>

text \<open>\<open>Validate\<close> changes the struct it checks: the result holds the new value.\<close>

definition validate_failure_chain ::
  "on_failure_chain_spec \<Rightarrow> spec_error + (on_failure_chain_spec \<times> spec_warning list)" where
  "validate_failure_chain c =
     (case first_error check_edge_param (oc_params c) of
        Some e \<Rightarrow> Inl e
      | None \<Rightarrow>
          (let w1 = (if oc_max_concurrent_global c \<noteq> 0
                     then [FailureChainGlobalIgnored (oc_max_concurrent_global c)] else []);
               c1 = c\<lparr>oc_max_concurrent_global := 0\<rparr>;
               st = oc_storm c
           in if st_rate st \<noteq> 0 \<or> st_window st \<noteq> 0 \<or> st_suppress st \<noteq> 0 \<or> st_scope st \<noteq> []
              then Inr (c1\<lparr>oc_storm := no_storm\<rparr>, w1 @ [FailureChainStormIgnored])
              else Inr (c1, w1)))"

definition validate_at_defaults :: "on_failure_chain_spec \<Rightarrow> spec_error option" where
  "validate_at_defaults c =
     (case validate_failure_chain c of
        Inl e \<Rightarrow> Some e
      | Inr _ \<Rightarrow>
          (case map_of (oc_params c) ''mode'' of
             Some (JStr m) \<Rightarrow> fails_if (m = ''autonomous'') AutonomousDefault
           | _ \<Rightarrow> None))"

section \<open>Warnings\<close>

definition webhook_secret_gated_warnings :: "string \<Rightarrow> bool option \<Rightarrow> bool option \<Rightarrow> spec_warning list" where
  "webhook_secret_gated_warnings secret replay timestamp =
     (if secret \<noteq> [] then []
      else (if replay = Some True then [ReplayWithoutSecret] else []) @
           (if timestamp = Some True then [TimestampWithoutSecret] else []))"

definition missing_required_params :: "param list \<Rightarrow> (string \<rightharpoonup> string) \<Rightarrow> string list" where
  "missing_required_params declared given =
     map pa_name (filter (\<lambda>p. pa_required p \<and>
       (case given (pa_name p) of None \<Rightarrow> pa_default p | Some v \<Rightarrow> v) = []) declared)"

text \<open>\<open>ApplyParamOverridePatch\<close>, written with its inner search loop; it is meant to agree with
  \<open>mergeParams\<close> of pkg/taskset.\<close>

fun find_param :: "string \<Rightarrow> param list \<Rightarrow> nat option" where
  "find_param n [] = None"
| "find_param n (p # ps) = (if pa_name p = n then Some 0 else map_option Suc (find_param n ps))"

definition apply_param_patch :: "param_override \<Rightarrow> param list \<Rightarrow> param list" where
  "apply_param_patch po ps =
     (case find_param (po_name po) ps of
        Some i \<Rightarrow>
          (let p = (ps ! i)\<lparr>pa_default := po_default po\<rparr> in
           ps[i := (case po_required po of None \<Rightarrow> p | Some b \<Rightarrow> p\<lparr>pa_required := b\<rparr>)])
      | None \<Rightarrow>
          (let p = \<lparr>pa_name = po_name po, pa_type = [], pa_default = po_default po, pa_description = [],
                    pa_required = False\<rparr> in
           ps @ [(case po_required po of None \<Rightarrow> p | Some b \<Rightarrow> p\<lparr>pa_required := b\<rparr>)]))"

definition apply_param_override_patch :: "param list \<Rightarrow> param_override list \<Rightarrow> param list" where
  "apply_param_override_patch ps pos = fold apply_param_patch pos ps"

definition unsatisfiable_param_warnings :: "trigger_config \<Rightarrow> param list \<Rightarrow> spec_warning list" where
  "unsatisfiable_param_warnings t ps =
     (let warn = (\<lambda>kind qs. map (\<lambda>n. UnsatisfiableParam n kind) (missing_required_params qs Map.empty)) in
      if tc_cron t \<noteq> [] then warn ''cron'' ps
      else if tc_daemon t then warn ''daemon'' ps
      else case tc_chain t of
             None \<Rightarrow> []
           | Some c \<Rightarrow>
               (case ct_overrides c of
                  None \<Rightarrow> warn ''chain'' ps
                | Some e \<Rightarrow> if ov_params e = [] then warn ''chain'' ps
                            else warn ''chain'' (apply_param_override_patch ps (ov_params e))))"

definition char_upper :: "char \<Rightarrow> char" where
  "char_upper c = (let n = (of_char c :: nat) in if 97 \<le> n \<and> n \<le> 122 then char_of (n - 32) else c)"

definition to_upper :: "string \<Rightarrow> string" where
  "to_upper s = map char_upper s"

definition docker_hardening_warnings :: "docker_config \<Rightarrow> spec_warning list" where
  "docker_hardening_warnings d =
     (if dc_network_mode d = ''host'' then [HostNetwork] else []) @
     map DangerousCapability
       (filter (\<lambda>c. to_upper c \<in> {''SYS_ADMIN'', ''SYS_PTRACE'', ''SYS_MODULE'', ''ALL''}) (dc_cap_add d)) @
     map SandboxDisabled
       (filter (\<lambda>p. has_prefix ''seccomp=unconfined'' (to_lower p) \<or> has_prefix ''apparmor=unconfined'' (to_lower p) \<or>
                    to_lower p = ''label=disable'') (dc_security_opt d))"

section \<open>Spec.validate\<close>

definition check_hash_include :: "path \<Rightarrow> spec_error option" where
  "check_hash_include inc = checks
     [fails_if (inc = []) HashIncludeEmpty,
      fails_if (is_abs inc) (HashIncludeAbsolute inc),
      fails_if (\<not> hash_include_in_bounds inc) (HashIncludeOutOfBounds inc)]"

definition check_chain_trigger :: "chain_trigger \<Rightarrow> spec_error option" where
  "check_chain_trigger c = checks
     [fails_if (ct_from c = []) ChainFromRequired,
      fails_if (ct_on c \<notin> {[], ''success'', ''failure'', ''always''}) BadChainOn,
      first_error check_edge_param (ct_params c),
      validate_per_edge_overrides (ct_overrides c)]"

text \<open>The checks before the first warning is recorded.\<close>

definition spec_shape_error :: "spec \<Rightarrow> spec_error option" where
  "spec_shape_error s =
     (let t = sp_trigger s in checks
       [fails_if (sp_name s = []) NameRequired,
        fails_if (list_ex (\<lambda>e. ee_name e = ''*'') (pm_env (sp_permissions s))) EnvStar,
        (case sp_webui s of None \<Rightarrow> None | Some n \<Rightarrow> fails_if (wn_label n = []) NavLabelRequired),
        first_error check_hash_include (sp_hash_include s),
        fails_if (tc_webhook_auth t = AuthAny \<and> tc_webhook_secret t = []) AnyNeedsSecret,
        fails_if (tc_daemon t \<and> tc_restart t \<notin> {[], ''always'', ''on-failure'', ''never''}) BadRestart,
        (case tc_chain t of None \<Rightarrow> None | Some c \<Rightarrow> check_chain_trigger c),
        fails_if (trigger_kinds t = 0) NoTrigger,
        fails_if (1 < trigger_kinds t) ManyTriggers])"

definition container_error :: "spec \<Rightarrow> spec_error option" where
  "container_error s =
     (if sp_runtime s = ''docker'' \<or> sp_runtime s = ''podman'' then
        (case sp_docker s of
           None \<Rightarrow> Some DockerRequired
         | Some d \<Rightarrow> checks
             [fails_if (dc_image d = [] \<and> dc_build d = None) ImageOrBuildRequired,
              fails_if (dc_pull_policy d \<notin> {[], ''missing'', ''always'', ''never''}) BadPullPolicy])
      else None)"

definition container_warnings :: "spec \<Rightarrow> spec_warning list" where
  "container_warnings s =
     (if sp_runtime s = ''docker'' \<or> sp_runtime s = ''podman''
      then (case sp_docker s of None \<Rightarrow> [] | Some d \<Rightarrow> docker_hardening_warnings d) else [])"

definition validate_spec :: "spec \<Rightarrow> spec_error + (spec \<times> spec_warning list)" where
  "validate_spec s =
     (case spec_shape_error s of
        Some e \<Rightarrow> Inl e
      | None \<Rightarrow>
          (let t = sp_trigger s;
               w = webhook_secret_gated_warnings (tc_webhook_secret t) (tc_replay_protection t)
                     (tc_require_timestamp t) @
                   unsatisfiable_param_warnings t (sp_params s)
           in case (case sp_on_failure_chain s of
                      None \<Rightarrow> Inr (None, [])
                    | Some c \<Rightarrow> map_sum id (apfst Some) (validate_failure_chain c)) of
                Inl e \<Rightarrow> Inl e
              | Inr (c, wc) \<Rightarrow>
                  (case container_error s of
                     Some e \<Rightarrow> Inl e
                   | None \<Rightarrow> Inr (s\<lparr>sp_on_failure_chain := c\<rparr>, w @ wc @ container_warnings s))))"

section \<open>Cleaning relative to a directory\<close>

definition proper_seg :: "string \<Rightarrow> bool" where
  "proper_seg g = (g \<noteq> [] \<and> g \<noteq> ''.'' \<and> g \<noteq> ''..'' \<and> CHR ''/'' \<notin> set g)"

text \<open>Where a relative path leads: up some number of parents, then down the names.\<close>

fun descend :: "nat \<times> string list \<Rightarrow> string list \<Rightarrow> nat \<times> string list" where
  "descend (n, ns) [] = (n, rev ns)"
| "descend (n, ns) (g # gs) =
     (if g = [] \<or> g = ''.'' then descend (n, ns) gs
      else if g = ''..'' then (case ns of [] \<Rightarrow> descend (Suc n, []) gs | m # ms \<Rightarrow> descend (n, ms) gs)
      else descend (n, g # ns) gs)"

lemma clean_onto_relative:
  assumes "\<forall>m \<in> set ns. m \<noteq> ''..''"
  shows "clean_onto False (ns @ replicate n ''..'') gs =
    (case descend (n, ns) gs of (k, ms) \<Rightarrow> replicate k ''..'' @ ms)"
  using assms
proof (induction gs arbitrary: n ns)
  case Nil
  then show ?case by simp
next
  case (Cons g gs)
  show ?case
  proof (cases "g = ''..'' \<and> ns = []")
    case True
    have "clean_onto False (replicate n ''..'') (''..'' # gs) = clean_onto False (replicate (Suc n) ''..'') gs"
      by (cases n) simp_all
    with True Cons.IH [of "[]" "Suc n"] show ?thesis by simp
  next
    case False
    with Cons.prems Cons.IH [of "tl ns" n] Cons.IH [of "g # ns" n] Cons.IH [of ns n] show ?thesis
      by (cases ns) auto
  qed
qed

lemma clean_onto_in_dir:
  assumes "\<forall>m \<in> set ns. m \<noteq> ''..''" "\<forall>b \<in> set base. b \<noteq> ''..''"
  shows "clean_onto True (ns @ rev (take (length base - n) base)) gs =
    (case descend (n, ns) gs of (k, ms) \<Rightarrow> take (length base - k) base @ ms)"
  using assms(1)
proof (induction gs arbitrary: n ns)
  case Nil
  then show ?case by simp
next
  case (Cons g gs)
  show ?case
  proof (cases "g = ''..'' \<and> ns = []")
    case True
    have "clean_onto True (rev (take (length base - n) base)) (''..'' # gs) =
        clean_onto True (rev (take (length base - Suc n) base)) gs"
    proof (cases "length base - n")
      case (Suc j)
      then have "take (length base - n) base = take j base @ [base ! j]" "j = length base - Suc n"
        by (simp_all add: take_Suc_conv_app_nth)
      moreover have "base ! j \<noteq> ''..''"
        using assms(2) Suc by (metis diff_le_self less_Suc_eq_le lessI nth_mem order_less_le_trans)
      ultimately show ?thesis by simp
    qed simp
    with True Cons.IH [of "[]" "Suc n"] show ?thesis by simp
  next
    case False
    with Cons.prems Cons.IH [of "tl ns" n] Cons.IH [of "g # ns" n] Cons.IH [of ns n] show ?thesis
      by (cases ns) auto
  qed
qed

lemma proper_segD: "proper_seg g \<Longrightarrow> g \<noteq> [] \<and> g \<noteq> ''.'' \<and> g \<noteq> ''..'' \<and> CHR ''/'' \<notin> set g"
  unfolding proper_seg_def by blast

lemma descend_proper:
  assumes "\<forall>m \<in> set ns. proper_seg m" "\<forall>g \<in> set gs. CHR ''/'' \<notin> set g" "descend (n, ns) gs = (k, ms)"
  shows "\<forall>m \<in> set ms. proper_seg m"
  using assms
proof (induction gs arbitrary: n ns)
  case (Cons g gs)
  show ?case
  proof (cases "g = [] \<or> g = ''.''")
    case True
    with Cons show ?thesis by simp
  next
    case False
    show ?thesis
    proof (cases "g = ''..''")
      case True
      have tail: "\<forall>g \<in> set gs. CHR ''/'' \<notin> set g" using Cons.prems(2) by simp
      show ?thesis
      proof (cases ns)
        case Nil
        with True Cons.prems(3) have "descend (Suc n, []) gs = (k, ms)" by simp
        from Cons.IH [OF _ tail this] show ?thesis by simp
      next
        case (Cons m ns')
        with True Cons.prems(3) have "descend (n, ns') gs = (k, ms)" by simp
        from Cons.IH [OF _ tail this] Cons Cons.prems(1) show ?thesis by simp
      qed
    next
      case plain: False
      with False Cons.prems(2) have "proper_seg g" by (simp only: proper_seg_def list.set insert_iff) blast
      with False plain Cons.prems Cons.IH [of "g # ns" n] show ?thesis by simp
    qed
  qed
qed auto

lemma leading_parents_down: "\<forall>m \<in> set ms. m \<noteq> ''..'' \<Longrightarrow> leading_parents (replicate k ''..'' @ ms) = k"
  unfolding leading_parents_def by (induction k) (cases ms, auto)

lemma relative_bounds:
  assumes "\<not> is_abs inc" and d: "descend (0, []) (split_on CHR ''/'' inc) = (k, ms)"
  shows "hash_include_in_bounds inc \<longleftrightarrow> k = 0 \<or> (k = 1 \<and> ms \<noteq> [])"
proof -
  have ms: "\<forall>m \<in> set ms. proper_seg m"
    by (rule descend_proper [OF _ _ d]) (auto dest: split_on_no_sep)
  let ?gs = "replicate k ''..'' @ ms"
  have gs: "clean_onto False [] (split_on CHR ''/'' inc) = ?gs"
    using clean_onto_relative [of "[]" 0 "split_on CHR ''/'' inc"] d by simp
  have nosep: "\<forall>g \<in> set ?gs. CHR ''/'' \<notin> set g"
  proof
    fix g assume "g \<in> set ?gs"
    then consider "g = ''..''" | "g \<in> set ms" by (auto split: if_splits)
    then show "CHR ''/'' \<notin> set g"
      by cases (simp, use ms in \<open>blast dest: proper_segD\<close>)
  qed
  have down: "\<forall>m \<in> set ms. m \<noteq> ''..''" using ms by (blast dest: proper_segD)
  show ?thesis
  proof (cases "?gs = []")
    case True
    then have "clean_path inc = ''.''"
      using assms(1) gs by (simp add: clean_path_def Let_def)
    with True show ?thesis
      by (simp add: hash_include_in_bounds_def leading_parents_def)
  next
    case False
    then have c: "clean_path inc = join_with ''/'' ?gs"
      using assms(1) gs by (simp add: clean_path_def Let_def)
    have split: "split_on CHR ''/'' (clean_path inc) = ?gs"
      unfolding c by (rule split_join [OF False nosep])
    have "clean_path inc = ''..'' \<longleftrightarrow> ?gs = [''..'']"
    proof
      assume "clean_path inc = ''..''"
      then have "split_on CHR ''/'' ''..'' = ?gs" using split by simp
      then show "?gs = [''..'']" by simp
    next
      assume "?gs = [''..'']"
      then show "clean_path inc = ''..''" unfolding c by simp
    qed
    also have "\<dots> \<longleftrightarrow> k = 1 \<and> ms = []"
      using down by (cases k) auto
    finally show ?thesis
      using split leading_parents_down [OF down, of k] False
      by (auto simp: hash_include_in_bounds_def Let_def)
  qed
qed

section \<open>Properties of validation\<close>

text \<open>The lexical bound on \<open>hash_include\<close> is right for every task directory at once. A relative entry
  passes the check if and only if, whatever directory the task lives in, the entry joined
  to that directory and cleaned lies strictly inside the directory's parent. The check needs
  no file system and no knowledge of the directory.\<close>

lemma hash_include_stays_in_parent:
  "\<not> is_abs inc \<longrightarrow>
   (hash_include_in_bounds inc \<longleftrightarrow>
     (\<forall>ds d. list_all proper_seg (ds @ [d]) \<longrightarrow>
        (\<exists>x xs. clean_onto True [] ((ds @ [d]) @ split_on CHR ''/'' inc) = ds @ x # xs)))"
proof
  assume rel: "\<not> is_abs inc"
  obtain k ms where d: "descend (0, []) (split_on CHR ''/'' inc) = (k, ms)" by (metis surj_pair)
  have ms: "\<forall>m \<in> set ms. proper_seg m"
    by (rule descend_proper [OF _ _ d]) (auto dest: split_on_no_sep)
  have base: "clean_onto True kept (bs @ gs) = clean_onto True (rev bs @ kept) gs"
    if "list_all proper_seg bs" for bs gs kept
    using that by (induction bs arbitrary: kept) (auto simp: proper_seg_def)
  have join: "clean_onto True [] ((ds @ [d]) @ split_on CHR ''/'' inc) = take (Suc (length ds) - k) (ds @ [d]) @ ms"
    if "list_all proper_seg (ds @ [d])" for ds d
  proof -
    have "clean_onto True [] ((ds @ [d]) @ split_on CHR ''/'' inc) =
        clean_onto True (rev (ds @ [d]) @ []) (split_on CHR ''/'' inc)"
      by (rule base [OF that])
    also have "\<dots> = take (Suc (length ds) - k) (ds @ [d]) @ ms"
      using clean_onto_in_dir [of "[]" "ds @ [d]" 0 "split_on CHR ''/'' inc"] that d proper_segD
      by (auto simp: list_all_iff)
    finally show ?thesis .
  qed
  show "hash_include_in_bounds inc \<longleftrightarrow>
     (\<forall>ds d. list_all proper_seg (ds @ [d]) \<longrightarrow>
        (\<exists>x xs. clean_onto True [] ((ds @ [d]) @ split_on CHR ''/'' inc) = ds @ x # xs))"
  proof
    assume "hash_include_in_bounds inc"
    then have "k = 0 \<or> (k = 1 \<and> ms \<noteq> [])" using relative_bounds [OF rel d] by simp
    then show "\<forall>ds d. list_all proper_seg (ds @ [d]) \<longrightarrow>
        (\<exists>x xs. clean_onto True [] ((ds @ [d]) @ split_on CHR ''/'' inc) = ds @ x # xs)"
      using join by (cases ms) auto
  next
    assume inside: "\<forall>ds d. list_all proper_seg (ds @ [d]) \<longrightarrow>
        (\<exists>x xs. clean_onto True [] ((ds @ [d]) @ split_on CHR ''/'' inc) = ds @ x # xs)"
    define fresh where "fresh = CHR ''a'' # concat ms"
    have fresh: "proper_seg fresh" "fresh \<notin> set ms"
    proof -
      have "length g \<le> length (concat ms)" if "g \<in> set ms" for g
        using that by (induction ms) auto
      then show "fresh \<notin> set ms" unfolding fresh_def by fastforce
      show "proper_seg fresh"
        using ms by (auto simp: fresh_def proper_seg_def)
    qed
    have "k \<le> 1"
    proof (rule ccontr)
      assume "\<not> k \<le> 1"
      let ?ds = "replicate (k - 1) fresh"
      have "list_all proper_seg (?ds @ [fresh])"
        using fresh by (simp add: list_all_iff)
      with inside join [of ?ds fresh] obtain x xs where "take (Suc (length ?ds) - k) (?ds @ [fresh]) @ ms = ?ds @ x # xs"
        by metis
      with \<open>\<not> k \<le> 1\<close> have "ms = ?ds @ x # xs" by simp
      with \<open>\<not> k \<le> 1\<close> fresh(2) show False by (cases "k - 1") auto
    qed
    moreover have "\<not> (k = 1 \<and> ms = [])"
    proof
      assume "k = 1 \<and> ms = []"
      have f: "list_all proper_seg ([] @ [fresh])" using fresh(1) by simp
      with inside obtain x xs where
        "clean_onto True [] (([] @ [fresh]) @ split_on CHR ''/'' inc) = [] @ x # xs" by blast
      moreover have "take (Suc (length ([] :: string list)) - k) ([] @ [fresh]) @ ms = []"
        using \<open>k = 1 \<and> ms = []\<close> by simp
      ultimately show False using join [OF f] by (metis append_Nil list.distinct(1))
    qed
    ultimately show "hash_include_in_bounds inc"
      using relative_bounds [OF rel d] by (cases k) auto
  qed
qed

lemma hash_include_stays_in_parent_witness:
  "hash_include_in_bounds ''../lib/x.ts'' \<and>
   (\<exists>x xs. clean_onto True [] (([''tasks'', ''a''] @ [''b'']) @ split_on CHR ''/'' ''../lib/x.ts'') =
      [''tasks'', ''a''] @ x # xs)"
proof -
  have rel: "\<not> is_abs ''../lib/x.ts''" by (simp add: is_abs_def)
  have "hash_include_in_bounds ''../lib/x.ts''"
    by (simp add: hash_include_in_bounds_def clean_path_def is_abs_def leading_parents_def Let_def)
  moreover have "list_all proper_seg ([''tasks'', ''a''] @ [''b''])"
    by (simp add: proper_seg_def)
  ultimately show ?thesis
    using hash_include_stays_in_parent [of "''../lib/x.ts''"] rel by blast
qed

lemma apply_param_patch_merge: "apply_param_patch po ps = merge_param po ps"
  unfolding apply_param_patch_def
proof (induction ps)
  case Nil
  then show ?case by (simp split: option.splits)
next
  case (Cons p ps)
  then show ?case
    by (cases "find_param (po_name po) ps") (auto simp: Let_def split: option.splits)
qed

lemma apply_param_override_patch_merge: "apply_param_override_patch ps pos = merge_params pos ps"
proof -
  have "apply_param_patch = merge_param" by (intro ext) (rule apply_param_patch_merge)
  then show ?thesis by (simp add: apply_param_override_patch_def merge_params_def)
qed

lemma validate_failure_chain_Inr:
  "validate_failure_chain c = Inr (c', ws) \<longleftrightarrow>
     (\<forall>kv \<in> set (oc_params c). check_edge_param kv = None) \<and>
     c' = c\<lparr>oc_max_concurrent_global := 0, oc_storm := no_storm\<rparr> \<and>
     ws = (if oc_max_concurrent_global c \<noteq> 0 then [FailureChainGlobalIgnored (oc_max_concurrent_global c)] else []) @
          (if oc_storm c \<noteq> no_storm then [FailureChainStormIgnored] else [])"
proof -
  have storm: "st_rate st \<noteq> 0 \<or> st_window st \<noteq> 0 \<or> st_suppress st \<noteq> 0 \<or> st_scope st \<noteq> [] \<longleftrightarrow> st \<noteq> no_storm"
    for st by (cases st) (auto simp: no_storm_def)
  have same: "oc_storm c = no_storm \<Longrightarrow>
      c\<lparr>oc_max_concurrent_global := 0\<rparr> = c\<lparr>oc_max_concurrent_global := 0, oc_storm := no_storm\<rparr>"
    by (cases c) simp
  show ?thesis
  proof (cases "first_error check_edge_param (oc_params c)")
    case None
    then have "\<forall>kv \<in> set (oc_params c). check_edge_param kv = None"
      by (simp add: first_error_None)
    with None show ?thesis
      unfolding validate_failure_chain_def Let_def storm
      by (cases "oc_storm c = no_storm") (auto dest: same)
  next
    case (Some e)
    then have "\<not> (\<forall>kv \<in> set (oc_params c). check_edge_param kv = None)"
      using first_error_None [of check_edge_param "oc_params c"] by simp
    with Some show ?thesis by (simp add: validate_failure_chain_def)
  qed
qed

lemma validate_spec_Inr:
  "validate_spec s = Inr (s', ws) \<longleftrightarrow>
     spec_shape_error s = None \<and> container_error s = None \<and>
     (\<exists>wc. ws = webhook_secret_gated_warnings (tc_webhook_secret (sp_trigger s))
                  (tc_replay_protection (sp_trigger s)) (tc_require_timestamp (sp_trigger s)) @
                unsatisfiable_param_warnings (sp_trigger s) (sp_params s) @ wc @ container_warnings s \<and>
        (case sp_on_failure_chain s of
           None \<Rightarrow> s' = s\<lparr>sp_on_failure_chain := None\<rparr> \<and> wc = []
         | Some c \<Rightarrow> \<exists>c'. validate_failure_chain c = Inr (c', wc) \<and> s' = s\<lparr>sp_on_failure_chain := Some c'\<rparr>))"
proof (cases "sp_on_failure_chain s")
  case None
  then show ?thesis
    by (auto simp: validate_spec_def Let_def split: option.splits)
next
  case (Some c)
  then show ?thesis
    by (cases "validate_failure_chain c") (auto simp: validate_spec_def Let_def apfst_def map_prod_def split: option.splits prod.splits)
qed

lemma checks_of_shape:
  assumes "spec_shape_error s = None"
  shows "sp_name s \<noteq> []"
    and "trigger_kinds (sp_trigger s) = 1"
    and "tc_webhook_auth (sp_trigger s) = AuthAny \<Longrightarrow> tc_webhook_secret (sp_trigger s) \<noteq> []"
    and "tc_daemon (sp_trigger s) \<Longrightarrow> tc_restart (sp_trigger s) \<in> {[], ''always'', ''on-failure'', ''never''}"
    and "tc_chain (sp_trigger s) = Some c \<Longrightarrow> check_chain_trigger c = None"
    and "list_all (\<lambda>p. p \<noteq> [] \<and> \<not> is_abs p \<and> hash_include_in_bounds p) (sp_hash_include s)"
  using assms
  unfolding spec_shape_error_def Let_def checks_None list.set ball_simps fails_if_None first_error_None
  by (auto simp: list_all_iff check_hash_include_def checks_None)

lemma check_edge_param_None:
  "check_edge_param (k, v) = None \<longleftrightarrow>
     \<not> is_reserved_chain_param_key k \<and> (\<forall>t. v = JStr t \<longrightarrow> validate_input_refs t = None)"
  by (auto simp: check_edge_param_def split: json.splits)

definition edge_params_ok :: "(string \<times> json) list \<Rightarrow> bool" where
  "edge_params_ok ps \<longleftrightarrow> (\<forall>(k, v) \<in> set ps. \<not> is_reserved_chain_param_key k \<and>
     (\<forall>t. v = JStr t \<longrightarrow> validate_input_refs t = None))"

lemma edge_params_ok_checks: "edge_params_ok ps \<longleftrightarrow> (\<forall>kv \<in> set ps. check_edge_param kv = None)"
  by (auto simp: edge_params_ok_def check_edge_param_None split_beta)

text \<open>C10. What a validated task guarantees to the engine. If validation accepts a task, the task has a
  name and exactly one trigger; a daemon's restart policy is one of the known ones; a chain
  edge names its upstream, has a known condition, carries no parameter whose key the engine
  stamps and none the reference gate rejects, and patches nothing of the target's identity or
  trigger; session-or-signature webhooks have a secret; a failure chain has no reserved key
  and no operator policy left. Validating the result again accepts it unchanged.\<close>

theorem accepted_specs_are_well_formed:
  "validate_spec s = Inr (s', ws) \<longrightarrow>
     sp_name s \<noteq> [] \<and> trigger_kinds (sp_trigger s) = 1 \<and>
     (tc_daemon (sp_trigger s) \<longrightarrow> tc_restart (sp_trigger s) \<in> {[], ''always'', ''on-failure'', ''never''}) \<and>
     (tc_webhook_auth (sp_trigger s) = AuthAny \<longrightarrow> tc_webhook_secret (sp_trigger s) \<noteq> []) \<and>
     (\<forall>c. tc_chain (sp_trigger s) = Some c \<longrightarrow>
        ct_from c \<noteq> [] \<and> chain_on c \<in> {''success'', ''failure'', ''always''} \<and> edge_params_ok (ct_params c) \<and>
        (\<forall>ov. ct_overrides c = Some ov \<longrightarrow>
           ov_enabled ov = None \<and> ov_name ov = [] \<and> ov_trigger ov = None \<and> ov_entries ov = None \<and>
           (\<forall>p \<in> set (ov_params ov). \<not> is_reserved_chain_param_key (po_name p)))) \<and>
     (\<forall>c. sp_on_failure_chain s' = Some c \<longrightarrow>
        edge_params_ok (oc_params c) \<and> oc_max_concurrent_global c = 0 \<and> oc_storm c = no_storm) \<and>
     map_sum id fst (validate_spec s') = Inr s'"
proof
  assume ok: "validate_spec s = Inr (s', ws)"
  then have shape: "spec_shape_error s = None" and box: "container_error s = None"
    by (simp_all add: validate_spec_Inr)
  note sh = checks_of_shape [OF shape]
  have chain: "ct_from c \<noteq> [] \<and> chain_on c \<in> {''success'', ''failure'', ''always''} \<and> edge_params_ok (ct_params c) \<and>
        (\<forall>ov. ct_overrides c = Some ov \<longrightarrow>
           ov_enabled ov = None \<and> ov_name ov = [] \<and> ov_trigger ov = None \<and> ov_entries ov = None \<and>
           (\<forall>p \<in> set (ov_params ov). \<not> is_reserved_chain_param_key (po_name p)))"
    if "tc_chain (sp_trigger s) = Some c" for c
    using sh(5) [OF that]
    unfolding check_chain_trigger_def checks_None list.set ball_simps fails_if_None first_error_None
      edge_params_ok_checks
    by (auto simp: chain_on_def validate_per_edge_overrides_def checks_None first_error_None check_override_param_def
        split: if_splits)
  have same: "spec_shape_error (s\<lparr>sp_on_failure_chain := c\<rparr>) = spec_shape_error s"
    "container_error (s\<lparr>sp_on_failure_chain := c\<rparr>) = container_error s" for c
    by (simp_all add: spec_shape_error_def container_error_def)
  have fail: "(\<forall>c. sp_on_failure_chain s' = Some c \<longrightarrow>
        edge_params_ok (oc_params c) \<and> oc_max_concurrent_global c = 0 \<and> oc_storm c = no_storm) \<and>
     map_sum id fst (validate_spec s') = Inr s'"
  proof (cases "sp_on_failure_chain s")
    case None
    with ok have s': "s' = s" by (cases s) (simp add: validate_spec_Inr)
    from ok have "map_sum id fst (validate_spec s') = Inr s'" by (simp add: s')
    with None show ?thesis by (simp add: s')
  next
    case (Some c)
    with ok obtain wc c' where c': "validate_failure_chain c = Inr (c', wc)" "s' = s\<lparr>sp_on_failure_chain := Some c'\<rparr>"
      by (auto simp: validate_spec_Inr)
    then have fix1: "validate_failure_chain c' = Inr (c', [])" "edge_params_ok (oc_params c')"
      "oc_max_concurrent_global c' = 0" "oc_storm c' = no_storm"
      by (auto simp: validate_failure_chain_Inr edge_params_ok_checks)
    have "\<exists>w. validate_spec s' = Inr (s', w)"
      unfolding validate_spec_Inr using c'(2) shape box fix1(1) by (auto simp: same)
    with fix1 c'(2) show ?thesis by auto
  qed
  from sh chain fail
  show "sp_name s \<noteq> [] \<and> trigger_kinds (sp_trigger s) = 1 \<and>
     (tc_daemon (sp_trigger s) \<longrightarrow> tc_restart (sp_trigger s) \<in> {[], ''always'', ''on-failure'', ''never''}) \<and>
     (tc_webhook_auth (sp_trigger s) = AuthAny \<longrightarrow> tc_webhook_secret (sp_trigger s) \<noteq> []) \<and>
     (\<forall>c. tc_chain (sp_trigger s) = Some c \<longrightarrow>
        ct_from c \<noteq> [] \<and> chain_on c \<in> {''success'', ''failure'', ''always''} \<and> edge_params_ok (ct_params c) \<and>
        (\<forall>ov. ct_overrides c = Some ov \<longrightarrow>
           ov_enabled ov = None \<and> ov_name ov = [] \<and> ov_trigger ov = None \<and> ov_entries ov = None \<and>
           (\<forall>p \<in> set (ov_params ov). \<not> is_reserved_chain_param_key (po_name p)))) \<and>
     (\<forall>c. sp_on_failure_chain s' = Some c \<longrightarrow>
        edge_params_ok (oc_params c) \<and> oc_max_concurrent_global c = 0 \<and> oc_storm c = no_storm) \<and>
     map_sum id fst (validate_spec s') = Inr s'"
    by blast
qed

definition ex_chained_spec :: spec where
  "ex_chained_spec = empty_spec\<lparr>sp_name := ''digest'', sp_id := ''digest'',
     sp_params := [\<lparr>pa_name = ''to'', pa_type = [], pa_default = [], pa_description = [], pa_required = True\<rparr>],
     sp_trigger := no_trigger\<lparr>tc_chain := Some (ChainTrigger ''fetch'' [] [(''n'', JInt 1)] None)\<rparr>\<rparr>"

lemma ex_chained_spec_valid:
  "validate_spec ex_chained_spec = Inr (ex_chained_spec, [UnsatisfiableParam ''to'' ''chain''])"
  by (simp add: ex_chained_spec_def zero_values validate_spec_def spec_shape_error_def check_chain_trigger_def
      check_edge_param_def is_reserved_chain_param_key_def reserved_chain_param_keys_def
      validate_per_edge_overrides_def fails_if_def trigger_kinds_def webhook_secret_gated_warnings_def
      unsatisfiable_param_warnings_def missing_required_params_def container_error_def container_warnings_def)

theorem accepted_specs_are_well_formed_witness:
  "sp_name ex_chained_spec \<noteq> [] \<and> trigger_kinds (sp_trigger ex_chained_spec) = 1 \<and>
   edge_params_ok [(''n'', JInt 1)]"
proof -
  have c: "tc_chain (sp_trigger ex_chained_spec) = Some (ChainTrigger ''fetch'' [] [(''n'', JInt 1)] None)"
    by (simp add: ex_chained_spec_def)
  show ?thesis
    using accepted_specs_are_well_formed [of ex_chained_spec] ex_chained_spec_valid c
    by (metis chain_trigger.sel(3))
qed

section \<open>The preflight of a run\<close>

text \<open>\<open>preflightParams\<close> of pkg/trigger/run.go: the names a fire leaves unsatisfied, if any.\<close>

definition preflight_params :: "spec \<Rightarrow> (string \<rightharpoonup> string) \<Rightarrow> string list option" where
  "preflight_params s given =
     (case missing_required_params (sp_params s) given of [] \<Rightarrow> None | n # ns \<Rightarrow> Some (n # ns))"

text \<open>The spec a fire of the task's own trigger runs: an edge's overrides are applied first.\<close>

definition own_fire_spec :: "spec \<Rightarrow> spec" where
  "own_fire_spec s =
     (case tc_chain (sp_trigger s) of
        None \<Rightarrow> s
      | Some c \<Rightarrow> (case ct_overrides c of None \<Rightarrow> s | Some ov \<Rightarrow> apply_layer ov s))"

definition warned_params :: "spec_warning list \<Rightarrow> string list" where
  "warned_params ws = concat (map (\<lambda>w. case w of UnsatisfiableParam n k \<Rightarrow> [n] | _ \<Rightarrow> []) ws)"

lemma warned_params_append [simp]: "warned_params (v @ w) = warned_params v @ warned_params w"
  by (simp add: warned_params_def)

lemma warned_params_gated: "warned_params (webhook_secret_gated_warnings k r t) = []"
  by (auto simp: webhook_secret_gated_warnings_def warned_params_def)

lemma warned_params_none:
  "list_all (\<lambda>w. \<not> is_UnsatisfiableParam w) ws \<Longrightarrow> warned_params ws = []"
  by (induction ws) (auto simp: warned_params_def split: spec_warning.splits)

lemma warned_params_container: "warned_params (container_warnings s) = []"
proof -
  have "\<not> is_UnsatisfiableParam w" if "w \<in> set (docker_hardening_warnings d)" for w d
    using that unfolding docker_hardening_warnings_def by (cases "dc_network_mode d = ''host''") auto
  then have d: "warned_params (docker_hardening_warnings d) = []" for d
    by (intro warned_params_none) (simp add: list_all_iff)
  have "container_warnings s = [] \<or> (\<exists>d. container_warnings s = docker_hardening_warnings d)"
    unfolding container_warnings_def by (cases "sp_docker s") auto
  then show ?thesis
    using d by (metis concat.simps(1) list.map(1) warned_params_def)
qed

lemma warned_params_failure_chain:
  "validate_failure_chain c = Inr (c', wc) \<Longrightarrow> warned_params wc = []"
  by (auto simp: validate_failure_chain_Inr warned_params_def)

lemmas warned_params_other = warned_params_gated warned_params_container warned_params_failure_chain

lemma warned_params_map: "warned_params (map (\<lambda>n. UnsatisfiableParam n k) ns) = ns"
  by (induction ns) (simp_all add: warned_params_def)

text \<open>The load-time warning foretells the preflight. Whenever a validated task fires by cron, as a
  daemon or over its chain edge, the fire's preflight fails if and only if validation warned,
  and it names exactly the warned parameters, with the patches of the edge's overrides applied
  by the other package taken into account.\<close>

lemma warnings_foretell_preflight:
  "validate_spec s = Inr (s', ws) \<and>
   (tc_cron (sp_trigger s) \<noteq> [] \<or> tc_daemon (sp_trigger s) \<or> tc_chain (sp_trigger s) \<noteq> None) \<longrightarrow>
   preflight_params (own_fire_spec s) Map.empty = (if warned_params ws = [] then None else Some (warned_params ws))"
proof
  assume a: "validate_spec s = Inr (s', ws) \<and>
   (tc_cron (sp_trigger s) \<noteq> [] \<or> tc_daemon (sp_trigger s) \<or> tc_chain (sp_trigger s) \<noteq> None)"
  then have one: "trigger_kinds (sp_trigger s) = 1"
    using checks_of_shape(2) [of s] by (simp add: validate_spec_Inr)
  have "warned_params ws = warned_params (unsatisfiable_param_warnings (sp_trigger s) (sp_params s))"
    using a by (cases "sp_on_failure_chain s") (auto simp: validate_spec_Inr warned_params_other)
  also have "\<dots> = missing_required_params (sp_params (own_fire_spec s)) Map.empty"
  proof (cases "tc_chain (sp_trigger s)")
    case None
    with a show ?thesis
      by (auto simp: unsatisfiable_param_warnings_def own_fire_spec_def warned_params_map)
  next
    case (Some c)
    with one have t: "tc_cron (sp_trigger s) = []" "\<not> tc_daemon (sp_trigger s)"
      by (auto simp: trigger_kinds_def split: if_splits)
    show ?thesis
    proof (cases "ct_overrides c")
      case None
      with Some t show ?thesis
        by (simp add: unsatisfiable_param_warnings_def own_fire_spec_def warned_params_map)
    next
      case (Some ov)
      have "sp_params (apply_layer ov s) = merge_params (ov_params ov) (sp_params s)"
        by (simp add: apply_layer_def)
      with Some \<open>tc_chain (sp_trigger s) = Some c\<close> t show ?thesis
        by (simp add: unsatisfiable_param_warnings_def own_fire_spec_def warned_params_map
            apply_param_override_patch_merge merge_params_def)
    qed
  qed
  finally show "preflight_params (own_fire_spec s) Map.empty =
      (if warned_params ws = [] then None else Some (warned_params ws))"
    by (simp add: preflight_params_def split: list.splits)
qed

lemma warnings_foretell_preflight_witness:
  "preflight_params (own_fire_spec ex_chained_spec) Map.empty = Some [''to'']"
proof -
  have "tc_chain (sp_trigger ex_chained_spec) \<noteq> None" by (simp add: ex_chained_spec_def)
  then show ?thesis
    using warnings_foretell_preflight [of ex_chained_spec] ex_chained_spec_valid
    by (simp add: warned_params_def)
qed

end
