(* ===== verification/ApprovalLock.thy ===== *)
theory ApprovalLock
  imports Prelude
begin

text \<open>
  The lockfile of approved content hashes, pkg/approval/lock.go: its in-memory view, the
  file on disk, the sealing with a MAC, and the operations the gate calls. The contract
  of the lock as the gate uses it is the locale \<open>approval_store\<close>, interpreted here on
  the model.

  HMAC-SHA256 over the canonical JSON of a payload is a parameter \<open>hmac\<close> of the
  definitions: the bytes of the digest for a key and a payload, \<open>None\<close> where encoding
  the payload fails. The hexadecimal encoding of the digest is modelled. Whether writing
  the file succeeds is the argument \<open>wok\<close> of an operation that writes.
\<close>

section \<open>State\<close>

record lock_record =
  lr_hash :: string
  lr_approved_at :: time
  lr_approved_by :: string
  lr_commit :: string

type_synonym lock_records = "task_id \<rightharpoonup> lock_record"

record lock_file =
  lf_version :: int
  lf_mac :: string
  lf_bootstrapped :: bool
  lf_tasks :: lock_records

record lock =
  lk_path :: path
  lk_key :: "string option"
  lk_tampered :: bool
  lk_bootstrapped :: bool
  lk_tasks :: lock_records
  lk_disk :: "lock_file option"

text \<open>What the MAC covers: version 3 files cover the bootstrapped flag, version 2 files not.\<close>

datatype mac_payload = PayloadV3 bool lock_records | PayloadV2 lock_records

type_synonym hmac_fn = "string \<Rightarrow> mac_payload \<Rightarrow> string option"

datatype lock_error = ReadFailed | ParseFailed | SignFailed | WriteFailed | EmptyHash

datatype read_result = NoFile | ReadError | Unparseable | Parsed lock_file

section \<open>Sealing\<close>

text \<open>\<open>hex.EncodeToString\<close>.\<close>

definition hex_digit :: "nat \<Rightarrow> char" where
  "hex_digit n = ''0123456789abcdef'' ! n"

definition hex_encode :: "string \<Rightarrow> string" where
  "hex_encode bs = concat (map (\<lambda>b. [hex_digit (of_char b div 16), hex_digit (of_char b mod 16)]) bs)"

definition compute_mac :: "hmac_fn \<Rightarrow> string \<Rightarrow> lock \<Rightarrow> string option" where
  "compute_mac hmac key l = map_option hex_encode (hmac key (PayloadV3 (lk_bootstrapped l) (lk_tasks l)))"

definition compute_mac_v2 :: "hmac_fn \<Rightarrow> string \<Rightarrow> lock \<Rightarrow> string option" where
  "compute_mac_v2 hmac key l = map_option hex_encode (hmac key (PayloadV2 (lk_tasks l)))"

definition verify_mac :: "hmac_fn \<Rightarrow> string \<Rightarrow> string \<Rightarrow> lock \<Rightarrow> bool" where
  "verify_mac hmac key mac l =
     (case compute_mac hmac key l of None \<Rightarrow> False | Some expected \<Rightarrow> expected = to_lower mac)"

definition verify_mac_v2 :: "hmac_fn \<Rightarrow> string \<Rightarrow> string \<Rightarrow> lock \<Rightarrow> bool" where
  "verify_mac_v2 hmac key mac l =
     (case compute_mac_v2 hmac key l of None \<Rightarrow> False | Some expected \<Rightarrow> expected = to_lower mac)"

definition save :: "hmac_fn \<Rightarrow> bool \<Rightarrow> lock \<Rightarrow> lock_error option \<times> lock" where
  "save hmac wok l =
     (let written = (\<lambda>f. if wok then (None, l\<lparr>lk_disk := Some f\<rparr>) else (Some WriteFailed, l)) in
      case lk_key l of
        None \<Rightarrow> written \<lparr>lf_version = 1, lf_mac = [], lf_bootstrapped = lk_bootstrapped l,
                          lf_tasks = lk_tasks l\<rparr>
      | Some key \<Rightarrow>
          (case compute_mac hmac key l of
             None \<Rightarrow> (Some SignFailed, l)
           | Some mac \<Rightarrow> written \<lparr>lf_version = 3, lf_mac = mac, lf_bootstrapped = lk_bootstrapped l,
                                   lf_tasks = lk_tasks l\<rparr>))"

section \<open>Loading\<close>

definition new_lock :: "path \<Rightarrow> string option \<Rightarrow> lock" where
  "new_lock path key = \<lparr>lk_path = path, lk_key = key, lk_tampered = False, lk_bootstrapped = False,
     lk_tasks = Map.empty, lk_disk = None\<rparr>"

definition discard_records :: "lock \<Rightarrow> lock" where
  "discard_records l = l\<lparr>lk_tampered := True, lk_bootstrapped := False, lk_tasks := Map.empty\<rparr>"

definition saved_or_error :: "lock_error option \<times> lock \<Rightarrow> lock_error + lock" where
  "saved_or_error r = (case fst r of None \<Rightarrow> Inr (snd r) | Some e \<Rightarrow> Inl e)"

definition load_signed_lock ::
  "hmac_fn \<Rightarrow> bool \<Rightarrow> path \<Rightarrow> read_result \<Rightarrow> string option \<Rightarrow> lock_error + lock" where
  "load_signed_lock hmac wok path rd key_opt =
     (case rd of
        NoFile \<Rightarrow> Inr (new_lock path key_opt)
      | ReadError \<Rightarrow> Inl ReadFailed
      | Unparseable \<Rightarrow> Inl ParseFailed
      | Parsed lf \<Rightarrow>
          (let l = (new_lock path key_opt)\<lparr>lk_tasks := lf_tasks lf, lk_disk := Some lf\<rparr> in
           case key_opt of
             None \<Rightarrow> Inr l
           | Some key \<Rightarrow>
               if lf_mac lf = [] then
                 (if 1 < lf_version lf then Inr (discard_records l)
                  else saved_or_error (save hmac wok l))
               else if lf_version lf = 2 then
                 (if \<not> verify_mac_v2 hmac key (lf_mac lf) l then Inr (discard_records l)
                  else saved_or_error (save hmac wok (l\<lparr>lk_bootstrapped := False\<rparr>)))
               else if lf_version lf = 3 then
                 (let l3 = l\<lparr>lk_bootstrapped := lf_bootstrapped lf\<rparr> in
                  if \<not> verify_mac hmac key (lf_mac lf) l3 then Inr (discard_records l3) else Inr l3)
               else Inr (discard_records l)))"

section \<open>Operations\<close>

definition approved :: "lock \<Rightarrow> task_id \<Rightarrow> string \<Rightarrow> bool" where
  "approved l tid hash =
     (if hash = [] then False
      else (case lk_tasks l tid of None \<Rightarrow> False | Some rec \<Rightarrow> lr_hash rec = hash))"

definition get_record :: "lock \<Rightarrow> task_id \<Rightarrow> lock_record option" where
  "get_record l tid = lk_tasks l tid"

definition record_approval ::
  "hmac_fn \<Rightarrow> bool \<Rightarrow> time \<Rightarrow> task_id \<Rightarrow> string \<Rightarrow> string \<Rightarrow> string \<Rightarrow> lock \<Rightarrow> lock_error option \<times> lock" where
  "record_approval hmac wok now tid hash who commit l =
     (if hash = [] then (Some EmptyHash, l)
      else if (case lk_tasks l tid of None \<Rightarrow> False | Some rec \<Rightarrow> lr_hash rec = hash) then (None, l)
      else save hmac wok (l\<lparr>lk_tasks := (lk_tasks l)(tid \<mapsto>
             \<lparr>lr_hash = hash, lr_approved_at = now, lr_approved_by = who, lr_commit = commit\<rparr>)\<rparr>))"

definition remove_record :: "hmac_fn \<Rightarrow> bool \<Rightarrow> task_id \<Rightarrow> lock \<Rightarrow> lock_error option \<times> lock" where
  "remove_record hmac wok tid l =
     (if lk_tasks l tid = None then (None, l)
      else save hmac wok (l\<lparr>lk_tasks := (lk_tasks l)(tid := None)\<rparr>))"

definition is_bootstrapped :: "lock \<Rightarrow> bool" where
  "is_bootstrapped l = lk_bootstrapped l"

definition mark_bootstrapped :: "hmac_fn \<Rightarrow> bool \<Rightarrow> lock \<Rightarrow> lock_error option \<times> lock" where
  "mark_bootstrapped hmac wok l =
     (if lk_bootstrapped l then (None, l)
      else (case save hmac wok (l\<lparr>lk_bootstrapped := True\<rparr>) of
              (None, l') \<Rightarrow> (None, l')
            | (Some e, l') \<Rightarrow> (Some e, l'\<lparr>lk_bootstrapped := False\<rparr>)))"

section \<open>Facts of the operations\<close>

lemma save_frame [simp]:
  "lk_tasks (snd (save hmac wok l)) = lk_tasks l"
  "lk_bootstrapped (snd (save hmac wok l)) = lk_bootstrapped l"
  "lk_key (snd (save hmac wok l)) = lk_key l"
  "lk_tampered (snd (save hmac wok l)) = lk_tampered l"
  by (auto simp: save_def Let_def split: option.splits)

lemma char_lower_hex_digit: "n < 16 \<Longrightarrow> char_lower (hex_digit n) = hex_digit n"
proof -
  have "list_all (\<lambda>n. char_lower (hex_digit n) = hex_digit n) [0..<16]"
    by code_simp
  then show "n < 16 \<Longrightarrow> ?thesis" by (simp add: list_all_iff)
qed

lemma hex_digit_index: "(of_char b :: nat) div 16 < 16"
proof -
  have "(of_char b :: nat) < 256"
    by (metis mod_less_divisor of_char_mod_256 zero_less_numeral)
  then show ?thesis by (intro less_mult_imp_div_less) simp
qed

lemma to_lower_hex_encode [simp]: "to_lower (hex_encode bs) = hex_encode bs"
  by (induction bs) (simp_all add: hex_encode_def to_lower_def char_lower_hex_digit hex_digit_index)

lemma approved_iff:
  "approved l tid h \<longleftrightarrow> h \<noteq> [] \<and> (\<exists>r. lk_tasks l tid = Some r \<and> lr_hash r = h)"
  by (auto simp: approved_def split: option.splits)

lemma approved_empty [simp]: "\<not> approved l tid []"
  by (simp add: approved_def)

lemma approved_record_tasks:
  "lk_tasks (snd (record_approval hmac wok now tid hash who commit l)) t =
     (if t = tid \<and> hash \<noteq> [] \<and> \<not> approved l tid hash
      then Some \<lparr>lr_hash = hash, lr_approved_at = now, lr_approved_by = who, lr_commit = commit\<rparr>
      else lk_tasks l t)"
  by (auto simp: record_approval_def approved_def split: option.splits)

lemma remove_record_tasks: "lk_tasks (snd (remove_record hmac wok tid l)) = (lk_tasks l)(tid := None)"
  by (auto simp: remove_record_def)

section \<open>The contract of the store\<close>

text \<open>
  What the gate relies on: \<open>ok\<close> tells whether a (non-empty) hash is the approved one of
  a task, \<open>rcd\<close> records a hash and \<open>rmv\<close> drops a task. The laws say that recording
  decides the recorded task and no other, and that nothing else ever approves anything.
\<close>

datatype ('r) store_op = RecordOp 'r task_id string | RemoveOp 'r task_id

fun store_step ::
  "('r \<Rightarrow> task_id \<Rightarrow> string \<Rightarrow> 'l \<Rightarrow> 'l) \<Rightarrow> ('r \<Rightarrow> task_id \<Rightarrow> 'l \<Rightarrow> 'l) \<Rightarrow> 'r store_op \<Rightarrow> 'l \<Rightarrow> 'l" where
  "store_step rcd rmv (RecordOp r tid h) l = rcd r tid h l"
| "store_step rcd rmv (RemoveOp r tid) l = rmv r tid l"

definition store_run ::
  "('r \<Rightarrow> task_id \<Rightarrow> string \<Rightarrow> 'l \<Rightarrow> 'l) \<Rightarrow> ('r \<Rightarrow> task_id \<Rightarrow> 'l \<Rightarrow> 'l) \<Rightarrow> 'r store_op list \<Rightarrow> 'l \<Rightarrow> 'l" where
  "store_run rcd rmv ops l = fold (store_step rcd rmv) ops l"

locale approval_store =
  fixes ok :: "'l \<Rightarrow> task_id \<Rightarrow> string \<Rightarrow> bool"
    and rcd :: "'r \<Rightarrow> task_id \<Rightarrow> string \<Rightarrow> 'l \<Rightarrow> 'l"
    and rmv :: "'r \<Rightarrow> task_id \<Rightarrow> 'l \<Rightarrow> 'l"
  assumes ok_nonempty: "ok l t h \<Longrightarrow> h \<noteq> []"
    and ok_unique: "ok l t h \<Longrightarrow> ok l t h' \<Longrightarrow> h' = h"
    and ok_rcd_same: "h \<noteq> [] \<Longrightarrow> ok (rcd r t h l) t h' \<longleftrightarrow> h' = h"
    and ok_rcd_empty: "ok (rcd r t [] l) u h' = ok l u h'"
    and ok_rcd_other: "u \<noteq> t \<Longrightarrow> ok (rcd r t h l) u h' = ok l u h'"
    and ok_rmv_same: "\<not> ok (rmv r t l) t h"
    and ok_rmv_other: "u \<noteq> t \<Longrightarrow> ok (rmv r t l) u h = ok l u h"
begin

lemma ok_step:
  "ok (store_step rcd rmv c l) t h \<Longrightarrow> ok l t h \<or> (\<exists>r. c = RecordOp r t h)"
proof (cases c)
  case (RecordOp r u g)
  assume ok: "ok (store_step rcd rmv c l) t h"
  show ?thesis
  proof (cases "u = t \<and> g \<noteq> []")
    case True
    with ok RecordOp have "h = g" by (simp add: ok_rcd_same)
    with RecordOp True show ?thesis by simp
  next
    case False
    with ok RecordOp show ?thesis
      by (cases "u = t") (auto simp: ok_rcd_empty ok_rcd_other)
  qed
next
  case (RemoveOp r u)
  assume "ok (store_step rcd rmv c l) t h"
  with RemoveOp show ?thesis by (cases "u = t") (auto simp: ok_rmv_same ok_rmv_other)
qed

text \<open>After any operations, an approval was there at the start or was recorded.\<close>

lemma ok_provenance:
  "ok (store_run rcd rmv ops l) t h \<Longrightarrow> ok l t h \<or> (\<exists>r. RecordOp r t h \<in> set ops)"
proof (induction ops arbitrary: l)
  case Nil
  then show ?case by (simp add: store_run_def)
next
  case (Cons c ops)
  from Cons.prems have "ok (store_run rcd rmv ops (store_step rcd rmv c l)) t h"
    by (simp add: store_run_def)
  then have "ok (store_step rcd rmv c l) t h \<or> (\<exists>r. RecordOp r t h \<in> set ops)"
    by (rule Cons.IH)
  then consider "ok (store_step rcd rmv c l) t h" | r where "RecordOp r t h \<in> set ops"
    by blast
  then show ?case
  proof cases
    case 1
    then have "ok l t h \<or> (\<exists>r. c = RecordOp r t h)" by (rule ok_step)
    then show ?thesis by (metis list.set_intros(1))
  next
    case 2
    then show ?thesis by auto
  qed
qed

text \<open>A removed task stays unapproved until it is recorded again.\<close>

lemma ok_removed:
  "(\<forall>r. RecordOp r t h \<notin> set ops) \<Longrightarrow> \<not> ok (store_run rcd rmv ops (rmv r0 t l)) t h"
  using ok_provenance ok_rmv_same by blast

end

text \<open>The parameters of one call: the MAC function, whether the write succeeds, the time,
  and the provenance and commit the record carries.\<close>

type_synonym store_ctx = "hmac_fn \<times> bool \<times> time \<times> string \<times> string"

definition lock_rcd :: "store_ctx \<Rightarrow> task_id \<Rightarrow> string \<Rightarrow> lock \<Rightarrow> lock" where
  "lock_rcd c tid h l = (case c of (hmac, wok, now, who, commit) \<Rightarrow>
     snd (record_approval hmac wok now tid h who commit l))"

definition lock_rmv :: "store_ctx \<Rightarrow> task_id \<Rightarrow> lock \<Rightarrow> lock" where
  "lock_rmv c tid l = (case c of (hmac, wok, now, who, commit) \<Rightarrow> snd (remove_record hmac wok tid l))"

lemma approved_rcd:
  "approved (lock_rcd c t h l) u h' =
     (if u = t \<and> h \<noteq> [] then h' = h else approved l u h')"
proof -
  obtain hmac wok now who commit where c: "c = (hmac, wok, now, who, commit)"
    by (cases c)
  let ?l = "snd (record_approval hmac wok now t h who commit l)"
  have tasks: "lk_tasks ?l u =
      (if u = t \<and> h \<noteq> [] \<and> \<not> approved l t h
       then Some \<lparr>lr_hash = h, lr_approved_at = now, lr_approved_by = who, lr_commit = commit\<rparr>
       else lk_tasks l u)"
    by (rule approved_record_tasks)
  show ?thesis
  proof (cases "u = t \<and> h \<noteq> [] \<and> \<not> approved l t h")
    case True
    with tasks show ?thesis by (auto simp: c lock_rcd_def approved_iff)
  next
    case False
    from tasks have "lk_tasks ?l u = lk_tasks l u" unfolding if_not_P [OF False] .
    then have same: "approved ?l u h' = approved l u h'" by (simp only: approved_iff)
    with False show ?thesis by (auto simp: c lock_rcd_def approved_iff)
  qed
qed

lemma approved_rmv: "approved (lock_rmv c t l) u h = (u \<noteq> t \<and> approved l u h)"
  by (cases c) (simp add: lock_rmv_def approved_iff remove_record_tasks)

interpretation lck: approval_store approved lock_rcd lock_rmv
  by unfold_locales
    (simp_all add: approved_rcd approved_rmv, auto simp: approved_iff)

section \<open>Properties of the lockfile\<close>

text \<open>A digest for the concrete examples: it depends on the key and on the flag it covers.\<close>

definition ex_hmac :: hmac_fn where
  "ex_hmac key p = Some (key @ (case p of PayloadV3 b t \<Rightarrow> (if b then ''1'' else ''0'') | PayloadV2 t \<Rightarrow> ''2''))"

definition ex_record :: lock_record where
  "ex_record = \<lparr>lr_hash = ''h1'', lr_approved_at = 0, lr_approved_by = ''manual'', lr_commit = []\<rparr>"

lemma save_preserves_v2_check:
  "verify_mac_v2 hmac key m (snd (save hmac wok x)) = verify_mac_v2 hmac key m x"
  by (simp add: verify_mac_v2_def compute_mac_v2_def)

text \<open>Loading fails closed: with a signing key, an approval that is present after loading
  was written in the file for exactly that hash, and the file is either an unsigned file of
  version 1 or one whose MAC verifies over the records it holds. The bootstrapped flag is
  only ever believed from a version 3 file whose MAC covers it.\<close>

lemma load_fails_closed:
  assumes "load_signed_lock hmac wok path (Parsed lf) (Some key) = Inr l"
  shows "(approved l tid h \<longrightarrow>
      \<not> lk_tampered l \<and> (\<exists>r. lf_tasks lf tid = Some r \<and> lr_hash r = h) \<and>
      (lf_mac lf = [] \<and> lf_version lf \<le> 1 \<or>
       lf_version lf = 2 \<and> verify_mac_v2 hmac key (lf_mac lf) l \<or>
       lf_version lf = 3 \<and> verify_mac hmac key (lf_mac lf) l)) \<and>
    (is_bootstrapped l \<longrightarrow>
      lf_bootstrapped lf \<and> lf_version lf = 3 \<and> verify_mac hmac key (lf_mac lf) l)"
proof (intro conjI impI)
  assume "approved l tid h"
  then show "\<not> lk_tampered l" "\<exists>r. lf_tasks lf tid = Some r \<and> lr_hash r = h"
    "lf_mac lf = [] \<and> lf_version lf \<le> 1 \<or>
     lf_version lf = 2 \<and> verify_mac_v2 hmac key (lf_mac lf) l \<or>
     lf_version lf = 3 \<and> verify_mac hmac key (lf_mac lf) l"
    using assms
    by (auto simp: load_signed_lock_def saved_or_error_def discard_records_def approved_iff
        save_preserves_v2_check verify_mac_v2_def compute_mac_v2_def
        Let_def new_lock_def split: if_splits option.splits)
next
  assume "is_bootstrapped l"
  then show "lf_bootstrapped lf" "lf_version lf = 3" "verify_mac hmac key (lf_mac lf) l"
    using assms
    by (auto simp: load_signed_lock_def saved_or_error_def discard_records_def is_bootstrapped_def
        Let_def new_lock_def split: if_splits option.splits)
qed

definition ex_sealed_file :: lock_file where
  "ex_sealed_file = \<lparr>lf_version = 3, lf_mac = hex_encode ''k1'', lf_bootstrapped = True,
     lf_tasks = [''a/t'' \<mapsto> ex_record]\<rparr>"

lemma load_fails_closed_witness:
  "\<exists>l. load_signed_lock ex_hmac True ''f'' (Parsed ex_sealed_file) (Some ''k'') = Inr l \<and>
     approved l ''a/t'' ''h1'' \<and> is_bootstrapped l \<and> verify_mac ex_hmac ''k'' (hex_encode ''k1'') l"
proof -
  let ?r = "load_signed_lock ex_hmac True ''f'' (Parsed ex_sealed_file) (Some ''k'')"
  let ?l = "(new_lock ''f'' (Some ''k''))\<lparr>lk_tasks := [''a/t'' \<mapsto> ex_record],
      lk_disk := Some ex_sealed_file, lk_bootstrapped := True\<rparr>"
  have ne: "hex_encode ''k1'' \<noteq> []" by (simp add: hex_encode_def)
  have load: "?r = Inr ?l"
    by (simp add: load_signed_lock_def ex_sealed_file_def new_lock_def verify_mac_def compute_mac_def
        ex_hmac_def Let_def ne)
  have "approved ?l ''a/t'' ''h1''" "is_bootstrapped ?l"
    by (simp_all add: approved_def ex_record_def is_bootstrapped_def)
  with load_fails_closed [OF load, of "''a/t''" "''h1''"] load show ?thesis
    by (auto simp: ex_sealed_file_def)
qed



text \<open>A file without a MAC that declares version 1 or less is trusted as a legacy file
  whatever its records are: every one of them is approved, nothing is reported as tampered,
  and the file is sealed again as an authentic version 3 file. So the rejection of version 2
  and 3 files whose MAC was stripped does not stop someone who can write the file: the same
  records with the version number lowered are accepted.\<close>

lemma legacy_file_is_accepted_and_sealed:
  assumes "lf_version lf \<le> 1" "lf_mac lf = []"
    and "hmac key (PayloadV3 False (lf_tasks lf)) = Some bs"
  shows "\<exists>l. load_signed_lock hmac True path (Parsed lf) (Some key) = Inr l \<and> \<not> lk_tampered l \<and>
     (\<forall>tid h. approved l tid h = (h \<noteq> [] \<and> (\<exists>r. lf_tasks lf tid = Some r \<and> lr_hash r = h))) \<and>
     lk_disk l = Some \<lparr>lf_version = 3, lf_mac = hex_encode bs, lf_bootstrapped = False, lf_tasks = lf_tasks lf\<rparr>"
  using assms
  by (simp add: load_signed_lock_def Let_def saved_or_error_def save_def new_lock_def
      compute_mac_def approved_iff)

lemma legacy_file_is_accepted_and_sealed_witness:
  "load_signed_lock ex_hmac True ''f'' (Parsed (ex_sealed_file\<lparr>lf_version := 3, lf_mac := []\<rparr>)) (Some ''k'')
     = Inr (discard_records ((new_lock ''f'' (Some ''k''))\<lparr>lk_tasks := [''a/t'' \<mapsto> ex_record],
              lk_disk := Some (ex_sealed_file\<lparr>lf_version := 3, lf_mac := []\<rparr>)\<rparr>)) \<and>
   (\<exists>l. load_signed_lock ex_hmac True ''f'' (Parsed (ex_sealed_file\<lparr>lf_version := 1, lf_mac := []\<rparr>)) (Some ''k'')
      = Inr l \<and> approved l ''a/t'' ''h1'')"
proof -
  let ?f = "ex_sealed_file\<lparr>lf_version := 1, lf_mac := []\<rparr>"
  have "lf_version ?f \<le> 1" "lf_mac ?f = []"
    "ex_hmac ''k'' (PayloadV3 False (lf_tasks ?f)) = Some ''k0''"
    by (simp_all add: ex_sealed_file_def ex_hmac_def)
  from legacy_file_is_accepted_and_sealed [where path = "''f''" and lf = ?f and hmac = ex_hmac
      and key = "''k''" and bs = "''k0''", OF this]
  have "\<exists>l. load_signed_lock ex_hmac True ''f'' (Parsed ?f) (Some ''k'') = Inr l \<and> approved l ''a/t'' ''h1''"
    by (auto simp: ex_sealed_file_def ex_record_def)
  moreover have "load_signed_lock ex_hmac True ''f'' (Parsed (ex_sealed_file\<lparr>lf_version := 3, lf_mac := []\<rparr>)) (Some ''k'')
     = Inr (discard_records ((new_lock ''f'' (Some ''k''))\<lparr>lk_tasks := [''a/t'' \<mapsto> ex_record],
              lk_disk := Some (ex_sealed_file\<lparr>lf_version := 3, lf_mac := []\<rparr>)\<rparr>))"
    by (simp add: load_signed_lock_def Let_def ex_sealed_file_def)
  ultimately show ?thesis by blast
qed

end
