(* ===== verification/ApprovalGate.thy ===== *)
theory ApprovalGate
  imports ApprovalLock TaskSpec
begin

text \<open>
  The approval gate, pkg/approval/gate.go. Its state is the record \<open>gate\<close>: the policy, the
  lock, the pending and admitted maps, and logs of the two effects it has on the rest of
  the daemon, the calls of the arm callback and of the pending hook. What a call reads
  from outside (the content hash of the task directory at this moment, the commit it sits
  at, whether arming and writing the lockfile succeed) is the record \<open>gate_env\<close>.

  \<open>Approve\<close> is not atomic: it reads the pending entry, records and arms without the gate's
  mutex, and takes the mutex again to clear the entry. The three parts are separate
  definitions, and the step relation \<open>gate_step\<close> interleaves them with the other
  operations.
\<close>

section \<open>State\<close>

record policy =
  gp_enabled :: bool
  gp_trusted_sources :: "string set"
  gp_trusted_tasks :: "task_id set"

text \<open>\<open>pe_cache\<close> is the address of the two caches allocated with the entry.\<close>

record pending_entry =
  pe_kinded :: kinded
  pe_hash :: string
  pe_commit :: string
  pe_remote :: string
  pe_base_commit :: string
  pe_enabled :: bool
  pe_cache :: nat

record gate =
  gt_policy :: policy
  gt_lock :: lock
  gt_pending :: "task_id \<rightharpoonup> pending_entry"
  gt_admitted :: "task_id \<rightharpoonup> kinded"
  gt_bootstrap :: bool
  gt_builtin_pinned :: bool
  gt_armed :: "kinded list"
  gt_notified :: "(task_id \<times> string) list"
  gt_commit_counts :: "nat \<rightharpoonup> int \<times> bool"
  gt_next_cache :: nat

record gate_env =
  ge_hash :: "kinded \<Rightarrow> string option"
  ge_commit :: "kinded \<Rightarrow> string \<times> string"
  ge_preview :: "(kinded \<Rightarrow> kinded) option"
  ge_arm_ok :: "kinded \<Rightarrow> bool"
  ge_write_ok :: bool
  ge_now :: time
  ge_hmac :: hmac_fn

datatype gate_error =
    NotPending task_id
  | EmptyReviewHash task_id
  | NoContentHash task_id
  | HashMismatch task_id
  | RecordFailed task_id lock_error
  | ArmFailed task_id

datatype fire_error = FirePending task_id | AwaitingDecision task_id | HashFailed task_id
  | ContentChanged task_id

section \<open>Trust\<close>

definition source_of :: "task_id \<Rightarrow> string" where
  "source_of tid = (case index_byte CHR ''/'' tid of
     Some i \<Rightarrow> if 0 < i then take i tid else [] | None \<Rightarrow> [])"

definition builtin_source :: string where
  "builtin_source = ''buildin''"

text \<open>The first four arms of \<open>Admit\<close>'s decision: approved whatever the content is.\<close>

definition trusted_by :: "gate \<Rightarrow> task_id \<Rightarrow> string option" where
  "trusted_by g tid =
     (if source_of tid = builtin_source \<and> \<not> gt_builtin_pinned g then Some ''builtin''
      else if tid \<in> gp_trusted_tasks (gt_policy g) then Some ''trusted-task''
      else if source_of tid \<in> gp_trusted_sources (gt_policy g) then Some ''trusted-source''
      else if \<not> gp_enabled (gt_policy g) then Some ''gate-disabled''
      else None)"

definition trusted :: "gate \<Rightarrow> task_id \<Rightarrow> bool" where
  "trusted g tid =
     (if source_of tid = builtin_source \<and> \<not> gt_builtin_pinned g then True
      else if tid \<in> gp_trusted_tasks (gt_policy g) then True
      else if source_of tid \<in> gp_trusted_sources (gt_policy g) then True
      else if \<not> gp_enabled (gt_policy g) then True
      else False)"

section \<open>Admit\<close>

definition clear_pending :: "task_id \<Rightarrow> gate \<Rightarrow> gate" where
  "clear_pending tid g = g\<lparr>gt_pending := (gt_pending g)(tid := None)\<rparr>"

definition arm_task :: "gate_env \<Rightarrow> kinded \<Rightarrow> gate \<Rightarrow> bool \<times> gate" where
  "arm_task env k g = (ge_arm_ok env k, g\<lparr>gt_armed := gt_armed g @ [k]\<rparr>)"

definition arm_result :: "gate_env \<Rightarrow> kinded \<Rightarrow> gate \<Rightarrow> bool \<times> gate_error option \<times> gate" where
  "arm_result env k g =
     (case arm_task env k g of (ok, g') \<Rightarrow>
        (True, if ok then None else Some (ArmFailed (task_id_of k)), g'))"

definition record_in_gate ::
  "gate_env \<Rightarrow> task_id \<Rightarrow> string \<Rightarrow> string \<Rightarrow> string \<Rightarrow> gate \<Rightarrow> lock_error option \<times> gate" where
  "record_in_gate env tid hash who commit g =
     (case record_approval (ge_hmac env) (ge_write_ok env) (ge_now env) tid hash who commit (gt_lock g)
      of (e, l) \<Rightarrow> (e, g\<lparr>gt_lock := l\<rparr>))"

text \<open>The common tail of \<open>Admit\<close>: keep the lock current, then arm. A lock write that
  fails is logged and does not keep the task from arming.\<close>

definition auto_approve ::
  "gate_env \<Rightarrow> kinded \<Rightarrow> string \<Rightarrow> string \<Rightarrow> gate \<Rightarrow> bool \<times> gate_error option \<times> gate" where
  "auto_approve env k hash who g =
     (let tid = task_id_of k;
          unchanged = approved (gt_lock g) tid hash;
          g1 = clear_pending tid g;
          g2 = (if hash = [] then g1
                else snd (record_in_gate env tid hash who
                            (if unchanged then [] else fst (ge_commit env k)) g1))
      in arm_result env k g2)"

definition resolved_enabled :: "gate_env \<Rightarrow> kinded \<Rightarrow> bool" where
  "resolved_enabled env k =
     (case ge_preview env of None \<Rightarrow> is_enabled k | Some f \<Rightarrow> is_enabled (f k))"

text \<open>The default arm of \<open>Admit\<close>: hold the task, and notify on a transition only.\<close>

definition hold_pending ::
  "gate_env \<Rightarrow> kinded \<Rightarrow> string \<Rightarrow> gate \<Rightarrow> bool \<times> gate_error option \<times> gate" where
  "hold_pending env k hash g =
     (let tid = task_id_of k;
          enabled = resolved_enabled env k;
          changed = (case gt_pending g tid of
             None \<Rightarrow> True
           | Some prev \<Rightarrow> pe_hash prev \<noteq> hash \<or> pe_enabled prev \<noteq> enabled);
          base = (case get_record (gt_lock g) tid of None \<Rightarrow> [] | Some rec \<Rightarrow> lr_commit rec);
          ent = \<lparr>pe_kinded = k, pe_hash = hash, pe_commit = fst (ge_commit env k),
                 pe_remote = snd (ge_commit env k), pe_base_commit = base, pe_enabled = enabled,
                 pe_cache = gt_next_cache g\<rparr>
      in (False, None,
          g\<lparr>gt_pending := (gt_pending g)(tid \<mapsto> ent),
            gt_next_cache := Suc (gt_next_cache g),
            gt_notified := gt_notified g @ (if changed then [(tid, hash)] else [])\<rparr>))"

definition observed_hash :: "gate_env \<Rightarrow> kinded \<Rightarrow> string" where
  "observed_hash env k = (case ge_hash env k of None \<Rightarrow> [] | Some h \<Rightarrow> h)"

definition admit :: "gate_env \<Rightarrow> kinded \<Rightarrow> gate \<Rightarrow> bool \<times> gate_error option \<times> gate" where
  "admit env k g0 =
     (let tid = task_id_of k;
          hash = observed_hash env k;
          g = g0\<lparr>gt_admitted := (gt_admitted g0)(tid \<mapsto> k)\<rparr>
      in case trusted_by g tid of
           Some who \<Rightarrow> auto_approve env k hash who g
         | None \<Rightarrow>
             if approved (gt_lock g) tid hash then arm_result env k (clear_pending tid g)
             else if gt_bootstrap g then auto_approve env k hash ''bootstrap'' g
             else hold_pending env k hash g)"

section \<open>Approve\<close>

definition pending_entry_for :: "gate \<Rightarrow> task_id \<Rightarrow> pending_entry option" where
  "pending_entry_for g tid = gt_pending g tid"

text \<open>\<open>wantHash\<close> is empty for the operator's own approval; \<open>who\<close> is its provenance.\<close>

definition approve_commit ::
  "gate_env \<Rightarrow> task_id \<Rightarrow> string \<Rightarrow> string \<Rightarrow> pending_entry \<Rightarrow> gate \<Rightarrow> gate_error option \<times> gate" where
  "approve_commit env tid wantHash who ent g =
     (if pe_hash ent = [] then (Some (NoContentHash tid), g)
      else if wantHash \<noteq> [] \<and> pe_hash ent \<noteq> wantHash then (Some (HashMismatch tid), g)
      else (case record_in_gate env tid (pe_hash ent) who (pe_commit ent) g of
              (Some e, g1) \<Rightarrow> (Some (RecordFailed tid e), g1)
            | (None, g1) \<Rightarrow>
                (case arm_task env (pe_kinded ent) g1 of
                   (False, g2) \<Rightarrow> (Some (ArmFailed tid), g2)
                 | (True, g2) \<Rightarrow> (None, g2))))"

definition approve_clear :: "task_id \<Rightarrow> pending_entry \<Rightarrow> gate \<Rightarrow> gate" where
  "approve_clear tid ent g =
     (case gt_pending g tid of
        Some cur \<Rightarrow> if pe_hash cur = pe_hash ent then clear_pending tid g else g
      | None \<Rightarrow> g)"

definition approve_with ::
  "gate_env \<Rightarrow> task_id \<Rightarrow> string \<Rightarrow> string \<Rightarrow> gate \<Rightarrow> (bool \<times> gate_error option) \<times> gate" where
  "approve_with env tid wantHash who g =
     (case pending_entry_for g tid of
        None \<Rightarrow> ((False, Some (NotPending tid)), g)
      | Some ent \<Rightarrow>
          (case approve_commit env tid wantHash who ent g of
             (Some e, g1) \<Rightarrow> ((pe_enabled ent, Some e), g1)
           | (None, g1) \<Rightarrow> ((pe_enabled ent, None), approve_clear tid ent g1)))"

definition approve :: "gate_env \<Rightarrow> task_id \<Rightarrow> gate \<Rightarrow> gate_error option \<times> gate" where
  "approve env tid g = (case approve_with env tid [] ''manual'' g of ((_, e), g') \<Rightarrow> (e, g'))"

definition approve_if_hash :: "gate_env \<Rightarrow> task_id \<Rightarrow> string \<Rightarrow> gate \<Rightarrow> gate_error option \<times> gate" where
  "approve_if_hash env tid hash g =
     (if hash = [] then (Some (EmptyReviewHash tid), g)
      else (case approve_with env tid hash ''token-link'' g of ((_, e), g') \<Rightarrow> (e, g')))"

definition approve_reporting ::
  "gate_env \<Rightarrow> task_id \<Rightarrow> gate \<Rightarrow> (bool \<times> gate_error option) \<times> gate" where
  "approve_reporting env tid g = approve_with env tid [] ''manual'' g"

section \<open>Removal, bootstrap, queries\<close>

definition forget :: "gate_env \<Rightarrow> task_id \<Rightarrow> gate \<Rightarrow> gate" where
  "forget env tid g =
     (let g1 = clear_pending tid g;
          g2 = g1\<lparr>gt_admitted := (gt_admitted g1)(tid := None)\<rparr>
      in g2\<lparr>gt_lock := snd (remove_record (ge_hmac env) (ge_write_ok env) tid (gt_lock g2))\<rparr>)"

definition set_bootstrap :: "bool \<Rightarrow> gate \<Rightarrow> gate" where
  "set_bootstrap on g = g\<lparr>gt_bootstrap := on\<rparr>"

definition finish_bootstrap :: "gate \<Rightarrow> bool \<times> gate" where
  "finish_bootstrap g = (gt_bootstrap g, g\<lparr>gt_bootstrap := False\<rparr>)"

definition is_pending :: "gate \<Rightarrow> task_id \<Rightarrow> bool" where
  "is_pending g tid = (gt_pending g tid \<noteq> None)"

definition pending_ids :: "gate \<Rightarrow> task_id list" where
  "pending_ids g = sorted_list_of_set (dom (gt_pending g))"

definition approval_range :: "pending_entry \<Rightarrow> string \<times> string" where
  "approval_range ent = (pe_base_commit ent, pe_commit ent)"

text \<open>\<open>Pending\<close>'s snapshots: hash, enabled flag and commit range of one generation.\<close>

definition pending_snapshot :: "gate \<Rightarrow> task_id \<Rightarrow> (string \<times> bool \<times> string \<times> string) option" where
  "pending_snapshot g tid =
     (case pending_entry_for g tid of
        None \<Rightarrow> None
      | Some ent \<Rightarrow> Some (pe_hash ent, pe_enabled ent, approval_range ent))"

definition pending_info :: "gate \<Rightarrow> task_id \<Rightarrow> string \<times> bool \<times> bool" where
  "pending_info g tid =
     (case pending_snapshot g tid of None \<Rightarrow> ([], False, False) | Some (h, e, _) \<Rightarrow> (h, e, True))"

definition task_dir_of :: "kinded \<Rightarrow> path" where
  "task_dir_of k = (case k of KSpec s \<Rightarrow> sp_task_dir s | KPipeline p \<Rightarrow> pl_task_dir p)"

text \<open>
  The decoration of a pending generation with its number of commits: \<open>walk\<close> is the git
  walk (\<open>None\<close> when it fails), run at most once for each allocated cache.
\<close>

definition commit_count ::
  "(path \<Rightarrow> string \<Rightarrow> string \<Rightarrow> (int \<times> bool) option) \<Rightarrow> path \<Rightarrow> string \<Rightarrow> string \<Rightarrow> nat \<Rightarrow> gate \<Rightarrow>
   (int \<times> bool) \<times> gate" where
  "commit_count walk dir from_c to_c cache g =
     (if dir = [] \<or> from_c = [] \<or> to_c = [] then ((-1, False), g)
      else (case gt_commit_counts g cache of
              Some r \<Rightarrow> (r, g)
            | None \<Rightarrow>
                (let r = (case walk dir from_c to_c of None \<Rightarrow> (-1, False) | Some r \<Rightarrow> r)
                 in (r, g\<lparr>gt_commit_counts := (gt_commit_counts g)(cache \<mapsto> r)\<rparr>))))"

definition pending_approval ::
  "(path \<Rightarrow> string \<Rightarrow> string \<Rightarrow> (int \<times> bool) option) \<Rightarrow> gate \<Rightarrow> task_id \<Rightarrow>
   (string \<times> (string \<times> string) \<times> int \<times> bool) option \<times> gate" where
  "pending_approval walk g tid =
     (case pending_entry_for g tid of
        None \<Rightarrow> (None, g)
      | Some ent \<Rightarrow>
          (let (from_c, to_c) = approval_range ent;
               (r, g') = commit_count walk (task_dir_of (pe_kinded ent)) from_c to_c (pe_cache ent) g
           in (Some (pe_hash ent, (from_c, to_c), r), g')))"

section \<open>FireGuard\<close>

definition fire_guard :: "gate_env \<Rightarrow> task_id \<Rightarrow> gate \<Rightarrow> fire_error option" where
  "fire_guard env tid g =
     (if is_pending g tid then Some (FirePending tid)
      else if trusted g tid then None
      else (case gt_admitted g tid of
              None \<Rightarrow> Some (AwaitingDecision tid)
            | Some k \<Rightarrow>
                (case ge_hash env k of
                   None \<Rightarrow> Some (HashFailed tid)
                 | Some live \<Rightarrow>
                     if \<not> approved (gt_lock g) tid live then Some (ContentChanged tid) else None)))"

end
