(* ===== verification/GateSafety.thy ===== *)
theory GateSafety
  imports ApprovalGate
begin

text \<open>
  What the gate guarantees. The first part gives the effect of each operation on the lock
  as a sequence of the store's operations, so that the contract \<open>approval_store\<close> applies.
  The second part is the step relation, in which approvals in flight interleave with every
  other operation, and the theorem that nothing untrusted fires unless an operator approved
  exactly the content that is about to run.
\<close>

section \<open>Frame facts\<close>

lemma trusted_iff: "trusted g tid \<longleftrightarrow> trusted_by g tid \<noteq> None"
  by (simp add: trusted_def trusted_by_def)

lemma trusted_cong:
  "gt_policy g' = gt_policy g \<Longrightarrow> gt_builtin_pinned g' = gt_builtin_pinned g \<Longrightarrow>
   trusted g' tid = trusted g tid"
  by (simp add: trusted_def)

lemmas gate_op_defs = clear_pending_def arm_task_def arm_result_def record_in_gate_def
  auto_approve_def hold_pending_def admit_def approve_commit_def approve_clear_def
  forget_def finish_bootstrap_def commit_count_def Let_def

lemma clear_pending_simps [simp]:
  "gt_policy (clear_pending tid g) = gt_policy g"
  "gt_lock (clear_pending tid g) = gt_lock g"
  "gt_pending (clear_pending tid g) = (gt_pending g)(tid := None)"
  "gt_admitted (clear_pending tid g) = gt_admitted g"
  "gt_bootstrap (clear_pending tid g) = gt_bootstrap g"
  "gt_builtin_pinned (clear_pending tid g) = gt_builtin_pinned g"
  "gt_armed (clear_pending tid g) = gt_armed g"
  "gt_notified (clear_pending tid g) = gt_notified g"
  by (simp_all add: clear_pending_def)

lemma record_in_gate_simps [simp]:
  "gt_policy (snd (record_in_gate env tid h who c g)) = gt_policy g"
  "gt_lock (snd (record_in_gate env tid h who c g)) =
     lock_rcd (ge_hmac env, ge_write_ok env, ge_now env, who, c) tid h (gt_lock g)"
  "gt_pending (snd (record_in_gate env tid h who c g)) = gt_pending g"
  "gt_admitted (snd (record_in_gate env tid h who c g)) = gt_admitted g"
  "gt_bootstrap (snd (record_in_gate env tid h who c g)) = gt_bootstrap g"
  "gt_builtin_pinned (snd (record_in_gate env tid h who c g)) = gt_builtin_pinned g"
  "gt_armed (snd (record_in_gate env tid h who c g)) = gt_armed g"
  "gt_notified (snd (record_in_gate env tid h who c g)) = gt_notified g"
  by (simp_all add: record_in_gate_def lock_rcd_def split: prod.splits)

lemma arm_result_simps [simp]:
  "fst (arm_result env k g) = True"
  "snd (snd (arm_result env k g)) = g\<lparr>gt_armed := gt_armed g @ [k]\<rparr>"
  by (simp_all add: arm_result_def arm_task_def)

lemma auto_approve_gate:
  "snd (snd (auto_approve env k h who g)) =
     (let g1 = clear_pending (task_id_of k) g;
          c = (if approved (gt_lock g) (task_id_of k) h then [] else fst (ge_commit env k));
          g2 = (if h = [] then g1 else snd (record_in_gate env (task_id_of k) h who c g1))
      in g2\<lparr>gt_armed := gt_armed g2 @ [k]\<rparr>)"
  by (simp add: auto_approve_def Let_def)

lemma auto_approve_armed [simp]: "fst (auto_approve env k h who g) = True"
  by (simp add: auto_approve_def Let_def)

lemma hold_pending_result:
  "fst (hold_pending env k h g) = False"
  "fst (snd (hold_pending env k h g)) = None"
  by (simp_all add: hold_pending_def Let_def)

section \<open>Effects on the lock\<close>

definition admit_store_ops :: "gate_env \<Rightarrow> kinded \<Rightarrow> gate \<Rightarrow> store_ctx store_op list" where
  "admit_store_ops env k g =
     (let tid = task_id_of k; h = observed_hash env k;
          c = (if approved (gt_lock g) tid h then [] else fst (ge_commit env k));
          rec = (\<lambda>who. if h = [] then []
                       else [RecordOp (ge_hmac env, ge_write_ok env, ge_now env, who, c) tid h])
      in case trusted_by g tid of
           Some who \<Rightarrow> rec who
         | None \<Rightarrow> if approved (gt_lock g) tid h \<or> \<not> gt_bootstrap g then [] else rec ''bootstrap'')"

lemma trusted_by_admitted [simp]: "trusted_by (g\<lparr>gt_admitted := m\<rparr>) tid = trusted_by g tid"
  by (simp add: trusted_by_def)

lemma admit_lock:
  "gt_lock (snd (snd (admit env k g))) = store_run lock_rcd lock_rmv (admit_store_ops env k g) (gt_lock g)"
  by (simp add: admit_def admit_store_ops_def Let_def auto_approve_gate store_run_def
      hold_pending_def split: option.splits)

lemma approve_commit_gate:
  "snd (approve_commit env tid want who ent g) =
     (if \<not> (pe_hash ent \<noteq> [] \<and> (want = [] \<or> pe_hash ent = want)) then g
      else let r = record_in_gate env tid (pe_hash ent) who (pe_commit ent) g
           in if fst r = None then (snd r)\<lparr>gt_armed := gt_armed (snd r) @ [pe_kinded ent]\<rparr> else snd r)"
  by (cases "record_in_gate env tid (pe_hash ent) who (pe_commit ent) g")
    (auto simp: approve_commit_def arm_task_def split: option.splits bool.splits)

lemma approve_commit_lock:
  "approve_commit env tid want who ent g = (e, g') \<Longrightarrow>
   gt_lock g' = (if pe_hash ent = [] \<or> want \<noteq> [] \<and> pe_hash ent \<noteq> want then gt_lock g
                 else lock_rcd (ge_hmac env, ge_write_ok env, ge_now env, who, pe_commit ent)
                        tid (pe_hash ent) (gt_lock g))"
  using approve_commit_gate [of env tid want who ent g] by (auto simp: Let_def)

lemma approve_commit_frame:
  assumes "approve_commit env tid want who ent g = (e, g')"
  shows "gt_policy g' = gt_policy g" "gt_builtin_pinned g' = gt_builtin_pinned g"
    "gt_bootstrap g' = gt_bootstrap g" "gt_pending g' = gt_pending g"
    "gt_admitted g' = gt_admitted g" "gt_notified g' = gt_notified g"
  using approve_commit_gate [of env tid want who ent g] assms by (simp_all add: Let_def)

lemma approve_clear_frame [simp]:
  "gt_policy (approve_clear tid ent g) = gt_policy g"
  "gt_builtin_pinned (approve_clear tid ent g) = gt_builtin_pinned g"
  "gt_bootstrap (approve_clear tid ent g) = gt_bootstrap g"
  "gt_lock (approve_clear tid ent g) = gt_lock g"
  "gt_admitted (approve_clear tid ent g) = gt_admitted g"
  by (simp_all add: approve_clear_def split: option.splits)

lemma admit_frame [simp]:
  "gt_policy (snd (snd (admit env k g))) = gt_policy g"
  "gt_builtin_pinned (snd (snd (admit env k g))) = gt_builtin_pinned g"
  "gt_bootstrap (snd (snd (admit env k g))) = gt_bootstrap g"
  "gt_admitted (snd (snd (admit env k g))) = (gt_admitted g)(task_id_of k \<mapsto> k)"
  by (auto simp: admit_def Let_def auto_approve_gate hold_pending_def split: option.splits)

lemma forget_frame [simp]:
  "gt_policy (forget env tid g) = gt_policy g"
  "gt_builtin_pinned (forget env tid g) = gt_builtin_pinned g"
  "gt_bootstrap (forget env tid g) = gt_bootstrap g"
  "gt_lock (forget env tid g) = lock_rmv (ge_hmac env, ge_write_ok env, ge_now env, [], []) tid (gt_lock g)"
  by (simp_all add: forget_def Let_def lock_rmv_def)

lemma commit_count_frame:
  "commit_count walk dir a b c g = (r, g') \<Longrightarrow>
   gt_policy g' = gt_policy g \<and> gt_lock g' = gt_lock g \<and> gt_pending g' = gt_pending g \<and>
   gt_admitted g' = gt_admitted g \<and> gt_bootstrap g' = gt_bootstrap g \<and>
   gt_builtin_pinned g' = gt_builtin_pinned g"
  by (auto simp: commit_count_def Let_def split: if_splits option.splits)

section \<open>Interleaved operations\<close>

text \<open>
  \<open>gs_inflight\<close> holds the approvals that have read their pending entry, \<open>gs_clearing\<close> those
  that have recorded and armed and not yet cleared it. \<open>gs_decisions\<close> is a ghost field: the
  (task, hash) pairs whose approval passed the checks of \<open>approve\<close>.
\<close>

record gate_sys =
  gs_gate :: gate
  gs_inflight :: "(task_id \<times> string \<times> string \<times> pending_entry) list"
  gs_clearing :: "(task_id \<times> pending_entry) list"
  gs_decisions :: "(task_id \<times> string) list"

definition start_sys :: "gate \<Rightarrow> gate_sys" where
  "start_sys g = \<lparr>gs_gate = g, gs_inflight = [], gs_clearing = [], gs_decisions = []\<rparr>"

definition decided :: "string \<Rightarrow> pending_entry \<Rightarrow> bool" where
  "decided want ent = (pe_hash ent \<noteq> [] \<and> (want = [] \<or> pe_hash ent = want))"

inductive gate_step :: "gate_sys \<Rightarrow> gate_sys \<Rightarrow> bool" where
  step_admit: "gate_step s (s\<lparr>gs_gate := snd (snd (admit env k (gs_gate s)))\<rparr>)"
| step_forget: "gate_step s (s\<lparr>gs_gate := forget env tid (gs_gate s)\<rparr>)"
| step_finish_bootstrap: "gate_step s (s\<lparr>gs_gate := snd (finish_bootstrap (gs_gate s))\<rparr>)"
| step_render: "commit_count walk dir a b c (gs_gate s) = (r, g') \<Longrightarrow>
    gate_step s (s\<lparr>gs_gate := g'\<rparr>)"
| step_approve_begin: "pending_entry_for (gs_gate s) tid = Some ent \<Longrightarrow>
    gate_step s (s\<lparr>gs_inflight := (tid, want, who, ent) # gs_inflight s\<rparr>)"
| step_approve_commit: "(tid, want, who, ent) \<in> set (gs_inflight s) \<Longrightarrow>
    approve_commit env tid want who ent (gs_gate s) = (e, g') \<Longrightarrow>
    gate_step s (s\<lparr>gs_gate := g',
       gs_inflight := remove1 (tid, want, who, ent) (gs_inflight s),
       gs_clearing := (if e = None then (tid, ent) # gs_clearing s else gs_clearing s),
       gs_decisions := (if decided want ent then (tid, pe_hash ent) # gs_decisions s
                        else gs_decisions s)\<rparr>)"
| step_approve_clear: "(tid, ent) \<in> set (gs_clearing s) \<Longrightarrow>
    gate_step s (s\<lparr>gs_gate := approve_clear tid ent (gs_gate s),
       gs_clearing := remove1 (tid, ent) (gs_clearing s)\<rparr>)"

inductive gate_reachable :: "gate_sys \<Rightarrow> gate_sys \<Rightarrow> bool" for s0 where
  gate_start: "gate_reachable s0 s0"
| gate_next: "gate_reachable s0 s \<Longrightarrow> gate_step s t \<Longrightarrow> gate_reachable s0 t"

inductive_cases gate_step_elim: "gate_step s t"

text \<open>The invariant: trust never changes, bootstrap never starts, and every approved hash of
  an untrusted task was approved at the start or decided by an operator.\<close>

definition gate_inv :: "gate \<Rightarrow> gate_sys \<Rightarrow> bool" where
  "gate_inv g0 s \<longleftrightarrow>
     gt_policy (gs_gate s) = gt_policy g0 \<and>
     gt_builtin_pinned (gs_gate s) = gt_builtin_pinned g0 \<and>
     \<not> gt_bootstrap (gs_gate s) \<and>
     (\<forall>tid h. \<not> trusted g0 tid \<longrightarrow> approved (gt_lock (gs_gate s)) tid h \<longrightarrow>
        approved (gt_lock g0) tid h \<or> (tid, h) \<in> set (gs_decisions s))"

lemma admit_approves_nothing_untrusted:
  assumes "\<not> gt_bootstrap g" "\<not> trusted g tid" "approved (gt_lock (snd (snd (admit env k g)))) tid h"
  shows "approved (gt_lock g) tid h"
proof -
  from assms(3) have "approved (store_run lock_rcd lock_rmv (admit_store_ops env k g) (gt_lock g)) tid h"
    by (simp only: admit_lock)
  then have "approved (gt_lock g) tid h \<or> (\<exists>r. RecordOp r tid h \<in> set (admit_store_ops env k g))"
    by (rule lck.ok_provenance)
  moreover have "RecordOp r tid h \<notin> set (admit_store_ops env k g)" for r
    using assms(1,2) by (auto simp: admit_store_ops_def Let_def trusted_iff split: option.splits)
  ultimately show ?thesis by blast
qed

lemma gate_inv_frame:
  assumes "gate_inv g0 s" "gt_policy g' = gt_policy (gs_gate s)"
    "gt_builtin_pinned g' = gt_builtin_pinned (gs_gate s)" "\<not> gt_bootstrap g'"
    "\<And>tid h. \<not> trusted g0 tid \<Longrightarrow> approved (gt_lock g') tid h \<Longrightarrow>
        approved (gt_lock (gs_gate s)) tid h \<or> (tid, h) \<in> set ds"
    "gs_gate t = g'" "gs_decisions t = ds" "set (gs_decisions s) \<subseteq> set ds"
  shows "gate_inv g0 t"
  using assms unfolding gate_inv_def by (metis subsetD)

lemma gate_step_inv:
  assumes "gate_step s t" "gate_inv g0 s"
  shows "gate_inv g0 t"
proof -
  have nb: "\<not> gt_bootstrap (gs_gate s)"
    using assms(2) by (simp add: gate_inv_def)
  have tr: "trusted (gs_gate s) tid = trusted g0 tid" for tid
    by (rule trusted_cong) (use assms(2) in \<open>simp_all add: gate_inv_def\<close>)
  from assms(1) show ?thesis
  proof cases
    case (step_admit env k)
    show ?thesis
      by (rule gate_inv_frame [OF assms(2)])
        (use step_admit nb tr admit_approves_nothing_untrusted in auto)
  next
    case (step_forget env tid)
    show ?thesis
      by (rule gate_inv_frame [OF assms(2)]) (use step_forget nb in \<open>auto simp: approved_rmv\<close>)
  next
    case step_finish_bootstrap
    show ?thesis
      by (rule gate_inv_frame [OF assms(2)])
        (use step_finish_bootstrap in \<open>auto simp: finish_bootstrap_def\<close>)
  next
    case (step_render walk dir a b c r g')
    show ?thesis
      by (rule gate_inv_frame [OF assms(2)]) (use step_render nb commit_count_frame in \<open>auto dest!: commit_count_frame\<close>)
  next
    case (step_approve_begin tid ent want who)
    show ?thesis
      by (rule gate_inv_frame [OF assms(2)]) (use step_approve_begin nb in auto)
  next
    case (step_approve_commit tid want who ent env e g')
    note fr = approve_commit_frame [OF step_approve_commit(3)]
    show ?thesis
      by (rule gate_inv_frame [OF assms(2)])
        (use step_approve_commit fr nb approve_commit_lock [OF step_approve_commit(3)] in
          \<open>auto simp: approved_rcd decided_def split: if_splits\<close>)
  next
    case (step_approve_clear tid ent)
    show ?thesis
      by (rule gate_inv_frame [OF assms(2)]) (use step_approve_clear nb in auto)
  qed
qed

lemma gate_reachable_inv:
  "gate_reachable s0 s \<Longrightarrow> gate_inv g0 s0 \<Longrightarrow> gate_inv g0 s"
  by (induction rule: gate_reachable.induct) (auto intro: gate_step_inv)

lemma gate_inv_start: "\<not> gt_bootstrap g \<Longrightarrow> gate_inv g (start_sys g)"
  by (simp add: gate_inv_def start_sys_def)

lemma fire_guard_passes:
  "fire_guard env tid g = None \<Longrightarrow> \<not> trusted g tid \<Longrightarrow>
   \<exists>k h. gt_admitted g tid = Some k \<and> ge_hash env k = Some h \<and> approved (gt_lock g) tid h \<and> \<not> is_pending g tid"
  by (auto simp: fire_guard_def split: if_splits option.splits)

section \<open>A concrete gate\<close>

definition ex_task :: kinded where
  "ex_task = KSpec (empty_spec\<lparr>sp_id := ''src/t'', sp_enabled := True\<rparr>)"

definition ex_env :: gate_env where
  "ex_env = \<lparr>ge_hash = (\<lambda>_. Some ''h1''), ge_commit = (\<lambda>_. (''c1'', ''r'')), ge_preview = None,
     ge_arm_ok = (\<lambda>_. True), ge_write_ok = True, ge_now = 0, ge_hmac = ex_hmac\<rparr>"

definition ex_gate :: gate where
  "ex_gate = \<lparr>gt_policy = \<lparr>gp_enabled = True, gp_trusted_sources = {}, gp_trusted_tasks = {}\<rparr>,
     gt_lock = new_lock ''f'' None, gt_pending = Map.empty, gt_admitted = Map.empty,
     gt_bootstrap = False, gt_builtin_pinned = False, gt_armed = [], gt_notified = [],
     gt_commit_counts = Map.empty, gt_next_cache = 0\<rparr>"

definition ex_entry :: pending_entry where
  "ex_entry = \<lparr>pe_kinded = ex_task, pe_hash = ''h1'', pe_commit = ''c1'', pe_remote = ''r'',
     pe_base_commit = [], pe_enabled = True, pe_cache = 0\<rparr>"

definition ex_held :: gate where
  "ex_held = ex_gate\<lparr>gt_pending := [''src/t'' \<mapsto> ex_entry], gt_admitted := [''src/t'' \<mapsto> ex_task],
     gt_next_cache := 1, gt_notified := [(''src/t'', ''h1'')]\<rparr>"

lemmas ex_defs = ex_task_def ex_env_def ex_gate_def ex_entry_def ex_held_def ex_hmac_def
  empty_spec_def new_lock_def

lemma ex_source [simp]: "source_of ''src/t'' = ''src''"
  by (simp add: source_of_def)

lemma ex_untrusted [simp]: "\<not> trusted ex_gate ''src/t''"
  by (simp add: trusted_def ex_gate_def builtin_source_def)

lemma ex_entry_hash [simp]: "pe_hash ex_entry = ''h1''" "decided ''h1'' ex_entry"
  by (simp_all add: ex_entry_def decided_def)

lemma ex_admit: "admit ex_env ex_task ex_gate = (False, None, ex_held)"
  by (simp add: ex_defs admit_def observed_hash_def trusted_by_def builtin_source_def approved_def
      hold_pending_def resolved_enabled_def get_record_def Let_def)

section \<open>Properties of the gate\<close>

text \<open>C1. Deploy guard: take any interleaving of admits, removals, renders and approvals in
  flight, starting from a gate that is not bootstrapping. If FireGuard lets a task fire that
  no trust rule covers, then the content hash of the task directory at that moment is one the
  lock approved at the start, or one an operator's approval named.\<close>

theorem untrusted_fire_was_approved:
  assumes "gate_reachable (start_sys g0) s" "\<not> gt_bootstrap g0" "\<not> trusted g0 tid"
    and "fire_guard env tid (gs_gate s) = None"
  shows "\<exists>k live. gt_admitted (gs_gate s) tid = Some k \<and> ge_hash env k = Some live \<and>
    (approved (gt_lock g0) tid live \<or> (tid, live) \<in> set (gs_decisions s))"
proof -
  have inv: "gate_inv g0 s"
    using assms(1) gate_inv_start [OF assms(2)] by (rule gate_reachable_inv)
  then have "trusted (gs_gate s) tid = trusted g0 tid"
    by (intro trusted_cong) (simp_all add: gate_inv_def)
  with fire_guard_passes [OF assms(4)] assms(3) obtain k h where
    "gt_admitted (gs_gate s) tid = Some k" "ge_hash env k = Some h"
    "approved (gt_lock (gs_gate s)) tid h"
    by blast
  with inv assms(3) show ?thesis unfolding gate_inv_def by blast
qed

definition ex_recorded :: gate where
  "ex_recorded = snd (approve_commit ex_env ''src/t'' ''h1'' ''token-link'' ex_entry ex_held)"

definition ex_approved_sys :: gate_sys where
  "ex_approved_sys = \<lparr>gs_gate = approve_clear ''src/t'' ex_entry ex_recorded, gs_inflight = [],
     gs_clearing = [], gs_decisions = [(''src/t'', ''h1'')]\<rparr>"

lemma ex_commit: "approve_commit ex_env ''src/t'' ''h1'' ''token-link'' ex_entry ex_held = (None, ex_recorded)"
  by (simp add: ex_recorded_def ex_defs approve_commit_def record_in_gate_def record_approval_def
      save_def arm_task_def)

lemma ex_approved_reachable: "gate_reachable (start_sys ex_gate) ex_approved_sys"
proof -
  let ?s0 = "start_sys ex_gate"
  let ?s1 = "?s0\<lparr>gs_gate := ex_held\<rparr>"
  let ?a = "(''src/t'', ''h1'', ''token-link'', ex_entry)"
  let ?s2 = "?s1\<lparr>gs_inflight := [?a]\<rparr>"
  let ?s3 = "?s1\<lparr>gs_gate := ex_recorded, gs_clearing := [(''src/t'', ex_entry)],
     gs_decisions := [(''src/t'', ''h1'')]\<rparr>"
  have s1: "gate_step ?s0 ?s1"
    using step_admit [of ?s0 ex_env ex_task] by (simp add: start_sys_def ex_admit)
  have s2: "gate_step ?s1 ?s2"
    using step_approve_begin [of ?s1 "''src/t''" ex_entry "''h1''" "''token-link''"]
    by (simp add: start_sys_def pending_entry_for_def ex_held_def)
  have s3: "gate_step ?s2 ?s3"
    using step_approve_commit [of "''src/t''" "''h1''" "''token-link''" ex_entry ?s2 ex_env None ex_recorded]
    by (simp add: start_sys_def ex_commit)
  have s4: "gate_step ?s3 ex_approved_sys"
    using step_approve_clear [of "''src/t''" ex_entry ?s3] by (simp add: start_sys_def ex_approved_sys_def)
  show ?thesis
    by (rule gate_next [OF gate_next [OF gate_next [OF gate_next [OF gate_start s1] s2] s3] s4])
qed

theorem untrusted_fire_was_approved_witness:
  "fire_guard ex_env ''src/t'' (gs_gate ex_approved_sys) = None \<and> \<not> trusted ex_gate ''src/t'' \<and>
   (\<exists>k live. gt_admitted (gs_gate ex_approved_sys) ''src/t'' = Some k \<and> ge_hash ex_env k = Some live \<and>
     (''src/t'', live) \<in> set (gs_decisions ex_approved_sys))"
proof -
  note fr = approve_commit_frame [OF ex_commit] and lk = approve_commit_lock [OF ex_commit]
  let ?g = "gs_gate ex_approved_sys"
  have "gt_pending ?g ''src/t'' = None"
    by (simp add: ex_approved_sys_def approve_clear_def fr) (simp add: ex_held_def)
  moreover have "gt_admitted ?g ''src/t'' = Some ex_task"
    by (simp add: ex_approved_sys_def fr) (simp add: ex_held_def)
  moreover have "approved (gt_lock ?g) ''src/t'' ''h1''"
    by (simp add: ex_approved_sys_def lk approved_rcd)
  moreover have "ge_hash ex_env ex_task = Some ''h1''"
    by (simp add: ex_env_def)
  ultimately have fire: "fire_guard ex_env ''src/t'' ?g = None"
    by (simp add: fire_guard_def is_pending_def)
  have "\<not> gt_bootstrap ex_gate" by (simp add: ex_gate_def)
  from untrusted_fire_was_approved [OF ex_approved_reachable this ex_untrusted fire]
  have "\<exists>k live. gt_admitted (gs_gate ex_approved_sys) ''src/t'' = Some k \<and> ge_hash ex_env k = Some live \<and>
     (approved (gt_lock ex_gate) ''src/t'' live \<or> (''src/t'', live) \<in> set (gs_decisions ex_approved_sys))" .
  moreover have "\<not> approved (gt_lock ex_gate) ''src/t'' h" for h
    by (simp add: ex_gate_def new_lock_def approved_def)
  ultimately show ?thesis using fire by auto
qed


definition ex_env2 :: gate_env where
  "ex_env2 = ex_env\<lparr>ge_hash := (\<lambda>_. Some ''h2'')\<rparr>"


lemma approve_commit_ok:
  assumes "approve_commit env tid want who ent g = (None, g')"
  shows "pe_hash ent \<noteq> [] \<and> (want = [] \<or> pe_hash ent = want) \<and> gt_armed g' = gt_armed g @ [pe_kinded ent]"
proof -
  have d: "pe_hash ent \<noteq> [] \<and> (want = [] \<or> pe_hash ent = want)"
    using assms by (auto simp: approve_commit_def split: if_splits)
  moreover have "fst (record_in_gate env tid (pe_hash ent) who (pe_commit ent) g) = None"
    using assms d by (auto simp: approve_commit_def split: prod.splits option.splits if_splits)
  ultimately show ?thesis
    using approve_commit_gate [of env tid want who ent g] assms by (simp add: Let_def)
qed

lemma approve_if_hash_ok:
  assumes "approve_if_hash env tid h g = (None, g')"
  shows "\<exists>ent. pending_entry_for g tid = Some ent \<and> pe_hash ent = h \<and> approved (gt_lock g') tid h \<and>
    gt_armed g' = gt_armed g @ [pe_kinded ent] \<and> \<not> is_pending g' tid"
proof -
  obtain ent g1 where c: "h \<noteq> []" "pending_entry_for g tid = Some ent"
    "approve_commit env tid h ''token-link'' ent g = (None, g1)" "g' = approve_clear tid ent g1"
    using assms by (auto simp: approve_if_hash_def approve_with_def split: if_splits option.splits prod.splits)
  note ok = approve_commit_ok [OF c(3)] and fr = approve_commit_frame [OF c(3)]
  have "approved (gt_lock g1) tid h"
    using approve_commit_lock [OF c(3)] ok c(1) by (auto simp: approved_rcd)
  then show ?thesis
    using ok fr c by (auto simp: approve_clear_def is_pending_def pending_entry_for_def split: option.splits)
qed

lemma approve_if_hash_frame:
  assumes "approve_if_hash env tid h g = (r, g')" "u \<noteq> tid"
  shows "approved (gt_lock g') u h' = approved (gt_lock g) u h'" "gt_pending g' u = gt_pending g u"
proof -
  have "approved (gt_lock g1) u h' = approved (gt_lock g) u h' \<and> gt_pending g1 u = gt_pending g u"
    if "approve_commit env tid h who ent g = (e, g1)" for who ent e g1
    using approve_commit_lock [OF that] approve_commit_frame [OF that] assms(2) by (simp add: approved_rcd)
  then show "approved (gt_lock g') u h' = approved (gt_lock g) u h'" "gt_pending g' u = gt_pending g u"
    using assms by (auto simp: approve_if_hash_def approve_with_def approve_clear_def
        split: if_splits option.splits prod.splits)
qed

text \<open>C3. A token-link approval binds to the reviewed hash: it succeeds only for a pending
  entry with exactly that hash, which it then approves, arms and releases; for any other
  pending hash it fails and changes nothing. In every case no other task's approval or hold
  changes.\<close>

theorem approve_if_hash_binds:
  assumes "approve_if_hash env tid h g = (r, g')"
  shows "(r = None \<longrightarrow> (\<exists>ent. pending_entry_for g tid = Some ent \<and> pe_hash ent = h \<and>
       approved (gt_lock g') tid h \<and> gt_armed g' = gt_armed g @ [pe_kinded ent] \<and> \<not> is_pending g' tid)) \<and>
    ((\<forall>ent. pending_entry_for g tid = Some ent \<longrightarrow> pe_hash ent \<noteq> h) \<longrightarrow> r \<noteq> None \<and> g' = g) \<and>
    (\<forall>u h'. u \<noteq> tid \<longrightarrow> approved (gt_lock g') u h' = approved (gt_lock g) u h' \<and>
       pending_entry_for g' u = pending_entry_for g u)"
proof -
  have "r \<noteq> None \<and> g' = g" if "\<forall>ent. pending_entry_for g tid = Some ent \<longrightarrow> pe_hash ent \<noteq> h"
    using assms that
    by (auto simp: approve_if_hash_def approve_with_def approve_commit_def split: if_splits option.splits)
  then show ?thesis
    using approve_if_hash_ok [of env tid h g g'] approve_if_hash_frame [OF assms] assms
    by (auto simp: pending_entry_for_def)
qed

theorem approve_if_hash_binds_witness:
  "fst (approve_if_hash ex_env ''src/t'' ''h1'' ex_held) = None \<and>
   approved (gt_lock (snd (approve_if_hash ex_env ''src/t'' ''h1'' ex_held))) ''src/t'' ''h1'' \<and>
   snd (approve_if_hash ex_env ''src/t'' ''h2'' ex_held) = ex_held"
proof -
  have p: "pending_entry_for ex_held ''src/t'' = Some ex_entry"
    by (simp add: pending_entry_for_def ex_held_def)
  have ok: "fst (approve_if_hash ex_env ''src/t'' ''h1'' ex_held) = None"
    using ex_commit p by (simp add: approve_if_hash_def approve_with_def)
  note b = approve_if_hash_binds [of ex_env "''src/t''" _ ex_held, OF surjective_pairing]
  have "pe_hash ex_entry = ''h1''" by (simp add: ex_entry_def)
  with b [of "''h1''"] b [of "''h2''"] ok p show ?thesis by auto
qed


lemma save_unwritable: "\<exists>e. save hmac False l = (Some e, l)"
  by (auto simp: save_def Let_def split: option.splits)

lemma admit_armed:
  "ge_hash env k = Some h \<Longrightarrow>
   fst (admit env k g) \<longleftrightarrow> trusted g (task_id_of k) \<or> approved (gt_lock g) (task_id_of k) h \<or> gt_bootstrap g"
  by (auto simp: admit_def observed_hash_def Let_def hold_pending_result trusted_iff split: option.splits)

lemma armed_not_pending:
  "ge_hash env k = Some h \<Longrightarrow> fst (admit env k g) \<Longrightarrow>
   gt_pending (snd (snd (admit env k g))) (task_id_of k) = None"
  by (auto simp: admit_def observed_hash_def Let_def auto_approve_gate hold_pending_result trusted_iff
      split: option.splits if_splits)

lemma armed_approved:
  "ge_hash env k = Some h \<Longrightarrow> h \<noteq> [] \<Longrightarrow> fst (admit env k g) \<Longrightarrow> \<not> trusted g (task_id_of k) \<Longrightarrow>
   approved (gt_lock (snd (snd (admit env k g)))) (task_id_of k) h"
  by (auto simp: admit_armed admit_lock admit_store_ops_def observed_hash_def Let_def trusted_iff
      store_run_def approved_rcd split: option.splits)

lemma approved_admit_fires:
  assumes "ge_hash env k = Some h" "h \<noteq> []" "admit env k g = (armed, e, g')"
  shows "fire_guard env (task_id_of k) g' = None \<longleftrightarrow> armed"
proof -
  have g': "g' = snd (snd (admit env k g))" "armed = fst (admit env k g)" using assms(3) by auto
  have tr: "trusted g' tid = trusted g tid" for tid by (rule trusted_cong) (simp_all add: g')
  have ad: "gt_admitted g' (task_id_of k) = Some k" by (simp add: g')
  show ?thesis
  proof (cases armed)
    case True
    then show ?thesis
      using armed_not_pending [OF assms(1), of g] armed_approved [OF assms(1,2), of g] ad assms(1) tr
      by (auto simp: g' fire_guard_def is_pending_def)
  next
    case False
    then have "is_pending g' (task_id_of k)"
      using admit_armed [OF assms(1), of g] assms(1)
      by (auto simp: g' admit_def Let_def hold_pending_def trusted_iff is_pending_def split: option.splits)
    with False show ?thesis by (simp add: fire_guard_def)
  qed
qed

text \<open>Admit decides and FireGuard enforces with the same predicate: for a task whose directory
  hashes, FireGuard lets the task fire right after an Admit exactly when that Admit armed it,
  and when it did not, the task is pending with the hash it was observed at. Every Admit
  notifies at most once, only when it holds the task, and then exactly when the task was not
  already pending with this hash and this enabled flag.\<close>

lemma admit_agrees_with_fire_guard:
  assumes "ge_hash env k = Some h" "h \<noteq> []" "admit env k g = (armed, e, g')"
  shows "(fire_guard env (task_id_of k) g' = None \<longleftrightarrow> armed) \<and>
    (\<not> armed \<longrightarrow> (\<exists>ent. pending_entry_for g' (task_id_of k) = Some ent \<and> pe_hash ent = h \<and> pe_kinded ent = k)) \<and>
    gt_armed g' = gt_armed g @ (if armed then [k] else []) \<and>
    gt_notified g' = gt_notified g @
      (if armed \<or> (\<exists>prev. pending_entry_for g (task_id_of k) = Some prev \<and> pe_hash prev = h \<and>
            pe_enabled prev = resolved_enabled env k)
       then [] else [(task_id_of k, h)])"
proof -
  have oh: "observed_hash env k = h" using assms(1) by (simp add: observed_hash_def)
  let ?tid = "task_id_of k"
  have g': "g' = snd (snd (admit env k g))" "armed = fst (admit env k g)" using assms(3) by auto
  note arm = admit_armed [OF assms(1), of g]
  have held: "\<exists>ent. gt_pending g' ?tid = Some ent \<and> pe_hash ent = h \<and> pe_kinded ent = k" if "\<not> armed"
    using that arm
    by (auto simp: g' admit_def oh Let_def hold_pending_def trusted_iff split: option.splits)
  have "gt_armed g' = gt_armed g @ (if armed then [k] else [])"
    "gt_notified g' = gt_notified g @
      (if armed \<or> (\<exists>prev. gt_pending g ?tid = Some prev \<and> pe_hash prev = h \<and>
            pe_enabled prev = resolved_enabled env k) then [] else [(?tid, h)])"
    using arm unfolding g'
    by (auto simp: admit_def oh Let_def auto_approve_gate hold_pending_def trusted_iff
        split: option.splits)
  then show ?thesis
    using held approved_admit_fires [OF assms] by (simp add: pending_entry_for_def)
qed

lemma admit_agrees_with_fire_guard_witness:
  "admit ex_env ex_task ex_gate = (False, None, ex_held) \<and>
   fire_guard ex_env ''src/t'' ex_held \<noteq> None \<and> gt_notified ex_held = [(''src/t'', ''h1'')]"
proof -
  have h: "ge_hash ex_env ex_task = Some ''h1''" "''h1'' \<noteq> ([]::string)" by (simp_all add: ex_env_def)
  have tid: "task_id_of ex_task = ''src/t''" by (simp add: ex_task_def)
  show ?thesis
    using admit_agrees_with_fire_guard [OF h ex_admit] ex_admit unfolding tid
    by (simp add: pending_entry_for_def ex_gate_def)
qed


text \<open>A lock write that fails does not undo the approval. The operator's approval reports the
  error, arms nothing and leaves the task pending, but its record stays in memory: the same
  approval tried again reports success and arms the task without writing the lockfile, even
  if writing now works, so that the file on disk never receives it; and the next Admit of
  that content arms the task and FireGuard lets it fire.\<close>

lemma failed_write_still_approves:
  assumes "pending_entry_for g tid = Some ent" "pe_hash ent \<noteq> []" "\<not> approved (gt_lock g) tid (pe_hash ent)"
    and "ge_write_ok env = False" "approve env tid g = (r, g1)"
    and "ge_arm_ok env2 (pe_kinded ent)" "approve env2 tid g1 = (r2, g2)"
    and "task_id_of k = tid" "ge_hash env3 k = Some (pe_hash ent)"
  shows "r \<noteq> None \<and> gt_armed g1 = gt_armed g \<and> is_pending g1 tid \<and>
    r2 = None \<and> gt_armed g2 = gt_armed g @ [pe_kinded ent] \<and> \<not> is_pending g2 tid \<and>
    lk_disk (gt_lock g2) = lk_disk (gt_lock g) \<and>
    fst (admit env3 k g1) \<and> fire_guard env3 tid (snd (snd (admit env3 k g1))) = None"
proof -
  let ?rec = "\<lparr>lr_hash = pe_hash ent, lr_approved_at = ge_now env, lr_approved_by = ''manual'', lr_commit = pe_commit ent\<rparr>"
  have neq: "\<not> (case lk_tasks (gt_lock g) tid of None \<Rightarrow> False | Some rec \<Rightarrow> lr_hash rec = pe_hash ent)"
    using assms(2,3) by (simp add: approved_def split: option.splits)
  let ?l = "(gt_lock g)\<lparr>lk_tasks := (lk_tasks (gt_lock g))(tid \<mapsto> ?rec)\<rparr>"
  obtain e where "save (ge_hmac env) False ?l = (Some e, ?l)"
    using save_unwritable by blast
  with assms(2,4) neq
  have save: "record_in_gate env tid (pe_hash ent) ''manual'' (pe_commit ent) g = (Some e, g\<lparr>gt_lock := ?l\<rparr>)"
    by (simp add: record_in_gate_def record_approval_def)
  have g1: "r = Some (RecordFailed tid e)"
    "g1 = g\<lparr>gt_lock := (gt_lock g)\<lparr>lk_tasks := (lk_tasks (gt_lock g))(tid \<mapsto> ?rec)\<rparr>\<rparr>"
    using assms(1,2,5) save by (auto simp: approve_def approve_with_def approve_commit_def)
  have ap: "approved (gt_lock g1) tid (pe_hash ent)" using assms(2) by (simp add: g1 approved_def)
  have rec2: "record_in_gate env2 tid (pe_hash ent) ''manual'' (pe_commit ent) g1 = (None, g1)"
    using assms(2) by (simp add: record_in_gate_def record_approval_def g1)
  have p1: "pending_entry_for g1 tid = Some ent" using assms(1) by (simp add: g1 pending_entry_for_def)
  have g2: "r2 = None" "g2 = clear_pending tid (g1\<lparr>gt_armed := gt_armed g1 @ [pe_kinded ent]\<rparr>)"
    using assms(1,2,6,7) rec2 p1
    by (auto simp: approve_def approve_with_def approve_commit_def arm_task_def approve_clear_def
        pending_entry_for_def)
  obtain armed ae g3 where ad: "admit env3 k g1 = (armed, ae, g3)" by (cases "admit env3 k g1") auto
  have tid: "observed_hash env3 k = pe_hash ent" using assms(9) by (simp add: observed_hash_def)
  have armed: "armed"
    using ad ap assms(8) tid by (auto simp: admit_def Let_def arm_result_def arm_task_def auto_approve_def
        split: option.splits)
  have "fire_guard env3 tid g3 = None"
    using approved_admit_fires [OF assms(9,2) ad] armed assms(8) by blast
  then show ?thesis
    using g1 g2 p1 ad armed by (simp add: is_pending_def pending_entry_for_def)
qed

definition ex_readonly :: gate_env where
  "ex_readonly = ex_env\<lparr>ge_write_ok := False\<rparr>"

lemma failed_write_still_approves_witness:
  "\<exists>g1 g2. approve ex_readonly ''src/t'' ex_held = (Some (RecordFailed ''src/t'' WriteFailed), g1) \<and>
     approve ex_env ''src/t'' g1 = (None, g2) \<and> lk_disk (gt_lock g2) = None \<and>
     fst (admit ex_env ex_task g1)"
proof -
  have p: "pending_entry_for ex_held ''src/t'' = Some ex_entry"
    by (simp add: pending_entry_for_def ex_held_def)
  have h: "pe_hash ex_entry \<noteq> []" "\<not> approved (gt_lock ex_held) ''src/t'' (pe_hash ex_entry)"
    by (simp_all add: ex_held_def ex_gate_def new_lock_def approved_def)
  have w: "ge_write_ok ex_readonly = False" by (simp add: ex_readonly_def)
  have a: "ge_arm_ok ex_env (pe_kinded ex_entry)" "task_id_of ex_task = ''src/t''"
    "ge_hash ex_env ex_task = Some (pe_hash ex_entry)"
    by (simp_all add: ex_env_def ex_task_def)
  obtain r g1 where ap: "approve ex_readonly ''src/t'' ex_held = (r, g1)"
    by (cases "approve ex_readonly ''src/t'' ex_held")
  obtain r2 g2 where ap2: "approve ex_env ''src/t'' g1 = (r2, g2)"
    by (cases "approve ex_env ''src/t'' g1")
  have "r = Some (RecordFailed ''src/t'' WriteFailed)"
    using ap h p
    by (auto simp: approve_def approve_with_def approve_commit_def record_in_gate_def record_approval_def
        save_def approved_def ex_held_def ex_gate_def new_lock_def ex_readonly_def ex_entry_def)
  moreover have "lk_disk (gt_lock ex_held) = None"
    by (simp add: ex_held_def ex_gate_def new_lock_def)
  ultimately show ?thesis
    using failed_write_still_approves [OF p h w ap a(1) ap2 a(2,3)] ap ap2 by auto
qed

text \<open>Removing a task forgets everything the gate knew of it, and nothing of any other task:
  until it is admitted again FireGuard refuses it, and if it comes back, even with the very
  content that was approved before, it is held for a new approval unless a trust rule or
  bootstrap covers it. This holds also when the lockfile cannot be written.\<close>

lemma forget_starts_over:
  assumes "\<not> trusted g tid" "\<not> gt_bootstrap g"
    and "task_id_of k = tid" "ge_hash env2 k = Some h" "h \<noteq> []"
  shows "fire_guard env2 tid (forget env tid g) = Some (AwaitingDecision tid) \<and>
    \<not> fst (admit env2 k (forget env tid g)) \<and>
    fire_guard env2 tid (snd (snd (admit env2 k (forget env tid g)))) = Some (FirePending tid) \<and>
    (\<forall>u. u \<noteq> tid \<longrightarrow> fire_guard env2 u (forget env tid g) = fire_guard env2 u g)"
proof -
  let ?g = "forget env tid g"
  have tr: "trusted ?g u = trusted g u" for u by (rule trusted_cong) simp_all
  have pend: "gt_pending ?g = (gt_pending g)(tid := None)" "gt_admitted ?g = (gt_admitted g)(tid := None)"
    by (simp_all add: forget_def Let_def)
  have ap: "approved (gt_lock ?g) u h' \<longleftrightarrow> u \<noteq> tid \<and> approved (gt_lock g) u h'" for u h'
    by (auto simp: approved_rmv)
  have na: "\<not> fst (admit env2 k ?g)"
    using admit_armed [OF assms(4), of ?g] assms(1-3) tr ap by simp
  obtain e g2 where ad: "admit env2 k ?g = (False, e, g2)"
    using na by (cases "admit env2 k ?g") auto
  have "is_pending g2 tid"
    using ad na assms(3) by (auto simp: admit_def Let_def hold_pending_def is_pending_def
        arm_result_def arm_task_def auto_approve_def split: option.splits if_splits)
  then show ?thesis
    using na ad assms(1) by (auto simp: fire_guard_def is_pending_def pend tr approved_rmv split: option.split)
qed

lemma forget_starts_over_witness:
  "fire_guard ex_env ''src/t'' (gs_gate ex_approved_sys) = None \<and>
   fire_guard ex_env ''src/t'' (forget ex_env ''src/t'' (gs_gate ex_approved_sys)) = Some (AwaitingDecision ''src/t'')"
proof -
  note fr = approve_commit_frame [OF ex_commit] and lk = approve_commit_lock [OF ex_commit]
  let ?g = "gs_gate ex_approved_sys"
  have tr: "trusted ?g u = trusted ex_gate u" for u
    by (rule trusted_cong) (simp_all add: ex_approved_sys_def fr, simp_all add: ex_held_def)
  have ap: "approved (gt_lock ?g) ''src/t'' ''h1''"
    by (simp add: ex_approved_sys_def lk approved_rcd)
  have ad: "gt_admitted ?g ''src/t'' = Some ex_task"
    by (simp add: ex_approved_sys_def fr) (simp add: ex_held_def)
  have pe: "gt_pending ?g ''src/t'' = None"
    by (simp add: ex_approved_sys_def approve_clear_def fr) (simp add: ex_held_def)
  have "\<not> trusted ?g ''src/t''" using tr by simp
  moreover have "\<not> gt_bootstrap ?g"
    by (simp add: ex_approved_sys_def fr) (simp add: ex_held_def ex_gate_def)
  moreover have t: "task_id_of ex_task = ''src/t''" "ge_hash ex_env ex_task = Some ''h1''" "''h1'' \<noteq> ([]::string)"
    by (simp_all add: ex_env_def ex_task_def)
  ultimately have "fire_guard ex_env ''src/t'' (forget ex_env ''src/t'' ?g) = Some (AwaitingDecision ''src/t'')"
    using forget_starts_over [of ?g "''src/t''" ex_task ex_env "''h1''" ex_env] by blast
  then show ?thesis using ap ad pe t by (simp add: fire_guard_def is_pending_def)
qed

end
