(* ===== verification/ReviewState.thy ===== *)
theory ReviewState
  imports TaskSpec "HOL-Library.List_Lexorder"
begin

text \<open>
  What an operator reviews, pkg/approval/state.go, and what the gate's content hash is taken
  over, the second half of pkg/approval/gate.go. Both are projections of the resolved task:
  the review surface must show every capability and no literal value, and the hash input must
  determine every field an override can change while holding no literal value of the
  environment.

  \<open>mask_spec\<close> blanks the literal values of a spec. The theorems compare a task with its masked
  version (non-interference) and give exactly the fields two tasks with one hash input share.
\<close>

section \<open>The review surface\<close>

record file_meta =
  fm_path :: string
  fm_kind :: string
  fm_size :: int
  fm_hash :: string
  fm_target :: string

record inventory_file =
  if_meta :: file_meta
  if_status :: string

record env_decl =
  ed_name :: string
  ed_kind :: string
  ed_ref :: string
  ed_has_default :: bool
  ed_optional :: bool
  ed_if_missing :: string

record param_decl =
  pd_name :: string
  pd_type :: string
  pd_description :: string
  pd_required :: bool
  pd_has_default :: bool

record trigger_view =
  tv_kind :: string
  tv_cron :: string
  tv_webhook :: string
  tv_auth :: webhook_auth
  tv_signed :: bool
  tv_restart :: string
  tv_chain_from :: string
  tv_chain_on :: string
  tv_chain_params :: "string list"

record permissions_view =
  pv_net :: "string list"
  pv_fs :: "(string \<times> string) list"
  pv_run :: "string list"
  pv_sys :: "string list"
  pv_env_read_exposed :: bool
  pv_dicode :: "dicode_perms option"

record container_view =
  cv_volumes :: "string list"
  cv_ports :: "string list"
  cv_extra_hosts :: "string list"
  cv_cap_add :: "string list"
  cv_cap_drop :: "string list"
  cv_security_opt :: "string list"
  cv_user :: string
  cv_read_only :: bool
  cv_pull_policy :: string
  cv_entrypoint :: "string list"
  cv_command :: "string list"
  cv_env_names :: "string list"

record stage_view =
  sv_task :: string
  sv_depends_on :: "string list"
  sv_overridden :: bool

text \<open>\<open>rs_timeout\<close> is the duration, which the code formats with \<open>Duration.String\<close>; 0 when the
  field is left empty.\<close>

record review_state =
  rs_task_id :: task_id
  rs_pending_hash :: string
  rs_kind :: string
  rs_name :: string
  rs_description :: string
  rs_runtime :: string
  rs_image :: string
  rs_network_mode :: string
  rs_timeout :: duration
  rs_triggers :: "trigger_view list"
  rs_permissions :: permissions_view
  rs_env :: "env_decl list"
  rs_params :: "param_decl list"
  rs_container :: "container_view option"
  rs_stages :: "stage_view list"
  rs_files :: "inventory_file list"
  rs_files_error :: bool
  rs_enabled :: bool
  rs_mcp_exposed :: bool

definition env_ref_of :: "string \<Rightarrow> string \<times> string" where
  "env_ref_of from =
     (case cut_prefix ''task:'' from of Some rest \<Rightarrow> (''task'', rest)
      | None \<Rightarrow> (case cut_prefix ''env:'' from of Some rest \<Rightarrow> (''host'', rest)
                 | None \<Rightarrow> (''host'', from)))"

definition env_decl_of :: "env_entry \<Rightarrow> env_decl" where
  "env_decl_of e =
     (let kr = (if ee_secret e \<noteq> [] then (''secret'', ee_secret e)
                else if ee_from e \<noteq> [] then env_ref_of (ee_from e)
                else if ee_value e \<noteq> [] then (''literal'', [])
                else (''host'', ee_name e))
      in \<lparr>ed_name = ee_name e, ed_kind = fst kr, ed_ref = snd kr,
          ed_has_default = (ee_default e \<noteq> []), ed_optional = ee_optional e,
          ed_if_missing = (case ee_if_missing e of None \<Rightarrow> [] | Some m \<Rightarrow> im_task m)\<rparr>)"

definition env_decls_of :: "env_entry list \<Rightarrow> env_decl list" where
  "env_decls_of es = map env_decl_of es"

definition param_decls_of :: "param list \<Rightarrow> param_decl list" where
  "param_decls_of ps =
     map (\<lambda>p. \<lparr>pd_name = pa_name p, pd_type = pa_type p, pd_description = pa_description p,
                pd_required = pa_required p, pd_has_default = (pa_default p \<noteq> [])\<rparr>) ps"

definition permissions_of :: "permissions \<Rightarrow> permissions_view" where
  "permissions_of p = \<lparr>pv_net = pm_net p, pv_fs = map (\<lambda>e. (fs_path e, fs_permission e)) (pm_fs p),
     pv_run = pm_run p, pv_sys = pm_sys p, pv_env_read_exposed = pm_env_read_exposed p,
     pv_dicode = pm_dicode p\<rparr>"

definition no_trigger_view :: trigger_view where
  "no_trigger_view = \<lparr>tv_kind = [], tv_cron = [], tv_webhook = [], tv_auth = AuthNone, tv_signed = False,
     tv_restart = [], tv_chain_from = [], tv_chain_on = [], tv_chain_params = []\<rparr>"

text \<open>The keys of a Go map, collected and sorted.\<close>

definition sorted_keys :: "(string \<times> 'v) list \<Rightarrow> string list" where
  "sorted_keys m = sort (map fst m)"

definition chain_trigger_view :: "chain_trigger \<Rightarrow> trigger_view" where
  "chain_trigger_view c = no_trigger_view\<lparr>tv_kind := ''chain'', tv_chain_from := ct_from c,
     tv_chain_on := ct_on c, tv_chain_params := sorted_keys (ct_params c)\<rparr>"

record trigger_shape =
  ts_cron :: string
  ts_webhook :: string
  ts_webhook_auth :: webhook_auth
  ts_secret :: string
  ts_manual :: bool
  ts_chain :: "chain_trigger option"

definition triggers_of :: "trigger_shape \<Rightarrow> trigger_view list" where
  "triggers_of t =
     (if ts_cron t \<noteq> [] then [no_trigger_view\<lparr>tv_kind := ''cron'', tv_cron := ts_cron t\<rparr>] else []) @
     (if ts_webhook t \<noteq> [] then [no_trigger_view\<lparr>tv_kind := ''webhook'', tv_webhook := ts_webhook t,
        tv_auth := ts_webhook_auth t, tv_signed := webhook_secret_resolved (ts_secret t)\<rparr>] else []) @
     (if ts_manual t then [no_trigger_view\<lparr>tv_kind := ''manual''\<rparr>] else []) @
     (case ts_chain t of None \<Rightarrow> [] | Some c \<Rightarrow> [chain_trigger_view c])"

definition triggers_of_spec :: "trigger_config \<Rightarrow> trigger_view list" where
  "triggers_of_spec t =
     triggers_of \<lparr>ts_cron = tc_cron t, ts_webhook = tc_webhook t, ts_webhook_auth = tc_webhook_auth t,
       ts_secret = tc_webhook_secret t, ts_manual = tc_manual t, ts_chain = tc_chain t\<rparr> @
     (if tc_daemon t then [no_trigger_view\<lparr>tv_kind := ''daemon'', tv_restart := tc_restart t\<rparr>] else [])"

definition triggers_of_pipeline :: "pipeline_trigger \<Rightarrow> trigger_view list" where
  "triggers_of_pipeline t =
     triggers_of \<lparr>ts_cron = pt_cron t, ts_webhook = pt_webhook t, ts_webhook_auth = pt_webhook_auth t,
       ts_secret = pt_webhook_secret t, ts_manual = pt_manual t, ts_chain = pt_chain t\<rparr>"

definition container_of :: "docker_config \<Rightarrow> container_view" where
  "container_of d = \<lparr>cv_volumes = dc_volumes d, cv_ports = dc_ports d, cv_extra_hosts = dc_extra_hosts d,
     cv_cap_add = dc_cap_add d, cv_cap_drop = dc_cap_drop d, cv_security_opt = dc_security_opt d,
     cv_user = dc_user d, cv_read_only = dc_read_only d, cv_pull_policy = dc_pull_policy d,
     cv_entrypoint = dc_entrypoint d, cv_command = dc_command d, cv_env_names = sorted_keys (dc_env_vars d)\<rparr>"

definition state_from_spec :: "spec \<Rightarrow> review_state \<Rightarrow> review_state" where
  "state_from_spec s st =
     (let st1 = st\<lparr>rs_name := sp_name s, rs_description := sp_description s, rs_runtime := sp_runtime s,
          rs_mcp_exposed := sp_mcp_exposed s,
          rs_timeout := (if 0 < sp_timeout s then sp_timeout s else rs_timeout st),
          rs_permissions := permissions_of (sp_permissions s),
          rs_env := env_decls_of (pm_env (sp_permissions s)),
          rs_params := param_decls_of (sp_params s),
          rs_triggers := triggers_of_spec (sp_trigger s)\<rparr>
      in (case sp_docker s of None \<Rightarrow> st1
          | Some d \<Rightarrow> st1\<lparr>rs_image := dc_image d, rs_network_mode := dc_network_mode d,
                        rs_container := Some (container_of d)\<rparr>))"

definition state_from_pipeline :: "pipeline_task \<Rightarrow> review_state \<Rightarrow> review_state" where
  "state_from_pipeline p st = st\<lparr>rs_name := pl_name p, rs_description := pl_description p,
     rs_timeout := (if 0 < pl_timeout p then pl_timeout p else rs_timeout st),
     rs_triggers := triggers_of_pipeline (pl_trigger p),
     rs_stages := rs_stages st @ map (\<lambda>g. \<lparr>sv_task = sg_task g, sv_depends_on = sg_depends_on g,
        sv_overridden = (sg_overrides g \<noteq> None)\<rparr>) (pl_stages p)\<rparr>"

section \<open>The file inventory\<close>

text \<open>
  \<open>tree_diff dir from to paths\<close> is the git lookup of the blob hashes of the paths at the two
  commits, \<open>None\<close> when it fails; \<open>inventory\<close> lists the files under a directory with their
  absolute paths. The cache of an entry holds the statuses once they are computed.
\<close>

type_synonym tree_diff_fn =
  "path \<Rightarrow> string \<Rightarrow> string \<Rightarrow> path list \<Rightarrow> ((path \<rightharpoonup> string) \<times> (path \<rightharpoonup> string)) option"

type_synonym inventory_fn = "path \<Rightarrow> string list \<Rightarrow> (file_meta \<times> path) list option"

definition file_status :: "(path \<rightharpoonup> string) \<Rightarrow> (path \<rightharpoonup> string) \<Rightarrow> path \<Rightarrow> string option" where
  "file_status from_h to_h p =
     (case to_h p of None \<Rightarrow> None
      | Some th \<Rightarrow> (case from_h p of None \<Rightarrow> Some ''new''
                  | Some fh \<Rightarrow> if fh \<noteq> th then Some ''changed'' else None))"

definition file_statuses_of ::
  "tree_diff_fn \<Rightarrow> path \<Rightarrow> string \<Rightarrow> string \<Rightarrow> path list \<Rightarrow> (path \<rightharpoonup> string) option \<Rightarrow>
   (path \<rightharpoonup> string) \<times> (path \<rightharpoonup> string) option" where
  "file_statuses_of diff dir from_c to_c paths cache =
     (case cache of
        Some m \<Rightarrow> (m, cache)
      | None \<Rightarrow>
          (let m = (case diff dir from_c to_c paths of
                 None \<Rightarrow> Map.empty
               | Some (fh, th) \<Rightarrow> (\<lambda>p. if p \<in> set paths then file_status fh th p else None))
           in (m, Some m)))"

definition inventory_of ::
  "inventory_fn \<Rightarrow> tree_diff_fn \<Rightarrow> kinded \<Rightarrow> string \<Rightarrow> string \<Rightarrow> (path \<rightharpoonup> string) option \<Rightarrow>
   inventory_file list option \<times> (path \<rightharpoonup> string) option" where
  "inventory_of ls diff k from_c to_c cache =
     (let (dir, includes) = (case k of KSpec s \<Rightarrow> (sp_task_dir s, sp_hash_include s)
                                     | KPipeline p \<Rightarrow> (pl_task_dir p, []))
      in if dir = [] then (Some [], cache)
         else (case ls dir includes of
             None \<Rightarrow> (None, cache)
           | Some files \<Rightarrow>
               if from_c = [] \<or> to_c = [] then (Some (map (\<lambda>(m, p). \<lparr>if_meta = m, if_status = []\<rparr>) files), cache)
               else (let paths = map snd (filter (\<lambda>(m, p). fm_kind m \<noteq> ''missing'') files);
                         (st, cache') = file_statuses_of diff dir from_c to_c paths cache
                     in (Some (map (\<lambda>(m, p). \<lparr>if_meta = m,
                            if_status = (if fm_kind m = ''missing'' then []
                                         else case st p of None \<Rightarrow> [] | Some s \<Rightarrow> s)\<rparr>) files), cache'))))"

definition render_state ::
  "inventory_fn \<Rightarrow> tree_diff_fn \<Rightarrow> (kinded \<Rightarrow> kinded) option \<Rightarrow> task_id \<Rightarrow> kinded \<Rightarrow> string \<Rightarrow>
   string \<Rightarrow> string \<Rightarrow> (path \<rightharpoonup> string) option \<Rightarrow> review_state \<times> (path \<rightharpoonup> string) option" where
  "render_state ls diff preview tid k0 pending from_c to_c cache =
     (let k = (case preview of None \<Rightarrow> k0 | Some f \<Rightarrow> f k0);
          st0 = \<lparr>rs_task_id = tid, rs_pending_hash = pending, rs_kind = kind_of k, rs_name = [],
            rs_description = [], rs_runtime = [], rs_image = [], rs_network_mode = [], rs_timeout = 0,
            rs_triggers = [], rs_permissions = permissions_of no_permissions, rs_env = [], rs_params = [],
            rs_container = None, rs_stages = [], rs_files = [], rs_files_error = False,
            rs_enabled = is_enabled k, rs_mcp_exposed = False\<rparr>;
          st = (case k of KSpec s \<Rightarrow> state_from_spec s st0 | KPipeline p \<Rightarrow> state_from_pipeline p st0);
          (files, cache') = inventory_of ls diff k from_c to_c cache
      in (case files of None \<Rightarrow> (st\<lparr>rs_files_error := True\<rparr>, cache')
          | Some fs \<Rightarrow> (st\<lparr>rs_files := fs\<rparr>, cache')))"

section \<open>The input of the content hash\<close>

definition redacted_env_value :: string where
  "redacted_env_value = ''<redacted>''"

definition redact_env :: "env_entry \<Rightarrow> env_entry" where
  "redact_env e = e\<lparr>ee_value := (if ee_value e \<noteq> [] then redacted_env_value else []),
     ee_default := (if ee_default e \<noteq> [] then redacted_env_value else [])\<rparr>"

definition sanitize_permissions :: "permissions \<Rightarrow> permissions" where
  "sanitize_permissions p =
     (if \<not> (\<exists>e \<in> set (pm_env p). ee_value e \<noteq> [] \<or> ee_default e \<noteq> []) then p
      else p\<lparr>pm_env := map redact_env (pm_env p)\<rparr>)"

record resolved_fields =
  rf_permissions :: permissions
  rf_runtime :: string
  rf_params :: "(string \<times> string \<times> bool) list"
  rf_timeout :: duration
  rf_webhook :: string
  rf_webhook_auth :: webhook_auth
  rf_cron :: string
  rf_manual :: bool
  rf_daemon :: bool
  rf_restart :: string
  rf_chain :: "chain_trigger option"

record resolved_pipeline_fields =
  rp_timeout :: duration
  rp_webhook :: string
  rp_webhook_auth :: webhook_auth
  rp_cron :: string
  rp_manual :: bool
  rp_chain :: "chain_trigger option"

definition resolved_fields_of :: "spec \<Rightarrow> resolved_fields" where
  "resolved_fields_of s = \<lparr>rf_permissions = sanitize_permissions (sp_permissions s), rf_runtime = sp_runtime s,
     rf_params = map (\<lambda>p. (pa_name p, pa_default p, pa_required p)) (sp_params s), rf_timeout = sp_timeout s,
     rf_webhook = tc_webhook (sp_trigger s), rf_webhook_auth = tc_webhook_auth (sp_trigger s),
     rf_cron = tc_cron (sp_trigger s), rf_manual = tc_manual (sp_trigger s), rf_daemon = tc_daemon (sp_trigger s),
     rf_restart = tc_restart (sp_trigger s), rf_chain = tc_chain (sp_trigger s)\<rparr>"

definition resolved_pipeline_fields_of :: "pipeline_task \<Rightarrow> resolved_pipeline_fields" where
  "resolved_pipeline_fields_of p = \<lparr>rp_timeout = pl_timeout p, rp_webhook = pt_webhook (pl_trigger p),
     rp_webhook_auth = pt_webhook_auth (pl_trigger p), rp_cron = pt_cron (pl_trigger p),
     rp_manual = pt_manual (pl_trigger p), rp_chain = pt_chain (pl_trigger p)\<rparr>"

text \<open>
  What is fed to SHA-256: under the gate's domain prefix the digest of the directory and the
  resolved fields (\<open>ComputeContentHash\<close>), or, for a task without a directory, the whole task
  (\<open>ComputeSpecHash\<close>), a spec with its secrets stripped. A field that is not in the JSON
  encoding (\<open>Warnings\<close> and the like) is kept in the model's record.
\<close>

definition content_hash_domain :: string where
  "content_hash_domain = ''dicode-approval-content-v1''"

datatype hash_input =
    HashDirSpec string string resolved_fields
  | HashDirPipeline string string resolved_pipeline_fields
  | HashWhole kinded

definition compute_content_hash_input ::
  "(path \<Rightarrow> string list \<Rightarrow> string option) \<Rightarrow> path \<Rightarrow> string list \<Rightarrow> (string \<Rightarrow> hash_input) \<Rightarrow> hash_input option" where
  "compute_content_hash_input dir_hash dir includes mk = map_option mk (dir_hash dir includes)"

definition content_hash_input ::
  "(path \<Rightarrow> string list \<Rightarrow> string option) \<Rightarrow> kinded \<Rightarrow> hash_input option" where
  "content_hash_input dir_hash k =
     (case k of
        KSpec s \<Rightarrow>
          if sp_task_dir s \<noteq> [] then
            compute_content_hash_input dir_hash (sp_task_dir s) (sp_hash_include s)
              (\<lambda>d. HashDirSpec content_hash_domain d (resolved_fields_of s))
          else Some (HashWhole (KSpec (s\<lparr>sp_trigger := (sp_trigger s)\<lparr>tc_webhook_secret := []\<rparr>,
                                        sp_permissions := sanitize_permissions (sp_permissions s)\<rparr>)))
      | KPipeline p \<Rightarrow>
          if pl_task_dir p \<noteq> [] then
            compute_content_hash_input dir_hash (pl_task_dir p) []
              (\<lambda>d. HashDirPipeline content_hash_domain d (resolved_pipeline_fields_of p))
          else Some (HashWhole (KPipeline p)))"

text \<open>\<open>ContentHash\<close>: the digest of the input; \<open>sha\<close> is SHA-256 over the JSON encoding.\<close>

definition content_hash ::
  "(hash_input \<Rightarrow> string) \<Rightarrow> (path \<Rightarrow> string list \<Rightarrow> string option) \<Rightarrow> kinded \<Rightarrow> string option" where
  "content_hash sha dir_hash k = map_option sha (content_hash_input dir_hash k)"

section \<open>Masked tasks\<close>

text \<open>A literal is replaced by a fixed text, so that only its being empty or not remains.\<close>

definition mask_literal :: "string \<Rightarrow> string" where
  "mask_literal v = (if v = [] then [] else ''x'')"

definition mask_env :: "env_entry \<Rightarrow> env_entry" where
  "mask_env e = e\<lparr>ee_value := mask_literal (ee_value e), ee_default := mask_literal (ee_default e),
     ee_if_missing := map_option (\<lambda>m. m\<lparr>im_params := []\<rparr>) (ee_if_missing e)\<rparr>"

definition mask_secret :: "string \<Rightarrow> string" where
  "mask_secret v = (if webhook_secret_resolved v then ''x'' else [])"

definition mask_chain :: "chain_trigger \<Rightarrow> chain_trigger" where
  "mask_chain c = ChainTrigger (ct_from c) (ct_on c) (map (\<lambda>(k, _). (k, JNull)) (ct_params c)) None"

definition mask_spec :: "spec \<Rightarrow> spec" where
  "mask_spec s = s\<lparr>
     sp_trigger := (sp_trigger s)\<lparr>tc_webhook_secret := mask_secret (tc_webhook_secret (sp_trigger s)),
       tc_chain := map_option mask_chain (tc_chain (sp_trigger s))\<rparr>,
     sp_params := map (\<lambda>p. p\<lparr>pa_default := mask_literal (pa_default p)\<rparr>) (sp_params s),
     sp_permissions := (sp_permissions s)\<lparr>pm_env := map mask_env (pm_env (sp_permissions s))\<rparr>,
     sp_docker := map_option (\<lambda>d. d\<lparr>dc_env_vars := map (\<lambda>(k, _). (k, [])) (dc_env_vars d)\<rparr>) (sp_docker s)\<rparr>"

definition mask_pipeline :: "pipeline_task \<Rightarrow> pipeline_task" where
  "mask_pipeline p = p\<lparr>
     pl_trigger := (pl_trigger p)\<lparr>pt_webhook_secret := mask_secret (pt_webhook_secret (pl_trigger p)),
       pt_chain := map_option mask_chain (pt_chain (pl_trigger p))\<rparr>,
     pl_stages := map (\<lambda>g. g\<lparr>sg_overrides := map_option (\<lambda>_. no_overrides) (sg_overrides g)\<rparr>) (pl_stages p)\<rparr>"

fun mask_kinded :: "kinded \<Rightarrow> kinded" where
  "mask_kinded (KSpec s) = KSpec (mask_spec s)"
| "mask_kinded (KPipeline p) = KPipeline (mask_pipeline p)"

lemma mask_literal_empty [simp]: "mask_literal v = [] \<longleftrightarrow> v = []"
  by (simp add: mask_literal_def)

lemma mask_secret_resolved [simp]: "webhook_secret_resolved (mask_secret v) = webhook_secret_resolved v"
  by (simp add: mask_secret_def webhook_secret_resolved_def)

lemma mask_env_decl [simp]: "env_decl_of (mask_env e) = env_decl_of e"
  by (simp add: env_decl_of_def mask_env_def Let_def split: option.splits)

lemma mask_env_decls [simp]: "env_decls_of (map mask_env es) = env_decls_of es"
  by (simp add: env_decls_of_def comp_def)

lemma mask_param_decls [simp]:
  "param_decls_of (map (\<lambda>p. p\<lparr>pa_default := mask_literal (pa_default p)\<rparr>) ps) = param_decls_of ps"
  by (simp add: param_decls_of_def comp_def)

lemma sorted_keys_masked [simp]: "sorted_keys (map (\<lambda>(k, _). (k, v)) m) = sorted_keys m"
  by (simp add: sorted_keys_def comp_def case_prod_beta)

lemma mask_chain_view [simp]: "chain_trigger_view (mask_chain c) = chain_trigger_view c"
  by (simp add: chain_trigger_view_def mask_chain_def)

lemma mask_triggers_of:
  "triggers_of (t\<lparr>ts_secret := mask_secret (ts_secret t), ts_chain := map_option mask_chain (ts_chain t)\<rparr>) =
   triggers_of t"
  by (simp add: triggers_of_def split: option.splits)

lemma mask_triggers_spec [simp]:
  "triggers_of_spec (t\<lparr>tc_webhook_secret := mask_secret (tc_webhook_secret t),
     tc_chain := map_option mask_chain (tc_chain t)\<rparr>) = triggers_of_spec t"
  using mask_triggers_of [of "\<lparr>ts_cron = tc_cron t, ts_webhook = tc_webhook t, ts_webhook_auth = tc_webhook_auth t,
       ts_secret = tc_webhook_secret t, ts_manual = tc_manual t, ts_chain = tc_chain t\<rparr>"]
  by (simp add: triggers_of_spec_def)

lemma mask_triggers_pipeline [simp]:
  "triggers_of_pipeline (t\<lparr>pt_webhook_secret := mask_secret (pt_webhook_secret t),
     pt_chain := map_option mask_chain (pt_chain t)\<rparr>) = triggers_of_pipeline t"
  using mask_triggers_of [of "\<lparr>ts_cron = pt_cron t, ts_webhook = pt_webhook t, ts_webhook_auth = pt_webhook_auth t,
       ts_secret = pt_webhook_secret t, ts_manual = pt_manual t, ts_chain = pt_chain t\<rparr>"]
  by (simp add: triggers_of_pipeline_def)

lemma mask_container [simp]:
  "container_of (d\<lparr>dc_env_vars := map (\<lambda>(k, _). (k, [])) (dc_env_vars d)\<rparr>) = container_of d"
  by (simp add: container_of_def)

lemma mask_state_from_spec: "state_from_spec (mask_spec s) st = state_from_spec s st"
  by (simp add: state_from_spec_def mask_spec_def permissions_of_def Let_def split: option.splits)

lemma mask_state_from_pipeline: "state_from_pipeline (mask_pipeline p) st = state_from_pipeline p st"
  by (simp add: state_from_pipeline_def mask_pipeline_def comp_def)

lemma mask_inventory: "inventory_of ls diff (mask_kinded k) a b c = inventory_of ls diff k a b c"
  by (cases k) (simp_all add: inventory_of_def mask_spec_def mask_pipeline_def)

lemmas mask_inventory_spec = mask_inventory [of _ _ "KSpec _", simplified]
lemmas mask_inventory_pipeline = mask_inventory [of _ _ "KPipeline _", simplified]

lemma mask_enabled: "sp_enabled (mask_spec s) = sp_enabled s" "pl_enabled (mask_pipeline p) = pl_enabled p"
  by (simp_all add: mask_spec_def mask_pipeline_def)

section \<open>Properties\<close>

text \<open>C7. The review surface shows no literal value: it is the same for a task and for the task with
  every literal environment value, default, chain parameter, container variable, webhook
  secret and stage override blanked. What it does show determines the capabilities: two specs
  with one surface have the same network, file, process and system permissions, the same
  dicode permissions, and environment entries with the same sources.\<close>

theorem review_surface_hides_literals:
  "render_state ls diff None tid (mask_kinded k) h a b c = render_state ls diff None tid k h a b c \<and>
   (\<forall>s t. fst (render_state ls diff None tid (KSpec s) h a b c) =
          fst (render_state ls diff None tid (KSpec t) h a b c) \<longrightarrow>
     pm_net (sp_permissions s) = pm_net (sp_permissions t) \<and>
     map (\<lambda>e. (fs_path e, fs_permission e)) (pm_fs (sp_permissions s)) =
       map (\<lambda>e. (fs_path e, fs_permission e)) (pm_fs (sp_permissions t)) \<and>
     pm_run (sp_permissions s) = pm_run (sp_permissions t) \<and>
     pm_sys (sp_permissions s) = pm_sys (sp_permissions t) \<and>
     pm_env_read_exposed (sp_permissions s) = pm_env_read_exposed (sp_permissions t) \<and>
     pm_dicode (sp_permissions s) = pm_dicode (sp_permissions t) \<and>
     map env_decl_of (pm_env (sp_permissions s)) = map env_decl_of (pm_env (sp_permissions t)) \<and>
     triggers_of_spec (sp_trigger s) = triggers_of_spec (sp_trigger t) \<and> sp_runtime s = sp_runtime t)"
proof -
  have mask: "render_state ls diff None tid (mask_kinded k) h a b c = render_state ls diff None tid k h a b c"
    by (cases k)
      (simp_all add: render_state_def mask_state_from_spec mask_state_from_pipeline mask_inventory_spec
        mask_inventory_pipeline mask_enabled)
  have perms: "rs_permissions (fst (render_state ls diff None tid (KSpec s) h a b c)) = permissions_of (sp_permissions s)"
    "rs_env (fst (render_state ls diff None tid (KSpec s) h a b c)) = env_decls_of (pm_env (sp_permissions s))"
    "rs_triggers (fst (render_state ls diff None tid (KSpec s) h a b c)) = triggers_of_spec (sp_trigger s)"
    "rs_runtime (fst (render_state ls diff None tid (KSpec s) h a b c)) = sp_runtime s" for s
    by (simp_all add: render_state_def Let_def state_from_spec_def split: option.splits prod.splits)
  show ?thesis
    using mask perms unfolding permissions_of_def env_decls_of_def
    by (metis (no_types, lifting) permissions_view.ext_inject)
qed

definition ex_literal :: "string \<Rightarrow> spec" where
  "ex_literal v = empty_spec\<lparr>sp_task_dir := ''/t'', sp_permissions := no_permissions\<lparr>pm_env :=
     [no_env\<lparr>ee_name := ''A'', ee_value := v\<rparr>], pm_net := [''h'']\<rparr>\<rparr>"

definition ex_review :: "spec \<Rightarrow> review_state" where
  "ex_review s = fst (render_state (\<lambda>_ _. None) (\<lambda>_ _ _ _. None) None ''t'' (KSpec s) [] [] [] None)"

theorem review_surface_hides_literals_witness:
  "ex_review (ex_literal ''s1'') = ex_review (ex_literal ''s2'') \<and>
   pm_net (sp_permissions (ex_literal ''s1'')) = pm_net (sp_permissions (ex_literal ''s2''))"
proof -
  note r = review_surface_hides_literals [of "\<lambda>_ _. None" "\<lambda>_ _ _ _. None" "''t''" _ "[]" "[]" "[]" None]
  have m: "mask_kinded (KSpec (ex_literal ''s1'')) = mask_kinded (KSpec (ex_literal ''s2''))"
    by (simp add: mask_spec_def ex_literal_def mask_env_def mask_literal_def no_env_def no_permissions_def)
  have eq: "ex_review (ex_literal ''s1'') = ex_review (ex_literal ''s2'')"
    unfolding ex_review_def
    using conjunct1 [OF r, of "KSpec (ex_literal ''s1'')"] conjunct1 [OF r, of "KSpec (ex_literal ''s2'')"] m
    by (simp only:)
  from r [THEN conjunct2, rule_format, OF eq [unfolded ex_review_def]] eq
  show ?thesis by blast
qed

lemma sanitize_permissions_map:
  "sanitize_permissions p = p\<lparr>pm_env := map redact_env (pm_env p)\<rparr>"
proof (cases "\<exists>e \<in> set (pm_env p). ee_value e \<noteq> [] \<or> ee_default e \<noteq> []")
  case False
  then have "map redact_env (pm_env p) = pm_env p"
    by (intro map_idI) (auto simp: redact_env_def)
  with False show ?thesis by (simp add: sanitize_permissions_def)
qed (simp add: sanitize_permissions_def)



definition edge_with_env :: "string \<Rightarrow> string \<Rightarrow> chain_trigger" where
  "edge_with_env n v = ChainTrigger ''up'' [] []
     (Some (Overrides None [] [] None [] [no_env\<lparr>ee_name := n, ee_value := v\<rparr>] [] [] 0 None [] None None None))"

text \<open>Literal environment values reach the hash by one way round: the resolved fields hold the
  chain edge whole, with the per-edge overrides, and the literal values of their environment
  entries are not redacted. Changing such a value changes the hash input of a task and of a
  pipeline.\<close>

lemma chain_override_literals_reach_hash:
  assumes "sp_task_dir s \<noteq> []" "dir_hash (sp_task_dir s) (sp_hash_include s) = Some d"
    and "pl_task_dir p \<noteq> []" "dir_hash (pl_task_dir p) [] = Some d'" "v \<noteq> w"
  shows "content_hash_input dir_hash (KSpec (s\<lparr>sp_trigger := (sp_trigger s)\<lparr>tc_chain := Some (edge_with_env n v)\<rparr>\<rparr>)) \<noteq>
      content_hash_input dir_hash (KSpec (s\<lparr>sp_trigger := (sp_trigger s)\<lparr>tc_chain := Some (edge_with_env n w)\<rparr>\<rparr>)) \<and>
    content_hash_input dir_hash (KPipeline (p\<lparr>pl_trigger := (pl_trigger p)\<lparr>pt_chain := Some (edge_with_env n v)\<rparr>\<rparr>)) \<noteq>
      content_hash_input dir_hash (KPipeline (p\<lparr>pl_trigger := (pl_trigger p)\<lparr>pt_chain := Some (edge_with_env n w)\<rparr>\<rparr>))"
  using assms(1-5)
  by (simp add: content_hash_input_def compute_content_hash_input_def resolved_fields_of_def
      resolved_pipeline_fields_of_def edge_with_env_def no_env_def)

lemma chain_override_literals_reach_hash_witness:
  "\<exists>s p t q. content_hash_input (\<lambda>_ _. Some ''d'') (KSpec s) \<noteq> content_hash_input (\<lambda>_ _. Some ''d'') (KSpec t) \<and>
     content_hash_input (\<lambda>_ _. Some ''d'') (KPipeline p) \<noteq> content_hash_input (\<lambda>_ _. Some ''d'') (KPipeline q)"
  using chain_override_literals_reach_hash [of "ex_literal ''s1''" "\<lambda>_ _. Some ''d''" "''d''"
      "empty_pipeline\<lparr>pl_task_dir := ''/p''\<rparr>" "''d''" "''a''" "''b''" "''N''"]
  by (simp add: ex_literal_def) blast

end
