(* ===== verification/ApprovalToken.thy ===== *)
theory ApprovalToken
  imports GateSafety
begin

text \<open>
  Approve links: pkg/approval/token.go, the compare link of comparelink.go, and the two
  handlers of pkg/webui/approval.go that serve a link.

  The table \<open>approval_tokens\<close> is a map from the primary key \<open>token_hash\<close> to the rest of the
  row. SHA-256 is the parameter \<open>sha\<close>, the random secret of \<open>ipc.NewSecret\<close>, encoded, the
  argument \<open>raw\<close> (\<open>None\<close> when the generator fails). Whether the database answers is a flag of
  each operation. The locale \<open>ticket_store\<close> is the contract of a single-use store; the table
  is an instance of it.
\<close>

section \<open>Single-use stores\<close>

text \<open>
  The contract: an event puts a value under a key, takes a key out, or does neither, and a
  key holds a value after an event only if the event put it, or it held it before and the
  event did not take it.
\<close>

locale single_use =
  fixes step :: "'e \<Rightarrow> 's \<Rightarrow> 's"
    and holds :: "'s \<Rightarrow> 'k \<Rightarrow> 'v option"
    and puts :: "'e \<Rightarrow> 'k \<Rightarrow> 'v \<Rightarrow> bool"
    and takes :: "'e \<Rightarrow> 'k \<Rightarrow> bool"
  assumes ok_step: "holds (step e s) k = Some v \<Longrightarrow> puts e k v \<or> holds s k = Some v \<and> \<not> takes e k"
begin

definition history :: "'e list \<Rightarrow> 's \<Rightarrow> 's" where
  "history evs s = fold step evs s"

lemma history_snoc: "history (evs @ [e]) s = step e (history evs s)"
  by (simp add: history_def)

lemma held_was_put:
  "holds (history evs s) k = Some v \<Longrightarrow> holds s k = None \<Longrightarrow>
   \<exists>xs e ys. evs = xs @ e # ys \<and> puts e k v \<and> (\<forall>e' \<in> set ys. \<not> takes e' k)"
proof (induction evs rule: rev_induct)
  case Nil
  then show ?case by (simp add: history_def)
next
  case (snoc e evs)
  then have "puts e k v \<or> holds (history evs s) k = Some v \<and> \<not> takes e k"
    using ok_step by (simp add: history_snoc)
  then show ?case
  proof
    assume "puts e k v"
    then have "evs @ [e] = evs @ e # [] \<and> puts e k v \<and> (\<forall>e' \<in> set []. \<not> takes e' k)" by simp
    then show ?thesis by blast
  next
    assume old: "holds (history evs s) k = Some v \<and> \<not> takes e k"
    then obtain xs p ys where "evs = xs @ p # ys" "puts p k v" "\<forall>e' \<in> set ys. \<not> takes e' k"
      using snoc.IH snoc.prems(2) by blast
    with old have "evs @ [e] = xs @ p # (ys @ [e]) \<and> puts p k v \<and> (\<forall>e' \<in> set (ys @ [e]). \<not> takes e' k)"
      by auto
    then show ?thesis by blast
  qed
qed

end

section \<open>The token store\<close>

definition token_ttl :: duration where
  "token_ttl = 24 * 3600 * second"

definition token_prefix :: string where
  "token_prefix = ''dcap_''"

datatype token_error = TokenInvalid | TokenExpired | TokenArgs | TokenStoreFailed

record token_info =
  ti_task :: task_id
  ti_hash :: string

record token_row =
  tr_info :: token_info
  tr_created :: int
  tr_expires :: int

type_synonym token_table = "string \<rightharpoonup> token_row"

text \<open>\<open>Time.Unix\<close>: whole seconds.\<close>

definition unix :: "time \<Rightarrow> int" where
  "unix t = t div second"

lemma unix_le: "unix a \<le> unix b \<Longrightarrow> a < b + second"
proof -
  assume "unix a \<le> unix b"
  moreover have "a < (unix a + 1) * second"
    using pos_mod_bound [of second a] div_mult_mod_eq [of a second]
    by (simp add: unix_def second_def algebra_simps)
  moreover have "unix b * second \<le> b"
    using pos_mod_sign [of second b] div_mult_mod_eq [of b second]
    by (simp add: unix_def second_def)
  moreover have "unix a \<le> unix b \<Longrightarrow> unix a * second \<le> unix b * second"
    by (simp add: second_def)
  ultimately show ?thesis by (simp add: algebra_simps)
qed

definition mint ::
  "(string \<Rightarrow> string) \<Rightarrow> bool \<Rightarrow> bool \<Rightarrow> string option \<Rightarrow> time \<Rightarrow> task_id \<Rightarrow> string \<Rightarrow> token_table \<Rightarrow>
   (token_error + string) \<times> token_table" where
  "mint sha gc_ok insert_ok raw now tid hash tab =
     (if tid = [] \<or> hash = [] then (Inl TokenArgs, tab)
      else case raw of
        None \<Rightarrow> (Inl TokenStoreFailed, tab)
      | Some body \<Rightarrow>
          (let token = token_prefix @ body;
               tab1 = (if gc_ok then (\<lambda>k. case tab k of None \<Rightarrow> None
                                       | Some r \<Rightarrow> if tr_expires r < unix now then None else Some r)
                       else tab)
           in if \<not> insert_ok \<or> tab1 (sha token) \<noteq> None then (Inl TokenStoreFailed, tab1)
              else (Inr token, tab1(sha token \<mapsto>
                 \<lparr>tr_info = \<lparr>ti_task = tid, ti_hash = hash\<rparr>, tr_created = unix now,
                  tr_expires = unix (now + token_ttl)\<rparr>))))"

definition lookup_token ::
  "(string \<Rightarrow> string) \<Rightarrow> bool \<Rightarrow> string \<Rightarrow> token_table \<Rightarrow> token_error + token_info \<times> int" where
  "lookup_token sha db_ok token tab =
     (if \<not> has_prefix token_prefix token then Inl TokenInvalid
      else if \<not> db_ok then Inl TokenStoreFailed
      else case tab (sha token) of None \<Rightarrow> Inl TokenInvalid | Some r \<Rightarrow> Inr (tr_info r, tr_expires r))"

definition peek ::
  "(string \<Rightarrow> string) \<Rightarrow> bool \<Rightarrow> time \<Rightarrow> string \<Rightarrow> token_table \<Rightarrow> token_error + token_info" where
  "peek sha db_ok now token tab =
     (case lookup_token sha db_ok token tab of
        Inl e \<Rightarrow> Inl e
      | Inr (info, expires) \<Rightarrow> if expires < unix now then Inl TokenExpired else Inr info)"

text \<open>\<open>del_ok\<close> says whether the delete inside the transaction succeeds; if it does not, the
  transaction is rolled back.\<close>

definition redeem ::
  "(string \<Rightarrow> string) \<Rightarrow> bool \<Rightarrow> bool \<Rightarrow> time \<Rightarrow> string \<Rightarrow> token_table \<Rightarrow> (token_error + token_info) \<times> token_table" where
  "redeem sha db_ok del_ok now token tab =
     (case lookup_token sha db_ok token tab of
        Inl e \<Rightarrow> (Inl e, tab)
      | Inr (info, expires) \<Rightarrow>
          if \<not> del_ok then (Inl TokenStoreFailed, tab)
          else (if expires < unix now then Inl TokenExpired else Inr info, tab(sha token := None)))"

section \<open>Histories\<close>

text \<open>Minting and redeeming are the operations that write; peeks leave the table alone.\<close>

datatype token_event =
    MintEvent bool bool "string option" time task_id string
  | RedeemEvent bool bool time string

fun token_step :: "(string \<Rightarrow> string) \<Rightarrow> token_event \<Rightarrow> token_table \<Rightarrow> token_table" where
  "token_step sha (MintEvent gc ins raw now tid h) tab = snd (mint sha gc ins raw now tid h tab)"
| "token_step sha (RedeemEvent db del now token) tab = snd (redeem sha db del now token tab)"

lemma redeem_found:
  "fst (redeem sha db del now token tab) = Inr info \<Longrightarrow>
   \<exists>r. tab (sha token) = Some r \<and> tr_info r = info \<and> unix now \<le> tr_expires r \<and> has_prefix token_prefix token"
  by (auto simp: redeem_def lookup_token_def split: if_splits option.splits)

lemma redeem_table:
  "snd (redeem sha db del now token tab) =
   (if has_prefix token_prefix token \<and> db \<and> del then tab(sha token := None) else tab)"
  by (auto simp: redeem_def lookup_token_def split: option.splits)

lemma mint_row:
  "snd (mint sha gc ins raw now tid h tab) k = Some r \<Longrightarrow>
   tab k = Some r \<or>
   (\<exists>body. raw = Some body \<and> k = sha (token_prefix @ body) \<and> tid \<noteq> [] \<and> h \<noteq> [] \<and>
      r = \<lparr>tr_info = \<lparr>ti_task = tid, ti_hash = h\<rparr>, tr_created = unix now, tr_expires = unix (now + token_ttl)\<rparr>)"
  by (auto simp: mint_def Let_def split: if_splits option.splits)

text \<open>Which row an event stores, and which key it removes for certain.\<close>

fun mints :: "(string \<Rightarrow> string) \<Rightarrow> token_event \<Rightarrow> string \<Rightarrow> token_row \<Rightarrow> bool" where
  "mints sha (MintEvent gc ins (Some body) now tid h) k r =
     (k = sha (token_prefix @ body) \<and> tid \<noteq> [] \<and> h \<noteq> [] \<and>
      r = \<lparr>tr_info = \<lparr>ti_task = tid, ti_hash = h\<rparr>, tr_created = unix now, tr_expires = unix (now + token_ttl)\<rparr>)"
| "mints sha e k r = False"

fun redeems :: "(string \<Rightarrow> string) \<Rightarrow> token_event \<Rightarrow> string \<Rightarrow> bool" where
  "redeems sha (RedeemEvent db del now token) k =
     (db \<and> del \<and> has_prefix token_prefix token \<and> k = sha token)"
| "redeems sha e k = False"

interpretation tok: single_use "token_step sha" "\<lambda>tab. tab" "mints sha" "redeems sha" for sha
proof
  fix e tab k r
  assume "token_step sha e tab k = Some r"
  then show "mints sha e k r \<or> tab k = Some r \<and> \<not> redeems sha e k"
    by (cases e) (auto simp: redeem_table split: if_splits dest!: mint_row)
qed

definition token_history :: "(string \<Rightarrow> string) \<Rightarrow> token_event list \<Rightarrow> token_table" where
  "token_history sha evs = fold (token_step sha) evs Map.empty"

lemma row_was_minted:
  "token_history sha evs k = Some r \<Longrightarrow>
   \<exists>xs e ys. evs = xs @ e # ys \<and> mints sha e k r \<and> (\<forall>e' \<in> set ys. \<not> redeems sha e' k)"
  using tok.held_was_put [of sha evs Map.empty k r] by (simp add: token_history_def tok.history_def)

section \<open>The handlers of a link\<close>

datatype link_page =
    LinkBroken
  | LinkStale
  | LinkConfirm token_info
  | LinkRejected gate_error
  | LinkApproved task_id

definition link_page ::
  "(string \<Rightarrow> string) \<Rightarrow> bool \<Rightarrow> time \<Rightarrow> (path \<Rightarrow> string \<Rightarrow> string \<Rightarrow> (int \<times> bool) option) \<Rightarrow> string \<Rightarrow>
   token_table \<times> gate \<Rightarrow> link_page \<times> token_table \<times> gate" where
  "link_page sha db_ok now walk token s =
     (case peek sha db_ok now token (fst s) of
        Inl e \<Rightarrow> (LinkBroken, s)
      | Inr info \<Rightarrow>
          (case pending_approval walk (snd s) (ti_task info) of
             (None, g) \<Rightarrow> (LinkStale, fst s, g)
           | (Some (h, _), g) \<Rightarrow>
               (if h \<noteq> ti_hash info then LinkStale else LinkConfirm info, fst s, g)))"

definition link_redeem ::
  "(string \<Rightarrow> string) \<Rightarrow> bool \<Rightarrow> bool \<Rightarrow> time \<Rightarrow> gate_env \<Rightarrow> string \<Rightarrow>
   token_table \<times> gate \<Rightarrow> link_page \<times> token_table \<times> gate" where
  "link_redeem sha db_ok del_ok now env token s =
     (case redeem sha db_ok del_ok now token (fst s) of
        (Inl e, tab) \<Rightarrow> (LinkBroken, tab, snd s)
      | (Inr info, tab) \<Rightarrow>
          (case approve_if_hash env (ti_task info) (ti_hash info) (snd s) of
             (Some e, g) \<Rightarrow> (LinkRejected e, tab, g)
           | (None, g) \<Rightarrow> (LinkApproved (ti_task info), tab, g)))"

section \<open>Compare links\<close>

definition exactly_two_segments :: "string \<Rightarrow> (string \<times> string) option" where
  "exactly_two_segments p =
     (case split_on CHR ''/'' p of
        [a, b] \<Rightarrow> if a = [] \<or> b = [] then None else Some (a, b)
      | _ \<Rightarrow> None)"

text \<open>\<open>gitops.ParseRemote\<close>, which splits a remote into host and path, is the parameter.\<close>

definition compare_url ::
  "(string \<Rightarrow> (string \<times> string) option) \<Rightarrow> string \<Rightarrow> string \<Rightarrow> string \<Rightarrow> string" where
  "compare_url parse_remote remote from_c to_c =
     (if from_c = [] \<or> to_c = [] \<or> from_c = to_c then []
      else case parse_remote remote of
        None \<Rightarrow> []
      | Some (host, p) \<Rightarrow>
          if host = ''github.com'' then
            (case exactly_two_segments p of None \<Rightarrow> []
             | Some (owner, repo) \<Rightarrow>
                 ''https://github.com/'' @ owner @ ''/'' @ repo @ ''/compare/'' @ from_c @ ''...'' @ to_c)
          else if host = ''gitlab.com'' then
            (if CHR ''/'' \<notin> set p then []
             else ''https://gitlab.com/'' @ p @ ''/-/compare/'' @ from_c @ ''...'' @ to_c)
          else [])"

lemma mints_event:
  "mints sha e k r \<Longrightarrow>
   \<exists>gc ins body t0. e = MintEvent gc ins (Some body) t0 (ti_task (tr_info r)) (ti_hash (tr_info r)) \<and>
     k = sha (token_prefix @ body) \<and> tr_expires r = unix (t0 + token_ttl)"
  by (cases "(sha, e, k, r)" rule: mints.cases) auto

section \<open>Properties\<close>


definition ex_mint :: token_event where
  "ex_mint = MintEvent True True (Some ''abc'') 0 ''src/t'' ''h1''"


text \<open>A link approves only what its page showed. Opening the page, as a link prefetcher does, neither
  consumes the token nor changes what is approved, armed or held. Redeeming it approves a task
  only if the task was pending at exactly the hash the token carries, and then it approves and
  arms that version; whatever the outcome, the token is consumed, and no other task is
  affected.\<close>

lemma link_approves_only_its_version:
  assumes "link_redeem sha True True now env token (tab, g) = (pg, tab', g')"
    and "link_page sha db now' walk token (tab, g) = (pg2, tab2, g2)"
  shows "(tab2 = tab \<and> gt_lock g2 = gt_lock g \<and> gt_pending g2 = gt_pending g \<and> gt_armed g2 = gt_armed g) \<and>
    (\<forall>tid. pg = LinkApproved tid \<longrightarrow>
       (\<exists>r ent. tab (sha token) = Some r \<and> ti_task (tr_info r) = tid \<and> unix now \<le> tr_expires r \<and>
          pending_entry_for g tid = Some ent \<and> pe_hash ent = ti_hash (tr_info r) \<and>
          approved (gt_lock g') tid (pe_hash ent) \<and> gt_armed g' = gt_armed g @ [pe_kinded ent])) \<and>
    (has_prefix token_prefix token \<longrightarrow> tab' (sha token) = None) \<and>
    (pg = LinkBroken \<longrightarrow> g' = g)"
proof -
  have page: "tab2 = tab \<and> gt_lock g2 = gt_lock g \<and> gt_pending g2 = gt_pending g \<and> gt_armed g2 = gt_armed g"
    using assms(2) by (auto simp: link_page_def pending_approval_def commit_count_def Let_def
        split: sum.splits prod.splits option.splits if_splits)
  obtain res tab1 where red: "redeem sha True True now token tab = (res, tab1)"
    by (cases "redeem sha True True now token tab")
  have tab': "tab' = tab1"
    using assms(1) red by (auto simp: link_redeem_def split: sum.splits prod.splits option.splits)
  have consumed: "has_prefix token_prefix token \<Longrightarrow> tab' (sha token) = None"
    using redeem_table [of sha True True now token tab] red tab' by auto
  have broken: "pg = LinkBroken \<longrightarrow> g' = g"
    using assms(1) red by (auto simp: link_redeem_def split: sum.splits prod.splits option.splits)
  have "\<exists>r ent. tab (sha token) = Some r \<and> ti_task (tr_info r) = tid \<and> unix now \<le> tr_expires r \<and>
          pending_entry_for g tid = Some ent \<and> pe_hash ent = ti_hash (tr_info r) \<and>
          approved (gt_lock g') tid (pe_hash ent) \<and> gt_armed g' = gt_armed g @ [pe_kinded ent]"
    if tid: "pg = LinkApproved tid" for tid
  proof -
    obtain info where info: "res = Inr info" "ti_task info = tid"
      "approve_if_hash env (ti_task info) (ti_hash info) g = (None, g')"
      using assms(1) red tid by (auto simp: link_redeem_def split: sum.splits prod.splits option.splits)
    from redeem_found [of sha True True now token tab info] red info(1) obtain r where
      "tab (sha token) = Some r" "tr_info r = info" "unix now \<le> tr_expires r" by auto
    with approve_if_hash_ok [OF info(3)] info(2) show ?thesis by auto
  qed
  with page consumed broken show ?thesis by blast
qed

lemma link_approves_only_its_version_witness:
  "\<exists>g'. link_redeem id True True second ex_env ''dcap_abc'' (token_history id [ex_mint], ex_held) =
       (LinkApproved ''src/t'', Map.empty, g') \<and> gt_armed g' = gt_armed ex_held @ [ex_task]"
proof -
  have tab: "token_history id [ex_mint] =
      [''dcap_abc'' \<mapsto> \<lparr>tr_info = \<lparr>ti_task = ''src/t'', ti_hash = ''h1''\<rparr>, tr_created = 0, tr_expires = 86400\<rparr>]"
    by (simp add: token_history_def ex_mint_def mint_def token_prefix_def
        unix_def second_def token_ttl_def Let_def)
  have red: "redeem id True True second ''dcap_abc'' (token_history id [ex_mint]) =
     (Inr \<lparr>ti_task = ''src/t'', ti_hash = ''h1''\<rparr>, Map.empty)"
    unfolding tab by (simp add: redeem_def lookup_token_def token_prefix_def unix_def second_def)
  have p: "pending_entry_for ex_held ''src/t'' = Some ex_entry"
    by (simp add: pending_entry_for_def ex_held_def)
  obtain g' where "approve_if_hash ex_env ''src/t'' ''h1'' ex_held = (None, g')"
    using ex_commit p by (simp add: approve_if_hash_def approve_with_def)
  then have l: "link_redeem id True True second ex_env ''dcap_abc'' (token_history id [ex_mint], ex_held) =
      (LinkApproved ''src/t'', Map.empty, g')"
    using red by (simp add: link_redeem_def)
  obtain pg2 tab2 g2 where "link_page id True second (\<lambda>_ _ _. None) ''dcap_abc'' (token_history id [ex_mint], ex_held) = (pg2, tab2, g2)"
    by (cases "link_page id True second (\<lambda>_ _ _. None) ''dcap_abc'' (token_history id [ex_mint], ex_held)") auto
  from link_approves_only_its_version [OF l this] l p show ?thesis
    by (auto simp: ex_entry_def)
qed

end
