(* ===== verification/DaemonSlots.thy ===== *)
theory DaemonSlots
  imports Prelude
begin

text \<open>
  The slots of standalone daemons, pkg/trigger/daemon_slot.go. Entries are shared: a handle
  holds a pointer to an entry and compares it with the pointer in the map. So the entries
  live in a store addressed by numbers, \<open>ds_heap\<close>, which only ever grows; an address is what
  \<open>&slotEntry{}\<close> returns. Each operation is one critical section of the mutex.

  The locale \<open>lease\<close> is what the daemon lifecycle relies on: a new claim comes with a fresh
  entry, so an entry that has lost its slot never gets one again.
\<close>

section \<open>State\<close>

record slot_key =
  sk_pipeline :: bool
  sk_id :: string

record slot_entry =
  se_run :: run_id
  se_parked :: bool
  se_evicted :: bool

record daemon_slots =
  ds_map :: "slot_key \<rightharpoonup> nat"
  ds_heap :: "nat \<Rightarrow> slot_entry"
  ds_next :: nat

record daemon_slot =
  sh_key :: slot_key
  sh_entry :: nat
  sh_run :: run_id

definition fresh_entry :: slot_entry where
  "fresh_entry = \<lparr>se_run = [], se_parked = False, se_evicted = False\<rparr>"

definition new_daemon_slots :: daemon_slots where
  "new_daemon_slots = \<lparr>ds_map = Map.empty, ds_heap = (\<lambda>_. fresh_entry), ds_next = 0\<rparr>"

definition update_entry :: "nat \<Rightarrow> (slot_entry \<Rightarrow> slot_entry) \<Rightarrow> daemon_slots \<Rightarrow> daemon_slots" where
  "update_entry a f s = s\<lparr>ds_heap := (ds_heap s)(a := f (ds_heap s a))\<rparr>"

definition delete_key :: "slot_key \<Rightarrow> daemon_slots \<Rightarrow> daemon_slots" where
  "delete_key k s = s\<lparr>ds_map := (ds_map s)(k := None)\<rparr>"

definition task_key :: "task_id \<Rightarrow> slot_key" where
  "task_key tid = \<lparr>sk_pipeline = False, sk_id = tid\<rparr>"

section \<open>Operations\<close>

definition claim_key :: "slot_key \<Rightarrow> daemon_slots \<Rightarrow> daemon_slot option \<times> daemon_slots" where
  "claim_key k s =
     (case ds_map s k of
        Some _ \<Rightarrow> (None, s)
      | None \<Rightarrow>
          (let a = ds_next s in
           (Some \<lparr>sh_key = k, sh_entry = a, sh_run = []\<rparr>,
            s\<lparr>ds_map := (ds_map s)(k \<mapsto> a), ds_heap := (ds_heap s)(a := fresh_entry), ds_next := Suc a\<rparr>)))"

definition claim :: "task_id \<Rightarrow> daemon_slots \<Rightarrow> daemon_slot option \<times> daemon_slots" where
  "claim tid = claim_key (task_key tid)"

definition claim_pipeline :: "string \<Rightarrow> daemon_slots \<Rightarrow> daemon_slot option \<times> daemon_slots" where
  "claim_pipeline pid = claim_key \<lparr>sk_pipeline = True, sk_id = pid\<rparr>"

definition holding :: "task_id \<Rightarrow> run_id \<Rightarrow> daemon_slots \<Rightarrow> daemon_slot option" where
  "holding tid run s =
     (if run = [] then None
      else case ds_map s (task_key tid) of
        None \<Rightarrow> None
      | Some a \<Rightarrow> if se_run (ds_heap s a) \<noteq> run then None
                else Some \<lparr>sh_key = task_key tid, sh_entry = a, sh_run = run\<rparr>)"

definition owned :: "daemon_slot \<Rightarrow> daemon_slots \<Rightarrow> bool" where
  "owned h s = (ds_map s (sh_key h) = Some (sh_entry h))"

definition release :: "run_id \<Rightarrow> daemon_slot \<Rightarrow> daemon_slots \<Rightarrow> bool \<times> daemon_slots" where
  "release run h s =
     (if \<not> owned h s \<or> se_run (ds_heap s (sh_entry h)) \<noteq> run then (False, s)
      else (True, delete_key (sh_key h) s))"

text \<open>\<open>releaseRun\<close> takes the lock twice. It acts as if at its second critical section, or at its
  first if that finds nothing: an operation in between can only make \<open>release\<close> refuse, and
  then the slot is not bound to the run any more.\<close>

definition release_run :: "task_id \<Rightarrow> run_id \<Rightarrow> daemon_slots \<Rightarrow> bool \<times> daemon_slots" where
  "release_run tid run s = (case holding tid run s of None \<Rightarrow> (False, s) | Some h \<Rightarrow> release run h s)"

definition evict :: "task_id \<Rightarrow> daemon_slots \<Rightarrow> run_id \<times> daemon_slots" where
  "evict tid s =
     (case ds_map s (task_key tid) of
        None \<Rightarrow> ([], s)
      | Some a \<Rightarrow> (se_run (ds_heap s a),
          update_entry a (\<lambda>e. e\<lparr>se_evicted := True\<rparr>) (delete_key (task_key tid) s)))"

definition slot_run_id :: "task_id \<Rightarrow> daemon_slots \<Rightarrow> run_id" where
  "slot_run_id tid s = (case ds_map s (task_key tid) of None \<Rightarrow> [] | Some a \<Rightarrow> se_run (ds_heap s a))"

definition slot_runs :: "daemon_slots \<Rightarrow> task_id \<rightharpoonup> run_id" where
  "slot_runs s tid = (case ds_map s (task_key tid) of None \<Rightarrow> None
     | Some a \<Rightarrow> if se_run (ds_heap s a) \<noteq> [] then Some (se_run (ds_heap s a)) else None)"

definition bound :: "run_id \<Rightarrow> daemon_slot \<Rightarrow> daemon_slots \<Rightarrow> bool" where
  "bound run h s = (owned h s \<and> se_run (ds_heap s (sh_entry h)) = run)"

definition slot_evicted :: "daemon_slot \<Rightarrow> daemon_slots \<Rightarrow> bool" where
  "slot_evicted h s = se_evicted (ds_heap s (sh_entry h))"

definition attach :: "run_id \<Rightarrow> daemon_slot \<Rightarrow> daemon_slots \<Rightarrow> bool \<times> daemon_slots" where
  "attach run h s =
     (if \<not> owned h s then (False, s)
      else (True, update_entry (sh_entry h) (\<lambda>e. e\<lparr>se_run := run, se_parked := False\<rparr>) s))"

definition park :: "daemon_slot \<Rightarrow> daemon_slots \<Rightarrow> bool \<times> daemon_slots" where
  "park h s =
     (if \<not> owned h s \<or> se_run (ds_heap s (sh_entry h)) \<noteq> sh_run h then (False, s)
      else (True, update_entry (sh_entry h) (\<lambda>e. e\<lparr>se_parked := True\<rparr>) s))"

definition adopt :: "run_id \<Rightarrow> daemon_slot \<Rightarrow> daemon_slots \<Rightarrow> bool \<times> daemon_slots" where
  "adopt run h s =
     (if sh_run h = [] \<or> run = [] then (False, s)
      else if \<not> owned h s \<or> se_run (ds_heap s (sh_entry h)) \<noteq> sh_run h then (False, s)
      else (True, update_entry (sh_entry h) (\<lambda>e. e\<lparr>se_run := run, se_parked := False\<rparr>) s))"

lemmas slot_op_defs = claim_key_def release_def release_run_def evict_def attach_def park_def adopt_def
  holding_def owned_def update_entry_def delete_key_def Let_def

section \<open>Leases\<close>

text \<open>
  \<open>trans\<close> is one operation. What a holder can rely on: a key gets a new holder only when it
  has none, and the new holder is an entry never seen before.
\<close>

locale lease =
  fixes ok :: "'s \<Rightarrow> bool"
    and holder :: "'s \<Rightarrow> 'k \<Rightarrow> 'a option"
    and known :: "'s \<Rightarrow> 'a set"
    and trans :: "'s \<Rightarrow> 's \<Rightarrow> bool"
  assumes ok_trans: "trans s t \<Longrightarrow> ok s \<Longrightarrow> ok t"
    and ok_held: "ok s \<Longrightarrow> holder s k = Some a \<Longrightarrow> a \<in> known s"
    and ok_known: "trans s t \<Longrightarrow> ok s \<Longrightarrow> known s \<subseteq> known t"
    and ok_fresh: "trans s t \<Longrightarrow> ok s \<Longrightarrow> holder t k = Some a \<Longrightarrow>
        holder s k = Some a \<or> holder s k = None \<and> a \<notin> known s"
begin

lemma reach_ok: "trans\<^sup>*\<^sup>* s t \<Longrightarrow> ok s \<Longrightarrow> ok t"
  by (induction rule: rtranclp_induct) (auto intro: ok_trans)

lemma reach_known: "trans\<^sup>*\<^sup>* s t \<Longrightarrow> ok s \<Longrightarrow> known s \<subseteq> known t"
  by (induction rule: rtranclp_induct) (use ok_known reach_ok in blast)+

lemma lost_for_ever:
  "trans\<^sup>*\<^sup>* s t \<Longrightarrow> ok s \<Longrightarrow> a \<in> known s \<Longrightarrow> holder s k \<noteq> Some a \<Longrightarrow> holder t k \<noteq> Some a"
proof (induction rule: rtranclp_induct)
  case base
  then show ?case by simp
next
  case (step t u)
  then have "ok t" "a \<in> known t" "holder t k \<noteq> Some a"
    using reach_ok reach_known by blast+
  with ok_fresh [OF step.hyps(2), of k a] show ?case by blast
qed

lemma handover_needs_release:
  assumes "trans\<^sup>*\<^sup>* s t" "ok s" "holder s k = Some a" "holder t k = Some b" "b \<noteq> a"
  shows "\<exists>m. trans\<^sup>*\<^sup>* s m \<and> trans\<^sup>*\<^sup>* m t \<and> holder m k = None"
  using assms
proof (induction arbitrary: b rule: rtranclp_induct)
  case base
  then show ?case by simp
next
  case (step t u)
  have "ok t" using step.hyps(1) step.prems(1) by (rule reach_ok)
  from ok_fresh [OF step.hyps(2) this step.prems(3)] show ?case
  proof
    assume "holder t k = Some b"
    then obtain m where "trans\<^sup>*\<^sup>* s m" "trans\<^sup>*\<^sup>* m t" "holder m k = None"
      using step.IH [OF step.prems(1,2) _ step.prems(4)] by blast
    with step.hyps(2) show ?thesis by (meson rtranclp.rtrancl_into_rtrancl)
  next
    assume "holder t k = None \<and> b \<notin> known t"
    with step.hyps show ?thesis by blast
  qed
qed

end

section \<open>The slots are leases\<close>

datatype slot_op =
    OpClaim slot_key
  | OpAttach run_id daemon_slot
  | OpPark daemon_slot
  | OpAdopt run_id daemon_slot
  | OpRelease run_id daemon_slot
  | OpReleaseRun task_id run_id
  | OpEvict task_id

fun slot_exec :: "slot_op \<Rightarrow> daemon_slots \<Rightarrow> daemon_slots" where
  "slot_exec (OpClaim k) s = snd (claim_key k s)"
| "slot_exec (OpAttach r h) s = snd (attach r h s)"
| "slot_exec (OpPark h) s = snd (park h s)"
| "slot_exec (OpAdopt r h) s = snd (adopt r h s)"
| "slot_exec (OpRelease r h) s = snd (release r h s)"
| "slot_exec (OpReleaseRun tid r) s = snd (release_run tid r s)"
| "slot_exec (OpEvict tid) s = snd (evict tid s)"

definition slot_trans :: "daemon_slots \<Rightarrow> daemon_slots \<Rightarrow> bool" where
  "slot_trans s t \<longleftrightarrow> (\<exists>op. t = slot_exec op s)"

text \<open>The invariant: addresses in the map are allocated, belong to one key, and are not evicted.\<close>

definition slots_ok :: "daemon_slots \<Rightarrow> bool" where
  "slots_ok s \<longleftrightarrow>
     (\<forall>k a. ds_map s k = Some a \<longrightarrow> a < ds_next s \<and> \<not> se_evicted (ds_heap s a)) \<and>
     (\<forall>k k' a. ds_map s k = Some a \<longrightarrow> ds_map s k' = Some a \<longrightarrow> k = k')"

lemma slots_ok_held: "slots_ok s \<Longrightarrow> ds_map s k = Some a \<Longrightarrow> a < ds_next s \<and> \<not> se_evicted (ds_heap s a)"
  by (auto simp: slots_ok_def)

lemma slots_ok_inj: "slots_ok s \<Longrightarrow> ds_map s k = Some a \<Longrightarrow> ds_map s k' = Some a \<Longrightarrow> k = k'"
  by (auto simp: slots_ok_def)

lemma slots_ok_new: "slots_ok new_daemon_slots"
  by (simp add: slots_ok_def new_daemon_slots_def)

lemma slots_ok_delete: "slots_ok s \<Longrightarrow> slots_ok (delete_key k s)"
  by (auto simp: slots_ok_def delete_key_def split: if_splits)

lemma slots_ok_update:
  "slots_ok s \<Longrightarrow> (\<And>e. \<not> se_evicted e \<Longrightarrow> \<not> se_evicted (f e)) \<Longrightarrow> slots_ok (update_entry a f s)"
  by (auto simp: slots_ok_def update_entry_def)

lemma slots_ok_claim: "slots_ok s \<Longrightarrow> slots_ok (snd (claim_key k s))"
  by (auto simp: slots_ok_def claim_key_def Let_def fresh_entry_def less_SucI split: option.splits)

lemma slots_ok_evict: "slots_ok s \<Longrightarrow> slots_ok (snd (evict tid s))"
  by (auto simp: slots_ok_def evict_def update_entry_def delete_key_def split: option.splits if_splits)

lemma slots_ok_release: "slots_ok s \<Longrightarrow> slots_ok (snd (release r h s))"
  by (simp add: release_def slots_ok_delete)

lemma slots_ok_exec: "slots_ok s \<Longrightarrow> slots_ok (slot_exec op s)"
  by (cases op)
    (auto simp: slots_ok_claim slots_ok_evict slots_ok_release attach_def park_def adopt_def release_run_def
      slots_ok_update split: option.splits)

lemma slot_exec_map:
  "ds_map (slot_exec op s) k = Some a \<Longrightarrow> ds_map s k = Some a \<or> ds_map s k = None \<and> a = ds_next s"
  by (cases op) (auto simp: slot_op_defs split: option.splits if_splits)

lemma slot_exec_next: "ds_next s \<le> ds_next (slot_exec op s)"
  by (cases op) (auto simp: slot_op_defs split: option.splits)

interpretation slot: lease slots_ok ds_map "\<lambda>s. {..<ds_next s}" slot_trans
proof
  fix s t :: daemon_slots
  fix k a
  show "slot_trans s t \<Longrightarrow> slots_ok s \<Longrightarrow> slots_ok t"
    by (auto simp: slot_trans_def slots_ok_exec)
  show "slots_ok s \<Longrightarrow> ds_map s k = Some a \<Longrightarrow> a \<in> {..<ds_next s}"
    by (simp add: slots_ok_held)
  show "slot_trans s t \<Longrightarrow> slots_ok s \<Longrightarrow> {..<ds_next s} \<subseteq> {..<ds_next t}"
    using slot_exec_next by (auto simp: slot_trans_def intro: less_le_trans)
  show "slot_trans s t \<Longrightarrow> slots_ok s \<Longrightarrow> ds_map t k = Some a \<Longrightarrow>
      ds_map s k = Some a \<or> ds_map s k = None \<and> a \<notin> {..<ds_next s}"
    using slot_exec_map by (fastforce simp: slot_trans_def)
qed

section \<open>Properties\<close>

text \<open>A handle that has lost its slot is inert for ever: whatever operations follow, by any number
  of callers, the slot is never again bound to it, none of its operations succeeds or
  changes the slots, and its slot can pass to another entry only through a moment at which
  it is free.\<close>

lemma stale_handle_is_inert:
  assumes "slots_ok s" "slot_trans\<^sup>*\<^sup>* s t" "sh_entry h < ds_next s" "\<not> owned h s"
  shows "\<not> owned h t \<and> attach r h t = (False, t) \<and> park h t = (False, t) \<and> adopt r h t = (False, t) \<and>
    release r h t = (False, t) \<and> \<not> bound r h t \<and>
    (\<forall>u b. owned u s \<and> ds_map t (sh_key u) = Some b \<and> b \<noteq> sh_entry u \<longrightarrow>
       (\<exists>m. slot_trans\<^sup>*\<^sup>* s m \<and> slot_trans\<^sup>*\<^sup>* m t \<and> ds_map m (sh_key u) = None))"
proof -
  have "\<not> owned h t"
    using slot.lost_for_ever [OF assms(2,1), of "sh_entry h" "sh_key h"] assms(3,4) by (simp add: owned_def)
  moreover have "\<exists>m. slot_trans\<^sup>*\<^sup>* s m \<and> slot_trans\<^sup>*\<^sup>* m t \<and> ds_map m (sh_key u) = None"
    if "owned u s" "ds_map t (sh_key u) = Some b" "b \<noteq> sh_entry u" for u b
    using slot.handover_needs_release [OF assms(2,1)] that by (simp add: owned_def)
  ultimately show ?thesis
    by (auto simp: attach_def park_def adopt_def release_def bound_def)
qed

lemma stale_handle_is_inert_witness:
  "\<exists>h s t. claim ''d'' new_daemon_slots = (Some h, s) \<and>
     attach ''r2'' h (snd (claim ''d'' (snd (evict ''d'' s)))) = (False, snd (claim ''d'' (snd (evict ''d'' s))))"
proof -
  define h where "h = \<lparr>sh_key = task_key ''d'', sh_entry = 0, sh_run = []\<rparr>"
  define s where "s = \<lparr>ds_map = [task_key ''d'' \<mapsto> 0], ds_heap = (\<lambda>_. fresh_entry), ds_next = 1\<rparr>"
  have c: "claim ''d'' new_daemon_slots = (Some h, s)"
    by (auto simp: claim_def claim_key_def new_daemon_slots_def h_def s_def Let_def)
  let ?s = "snd (evict ''d'' s)"
  have "slots_ok ?s"
    using slots_ok_evict slots_ok_claim [OF slots_ok_new, of "task_key ''d''"] c by (simp add: claim_def)
  moreover have "slot_trans\<^sup>*\<^sup>* ?s (snd (claim ''d'' ?s))"
    by (rule r_into_rtranclp) (auto simp: slot_trans_def claim_def intro: exI [of _ "OpClaim (task_key ''d'')"])
  moreover have "sh_entry h < ds_next ?s" "\<not> owned h ?s"
    by (simp_all add: h_def s_def evict_def owned_def update_entry_def delete_key_def)
  ultimately have "attach ''r2'' h (snd (claim ''d'' ?s)) = (False, snd (claim ''d'' ?s))"
    using stale_handle_is_inert [of ?s "snd (claim ''d'' ?s)" h "''r2''"] by blast
  with c show ?thesis by blast
qed

end
