(* ===== verification/CrashLoop.thy ===== *)
theory CrashLoop
  imports Prelude
begin

text \<open>
  Crash-loop detection and the published state of daemons: pkg/trigger/crashloop.go and
  daemon_state.go. The tracker is a map that counts; the reference reads the count off
  the history of a daemon. The clock is an argument of the operations that read it.
\<close>

section \<open>The tracker\<close>

definition daemon_backoff_init :: duration where
  "daemon_backoff_init = 1 * second"

definition daemon_backoff_max :: duration where
  "daemon_backoff_max = 30 * second"

definition daemon_stable_threshold :: duration where
  "daemon_stable_threshold = 10 * second"

definition crashloop_threshold :: nat where
  "crashloop_threshold = 3"

definition crashloop_sustain_window :: duration where
  "crashloop_sustain_window = daemon_stable_threshold"

text \<open>\<open>ce_spawned_at\<close> is \<open>None\<close> for the zero time.\<close>

record crashloop_entry =
  ce_quick_fails :: nat
  ce_spawned_at :: "time option"

type_synonym crashloop_tracker = "task_id \<rightharpoonup> crashloop_entry"

definition note_spawn :: "time \<Rightarrow> task_id \<Rightarrow> crashloop_tracker \<Rightarrow> crashloop_tracker" where
  "note_spawn now tid t = (case t tid of None \<Rightarrow> t | Some e \<Rightarrow> t(tid \<mapsto> e\<lparr>ce_spawned_at := Some now\<rparr>))"

definition note_exit :: "task_id \<Rightarrow> duration \<Rightarrow> bool \<Rightarrow> crashloop_tracker \<Rightarrow> nat \<times> crashloop_tracker" where
  "note_exit tid elapsed clean t =
     (if clean \<or> crashloop_sustain_window \<le> elapsed then (0, t(tid := None))
      else (let e = (case t tid of None \<Rightarrow> \<lparr>ce_quick_fails = 0, ce_spawned_at = None\<rparr> | Some e \<Rightarrow> e);
                n = Suc (ce_quick_fails e)
            in (n, t(tid \<mapsto> \<lparr>ce_quick_fails = n, ce_spawned_at = None\<rparr>))))"

definition clear_spawn :: "task_id \<Rightarrow> crashloop_tracker \<Rightarrow> crashloop_tracker" where
  "clear_spawn tid t = (case t tid of None \<Rightarrow> t | Some e \<Rightarrow> t(tid \<mapsto> e\<lparr>ce_spawned_at := None\<rparr>))"

definition reset_crash :: "task_id \<Rightarrow> crashloop_tracker \<Rightarrow> crashloop_tracker" where
  "reset_crash tid t = t(tid := None)"

definition is_crash_looping :: "time \<Rightarrow> task_id \<Rightarrow> crashloop_tracker \<Rightarrow> bool \<times> crashloop_tracker" where
  "is_crash_looping now tid t =
     (case t tid of
        None \<Rightarrow> (False, t)
      | Some e \<Rightarrow>
          if ce_quick_fails e < crashloop_threshold then (False, t)
          else (case ce_spawned_at e of
                  Some at \<Rightarrow> if crashloop_sustain_window \<le> now - at then (False, t(tid := None)) else (True, t)
                | None \<Rightarrow> (True, t)))"

section \<open>Published states\<close>

datatype daemon_state =
    DaemonStopped
  | DaemonRunning
  | DaemonStopping
  | DaemonFailedAfterPreflight
  | DaemonCrashed
  | DaemonSuspended
  | DaemonCrashLooping

type_synonym daemon_state_map = "task_id \<rightharpoonup> daemon_state"

definition get_state :: "task_id \<Rightarrow> daemon_state_map \<Rightarrow> daemon_state" where
  "get_state tid m = (case m tid of None \<Rightarrow> DaemonStopped | Some s \<Rightarrow> s)"

definition set_state :: "task_id \<Rightarrow> daemon_state \<Rightarrow> daemon_state_map \<Rightarrow> daemon_state_map" where
  "set_state tid s m = (if s = DaemonStopped then m(tid := None) else m(tid \<mapsto> s))"

definition reported_state ::
  "time \<Rightarrow> task_id \<Rightarrow> crashloop_tracker \<times> daemon_state_map \<Rightarrow> daemon_state \<times> crashloop_tracker" where
  "reported_state now tid s =
     (case is_crash_looping now tid (fst s) of
        (True, t) \<Rightarrow> (DaemonCrashLooping, t)
      | (False, t) \<Rightarrow> (get_state tid (snd s), t))"

lemma get_set_state: "get_state u (set_state tid s m) = (if u = tid then s else get_state u m)"
  by (simp add: get_state_def set_state_def)

section \<open>Histories\<close>

datatype crash_event =
    SpawnEv time
  | ExitEv duration bool
  | ClearEv
  | ResetEv
  | QueryEv time

fun crash_step :: "task_id \<times> crash_event \<Rightarrow> crashloop_tracker \<Rightarrow> crashloop_tracker" where
  "crash_step (tid, SpawnEv now) t = note_spawn now tid t"
| "crash_step (tid, ExitEv elapsed clean) t = snd (note_exit tid elapsed clean t)"
| "crash_step (tid, ClearEv) t = clear_spawn tid t"
| "crash_step (tid, ResetEv) t = reset_crash tid t"
| "crash_step (tid, QueryEv now) t = snd (is_crash_looping now tid t)"

text \<open>
  The reference, on the events of one daemon with the latest first: the run still alive
  (\<open>live_spawn\<close>) and the number of quick failures in a row (\<open>quick_streak\<close>).
\<close>

fun live_spawn :: "crash_event list \<Rightarrow> time option" where
  "live_spawn [] = None"
| "live_spawn (SpawnEv now # evs) = Some now"
| "live_spawn (QueryEv now # evs) = live_spawn evs"
| "live_spawn (ev # evs) = None"

definition sustained :: "time \<Rightarrow> crash_event list \<Rightarrow> bool" where
  "sustained now evs = (case live_spawn evs of None \<Rightarrow> False | Some at \<Rightarrow> crashloop_sustain_window \<le> now - at)"

fun quick_streak :: "crash_event list \<Rightarrow> nat" where
  "quick_streak [] = 0"
| "quick_streak (ExitEv elapsed clean # evs) =
     (if clean \<or> crashloop_sustain_window \<le> elapsed then 0 else Suc (quick_streak evs))"
| "quick_streak (ResetEv # evs) = 0"
| "quick_streak (QueryEv now # evs) =
     (if crashloop_threshold \<le> quick_streak evs \<and> sustained now evs then 0 else quick_streak evs)"
| "quick_streak (ev # evs) = quick_streak evs"

definition events_of :: "task_id \<Rightarrow> (task_id \<times> crash_event) list \<Rightarrow> crash_event list" where
  "events_of tid evs = map snd (filter (\<lambda>e. fst e = tid) evs)"

definition crash_history :: "(task_id \<times> crash_event) list \<Rightarrow> crashloop_tracker" where
  "crash_history evs = foldr crash_step evs Map.empty"

lemma crash_step_other: "u \<noteq> tid \<Longrightarrow> crash_step (tid, ev) t u = t u"
  by (cases ev)
    (auto simp: note_spawn_def note_exit_def clear_spawn_def reset_crash_def is_crash_looping_def Let_def
      split: option.splits)

text \<open>The abstraction: what the entry of a daemon says of its history.\<close>

definition tracks :: "crashloop_entry option \<Rightarrow> crash_event list \<Rightarrow> bool" where
  "tracks en evs = (case en of
      None \<Rightarrow> quick_streak evs = 0
    | Some e \<Rightarrow> 0 < quick_streak evs \<and> ce_quick_fails e = quick_streak evs \<and> ce_spawned_at e = live_spawn evs)"

lemma tracks_step:
  assumes "tracks (t tid) evs"
  shows "tracks (crash_step (tid, ev) t tid) (ev # evs)"
proof (cases "t tid")
  case None
  with assms show ?thesis
    by (cases ev)
      (auto simp: tracks_def note_spawn_def note_exit_def clear_spawn_def reset_crash_def is_crash_looping_def
        crashloop_threshold_def Let_def)
next
  case (Some e)
  with assms have e: "0 < quick_streak evs" "ce_quick_fails e = quick_streak evs" "ce_spawned_at e = live_spawn evs"
    by (simp_all add: tracks_def)
  with Some show ?thesis
    by (cases ev)
      (auto simp: tracks_def note_spawn_def note_exit_def clear_spawn_def reset_crash_def is_crash_looping_def
        sustained_def Let_def split: option.splits)
qed

lemma crash_history_tracks: "tracks (crash_history evs tid) (events_of tid evs)"
proof (induction evs)
  case Nil
  then show ?case by (simp add: crash_history_def events_of_def tracks_def)
next
  case (Cons e evs)
  obtain u ev where e: "e = (u, ev)" by (cases e)
  have c: "crash_history (e # evs) = crash_step (u, ev) (crash_history evs)"
    by (simp add: crash_history_def e)
  show ?case
  proof (cases "u = tid")
    case True
    with Cons tracks_step [of "crash_history evs" tid "events_of tid evs" ev] show ?thesis
      by (simp add: c) (simp add: events_of_def e)
  next
    case False
    with Cons show ?thesis by (simp add: c crash_step_other) (simp add: events_of_def e)
  qed
qed

section \<open>Properties\<close>

text \<open>The tracker reports exactly the rule it documents. After any history of spawns, exits, failed
  launches, resets and queries of any number of daemons, a daemon is reported as
  crash-looping if and only if its last exits were at least three quick failures in a row, no
  other daemon's events counting, and no live run has lasted the sustain window; an exit
  returns the length of that row; and the published state is overridden exactly then.\<close>

lemma crash_loop_is_three_quick_failures:
  "(fst (is_crash_looping now tid (crash_history evs)) \<longleftrightarrow>
     crashloop_threshold \<le> quick_streak (events_of tid evs) \<and> \<not> sustained now (events_of tid evs)) \<and>
   fst (note_exit tid elapsed clean (crash_history evs)) =
     quick_streak (ExitEv elapsed clean # events_of tid evs) \<and>
   fst (reported_state now tid (crash_history evs, m)) =
     (if crashloop_threshold \<le> quick_streak (events_of tid evs) \<and> \<not> sustained now (events_of tid evs)
      then DaemonCrashLooping else get_state tid m)"
proof -
  note tr = crash_history_tracks [of evs tid]
  have loop: "fst (is_crash_looping now tid (crash_history evs)) \<longleftrightarrow>
     crashloop_threshold \<le> quick_streak (events_of tid evs) \<and> \<not> sustained now (events_of tid evs)"
    using tr by (auto simp: is_crash_looping_def tracks_def sustained_def crashloop_threshold_def
        split: option.splits)
  moreover have "fst (note_exit tid elapsed clean (crash_history evs)) =
     quick_streak (ExitEv elapsed clean # events_of tid evs)"
    using tr by (auto simp: note_exit_def tracks_def Let_def split: option.splits)
  moreover have "fst (reported_state now tid (crash_history evs, m)) =
     (if fst (is_crash_looping now tid (crash_history evs)) then DaemonCrashLooping else get_state tid m)"
    unfolding reported_state_def by (auto split: prod.splits bool.splits)
  ultimately show ?thesis by simp
qed

end
