(* ===== verification/DaemonLifecycle.thy ===== *)
theory DaemonLifecycle
  imports DaemonSlots CrashLoop TaskSpec
begin

text \<open>
  The lifecycle of standalone daemons, pkg/trigger/daemon.go, with \<open>unregisterTriggersKeeping\<close>
  of engine.go and the daemon half of the suspension sweep. The handlers run on many
  goroutines; each is cut at its critical sections into the points \<open>daemon_proc\<close>, and a step
  of the system takes one goroutine from one point to the next, or is an event from outside
  (a registration, a body that ends, a resume, the sweep, shutdown).

  A body is a run started by this machinery. Runs that an operator fires by hand on a daemon
  task do not use the slots and are not bodies.
\<close>

section \<open>State\<close>

datatype body_phase = BodyLive | BodySuspended | BodyDone string duration

record body =
  bd_spec :: spec
  bd_entry :: nat
  bd_phase :: body_phase

datatype daemon_proc =
    PStart spec
  | PLaunch spec daemon_slot
  | PPublish spec daemon_slot run_id
  | PFire spec daemon_slot run_id
  | PFired daemon_slot run_id
  | PFinish spec run_id
  | PPark spec daemon_slot
  | PReleased spec string duration
  | PSleep spec duration
  | PWake spec
  | PClaimed spec daemon_slot
  | PResume spec run_id run_id
  | PAdopt spec daemon_slot run_id
  | PEvict task_id
  | PKill run_id
  | PSwept spec run_id duration
  | PSweptReleased spec duration

record daemon_sys =
  dy_slots :: daemon_slots
  dy_specs :: "task_id \<rightharpoonup> spec"
  dy_states :: daemon_state_map
  dy_crash :: crashloop_tracker
  dy_backoffs :: "task_id \<rightharpoonup> duration"
  dy_bodies :: "run_id \<rightharpoonup> body"
  dy_killed :: "run_id set"
  dy_shutdown :: bool
  dy_used :: "run_id set"
  dy_procs :: "daemon_proc list"

definition empty_sys :: daemon_sys where
  "empty_sys = \<lparr>dy_slots = new_daemon_slots, dy_specs = Map.empty, dy_states = Map.empty, dy_crash = Map.empty,
     dy_backoffs = Map.empty, dy_bodies = Map.empty, dy_killed = {}, dy_shutdown = False, dy_used = {},
     dy_procs = []\<rparr>"

definition put_state :: "task_id \<Rightarrow> daemon_state \<Rightarrow> daemon_sys \<Rightarrow> daemon_sys" where
  "put_state tid st s = s\<lparr>dy_states := set_state tid st (dy_states s)\<rparr>"

text \<open>The goroutine at position \<open>i\<close> goes on to the points \<open>ps\<close> (none when it ends).\<close>

definition next_points :: "nat \<Rightarrow> daemon_proc list \<Rightarrow> daemon_sys \<Rightarrow> daemon_sys" where
  "next_points i ps s = s\<lparr>dy_procs := take i (dy_procs s) @ ps @ drop (Suc i) (dy_procs s)\<rparr>"

section \<open>Starting a body\<close>

definition register_daemon :: "spec \<Rightarrow> daemon_sys \<Rightarrow> daemon_sys \<times> daemon_proc list" where
  "register_daemon spec s = (s\<lparr>dy_specs := (dy_specs s)(sp_id spec \<mapsto> spec)\<rparr>, [PStart spec])"

definition start_daemon :: "spec \<Rightarrow> daemon_sys \<Rightarrow> daemon_sys \<times> daemon_proc list" where
  "start_daemon spec s =
     (case claim (sp_id spec) (dy_slots s) of
        (None, _) \<Rightarrow> (s, [])
      | (Some h, sl) \<Rightarrow> (s\<lparr>dy_slots := sl\<rparr>, [PLaunch spec h]))"

text \<open>\<open>launchDaemon\<close>: note the spawn and attach; publish; fire; check for an eviction.\<close>

definition launch_attach :: "time \<Rightarrow> run_id \<Rightarrow> spec \<Rightarrow> daemon_slot \<Rightarrow> daemon_sys \<Rightarrow> daemon_sys \<times> daemon_proc list" where
  "launch_attach now run spec h s =
     (let s1 = s\<lparr>dy_crash := note_spawn now (sp_id spec) (dy_crash s)\<rparr> in
      case attach run h (dy_slots s) of
        (False, _) \<Rightarrow> (s1\<lparr>dy_crash := clear_spawn (sp_id spec) (dy_crash s1)\<rparr>, [])
      | (True, sl) \<Rightarrow> (s1\<lparr>dy_slots := sl\<rparr>, [PPublish spec h run]))"

definition publish_running :: "spec \<Rightarrow> daemon_slot \<Rightarrow> run_id \<Rightarrow> daemon_sys \<Rightarrow> daemon_sys \<times> daemon_proc list" where
  "publish_running spec h run s = (put_state (sp_id spec) DaemonRunning s, [PFire spec h run])"

definition fire_body :: "bool \<Rightarrow> spec \<Rightarrow> daemon_slot \<Rightarrow> run_id \<Rightarrow> daemon_sys \<Rightarrow> daemon_sys \<times> daemon_proc list" where
  "fire_body ok spec h run s =
     (if \<not> ok \<or> dy_shutdown s then
        (let s1 = s\<lparr>dy_slots := snd (release run h (dy_slots s)), dy_crash := clear_spawn (sp_id spec) (dy_crash s)\<rparr>
         in (put_state (sp_id spec) DaemonFailedAfterPreflight s1, []))
      else (s\<lparr>dy_bodies := (dy_bodies s)(run \<mapsto> \<lparr>bd_spec = spec, bd_entry = sh_entry h, bd_phase = BodyLive\<rparr>)\<rparr>,
            [PFired h run]))"

text \<open>\<open>KillRun\<close>: only a run that is registered and live has a cancel function.\<close>

definition kill_run :: "run_id \<Rightarrow> daemon_sys \<Rightarrow> daemon_sys" where
  "kill_run run s =
     (case dy_bodies s run of
        None \<Rightarrow> s
      | Some b \<Rightarrow> if bd_phase b = BodyLive then s\<lparr>dy_killed := insert run (dy_killed s)\<rparr> else s)"

definition fired_check :: "daemon_slot \<Rightarrow> run_id \<Rightarrow> daemon_sys \<Rightarrow> daemon_sys \<times> daemon_proc list" where
  "fired_check h run s = (if slot_evicted h (dy_slots s) then kill_run run s else s, [])"

section \<open>Resuming a suspended body\<close>

definition resume_hold :: "spec \<Rightarrow> run_id \<Rightarrow> run_id \<Rightarrow> daemon_sys \<Rightarrow> daemon_sys \<times> daemon_proc list" where
  "resume_hold spec suspended run s =
     (case holding (sp_id spec) suspended (dy_slots s) of
        None \<Rightarrow> (s, [])
      | Some h \<Rightarrow> (s, [PAdopt spec h run]))"

definition resume_adopt :: "time \<Rightarrow> spec \<Rightarrow> daemon_slot \<Rightarrow> run_id \<Rightarrow> daemon_sys \<Rightarrow> daemon_sys \<times> daemon_proc list" where
  "resume_adopt now spec h run s =
     (case adopt run h (dy_slots s) of
        (False, _) \<Rightarrow> (s, [])
      | (True, sl) \<Rightarrow> (s\<lparr>dy_slots := sl, dy_crash := note_spawn now (sp_id spec) (dy_crash s)\<rparr>,
                     [PPublish spec h run]))"

section \<open>The end of a body\<close>

definition status_of :: "body_phase \<Rightarrow> string" where
  "status_of ph = (case ph of BodyLive \<Rightarrow> ''running'' | BodySuspended \<Rightarrow> ''suspended'' | BodyDone st _ \<Rightarrow> st)"

definition elapsed_of :: "body_phase \<Rightarrow> duration" where
  "elapsed_of ph = (case ph of BodyDone _ d \<Rightarrow> d | _ \<Rightarrow> 0)"

text \<open>\<open>onDaemonRunFinished\<close>, up to the release of the slot; \<open>lookup_ok\<close> says whether \<open>GetRun\<close>
  succeeds.\<close>

definition on_daemon_run_finished :: "bool \<Rightarrow> spec \<Rightarrow> run_id \<Rightarrow> daemon_sys \<Rightarrow> daemon_sys \<times> daemon_proc list" where
  "on_daemon_run_finished lookup_ok spec run s =
     (case (if lookup_ok then dy_bodies s run else None) of
        None \<Rightarrow> (s\<lparr>dy_slots := snd (release_run (sp_id spec) run (dy_slots s))\<rparr>, [])
      | Some b \<Rightarrow>
          if bd_phase b = BodySuspended then
            (s, case holding (sp_id spec) run (dy_slots s) of None \<Rightarrow> [] | Some h \<Rightarrow> [PPark spec h])
          else (case release_run (sp_id spec) run (dy_slots s) of
                  (False, _) \<Rightarrow> (s, [])
                | (True, sl) \<Rightarrow> (s\<lparr>dy_slots := sl\<rparr>,
                                [PReleased spec (status_of (bd_phase b)) (elapsed_of (bd_phase b))])))"

definition park_body :: "spec \<Rightarrow> daemon_slot \<Rightarrow> daemon_sys \<Rightarrow> daemon_sys \<times> daemon_proc list" where
  "park_body spec h s =
     (case park h (dy_slots s) of
        (False, _) \<Rightarrow> (s, [])
      | (True, sl) \<Rightarrow> (put_state (sp_id spec) DaemonSuspended (s\<lparr>dy_slots := sl\<rparr>), []))"

text \<open>The restart policy. The result says whether and after which pause the body is restarted.\<close>

definition restart_policy :: "spec \<Rightarrow> string" where
  "restart_policy spec = (if tc_restart (sp_trigger spec) = [] then ''always'' else tc_restart (sp_trigger spec))"

definition restarts :: "spec \<Rightarrow> string \<Rightarrow> bool" where
  "restarts spec status =
     (if restart_policy spec = ''never'' then False
      else if restart_policy spec = ''on-failure'' then status = ''failure'' else True)"

definition restart_backoff :: "duration \<Rightarrow> duration option \<Rightarrow> duration" where
  "restart_backoff elapsed stored =
     (if daemon_stable_threshold \<le> elapsed then daemon_backoff_init
      else case stored of None \<Rightarrow> daemon_backoff_init | Some b \<Rightarrow> b)"

definition next_backoff :: "duration \<Rightarrow> duration" where
  "next_backoff b = (if daemon_backoff_max < b * 2 then daemon_backoff_max else b * 2)"

definition restart_daemon_after_exit ::
  "spec \<Rightarrow> string \<Rightarrow> duration \<Rightarrow> daemon_sys \<Rightarrow> daemon_sys \<times> daemon_proc list" where
  "restart_daemon_after_exit spec status elapsed s =
     (let tid = sp_id spec;
          s1 = s\<lparr>dy_crash := snd (note_exit tid elapsed (status = ''success'') (dy_crash s))\<rparr>
      in if \<not> restarts spec status then
           (put_state tid (if status = ''success'' then DaemonStopped else DaemonCrashed) s1, [])
         else (let b = restart_backoff elapsed (dy_backoffs s tid) in
               (s1\<lparr>dy_backoffs := (dy_backoffs s)(tid \<mapsto> b)\<rparr>, [PSleep spec b])))"

definition after_release :: "spec \<Rightarrow> string \<Rightarrow> duration \<Rightarrow> daemon_sys \<Rightarrow> daemon_sys \<times> daemon_proc list" where
  "after_release spec status elapsed s =
     (if dy_specs s (sp_id spec) = None \<or> dy_shutdown s then (s, [])
      else if status = ''cancelled'' then
        (put_state (sp_id spec) DaemonStopped (s\<lparr>dy_crash := reset_crash (sp_id spec) (dy_crash s)\<rparr>), [])
      else restart_daemon_after_exit spec status elapsed s)"

text \<open>The select on shutdown and the timer, the stored backoff, and the claim after it.\<close>

definition sleep_over :: "spec \<Rightarrow> duration \<Rightarrow> daemon_sys \<Rightarrow> daemon_sys \<times> daemon_proc list" where
  "sleep_over spec b s = (s\<lparr>dy_backoffs := (dy_backoffs s)(sp_id spec \<mapsto> next_backoff b)\<rparr>, [PWake spec])"

definition wake_claim :: "spec \<Rightarrow> daemon_sys \<Rightarrow> daemon_sys \<times> daemon_proc list" where
  "wake_claim spec s =
     (if dy_shutdown s then (s, [])
      else case claim (sp_id spec) (dy_slots s) of
        (None, _) \<Rightarrow> (s, [])
      | (Some h, sl) \<Rightarrow> (s\<lparr>dy_slots := sl\<rparr>, [PClaimed spec h]))"

definition claimed_check :: "spec \<Rightarrow> daemon_slot \<Rightarrow> daemon_sys \<Rightarrow> daemon_sys \<times> daemon_proc list" where
  "claimed_check spec h s =
     (case dy_specs s (sp_id spec) of
        None \<Rightarrow> (s\<lparr>dy_slots := snd (release [] h (dy_slots s))\<rparr>, [])
      | Some cur \<Rightarrow> (s, [PLaunch cur h]))"

section \<open>Removal and the sweep\<close>

definition unregister_specs :: "task_id \<Rightarrow> daemon_sys \<Rightarrow> daemon_sys \<times> daemon_proc list" where
  "unregister_specs tid s = (s\<lparr>dy_specs := (dy_specs s)(tid := None)\<rparr>, [PEvict tid])"

definition unregister_evict :: "task_id \<Rightarrow> daemon_sys \<Rightarrow> daemon_sys \<times> daemon_proc list" where
  "unregister_evict tid s =
     (case evict tid (dy_slots s) of (run, sl) \<Rightarrow>
        (s\<lparr>dy_slots := sl, dy_crash := reset_crash tid (dy_crash s)\<rparr>, if run \<noteq> [] then [PKill run] else []))"

definition on_daemon_suspension_swept ::
  "spec \<Rightarrow> run_id \<Rightarrow> duration \<Rightarrow> daemon_sys \<Rightarrow> daemon_sys \<times> daemon_proc list" where
  "on_daemon_suspension_swept spec run elapsed s =
     (case release_run (sp_id spec) run (dy_slots s) of
        (False, _) \<Rightarrow> (s, [])
      | (True, sl) \<Rightarrow> (s\<lparr>dy_slots := sl\<rparr>, [PSweptReleased spec elapsed]))"

definition swept_released :: "spec \<Rightarrow> duration \<Rightarrow> daemon_sys \<Rightarrow> daemon_sys \<times> daemon_proc list" where
  "swept_released spec elapsed s =
     (if dy_specs s (sp_id spec) = None \<or> dy_shutdown s then (put_state (sp_id spec) DaemonStopped s, [])
      else restart_daemon_after_exit spec ''cancelled'' elapsed s)"

section \<open>Steps\<close>

text \<open>One goroutine takes one step; \<open>now\<close>, \<open>run\<close> and \<open>ok\<close> are what it reads from outside: the clock,
  a fresh run identifier, and whether the call it makes succeeds.\<close>

fun proc_step :: "time \<Rightarrow> run_id \<Rightarrow> bool \<Rightarrow> daemon_proc \<Rightarrow> daemon_sys \<Rightarrow> daemon_sys \<times> daemon_proc list" where
  "proc_step now run ok (PStart spec) s = start_daemon spec s"
| "proc_step now run ok (PLaunch spec h) s = launch_attach now run spec h s"
| "proc_step now run ok (PPublish spec h r) s = publish_running spec h r s"
| "proc_step now run ok (PFire spec h r) s = fire_body ok spec h r s"
| "proc_step now run ok (PFired h r) s = fired_check h r s"
| "proc_step now run ok (PFinish spec r) s = on_daemon_run_finished ok spec r s"
| "proc_step now run ok (PPark spec h) s = park_body spec h s"
| "proc_step now run ok (PReleased spec status elapsed) s = after_release spec status elapsed s"
| "proc_step now run ok (PSleep spec b) s = (if ok then sleep_over spec b s else (s, []))"
| "proc_step now run ok (PWake spec) s = wake_claim spec s"
| "proc_step now run ok (PClaimed spec h) s = claimed_check spec h s"
| "proc_step now run ok (PResume spec r new) s = resume_hold spec r new s"
| "proc_step now run ok (PAdopt spec h new) s = resume_adopt now spec h new s"
| "proc_step now run ok (PEvict tid) s = unregister_evict tid s"
| "proc_step now run ok (PKill r) s = (kill_run r s, [])"
| "proc_step now run ok (PSwept spec r elapsed) s = on_daemon_suspension_swept spec r elapsed s"
| "proc_step now run ok (PSweptReleased spec elapsed) s = swept_released spec elapsed s"

definition spawn_proc :: "daemon_proc list \<Rightarrow> daemon_sys \<Rightarrow> daemon_sys" where
  "spawn_proc ps s = s\<lparr>dy_procs := dy_procs s @ ps\<rparr>"

definition set_phase :: "run_id \<Rightarrow> body \<Rightarrow> body_phase \<Rightarrow> daemon_sys \<Rightarrow> daemon_sys" where
  "set_phase r b ph s = s\<lparr>dy_bodies := (dy_bodies s)(r \<mapsto> b\<lparr>bd_phase := ph\<rparr>)\<rparr>"

text \<open>
  Run identifiers are random, so a fresh one is one that was never used. A body that ends or
  suspends writes its row and then enters \<open>onDaemonRunFinished\<close>; a resume marks the suspended
  row before it looks for the slot; the sweep marks it before it releases the slot.
\<close>

inductive daemon_step :: "daemon_sys \<Rightarrow> daemon_sys \<Rightarrow> bool" where
  ds_proc: "i < length (dy_procs s) \<Longrightarrow> run \<noteq> [] \<Longrightarrow> run \<notin> dy_used s \<Longrightarrow>
    proc_step now run ok (dy_procs s ! i) (s\<lparr>dy_used := insert run (dy_used s)\<rparr>) = (s', ps) \<Longrightarrow>
    daemon_step s (next_points i ps s')"
| ds_register: "register_daemon spec s = (s', ps) \<Longrightarrow> daemon_step s (spawn_proc ps s')"
| ds_unregister: "unregister_specs tid s = (s', ps) \<Longrightarrow> daemon_step s (spawn_proc ps s')"
| ds_body_ends: "dy_bodies s r = Some b \<Longrightarrow> bd_phase b = BodyLive \<Longrightarrow>
    daemon_step s (spawn_proc [PFinish (bd_spec b) r] (set_phase r b (BodyDone status elapsed) s))"
| ds_body_suspends: "dy_bodies s r = Some b \<Longrightarrow> bd_phase b = BodyLive \<Longrightarrow>
    daemon_step s (spawn_proc [PFinish (bd_spec b) r] (set_phase r b BodySuspended s))"
| ds_resume: "dy_bodies s r = Some b \<Longrightarrow> bd_phase b = BodySuspended \<Longrightarrow> sp_id spec = sp_id (bd_spec b) \<Longrightarrow>
    run \<noteq> [] \<Longrightarrow> run \<notin> dy_used s \<Longrightarrow>
    daemon_step s (spawn_proc [PResume spec r run]
      (set_phase r b (BodyDone ''resumed'' elapsed) (s\<lparr>dy_used := insert run (dy_used s)\<rparr>)))"
| ds_sweep: "dy_bodies s r = Some b \<Longrightarrow> bd_phase b = BodySuspended \<Longrightarrow> dy_specs s (sp_id (bd_spec b)) = Some spec \<Longrightarrow>
    daemon_step s (spawn_proc [PSwept spec r elapsed] (set_phase r b (BodyDone ''cancelled'' elapsed) s))"
| ds_sweep_unregistered: "dy_bodies s r = Some b \<Longrightarrow> bd_phase b = BodySuspended \<Longrightarrow>
    dy_specs s (sp_id (bd_spec b)) = None \<Longrightarrow>
    daemon_step s (set_phase r b (BodyDone ''cancelled'' elapsed) s)"
| ds_operator_kill: "daemon_step s (kill_run r s)"
| ds_shutdown: "daemon_step s (s\<lparr>dy_shutdown := True\<rparr>)"

definition daemon_reachable :: "daemon_sys \<Rightarrow> bool" where
  "daemon_reachable s \<longleftrightarrow> daemon_step\<^sup>*\<^sup>* empty_sys s"

end
