(* ===== verification/DaemonSafety.thy ===== *)
theory DaemonSafety
  imports DaemonLifecycle
begin

text \<open>
  What the daemon lifecycle guarantees: at most one body of a daemon is live unless the others
  are being killed, whatever the interleaving of registrations, removals, exits, suspensions,
  resumes and sweeps. The invariant speaks of five components of the system, so the steps that
  only touch the others preserve it by definition.
\<close>

section \<open>The invariant\<close>

type_synonym bodies = "run_id \<rightharpoonup> body"

definition live :: "bodies \<Rightarrow> run_id \<Rightarrow> body \<Rightarrow> bool" where
  "live B r b \<longleftrightarrow> B r = Some b \<and> bd_phase b = BodyLive"

definition gone :: "daemon_slots \<Rightarrow> nat \<Rightarrow> bool" where
  "gone sl a = se_evicted (ds_heap sl a)"

definition body_key :: "body \<Rightarrow> slot_key" where
  "body_key b = task_key (sp_id (bd_spec b))"

text \<open>A live body holds the slot of its task, unless its entry was evicted; and then it is killed, or
  a goroutine is about to kill it.\<close>

definition bodies_bound :: "daemon_slots \<Rightarrow> bodies \<Rightarrow> bool" where
  "bodies_bound sl B \<longleftrightarrow> (\<forall>r b. live B r b \<longrightarrow> gone sl (bd_entry b) \<or>
     ds_map sl (body_key b) = Some (bd_entry b) \<and> se_run (ds_heap sl (bd_entry b)) = r)"

definition kill_pending :: "daemon_proc list \<Rightarrow> run_id \<Rightarrow> nat \<Rightarrow> bool" where
  "kill_pending P r a \<longleftrightarrow> PKill r \<in> set P \<or> (\<exists>h. PFired h r \<in> set P \<and> sh_entry h = a)"

definition kill_due :: "daemon_slots \<Rightarrow> bodies \<Rightarrow> run_id set \<Rightarrow> daemon_proc list \<Rightarrow> bool" where
  "kill_due sl B K P \<longleftrightarrow> (\<forall>r b. live B r b \<longrightarrow> gone sl (bd_entry b) \<longrightarrow> r \<in> K \<or> kill_pending P r (bd_entry b))"

definition bodies_known :: "daemon_slots \<Rightarrow> bodies \<Rightarrow> run_id set \<Rightarrow> bool" where
  "bodies_known sl B U \<longleftrightarrow> (\<forall>r b. B r = Some b \<longrightarrow> r \<noteq> [] \<and> r \<in> U \<and> bd_entry b < ds_next sl)"

definition fresh_run :: "bodies \<Rightarrow> run_id set \<Rightarrow> run_id \<Rightarrow> bool" where
  "fresh_run B U r \<longleftrightarrow> r \<noteq> [] \<and> r \<in> U \<and> B r = None"

definition ended :: "bodies \<Rightarrow> run_id \<Rightarrow> bool" where
  "ended B r \<longleftrightarrow> (\<exists>b. B r = Some b \<and> bd_phase b \<noteq> BodyLive)"

definition handle_of :: "daemon_slots \<Rightarrow> spec \<Rightarrow> daemon_slot \<Rightarrow> bool" where
  "handle_of sl spec h \<longleftrightarrow> sh_key h = task_key (sp_id spec) \<and> sh_entry h < ds_next sl"

definition unbound :: "daemon_slots \<Rightarrow> spec \<Rightarrow> daemon_slot \<Rightarrow> bool" where
  "unbound sl spec h \<longleftrightarrow> handle_of sl spec h \<and> se_run (ds_heap sl (sh_entry h)) = []"

definition reserved :: "daemon_slots \<Rightarrow> spec \<Rightarrow> daemon_slot \<Rightarrow> run_id \<Rightarrow> bool" where
  "reserved sl spec h r \<longleftrightarrow> handle_of sl spec h \<and>
     (gone sl (sh_entry h) \<or> owned h sl \<and> se_run (ds_heap sl (sh_entry h)) = r)"

fun proc_ok :: "daemon_slots \<Rightarrow> bodies \<Rightarrow> run_id set \<Rightarrow> daemon_proc \<Rightarrow> bool" where
  "proc_ok sl B U (PLaunch spec h) = unbound sl spec h"
| "proc_ok sl B U (PClaimed spec h) = unbound sl spec h"
| "proc_ok sl B U (PPublish spec h r) = (fresh_run B U r \<and> reserved sl spec h r)"
| "proc_ok sl B U (PFire spec h r) = (fresh_run B U r \<and> reserved sl spec h r)"
| "proc_ok sl B U (PFired h r) = (\<exists>b. B r = Some b \<and> bd_entry b = sh_entry h)"
| "proc_ok sl B U (PFinish spec r) = ended B r"
| "proc_ok sl B U (PSwept spec r d) = ended B r"
| "proc_ok sl B U (PResume spec r new) = (ended B r \<and> fresh_run B U new)"
| "proc_ok sl B U (PAdopt spec h new) = (handle_of sl spec h \<and> ended B (sh_run h) \<and> fresh_run B U new)"
| "proc_ok sl B U p = True"

text \<open>The runs that a goroutine is to start, and the entries one is to bind: no two share one.\<close>

fun pend_runs :: "daemon_proc \<Rightarrow> run_id list" where
  "pend_runs (PPublish spec h r) = [r]"
| "pend_runs (PFire spec h r) = [r]"
| "pend_runs (PResume spec r new) = [new]"
| "pend_runs (PAdopt spec h new) = [new]"
| "pend_runs p = []"

fun pend_entries :: "daemon_proc \<Rightarrow> nat list" where
  "pend_entries (PLaunch spec h) = [sh_entry h]"
| "pend_entries (PClaimed spec h) = [sh_entry h]"
| "pend_entries p = []"

definition runs_of :: "daemon_proc list \<Rightarrow> run_id list" where
  "runs_of P = concat (map pend_runs P)"

definition entries_of :: "daemon_proc list \<Rightarrow> nat list" where
  "entries_of P = concat (map pend_entries P)"

lemma runs_of_simps [simp]: "runs_of [] = []" "runs_of (p # P) = pend_runs p @ runs_of P"
  "runs_of (P @ Q) = runs_of P @ runs_of Q"
  by (simp_all add: runs_of_def)

lemma entries_of_simps [simp]: "entries_of [] = []" "entries_of (p # P) = pend_entries p @ entries_of P"
  "entries_of (P @ Q) = entries_of P @ entries_of Q"
  by (simp_all add: entries_of_def)

definition procs_ok :: "daemon_slots \<Rightarrow> bodies \<Rightarrow> run_id set \<Rightarrow> daemon_proc list \<Rightarrow> bool" where
  "procs_ok sl B U P \<longleftrightarrow> (\<forall>p \<in> set P. proc_ok sl B U p) \<and>
     distinct (runs_of P) \<and> distinct (entries_of P)"

definition dinv :: "daemon_slots \<Rightarrow> bodies \<Rightarrow> run_id set \<Rightarrow> run_id set \<Rightarrow> daemon_proc list \<Rightarrow> bool" where
  "dinv sl B K U P \<longleftrightarrow> slots_ok sl \<and> bodies_bound sl B \<and> kill_due sl B K P \<and> bodies_known sl B U \<and> procs_ok sl B U P"

section \<open>Steps of one goroutine that leave slots and bodies alone\<close>

text \<open>Replacing the point \<open>p\<close> by the points \<open>ps\<close>.\<close>

lemma procs_ok_replace:
  assumes "procs_ok sl B U (A @ p # Q)" "\<forall>q \<in> set ps. proc_ok sl B U q"
    and "runs_of ps = pend_runs p \<or> runs_of ps = []"
    and "entries_of ps = pend_entries p \<or> entries_of ps = []"
  shows "procs_ok sl B U (A @ ps @ Q)"
  using assms by (auto simp: procs_ok_def)

text \<open>A point whose removal takes no pending kill away.\<close>

fun idle_point :: "daemon_proc \<Rightarrow> bool" where
  "idle_point (PKill r) = False"
| "idle_point (PFired h r) = False"
| "idle_point p = True"

lemma kill_pending_replace:
  "kill_pending (A @ p # Q) r a \<Longrightarrow> idle_point p \<Longrightarrow> kill_pending (A @ ps @ Q) r a"
  by (cases p) (auto simp: kill_pending_def)

lemma kill_pending_append: "kill_pending P r a \<Longrightarrow> kill_pending (P @ ps) r a"
  by (auto simp: kill_pending_def)

lemma kill_due_mono:
  "kill_due sl B K P \<Longrightarrow> (\<And>r a. kill_pending P r a \<Longrightarrow> kill_pending P' r a) \<Longrightarrow> kill_due sl B K P'"
  by (auto simp: kill_due_def)

lemma kill_due_replace:
  "kill_due sl B K (A @ p # Q) \<Longrightarrow> idle_point p \<Longrightarrow> kill_due sl B K (A @ ps @ Q)"
  using kill_pending_replace by (blast intro: kill_due_mono)

lemma dinv_replace:
  assumes "dinv sl B K U (A @ p # Q)" "idle_point p" "\<forall>q \<in> set ps. proc_ok sl B U q"
    and "runs_of ps = pend_runs p \<or> runs_of ps = []"
    and "entries_of ps = pend_entries p \<or> entries_of ps = []"
  shows "dinv sl B K U (A @ ps @ Q)"
  using assms procs_ok_replace [OF _ assms(3-5)] kill_due_replace [of sl B K A p Q ps]
  by (simp add: dinv_def)

lemma fresh_run_mono: "fresh_run B U r \<Longrightarrow> U \<subseteq> U' \<Longrightarrow> fresh_run B U' r"
  by (auto simp: fresh_run_def)

lemma proc_ok_used: "proc_ok sl B U p \<Longrightarrow> U \<subseteq> U' \<Longrightarrow> proc_ok sl B U' p"
  by (cases "(sl, B, U, p)" rule: proc_ok.cases) (auto intro: fresh_run_mono)

lemma dinv_used: "dinv sl B K U P \<Longrightarrow> U \<subseteq> U' \<Longrightarrow> dinv sl B K U' P"
  using proc_ok_used by (fastforce simp: dinv_def bodies_known_def procs_ok_def)

lemma dinv_append:
  assumes "dinv sl B K U P" "\<forall>q \<in> set ps. proc_ok sl B U q"
    and "runs_of ps = []" "entries_of ps = []"
  shows "dinv sl B K U (P @ ps)"
proof -
  have "procs_ok sl B U (P @ ps)"
    using assms by (auto simp: dinv_def procs_ok_def)
  moreover have "kill_due sl B K (P @ ps)"
    using assms(1) by (auto simp: dinv_def intro: kill_due_mono kill_pending_append)
  ultimately show ?thesis using assms(1) by (simp add: dinv_def)
qed

section \<open>Steps that change the slots\<close>

text \<open>\<open>keeps sl sl' X\<close>: outside the entries \<open>X\<close>, nothing that matters changes.\<close>

definition keeps :: "daemon_slots \<Rightarrow> daemon_slots \<Rightarrow> nat set \<Rightarrow> bool" where
  "keeps sl sl' X \<longleftrightarrow> ds_next sl \<le> ds_next sl' \<and>
     (\<forall>a. a < ds_next sl \<longrightarrow> a \<notin> X \<longrightarrow>
        se_run (ds_heap sl' a) = se_run (ds_heap sl a) \<and> gone sl' a = gone sl a \<and>
        (\<forall>k. ds_map sl k = Some a \<longrightarrow> ds_map sl' k = Some a))"

lemma keepsD:
  assumes "keeps sl sl' X" "a < ds_next sl" "a \<notin> X"
  shows "se_run (ds_heap sl' a) = se_run (ds_heap sl a)" "gone sl' a = gone sl a"
    "ds_map sl k = Some a \<Longrightarrow> ds_map sl' k = Some a" "a < ds_next sl'"
  using assms by (auto simp: keeps_def)

text \<open>The goroutines and bodies that rely on an entry.\<close>

fun uses_entry :: "daemon_proc \<Rightarrow> nat \<Rightarrow> bool" where
  "uses_entry (PLaunch spec h) a = (sh_entry h = a)"
| "uses_entry (PClaimed spec h) a = (sh_entry h = a)"
| "uses_entry (PPublish spec h r) a = (sh_entry h = a)"
| "uses_entry (PFire spec h r) a = (sh_entry h = a)"
| "uses_entry p a = False"

definition idle_entry :: "bodies \<Rightarrow> daemon_proc list \<Rightarrow> nat \<Rightarrow> bool" where
  "idle_entry B P a \<longleftrightarrow> (\<forall>r b. live B r b \<longrightarrow> bd_entry b \<noteq> a) \<and> (\<forall>p \<in> set P. \<not> uses_entry p a)"

lemma proc_ok_keeps:
  assumes "proc_ok sl B U p" "keeps sl sl' X" "\<forall>a \<in> X. \<not> uses_entry p a"
  shows "proc_ok sl' B U p"
proof -
  have "ds_next sl \<le> ds_next sl'" using assms(2) by (simp add: keeps_def)
  then show ?thesis
    using assms keepsD [OF assms(2)]
    by (cases "(sl, B, U, p)" rule: proc_ok.cases)
      (auto simp: unbound_def handle_of_def reserved_def owned_def)
qed

lemma dinv_slots:
  assumes inv: "dinv sl B K U P" and k: "keeps sl sl' X" and ok: "slots_ok sl'"
    and idle: "\<forall>a \<in> X. idle_entry B P a"
  shows "dinv sl' B K U P"
proof -
  have entry: "bd_entry b < ds_next sl \<and> bd_entry b \<notin> X" if "live B r b" for r b
    using that inv idle by (auto simp: dinv_def bodies_known_def live_def idle_entry_def)
  have "bodies_bound sl' B"
    unfolding bodies_bound_def
  proof (intro allI impI)
    fix r b
    assume l: "live B r b"
    note e = entry [OF l]
    from inv l have "gone sl (bd_entry b) \<or>
        ds_map sl (body_key b) = Some (bd_entry b) \<and> se_run (ds_heap sl (bd_entry b)) = r"
      by (auto simp: dinv_def bodies_bound_def)
    then show "gone sl' (bd_entry b) \<or>
        ds_map sl' (body_key b) = Some (bd_entry b) \<and> se_run (ds_heap sl' (bd_entry b)) = r"
      using keepsD [OF k, of "bd_entry b"] e by auto
  qed
  moreover have "kill_due sl' B K P"
    using inv entry keepsD(2) [OF k] by (auto simp: dinv_def kill_due_def)
  moreover have "bodies_known sl' B U"
    using inv k by (fastforce simp: dinv_def bodies_known_def keeps_def)
  moreover have "procs_ok sl' B U P"
    using inv idle proc_ok_keeps [OF _ k] by (auto simp: dinv_def procs_ok_def idle_entry_def)
  ultimately show ?thesis using ok by (simp add: dinv_def)
qed

text \<open>Why an entry is idle: it is in the map and bound to a run that has ended, or to no run and its
  claimant is the goroutine that acts, or to the run that goroutine was to start.\<close>

lemma idle_entry_bound:
  assumes inv: "dinv sl B K U P" and map: "ds_map sl k = Some a"
    and own: "\<And>r b. live B r b \<Longrightarrow> se_run (ds_heap sl a) \<noteq> r"
    and res: "\<And>r. fresh_run B U r \<Longrightarrow> r \<in> set (runs_of P) \<Longrightarrow> se_run (ds_heap sl a) \<noteq> r"
    and lau: "se_run (ds_heap sl a) \<noteq> [] \<or> a \<notin> set (entries_of P)"
  shows "idle_entry B P a"
proof -
  have ng: "\<not> gone sl a" using inv map slots_ok_held by (auto simp: dinv_def gone_def)
  have "bd_entry b \<noteq> a" if "live B r b" for r b
    using inv that ng own [OF that] by (auto simp: dinv_def bodies_bound_def)
  moreover have "\<not> uses_entry p a" if p: "p \<in> set P" for p
  proof -
    have ok: "proc_ok sl B U p" using inv p by (simp add: dinv_def procs_ok_def)
    have mem: "set (pend_runs p) \<subseteq> set (runs_of P)" "set (pend_entries p) \<subseteq> set (entries_of P)"
      using p by (auto simp: runs_of_def entries_of_def)
    show ?thesis
      using ok mem ng res lau
      by (cases "(p, a)" rule: uses_entry.cases) (auto simp: unbound_def reserved_def)
  qed
  ultimately show ?thesis by (auto simp: idle_entry_def)
qed

lemma dinv_remove:
  "dinv sl B K U (A @ p # Q) \<Longrightarrow> idle_point p \<Longrightarrow> dinv sl B K U (A @ Q)"
  using dinv_replace [of sl B K U A p Q "[]"] by simp

lemma dinv_insert:
  assumes "dinv sl B K U (A @ Q)" "proc_ok sl B U p"
    and "set (pend_runs p) \<inter> set (runs_of (A @ Q)) = {}" "distinct (pend_runs p)"
    and "set (pend_entries p) \<inter> set (entries_of (A @ Q)) = {}" "distinct (pend_entries p)"
  shows "dinv sl B K U (A @ p # Q)"
proof -
  have "procs_ok sl B U (A @ p # Q)"
    using assms by (auto simp: dinv_def procs_ok_def)
  moreover have "kill_due sl B K (A @ p # Q)"
    by (rule kill_due_mono [of _ _ _ "A @ Q"]) (use assms(1) in \<open>auto simp: dinv_def kill_pending_def\<close>)
  ultimately show ?thesis using assms(1) by (simp add: dinv_def)
qed

lemma keeps_refl: "keeps sl sl X"
  by (simp add: keeps_def)

lemma keeps_update_parked: "keeps sl (update_entry a (\<lambda>e. e\<lparr>se_parked := x\<rparr>) sl) {}"
  by (simp add: keeps_def update_entry_def gone_def)

lemma keeps_update: "keeps sl (update_entry a f sl) {a}"
  by (simp add: keeps_def update_entry_def gone_def)

lemma keeps_delete: "ds_map sl k = Some a \<Longrightarrow> keeps sl (delete_key k sl) {a}"
  by (auto simp: keeps_def delete_key_def gone_def)

section \<open>Each operation\<close>

lemma dinvD:
  assumes "dinv sl B K U P"
  shows "slots_ok sl" "bodies_bound sl B" "kill_due sl B K P" "bodies_known sl B U" "procs_ok sl B U P"
  using assms by (simp_all add: dinv_def)

lemma dinv_proc_ok: "dinv sl B K U (A @ p # Q) \<Longrightarrow> proc_ok sl B U p"
  by (simp add: dinv_def procs_ok_def)

lemma live_known: "dinv sl B K U P \<Longrightarrow> live B r b \<Longrightarrow> r \<noteq> [] \<and> r \<in> U \<and> B r = Some b \<and> bd_entry b < ds_next sl"
  by (auto simp: dinv_def bodies_known_def live_def)

lemma ended_not_live: "ended B r \<Longrightarrow> \<not> live B r b"
  by (auto simp: ended_def live_def)

lemma ended_not_fresh: "ended B r \<Longrightarrow> \<not> fresh_run B U r"
  by (auto simp: ended_def fresh_run_def)

lemma ended_known: "dinv sl B K U P \<Longrightarrow> ended B r \<Longrightarrow> r \<noteq> []"
  by (auto simp: dinv_def bodies_known_def ended_def)

lemma map_below: "dinv sl B K U P \<Longrightarrow> ds_map sl k = Some a \<Longrightarrow> a < ds_next sl \<and> \<not> gone sl a"
  using slots_ok_held by (auto simp: dinv_def gone_def)

lemma holding_Some:
  "holding tid r sl = Some h \<Longrightarrow> r \<noteq> [] \<and> sh_key h = task_key tid \<and> sh_run h = r \<and>
   ds_map sl (task_key tid) = Some (sh_entry h) \<and> se_run (ds_heap sl (sh_entry h)) = r"
  by (auto simp: holding_def split: if_splits option.splits)

text \<open>Releasing the slot of a run that has ended.\<close>

lemma dinv_release_ended:
  assumes inv: "dinv sl B K U P" and e: "ended B r"
  shows "dinv (snd (release_run tid r sl)) B K U P"
proof (cases "holding tid r sl")
  case None
  with inv show ?thesis by (simp add: release_run_def)
next
  case (Some h)
  note h = holding_Some [OF Some]
  have "idle_entry B P (sh_entry h)"
    by (rule idle_entry_bound [OF inv, of "task_key tid"]) (use h e ended_not_live ended_not_fresh in auto)
  moreover have "keeps sl (delete_key (task_key tid) sl) {sh_entry h}"
    using h by (intro keeps_delete) simp
  ultimately have "dinv (delete_key (task_key tid) sl) B K U P"
    by (intro dinv_slots [OF inv _ slots_ok_delete [OF dinvD(1) [OF inv]]]) blast+
  moreover have "snd (release_run tid r sl) = delete_key (task_key tid) sl"
    using Some h by (simp add: release_run_def release_def owned_def)
  ultimately show ?thesis by simp
qed

text \<open>Claiming a slot for the goroutine that acts.\<close>

lemma dinv_claim:
  assumes inv: "dinv sl B K U (A @ Q)" and c: "claim (sp_id spec) sl = (Some h, sl')"
  shows "dinv sl' B K U (A @ PLaunch spec h # Q)" "dinv sl' B K U (A @ PClaimed spec h # Q)"
proof -
  have h: "h = \<lparr>sh_key = task_key (sp_id spec), sh_entry = ds_next sl, sh_run = []\<rparr>"
    and sl': "sl' = sl\<lparr>ds_map := (ds_map sl)(task_key (sp_id spec) \<mapsto> ds_next sl),
      ds_heap := (ds_heap sl)(ds_next sl := fresh_entry), ds_next := Suc (ds_next sl)\<rparr>"
    and free: "ds_map sl (task_key (sp_id spec)) = None"
    using c by (auto simp: claim_def claim_key_def Let_def split: option.splits)
  have "keeps sl sl' {}"
    by (auto simp: keeps_def sl' gone_def free)
  moreover have "slots_ok sl'"
    using slots_ok_claim [OF dinvD(1) [OF inv], of "task_key (sp_id spec)"] c by (simp add: claim_def)
  ultimately have d: "dinv sl' B K U (A @ Q)" by (intro dinv_slots [OF inv]) auto
  have "a < ds_next sl" if "a \<in> set (entries_of (A @ Q))" for a
  proof -
    from that obtain p where p: "p \<in> set (A @ Q)" "a \<in> set (pend_entries p)" by (auto simp: entries_of_def)
    with inv have "proc_ok sl B U p" by (auto simp: dinv_def procs_ok_def)
    with p(2) show ?thesis by (cases p) (auto simp: unbound_def handle_of_def)
  qed
  then have fresh: "ds_next sl \<notin> set (entries_of (A @ Q))" by blast
  have ok: "unbound sl' spec h" by (simp add: unbound_def handle_of_def h sl' fresh_entry_def)
  show "dinv sl' B K U (A @ PLaunch spec h # Q)" "dinv sl' B K U (A @ PClaimed spec h # Q)"
    by (rule dinv_insert [OF d]; use fresh ok h in simp)+
qed

text \<open>Binding an entry of the acting goroutine to a fresh run; \<open>p\<close> is the point it leaves.\<close>

lemma dinv_bind:
  assumes inv: "dinv sl B K U (A @ Q)" and own: "owned h sl" and h: "handle_of sl spec h"
    and idle: "idle_entry B (A @ Q) (sh_entry h)"
    and r: "fresh_run B U r" "r \<notin> set (runs_of (A @ Q))"
    and sl': "sl' = update_entry (sh_entry h) (\<lambda>e. e\<lparr>se_run := r, se_parked := False\<rparr>) sl"
  shows "dinv sl' B K U (A @ PPublish spec h r # Q)"
proof -
  have "slots_ok sl'" unfolding sl' using dinvD(1) [OF inv] by (rule slots_ok_update) simp
  then have d: "dinv sl' B K U (A @ Q)"
    using idle by (intro dinv_slots [OF inv, of _ "{sh_entry h}"]) (auto simp: sl' keeps_update)
  have "reserved sl' spec h r"
    using own h by (simp add: reserved_def handle_of_def owned_def sl' update_entry_def)
  with r show ?thesis by (intro dinv_insert [OF d]) auto
qed

text \<open>A body starts, ends or suspends.\<close>

lemma dinv_fire:
  assumes inv: "dinv sl B K U (A @ PFire spec h r # Q)"
  defines "B' \<equiv> B(r \<mapsto> \<lparr>bd_spec = spec, bd_entry = sh_entry h, bd_phase = BodyLive\<rparr>)"
  shows "dinv sl B' K U (A @ PFired h r # Q)"
proof -
  let ?b = "\<lparr>bd_spec = spec, bd_entry = sh_entry h, bd_phase = BodyLive\<rparr>"
  have r: "fresh_run B U r" "reserved sl spec h r" using dinv_proc_ok [OF inv] by simp_all
  have rem: "dinv sl B K U (A @ Q)" by (rule dinv_remove [OF inv]) simp
  have nr: "r \<notin> set (runs_of (A @ Q))"
    using inv by (auto simp: dinv_def procs_ok_def)
  have live: "live B' u b \<longleftrightarrow> live B u b \<or> u = r \<and> b = ?b" for u b
    using r(1) by (auto simp: live_def B'_def fresh_run_def)
  have "bodies_bound sl B'"
    unfolding bodies_bound_def
  proof (intro allI impI)
    fix u b
    assume "live B' u b"
    then consider "live B u b" | "u = r" "b = ?b" by (auto simp: live)
    then show "gone sl (bd_entry b) \<or> ds_map sl (body_key b) = Some (bd_entry b) \<and> se_run (ds_heap sl (bd_entry b)) = u"
    proof cases
      case 1
      then show ?thesis using dinvD(2) [OF rem] by (auto simp: bodies_bound_def)
    next
      case 2
      then show ?thesis using r(2) by (auto simp: reserved_def handle_of_def owned_def body_key_def)
    qed
  qed
  moreover have "kill_due sl B' K (A @ PFired h r # Q)"
    using dinvD(3) [OF rem] by (auto simp: kill_due_def live kill_pending_def)
  moreover have "bodies_known sl B' U"
    using dinvD(4) [OF rem] r by (auto simp: bodies_known_def B'_def fresh_run_def reserved_def handle_of_def)
  moreover have "procs_ok sl B' U (A @ PFired h r # Q)"
  proof -
    have "proc_ok sl B' U p" if p: "p \<in> set (A @ Q)" for p
    proof -
      have ok: "proc_ok sl B U p" using p rem by (auto simp: dinv_def procs_ok_def)
      have "r \<notin> set (pend_runs p)" using p nr by (auto simp: runs_of_def)
      with ok r(1) show ?thesis
        by (cases "(sl, B, U, p)" rule: proc_ok.cases) (auto simp: B'_def fresh_run_def ended_def)
    qed
    moreover have "distinct (runs_of (A @ PFired h r # Q))" "distinct (entries_of (A @ PFired h r # Q))"
      using dinvD(5) [OF rem] by (simp_all add: procs_ok_def)
    ultimately show ?thesis by (auto simp: procs_ok_def B'_def)
  qed
  ultimately show ?thesis using dinvD(1) [OF rem] by (simp add: dinv_def)
qed

lemma dinv_phase:
  assumes inv: "dinv sl B K U P" and b: "B r = Some b" and ph: "ph \<noteq> BodyLive"
  shows "dinv sl (B(r \<mapsto> b\<lparr>bd_phase := ph\<rparr>)) K U P"
proof -
  let ?B = "B(r \<mapsto> b\<lparr>bd_phase := ph\<rparr>)"
  have live: "live ?B u c \<Longrightarrow> live B u c" for u c
    using ph by (auto simp: live_def split: if_splits)
  have "bodies_bound sl ?B" "kill_due sl ?B K P"
    using live dinvD(2,3) [OF inv] by (auto simp: bodies_bound_def kill_due_def)
  moreover have "bodies_known sl ?B U"
    using dinvD(4) [OF inv] b by (auto simp: bodies_known_def)
  moreover have "proc_ok sl ?B U p" if p: "p \<in> set P" for p
  proof -
    have "proc_ok sl B U p" using p inv by (auto simp: dinv_def procs_ok_def)
    with b ph show ?thesis
      by (cases "(sl, B, U, p)" rule: proc_ok.cases) (auto simp: fresh_run_def ended_def)
  qed
  ultimately show ?thesis using dinvD(1,5) [OF inv] by (auto simp: dinv_def procs_ok_def)
qed

text \<open>Kills and evictions.\<close>

lemma dinv_kill:
  assumes inv: "dinv sl B K U (A @ p # Q)" and K: "K \<subseteq> K'"
    and p: "\<And>r b. live B r b \<Longrightarrow> gone sl (bd_entry b) \<Longrightarrow> kill_pending [p] r (bd_entry b) \<Longrightarrow> r \<in> K'"
  shows "dinv sl B K' U (A @ Q)"
proof -
  have "kill_due sl B K' (A @ Q)"
    unfolding kill_due_def
  proof (intro allI impI)
    fix r b
    assume l: "live B r b" "gone sl (bd_entry b)"
    with dinvD(3) [OF inv] have "r \<in> K \<or> kill_pending (A @ p # Q) r (bd_entry b)" by (auto simp: kill_due_def)
    then have "r \<in> K \<or> kill_pending [p] r (bd_entry b) \<or> kill_pending (A @ Q) r (bd_entry b)"
      by (auto simp: kill_pending_def)
    with p [OF l] K show "r \<in> K' \<or> kill_pending (A @ Q) r (bd_entry b)" by blast
  qed
  then show ?thesis using inv by (auto simp: dinv_def procs_ok_def)
qed

lemma dinv_more_killed: "dinv sl B K U P \<Longrightarrow> K \<subseteq> K' \<Longrightarrow> dinv sl B K' U P"
  by (auto simp: dinv_def kill_due_def)

lemma dinv_evict:
  assumes inv: "dinv sl B K U (A @ Q)" and ev: "evict tid sl = (r, sl')"
  shows "dinv sl' B K U (A @ (if r \<noteq> [] then [PKill r] else []) @ Q)"
proof (cases "ds_map sl (task_key tid)")
  case None
  with ev inv show ?thesis by (simp add: evict_def)
next
  case (Some a)
  let ?ps = "if r \<noteq> [] then [PKill r] else []"
  have r: "r = se_run (ds_heap sl a)"
    and sl': "sl' = update_entry a (\<lambda>e. e\<lparr>se_evicted := True\<rparr>) (delete_key (task_key tid) sl)"
    using ev Some by (simp_all add: evict_def)
  have same: "se_run (ds_heap sl' x) = se_run (ds_heap sl x)" "gone sl' x \<longleftrightarrow> gone sl x \<or> x = a"
    "ds_next sl' = ds_next sl" "ds_map sl' k = (if k = task_key tid then None else ds_map sl k)" for x k
    by (auto simp: sl' update_entry_def delete_key_def gone_def)
  have keep: "ds_map sl' k = Some x" if "ds_map sl k = Some x" "x \<noteq> a" for k x
    using that Some same(4) [of k] by auto
  have "slots_ok sl'"
    using slots_ok_evict [OF dinvD(1) [OF inv], of tid] ev by simp
  moreover have "bodies_bound sl' B"
    unfolding bodies_bound_def
  proof (intro allI impI)
    fix u b
    assume "live B u b"
    with dinvD(2) [OF inv] have "gone sl (bd_entry b) \<or>
        ds_map sl (body_key b) = Some (bd_entry b) \<and> se_run (ds_heap sl (bd_entry b)) = u"
      by (auto simp: bodies_bound_def)
    then show "gone sl' (bd_entry b) \<or>
        ds_map sl' (body_key b) = Some (bd_entry b) \<and> se_run (ds_heap sl' (bd_entry b)) = u"
      using keep [of "body_key b" "bd_entry b"] same by auto
  qed
  moreover have "kill_due sl' B K (A @ ?ps @ Q)"
    unfolding kill_due_def
  proof (intro allI impI)
    fix u b
    assume l: "live B u b" and g: "gone sl' (bd_entry b)"
    show "u \<in> K \<or> kill_pending (A @ ?ps @ Q) u (bd_entry b)"
    proof (cases "gone sl (bd_entry b)")
      case True
      with l dinvD(3) [OF inv] have "u \<in> K \<or> kill_pending (A @ Q) u (bd_entry b)" by (auto simp: kill_due_def)
      then show ?thesis by (auto simp: kill_pending_def)
    next
      case False
      with g have "bd_entry b = a" using same(2) by auto
      with False l dinvD(2) [OF inv] have "u = r" by (auto simp: bodies_bound_def r)
      moreover have "u \<noteq> []" using live_known [OF inv l] by simp
      ultimately show ?thesis by (auto simp: kill_pending_def)
    qed
  qed
  moreover have "bodies_known sl' B U"
    using dinvD(4) [OF inv] by (simp add: bodies_known_def same)
  moreover have "proc_ok sl' B U p" if "proc_ok sl B U p" for p
    using that Some same
    by (cases "(sl, B, U, p)" rule: proc_ok.cases)
      (auto simp: unbound_def handle_of_def reserved_def owned_def)
  then have "procs_ok sl' B U (A @ ?ps @ Q)"
    using dinvD(5) [OF inv] by (auto simp: procs_ok_def)
  ultimately show ?thesis by (simp add: dinv_def)
qed

section \<open>All steps\<close>

lemma put_state_fields [simp]:
  "dy_slots (put_state tid st s) = dy_slots s" "dy_bodies (put_state tid st s) = dy_bodies s"
  "dy_killed (put_state tid st s) = dy_killed s" "dy_used (put_state tid st s) = dy_used s"
  "dy_procs (put_state tid st s) = dy_procs s" "dy_specs (put_state tid st s) = dy_specs s"
  "dy_shutdown (put_state tid st s) = dy_shutdown s"
  by (simp_all add: put_state_def)

lemma restart_fields:
  "restart_daemon_after_exit spec status d s = (s', ps) \<Longrightarrow>
   dy_slots s' = dy_slots s \<and> dy_bodies s' = dy_bodies s \<and> dy_killed s' = dy_killed s \<and>
   dy_used s' = dy_used s \<and> dy_procs s' = dy_procs s \<and> (ps = [] \<or> (\<exists>b. ps = [PSleep spec b]))"
  by (auto simp: restart_daemon_after_exit_def Let_def split: if_splits)

lemma kill_run_fields [simp]:
  "dy_slots (kill_run r s) = dy_slots s" "dy_bodies (kill_run r s) = dy_bodies s"
  "dy_used (kill_run r s) = dy_used s" "dy_procs (kill_run r s) = dy_procs s"
  "dy_killed s \<subseteq> dy_killed (kill_run r s)"
  by (auto simp: kill_run_def split: option.splits)

lemma kill_run_specs: "dy_specs (kill_run r s) = dy_specs s"
  by (simp add: kill_run_def split: option.splits)

lemma kill_run_live: "live (dy_bodies s) r b \<Longrightarrow> r \<in> dy_killed (kill_run r s)"
  by (simp add: live_def kill_run_def)

lemmas quiet_defs = start_daemon_def launch_attach_def publish_running_def fire_body_def fired_check_def
  resume_hold_def resume_adopt_def on_daemon_run_finished_def park_body_def after_release_def sleep_over_def
  wake_claim_def claimed_check_def unregister_evict_def on_daemon_suspension_swept_def swept_released_def

lemma proc_step_procs: "proc_step now run ok p s = (s', ps) \<Longrightarrow> dy_procs s' = dy_procs s"
  by (cases p) (auto simp: quiet_defs Let_def split: prod.splits option.splits if_splits bool.splits
    dest!: restart_fields)

definition sys_inv :: "daemon_sys \<Rightarrow> daemon_proc list \<Rightarrow> bool" where
  "sys_inv s P = dinv (dy_slots s) (dy_bodies s) (dy_killed s) (dy_used s) P"

lemma release_run_fst: "release_run tid r sl = (x, sl') \<Longrightarrow> sl' = snd (release_run tid r sl)"
  by simp

lemma launch_inv:
  assumes inv: "sys_inv s (A @ PLaunch spec h # Q)" and r: "fresh_run (dy_bodies s) (dy_used s) run"
    "run \<notin> set (runs_of (A @ Q))" and st: "launch_attach now run spec h s = (s', ps)"
  shows "sys_inv s' (A @ ps @ Q)"
proof (cases "attach run h (dy_slots s)")
  case (Pair okay sl)
  have rem: "sys_inv s (A @ Q)" using inv by (auto simp: sys_inv_def intro: dinv_remove)
  show ?thesis
  proof (cases okay)
    case False
    with Pair st rem show ?thesis by (auto simp: launch_attach_def Let_def sys_inv_def)
  next
    case True
    then have own: "owned h (dy_slots s)" and sl: "sl = update_entry (sh_entry h) (\<lambda>e. e\<lparr>se_run := run, se_parked := False\<rparr>) (dy_slots s)"
      using Pair by (auto simp: attach_def split: if_splits)
    have u: "unbound (dy_slots s) spec h" using inv dinv_proc_ok by (fastforce simp: sys_inv_def)
    have "sh_entry h \<notin> set (entries_of (A @ Q))" using inv by (auto simp: sys_inv_def dinv_def procs_ok_def)
    moreover have "r' \<noteq> []" if "live (dy_bodies s) r' b" for r' b
      using live_known that rem unfolding sys_inv_def by blast
    ultimately have "idle_entry (dy_bodies s) (A @ Q) (sh_entry h)"
      using rem own u unfolding sys_inv_def
      by (intro idle_entry_bound [of _ _ _ _ _ "sh_key h"]) (auto simp: owned_def unbound_def fresh_run_def)
    from dinv_bind [OF rem [unfolded sys_inv_def] own _ this r sl] u Pair True st show ?thesis
      by (auto simp: launch_attach_def Let_def sys_inv_def unbound_def)
  qed
qed

lemma adopt_inv:
  assumes inv: "sys_inv s (A @ PAdopt spec h new # Q)" and st: "resume_adopt now spec h new s = (s', ps)"
  shows "sys_inv s' (A @ ps @ Q)"
proof (cases "adopt new h (dy_slots s)")
  case (Pair okay sl)
  have rem: "sys_inv s (A @ Q)" using inv by (auto simp: sys_inv_def intro: dinv_remove)
  show ?thesis
  proof (cases okay)
    case False
    with Pair st rem show ?thesis by (auto simp: resume_adopt_def sys_inv_def)
  next
    case True
    then have own: "owned h (dy_slots s)" "se_run (ds_heap (dy_slots s) (sh_entry h)) = sh_run h" "sh_run h \<noteq> []"
      and sl: "sl = update_entry (sh_entry h) (\<lambda>e. e\<lparr>se_run := new, se_parked := False\<rparr>) (dy_slots s)"
      using Pair by (auto simp: adopt_def split: if_splits)
    have p: "handle_of (dy_slots s) spec h" "ended (dy_bodies s) (sh_run h)" "fresh_run (dy_bodies s) (dy_used s) new"
      using inv dinv_proc_ok by (fastforce simp: sys_inv_def)+
    have "new \<notin> set (runs_of (A @ Q))" using inv by (auto simp: sys_inv_def dinv_def procs_ok_def)
    moreover have "idle_entry (dy_bodies s) (A @ Q) (sh_entry h)"
      using rem own p(2) ended_not_live ended_not_fresh unfolding sys_inv_def
      by (intro idle_entry_bound [of _ _ _ _ _ "sh_key h"]) (auto simp: owned_def)
    ultimately show ?thesis
      using dinv_bind [OF rem [unfolded sys_inv_def] own(1) p(1) _ p(3) _ sl] Pair True st
      by (auto simp: resume_adopt_def sys_inv_def)
  qed
qed

lemma fire_inv:
  assumes inv: "sys_inv s (A @ PFire spec h r # Q)" and st: "fire_body ok spec h r s = (s', ps)"
  shows "sys_inv s' (A @ ps @ Q)"
proof (cases "\<not> ok \<or> dy_shutdown s")
  case False
  with st inv dinv_fire show ?thesis by (auto simp: fire_body_def sys_inv_def)
next
  case True
  have rem: "sys_inv s (A @ Q)" using inv by (auto simp: sys_inv_def intro: dinv_remove)
  have p: "fresh_run (dy_bodies s) (dy_used s) r" using inv dinv_proc_ok by (fastforce simp: sys_inv_def)
  have nr: "r \<notin> set (runs_of (A @ Q))" using inv by (auto simp: sys_inv_def dinv_def procs_ok_def)
  have "dinv (snd (release r h (dy_slots s))) (dy_bodies s) (dy_killed s) (dy_used s) (A @ Q)"
  proof (cases "owned h (dy_slots s) \<and> se_run (ds_heap (dy_slots s) (sh_entry h)) = r")
    case False
    with rem show ?thesis by (auto simp: release_def sys_inv_def)
  next
    case own: True
    have "idle_entry (dy_bodies s) (A @ Q) (sh_entry h)"
      using rem own p nr unfolding sys_inv_def
      by (intro idle_entry_bound [of _ _ _ _ _ "sh_key h"]) (auto simp: owned_def fresh_run_def live_def)
    moreover have "keeps (dy_slots s) (delete_key (sh_key h) (dy_slots s)) {sh_entry h}"
      using own by (intro keeps_delete) (simp add: owned_def)
    ultimately show ?thesis
      using own dinv_slots [OF rem [unfolded sys_inv_def] _ slots_ok_delete [OF dinvD(1) [OF rem [unfolded sys_inv_def]]]]
      by (auto simp: release_def)
  qed
  with True st show ?thesis by (auto simp: fire_body_def Let_def sys_inv_def)
qed

definition specs_ok :: "daemon_sys \<Rightarrow> bool" where
  "specs_ok s \<longleftrightarrow> (\<forall>k spec. dy_specs s k = Some spec \<longrightarrow> sp_id spec = k)"

lemma claimed_inv:
  assumes sp: "specs_ok s" and inv: "sys_inv s (A @ PClaimed spec h # Q)" and st: "claimed_check spec h s = (s', ps)"
  shows "sys_inv s' (A @ ps @ Q)"
proof (cases "dy_specs s (sp_id spec)")
  case (Some cur)
  have ok: "unbound (dy_slots s) spec h" using inv dinv_proc_ok by (fastforce simp: sys_inv_def)
  have "sp_id cur = sp_id spec" using Some sp by (auto simp: specs_ok_def)
  then have "proc_ok (dy_slots s) (dy_bodies s) (dy_used s) (PLaunch cur h)"
    using ok by (simp add: unbound_def handle_of_def)
  with Some st inv dinv_replace [of _ _ _ _ A "PClaimed spec h" Q "[PLaunch cur h]"]
  show ?thesis by (auto simp: claimed_check_def sys_inv_def)
next
  case None
  have rem: "sys_inv s (A @ Q)" using inv by (auto simp: sys_inv_def intro: dinv_remove)
  have u: "unbound (dy_slots s) spec h" using inv dinv_proc_ok by (fastforce simp: sys_inv_def)
  have "dinv (snd (release [] h (dy_slots s))) (dy_bodies s) (dy_killed s) (dy_used s) (A @ Q)"
  proof (cases "owned h (dy_slots s)")
    case False
    with rem show ?thesis by (auto simp: release_def sys_inv_def)
  next
    case own: True
    have "sh_entry h \<notin> set (entries_of (A @ Q))" using inv by (auto simp: sys_inv_def dinv_def procs_ok_def)
    moreover have "r' \<noteq> []" if "live (dy_bodies s) r' b" for r' b
      using live_known that rem unfolding sys_inv_def by blast
    ultimately have "idle_entry (dy_bodies s) (A @ Q) (sh_entry h)"
      using rem own u unfolding sys_inv_def
      by (intro idle_entry_bound [of _ _ _ _ _ "sh_key h"]) (auto simp: owned_def unbound_def fresh_run_def)
    moreover have "keeps (dy_slots s) (delete_key (sh_key h) (dy_slots s)) {sh_entry h}"
      using own by (intro keeps_delete) (simp add: owned_def)
    ultimately show ?thesis
      using own u dinv_slots [OF rem [unfolded sys_inv_def] _ slots_ok_delete [OF dinvD(1) [OF rem [unfolded sys_inv_def]]]]
      by (auto simp: release_def unbound_def)
  qed
  with None st show ?thesis by (auto simp: claimed_check_def sys_inv_def)
qed

lemma finish_inv:
  assumes inv: "sys_inv s (A @ PFinish spec r # Q)" and st: "on_daemon_run_finished ok spec r s = (s', ps)"
  shows "sys_inv s' (A @ ps @ Q)"
proof -
  have rem: "sys_inv s (A @ Q)" using inv by (auto simp: sys_inv_def intro: dinv_remove)
  have e: "ended (dy_bodies s) r" using inv dinv_proc_ok by (fastforce simp: sys_inv_def)
  have rel: "dinv (snd (release_run (sp_id spec) r (dy_slots s))) (dy_bodies s) (dy_killed s) (dy_used s) (A @ ps' @ Q)"
    if "\<forall>q \<in> set ps'. \<exists>st d. q = PReleased spec st d" "length ps' \<le> 1" for ps'
  proof -
    have "runs_of ps' = [] \<and> entries_of ps' = [] \<and> (\<forall>q \<in> set ps'. proc_ok (dy_slots s) (dy_bodies s) (dy_used s) q)"
      using that by (cases ps') auto
    then have "dinv (dy_slots s) (dy_bodies s) (dy_killed s) (dy_used s) (A @ ps' @ Q)"
      using inv dinv_replace [of _ _ _ _ A "PFinish spec r" Q ps'] by (auto simp: sys_inv_def)
    then show ?thesis using e by (rule dinv_release_ended)
  qed
  show ?thesis
  proof (cases "if ok then dy_bodies s r else None")
    case None
    with st rel [of "[]"] show ?thesis by (auto simp: on_daemon_run_finished_def sys_inv_def)
  next
    case (Some b)
    show ?thesis
    proof (cases "bd_phase b = BodySuspended")
      case True
      have "dinv (dy_slots s) (dy_bodies s) (dy_killed s) (dy_used s) (A @ ps @ Q)"
        using inv True Some st dinv_replace [of _ _ _ _ A "PFinish spec r" Q ps]
        by (auto simp: on_daemon_run_finished_def sys_inv_def split: option.splits)
      with True Some st show ?thesis by (auto simp: on_daemon_run_finished_def sys_inv_def)
    next
      case False
      show ?thesis
      proof (cases "release_run (sp_id spec) r (dy_slots s)")
        case (Pair okay sl)
        with False Some st rem rel [of "[PReleased spec (status_of (bd_phase b)) (elapsed_of (bd_phase b))]"]
        show ?thesis by (cases okay) (auto simp: on_daemon_run_finished_def sys_inv_def)
      qed
    qed
  qed
qed

lemma swept_inv:
  assumes inv: "sys_inv s (A @ PSwept spec r d # Q)" and st: "on_daemon_suspension_swept spec r d s = (s', ps)"
  shows "sys_inv s' (A @ ps @ Q)"
proof -
  have rem: "sys_inv s (A @ Q)" using inv by (auto simp: sys_inv_def intro: dinv_remove)
  have e: "ended (dy_bodies s) r" using inv dinv_proc_ok by (fastforce simp: sys_inv_def)
  have "dinv (dy_slots s) (dy_bodies s) (dy_killed s) (dy_used s) (A @ [PSweptReleased spec d] @ Q)"
    using inv dinv_replace [of _ _ _ _ A "PSwept spec r d" Q "[PSweptReleased spec d]"] by (auto simp: sys_inv_def)
  from dinv_release_ended [OF this e, of "sp_id spec"] rem st show ?thesis
    by (cases "release_run (sp_id spec) r (dy_slots s)")
      (auto simp: on_daemon_suspension_swept_def sys_inv_def split: bool.splits)
qed

lemma claim_start_inv:
  assumes rem: "sys_inv s (A @ Q)" and c: "claim (sp_id spec) (dy_slots s) = (Some h, sl)"
  shows "sys_inv (s\<lparr>dy_slots := sl\<rparr>) (A @ [PLaunch spec h] @ Q)" "sys_inv (s\<lparr>dy_slots := sl\<rparr>) (A @ [PClaimed spec h] @ Q)"
  using dinv_claim [OF rem [unfolded sys_inv_def] c] by (simp_all add: sys_inv_def)

text \<open>A goroutine that goes on to points with nothing pending, in a state that agrees on the components.\<close>

fun plain_point :: "daemon_proc \<Rightarrow> bool" where
  "plain_point (PSleep spec b) = True"
| "plain_point (PWake spec) = True"
| "plain_point p = False"

lemma quiet_inv:
  assumes inv: "sys_inv s (A @ p # Q)" and p: "idle_point p" and ps: "ps = [] \<or> (\<exists>q. ps = [q] \<and> plain_point q)"
    and same: "dy_slots s' = dy_slots s" "dy_bodies s' = dy_bodies s" "dy_killed s' = dy_killed s" "dy_used s' = dy_used s"
  shows "sys_inv s' (A @ ps @ Q)"
proof -
  have "runs_of ps = []" "entries_of ps = []" "\<forall>q \<in> set ps. proc_ok (dy_slots s) (dy_bodies s) (dy_used s) q"
    using ps by (auto elim: plain_point.elims)
  then show ?thesis
    using inv dinv_replace [OF _ p, of _ _ _ _ A Q ps] by (simp add: sys_inv_def same)
qed

lemma resume_hold_inv:
  assumes inv: "sys_inv s (A @ PResume spec r new # Q)" and st: "resume_hold spec r new s = (s', ps)"
  shows "sys_inv s' (A @ ps @ Q)"
proof (cases "holding (sp_id spec) r (dy_slots s)")
  case None
  with st quiet_inv [OF inv, of "[]" s] show ?thesis by (auto simp: resume_hold_def)
next
  case (Some h)
  note h = holding_Some [OF Some]
  have p: "ended (dy_bodies s) r" "fresh_run (dy_bodies s) (dy_used s) new"
    using inv dinv_proc_ok by (fastforce simp: sys_inv_def)+
  have "handle_of (dy_slots s) spec h"
    using h map_below inv unfolding sys_inv_def handle_of_def by blast
  then have "proc_ok (dy_slots s) (dy_bodies s) (dy_used s) (PAdopt spec h new)" using p h by simp
  with Some st inv dinv_replace [of _ _ _ _ A "PResume spec r new" Q "[PAdopt spec h new]"]
  show ?thesis by (auto simp: resume_hold_def sys_inv_def)
qed

lemma kill_point_inv:
  assumes inv: "sys_inv s (A @ PKill r # Q)" shows "sys_inv (kill_run r s) (A @ Q)"
proof -
  have "u \<in> dy_killed (kill_run r s)" if "live (dy_bodies s) u b" "kill_pending [PKill r] u (bd_entry b)" for u b
    using that kill_run_live by (auto simp: kill_pending_def)
  then show ?thesis
    using dinv_kill [OF inv [unfolded sys_inv_def] kill_run_fields(5)] by (simp add: sys_inv_def)
qed

lemma fired_inv:
  assumes inv: "sys_inv s (A @ PFired h r # Q)" and st: "fired_check h r s = (s', ps)"
  shows "sys_inv s' (A @ ps @ Q)"
proof (cases "slot_evicted h (dy_slots s)")
  case True
  have "u \<in> dy_killed (kill_run r s)" if "live (dy_bodies s) u b" "kill_pending [PFired h r] u (bd_entry b)" for u b
    using that kill_run_live by (auto simp: kill_pending_def)
  then show ?thesis
    using True st dinv_kill [OF inv [unfolded sys_inv_def] kill_run_fields(5)]
    by (auto simp: fired_check_def sys_inv_def)
next
  case False
  have "u \<in> dy_killed s" if "gone (dy_slots s) (bd_entry b)" "kill_pending [PFired h r] u (bd_entry b)" for u b
    using that False by (auto simp: kill_pending_def gone_def slot_evicted_def)
  then show ?thesis
    using False st dinv_kill [OF inv [unfolded sys_inv_def] order_refl]
    by (auto simp: fired_check_def sys_inv_def)
qed

lemma publish_inv:
  assumes inv: "sys_inv s (A @ PPublish spec h r # Q)" and st: "publish_running spec h r s = (s', ps)"
  shows "sys_inv s' (A @ ps @ Q)"
proof -
  have "proc_ok (dy_slots s) (dy_bodies s) (dy_used s) (PFire spec h r)"
    using dinv_proc_ok [OF inv [unfolded sys_inv_def]] by simp
  with st inv dinv_replace [of _ _ _ _ A "PPublish spec h r" Q "[PFire spec h r]"]
  show ?thesis by (auto simp: publish_running_def sys_inv_def)
qed

lemma park_inv:
  assumes inv: "sys_inv s (A @ PPark spec h # Q)" and st: "park_body spec h s = (s', ps)"
  shows "sys_inv s' (A @ ps @ Q)"
proof -
  have rem: "sys_inv s (A @ Q)" using inv by (auto simp: sys_inv_def intro: dinv_remove)
  have "dinv (snd (park h (dy_slots s))) (dy_bodies s) (dy_killed s) (dy_used s) (A @ Q)"
  proof (rule dinv_slots [OF rem [unfolded sys_inv_def]])
    show "keeps (dy_slots s) (snd (park h (dy_slots s))) {}"
      by (auto simp: park_def keeps_update_parked keeps_refl)
    show "slots_ok (snd (park h (dy_slots s)))"
      using slots_ok_exec [OF dinvD(1) [OF rem [unfolded sys_inv_def]], of "OpPark h"] by simp
  qed simp
  with st rem show ?thesis
    by (cases "park h (dy_slots s)") (auto simp: park_body_def sys_inv_def split: bool.splits)
qed

lemma start_inv:
  assumes inv: "sys_inv s (A @ p # Q)" and p: "idle_point p"
    and st: "start_daemon spec s = (s', ps) \<or> wake_claim spec s = (s', ps)"
  shows "sys_inv s' (A @ ps @ Q)"
proof -
  have rem: "sys_inv s (A @ Q)" using inv p by (auto simp: sys_inv_def intro: dinv_remove)
  have none: "sys_inv s (A @ [] @ Q)" using rem by simp
  show ?thesis
  proof (cases "claim (sp_id spec) (dy_slots s)")
    case (Pair ho sl)
    show ?thesis
    proof (cases ho)
      case None
      with Pair st none show ?thesis by (auto simp: start_daemon_def wake_claim_def split: if_splits)
    next
      case (Some h)
      with Pair st none claim_start_inv [OF rem, of spec h sl] show ?thesis
        by (auto simp: start_daemon_def wake_claim_def split: if_splits)
    qed
  qed
qed

lemma evict_inv:
  assumes inv: "sys_inv s (A @ PEvict tid # Q)" and st: "unregister_evict tid s = (s', ps)"
  shows "sys_inv s' (A @ ps @ Q)"
proof -
  have rem: "sys_inv s (A @ Q)" using inv by (auto simp: sys_inv_def intro: dinv_remove)
  show ?thesis
  proof (cases "evict tid (dy_slots s)")
    case (Pair r sl)
    from dinv_evict [OF rem [unfolded sys_inv_def] Pair] Pair st show ?thesis
      by (auto simp: unregister_evict_def sys_inv_def)
  qed
qed

lemma proc_step_inv:
  assumes inv: "sys_inv s (A @ p # Q)" and sp: "specs_ok s"
    and r: "fresh_run (dy_bodies s) (dy_used s) run" "run \<notin> set (runs_of (A @ Q))"
    and st: "proc_step now run ok p s = (s', ps)"
  shows "sys_inv s' (A @ ps @ Q)"
proof (cases p)
  case (PReleased spec status d)
  with st have "ps = [] \<or> (\<exists>q. ps = [q] \<and> plain_point q)" "dy_slots s' = dy_slots s" "dy_bodies s' = dy_bodies s"
    "dy_killed s' = dy_killed s" "dy_used s' = dy_used s"
    by (auto simp: after_release_def split: if_splits dest!: restart_fields)
  with inv PReleased show ?thesis by (intro quiet_inv) auto
next
  case (PSweptReleased spec d)
  with st have "ps = [] \<or> (\<exists>q. ps = [q] \<and> plain_point q)" "dy_slots s' = dy_slots s" "dy_bodies s' = dy_bodies s"
    "dy_killed s' = dy_killed s" "dy_used s' = dy_used s"
    by (auto simp: swept_released_def split: if_splits dest!: restart_fields)
  with inv PSweptReleased show ?thesis by (intro quiet_inv) auto
next
  case (PSleep spec b)
  with st have "ps = [] \<or> (\<exists>q. ps = [q] \<and> plain_point q)" "dy_slots s' = dy_slots s" "dy_bodies s' = dy_bodies s"
    "dy_killed s' = dy_killed s" "dy_used s' = dy_used s"
    by (auto simp: sleep_over_def split: if_splits)
  with inv PSleep show ?thesis by (intro quiet_inv) auto
next
  case (PKill r')
  with st inv kill_point_inv show ?thesis by auto
next
  case (PStart spec)
  with st inv start_inv [of s A "PStart spec" Q spec] show ?thesis by simp
next
  case (PWake spec)
  with st inv start_inv [of s A "PWake spec" Q spec] show ?thesis by simp
qed (use st inv sp r in \<open>simp_all add: launch_inv publish_inv fire_inv fired_inv finish_inv
    park_inv claimed_inv resume_hold_inv adopt_inv evict_inv swept_inv\<close>)

lemma proc_step_specs: "proc_step now run ok p s = (s', ps) \<Longrightarrow> dy_specs s' = dy_specs s"
  by (cases p) (auto simp: quiet_defs Let_def put_state_def kill_run_def restart_daemon_after_exit_def
      split: prod.splits option.splits if_splits bool.splits)

definition daemon_inv :: "daemon_sys \<Rightarrow> bool" where
  "daemon_inv s \<longleftrightarrow> sys_inv s (dy_procs s) \<and> specs_ok s"

lemma daemon_inv_empty: "daemon_inv empty_sys"
  by (simp add: daemon_inv_def sys_inv_def specs_ok_def empty_sys_def dinv_def slots_ok_new bodies_bound_def
      kill_due_def bodies_known_def procs_ok_def live_def)

lemma sys_inv_append:
  "sys_inv s P \<Longrightarrow> \<forall>q \<in> set ps. proc_ok (dy_slots s) (dy_bodies s) (dy_used s) q \<Longrightarrow>
   runs_of ps = [] \<Longrightarrow> entries_of ps = [] \<Longrightarrow> sys_inv s (P @ ps)"
  by (simp add: sys_inv_def dinv_append)

lemma used_fresh:
  assumes "sys_inv s P" "run \<noteq> []" "run \<notin> dy_used s"
  shows "sys_inv (s\<lparr>dy_used := insert run (dy_used s)\<rparr>) P"
    and "fresh_run (dy_bodies s) (insert run (dy_used s)) run" and "run \<notin> set (runs_of P)"
proof -
  show "sys_inv (s\<lparr>dy_used := insert run (dy_used s)\<rparr>) P"
    using assms(1) by (auto simp: sys_inv_def intro: dinv_used)
  show "fresh_run (dy_bodies s) (insert run (dy_used s)) run"
    using assms by (cases "dy_bodies s run") (auto simp: fresh_run_def sys_inv_def dinv_def bodies_known_def)
  have "r \<in> dy_used s" if r: "r \<in> set (runs_of P)" for r
  proof -
    from r obtain p where p: "p \<in> set P" "r \<in> set (pend_runs p)" by (auto simp: runs_of_def)
    with assms(1) have "proc_ok (dy_slots s) (dy_bodies s) (dy_used s) p" by (auto simp: sys_inv_def dinv_def procs_ok_def)
    with p(2) show ?thesis by (cases p) (auto simp: fresh_run_def)
  qed
  with assms(3) show "run \<notin> set (runs_of P)" by blast
qed

lemma phase_inv:
  assumes inv: "daemon_inv s" and b: "dy_bodies s r = Some b" and ph: "ph \<noteq> BodyLive"
  shows "sys_inv (set_phase r b ph s) (dy_procs s)" "ended (dy_bodies (set_phase r b ph s)) r"
  using dinv_phase [where B = "dy_bodies s" and r = r and b = b and ph = ph, OF _ b ph] inv ph by (auto simp: daemon_inv_def sys_inv_def set_phase_def ended_def)

lemma spawn_inv:
  assumes "sys_inv s (dy_procs s @ ps)" "specs_ok s"
  shows "daemon_inv (spawn_proc ps s)"
  using assms by (simp add: daemon_inv_def sys_inv_def spawn_proc_def specs_ok_def)

lemma daemon_step_inv:
  assumes "daemon_step s t" "daemon_inv s"
  shows "daemon_inv t"
  using assms(1)
proof cases
  case (ds_proc i run now ok s' ps)
  let ?s = "s\<lparr>dy_used := insert run (dy_used s)\<rparr>"
  have P: "dy_procs s = take i (dy_procs s) @ dy_procs s ! i # drop (Suc i) (dy_procs s)"
    using ds_proc(2) by (rule id_take_nth_drop)
  have sp: "specs_ok ?s" using assms(2) by (simp add: daemon_inv_def specs_ok_def)
  note f = used_fresh [OF _ ds_proc(3,4), of "dy_procs s"]
  have inv: "sys_inv s (dy_procs s)" using assms(2) by (simp add: daemon_inv_def)
  have "sys_inv s' (take i (dy_procs s) @ ps @ drop (Suc i) (dy_procs s))"
  proof (rule proc_step_inv [OF _ sp _ _ ds_proc(5)])
    show "sys_inv ?s (take i (dy_procs s) @ dy_procs s ! i # drop (Suc i) (dy_procs s))"
      using f(1) [OF inv] P by simp
    show "fresh_run (dy_bodies ?s) (dy_used ?s) run" using f(2) [OF inv] by simp
    have "set (runs_of (take i (dy_procs s) @ drop (Suc i) (dy_procs s))) \<subseteq> set (runs_of (dy_procs s))"
      by (subst (3) P) auto
    then show "run \<notin> set (runs_of (take i (dy_procs s) @ drop (Suc i) (dy_procs s)))"
      using f(3) [OF inv] by blast
  qed
  moreover have "dy_procs s' = dy_procs s" using proc_step_procs [OF ds_proc(5)] by simp
  moreover have "specs_ok s'" using proc_step_specs [OF ds_proc(5)] sp by (simp add: specs_ok_def)
  ultimately show ?thesis
    unfolding ds_proc(1) by (simp add: daemon_inv_def next_points_def sys_inv_def specs_ok_def)
next
  case (ds_register spec s' ps)
  have "sys_inv s' (dy_procs s' @ ps)" "specs_ok s'"
    using ds_register(2) assms(2) sys_inv_append [of s' "dy_procs s'" ps]
    by (auto simp: register_daemon_def daemon_inv_def specs_ok_def sys_inv_def split: if_splits)
  then show ?thesis unfolding ds_register(1) by (rule spawn_inv)
next
  case (ds_unregister tid s' ps)
  have "sys_inv s' (dy_procs s' @ ps)" "specs_ok s'"
    using ds_unregister(2) assms(2) sys_inv_append [of s' "dy_procs s'" ps]
    by (auto simp: unregister_specs_def daemon_inv_def specs_ok_def sys_inv_def split: if_splits)
  then show ?thesis unfolding ds_unregister(1) by (rule spawn_inv)
next
  case (ds_body_ends r b status elapsed)
  note p = phase_inv [OF assms(2) ds_body_ends(2), of "BodyDone status elapsed"]
  show ?thesis unfolding ds_body_ends(1)
    using assms(2) p by (intro spawn_inv sys_inv_append) (auto simp: set_phase_def daemon_inv_def specs_ok_def)
next
  case (ds_body_suspends r b)
  note p = phase_inv [OF assms(2) ds_body_suspends(2), of BodySuspended]
  show ?thesis unfolding ds_body_suspends(1)
    using assms(2) p by (intro spawn_inv sys_inv_append) (auto simp: set_phase_def daemon_inv_def specs_ok_def)
next
  case (ds_sweep r b spec elapsed)
  note p = phase_inv [OF assms(2) ds_sweep(2), of "BodyDone ''cancelled'' elapsed"]
  show ?thesis unfolding ds_sweep(1)
    using assms(2) p by (intro spawn_inv sys_inv_append) (auto simp: set_phase_def daemon_inv_def specs_ok_def)
next
  case (ds_sweep_unregistered r b elapsed)
  note p = phase_inv [OF assms(2) ds_sweep_unregistered(2), of "BodyDone ''cancelled'' elapsed"]
  then show ?thesis unfolding ds_sweep_unregistered(1)
    using assms(2) by (auto simp: set_phase_def daemon_inv_def specs_ok_def)
next
  case (ds_operator_kill r)
  have "sys_inv (kill_run r s) (dy_procs s)"
    using assms(2) by (simp add: daemon_inv_def sys_inv_def dinv_more_killed [OF _ kill_run_fields(5)])
  then show ?thesis
    using assms(2) by (simp add: ds_operator_kill daemon_inv_def specs_ok_def kill_run_specs)
next
  case ds_shutdown
  then show ?thesis using assms(2) by (simp add: daemon_inv_def sys_inv_def specs_ok_def)
next
  case (ds_resume r b spec run elapsed)
  let ?s = "s\<lparr>dy_used := insert run (dy_used s)\<rparr>"
  have inv: "sys_inv s (dy_procs s)" using assms(2) by (simp add: daemon_inv_def)
  note f = used_fresh [OF inv ds_resume(5,6)]
  have i2: "daemon_inv ?s" using f(1) assms(2) by (simp add: daemon_inv_def specs_ok_def)
  have b: "dy_bodies ?s r = Some b" using ds_resume(2) by simp
  let ?t = "set_phase r b (BodyDone ''resumed'' elapsed) ?s"
  note p = phase_inv [OF i2 b, of "BodyDone ''resumed'' elapsed"]
  have fr: "fresh_run (dy_bodies ?t) (dy_used ?t) run"
    using f(2) ds_resume(2) by (auto simp: set_phase_def fresh_run_def)
  have "sys_inv ?t (dy_procs ?t @ PResume spec r run # [])"
    unfolding sys_inv_def
  proof (rule dinv_insert)
    show "dinv (dy_slots ?t) (dy_bodies ?t) (dy_killed ?t) (dy_used ?t) (dy_procs ?t @ [])"
      using p(1) by (simp add: sys_inv_def set_phase_def)
    show "proc_ok (dy_slots ?t) (dy_bodies ?t) (dy_used ?t) (PResume spec r run)"
      using p(2) fr by simp
  qed (use f(3) in \<open>auto simp: set_phase_def\<close>)
  then show ?thesis unfolding ds_resume(1)
    using assms(2) by (intro spawn_inv) (auto simp: set_phase_def daemon_inv_def specs_ok_def)
qed

lemma daemon_reachable_inv: "daemon_reachable s \<Longrightarrow> daemon_inv s"
  unfolding daemon_reachable_def
  by (induction rule: rtranclp_induct) (auto intro: daemon_inv_empty daemon_step_inv)

section \<open>Running a script\<close>

text \<open>A script of events, to exhibit concrete histories.\<close>

datatype script_event =
    ScProc nat time run_id bool
  | ScRegister spec
  | ScUnregister task_id
  | ScEnds run_id string duration
  | ScSuspends run_id
  | ScResume run_id run_id duration

fun script_step :: "script_event \<Rightarrow> daemon_sys \<Rightarrow> daemon_sys option" where
  "script_step (ScProc i now run ok) s =
     (if i < length (dy_procs s) \<and> run \<noteq> [] \<and> run \<notin> dy_used s then
        (case proc_step now run ok (dy_procs s ! i) (s\<lparr>dy_used := insert run (dy_used s)\<rparr>) of
           (s', ps) \<Rightarrow> Some (next_points i ps s'))
      else None)"
| "script_step (ScRegister spec) s = (case register_daemon spec s of (s', ps) \<Rightarrow> Some (spawn_proc ps s'))"
| "script_step (ScUnregister tid) s = (case unregister_specs tid s of (s', ps) \<Rightarrow> Some (spawn_proc ps s'))"
| "script_step (ScEnds r status d) s =
     (case dy_bodies s r of None \<Rightarrow> None
      | Some b \<Rightarrow> if bd_phase b = BodyLive
                then Some (spawn_proc [PFinish (bd_spec b) r] (set_phase r b (BodyDone status d) s)) else None)"
| "script_step (ScSuspends r) s =
     (case dy_bodies s r of None \<Rightarrow> None
      | Some b \<Rightarrow> if bd_phase b = BodyLive
                then Some (spawn_proc [PFinish (bd_spec b) r] (set_phase r b BodySuspended s)) else None)"
| "script_step (ScResume r run d) s =
     (case dy_bodies s r of None \<Rightarrow> None
      | Some b \<Rightarrow> if bd_phase b = BodySuspended \<and> run \<noteq> [] \<and> run \<notin> dy_used s
                then Some (spawn_proc [PResume (bd_spec b) r run]
                  (set_phase r b (BodyDone ''resumed'' d) (s\<lparr>dy_used := insert run (dy_used s)\<rparr>))) else None)"

fun run_script :: "script_event list \<Rightarrow> daemon_sys \<Rightarrow> daemon_sys option" where
  "run_script [] s = Some s"
| "run_script (e # es) s = (case script_step e s of None \<Rightarrow> None | Some t \<Rightarrow> run_script es t)"

lemma script_step_sound: "script_step e s = Some t \<Longrightarrow> daemon_step s t"
  by (cases e) (auto split: if_splits option.splits prod.splits intro: daemon_step.intros)

lemma run_script_sound: "run_script es s = Some t \<Longrightarrow> daemon_step\<^sup>*\<^sup>* s t"
  by (induction es arbitrary: s)
    (auto split: option.splits intro: converse_rtranclp_into_rtranclp script_step_sound)

definition ex_daemon :: spec where
  "ex_daemon = empty_spec\<lparr>sp_id := ''d'', sp_trigger := no_trigger\<lparr>tc_daemon := True\<rparr>\<rparr>"

lemma ex_daemon_simps [simp]: "sp_id ex_daemon = ''d''" "tc_restart (sp_trigger ex_daemon) = []"
  by (simp_all add: ex_daemon_def no_trigger_def)

text \<open>A daemon that is registered and comes up as run \<open>r1\<close>.\<close>

definition script_up :: "script_event list" where
  "script_up = [ScRegister ex_daemon, ScProc 0 0 ''x1'' True, ScProc 0 0 ''r1'' True, ScProc 0 0 ''x2'' True,
     ScProc 0 0 ''x3'' True, ScProc 0 0 ''x4'' True]"

lemmas script_defs = register_daemon_def unregister_specs_def spawn_proc_def next_points_def set_phase_def
  quiet_defs put_state_def kill_run_def restart_daemon_after_exit_def restarts_def restart_policy_def
  claim_def slot_op_defs slot_evicted_def new_daemon_slots_def task_key_def fresh_entry_def empty_sys_def

definition sys_up :: daemon_sys where
  "sys_up = \<lparr>dy_slots = \<lparr>ds_map = [task_key ''d'' \<mapsto> 0],
       ds_heap = (\<lambda>_. fresh_entry)(0 := \<lparr>se_run = ''r1'', se_parked = False, se_evicted = False\<rparr>), ds_next = 1\<rparr>,
     dy_specs = [''d'' \<mapsto> ex_daemon], dy_states = [''d'' \<mapsto> DaemonRunning], dy_crash = Map.empty,
     dy_backoffs = Map.empty,
     dy_bodies = [''r1'' \<mapsto> \<lparr>bd_spec = ex_daemon, bd_entry = 0, bd_phase = BodyLive\<rparr>],
     dy_killed = {}, dy_shutdown = False, dy_used = {''x1'', ''r1'', ''x2'', ''x3'', ''x4''}, dy_procs = []\<rparr>"

lemma script_up_result: "run_script script_up empty_sys = Some sys_up"
  by (simp add: script_up_def script_defs note_spawn_def set_state_def sys_up_def insert_commute)

lemma sys_up_reachable: "daemon_reachable sys_up"
  unfolding daemon_reachable_def by (rule run_script_sound [OF script_up_result])

lemma reach_script: "run_script es sys_up = Some t \<Longrightarrow> daemon_reachable t"
  using sys_up_reachable run_script_sound unfolding daemon_reachable_def by (metis rtranclp_trans)

section \<open>Properties\<close>

text \<open>C4. At most one body of a daemon runs, whatever goroutines interleave: if two bodies of a task are
  live, the entry of one of them was evicted by a removal, and its kill has been requested
  or a goroutine is about to request it. A live body that was not evicted is the run its
  slot is bound to, the one that removal and shutdown kill; and once no goroutine is under
  way every other live body of the task is being killed.\<close>

theorem at_most_one_live_body:
  assumes "daemon_reachable s"
    and "live (dy_bodies s) r1 b1" "live (dy_bodies s) r2 b2" "r1 \<noteq> r2" "sp_id (bd_spec b1) = sp_id (bd_spec b2)"
  shows "(\<exists>(r, b) \<in> {(r1, b1), (r2, b2)}. se_evicted (ds_heap (dy_slots s) (bd_entry b)) \<and>
      (r \<in> dy_killed s \<or> kill_pending (dy_procs s) r (bd_entry b))) \<and>
    (\<not> se_evicted (ds_heap (dy_slots s) (bd_entry b1)) \<longrightarrow>
      slot_runs (dy_slots s) (sp_id (bd_spec b1)) = Some r1) \<and>
    (dy_procs s = [] \<longrightarrow> r1 \<in> dy_killed s \<or> r2 \<in> dy_killed s)"
proof -
  have inv: "dinv (dy_slots s) (dy_bodies s) (dy_killed s) (dy_used s) (dy_procs s)"
    using daemon_reachable_inv [OF assms(1)] by (simp add: daemon_inv_def sys_inv_def)
  have bound: "gone (dy_slots s) (bd_entry b) \<or> ds_map (dy_slots s) (task_key (sp_id (bd_spec b))) = Some (bd_entry b) \<and>
      se_run (ds_heap (dy_slots s) (bd_entry b)) = r" if "live (dy_bodies s) r b" for r b
    using dinvD(2) [OF inv] that by (auto simp: bodies_bound_def body_key_def)
  have due: "r \<in> dy_killed s \<or> kill_pending (dy_procs s) r (bd_entry b)"
    if "live (dy_bodies s) r b" "gone (dy_slots s) (bd_entry b)" for r b
    using dinvD(3) [OF inv] that by (auto simp: kill_due_def)
  have one: "gone (dy_slots s) (bd_entry b1) \<or> gone (dy_slots s) (bd_entry b2)"
    using bound [OF assms(2)] bound [OF assms(3)] assms(4,5) by auto
  have "slot_runs (dy_slots s) (sp_id (bd_spec b1)) = Some r1" if "\<not> gone (dy_slots s) (bd_entry b1)"
    using bound [OF assms(2)] that live_known [OF inv assms(2)] by (auto simp: slot_runs_def)
  moreover have "dy_procs s = [] \<Longrightarrow> r1 \<in> dy_killed s \<or> r2 \<in> dy_killed s"
    using one due [OF assms(2)] due [OF assms(3)] by (auto simp: kill_pending_def)
  moreover have "\<exists>(r, b) \<in> {(r1, b1), (r2, b2)}. gone (dy_slots s) (bd_entry b) \<and>
      (r \<in> dy_killed s \<or> kill_pending (dy_procs s) r (bd_entry b))"
    using one due assms(2,3) by auto
  ultimately show ?thesis by (simp add: gone_def)
qed

text \<open>The daemon is removed and registered again at once, while its first body is still dying.\<close>

definition script_reload :: "script_event list" where
  "script_reload = [ScUnregister ''d'', ScProc 0 0 ''y1'' True, ScRegister ex_daemon, ScProc 1 0 ''y2'' True,
     ScProc 1 0 ''r2'' True, ScProc 1 0 ''y3'' True, ScProc 1 0 ''y4'' True, ScProc 1 0 ''y5'' True]"

theorem at_most_one_live_body_witness:
  "\<exists>s b1 b2. run_script script_reload sys_up = Some s \<and> live (dy_bodies s) ''r1'' b1 \<and> live (dy_bodies s) ''r2'' b2 \<and>
     (\<exists>(r, b) \<in> {(''r1'', b1), (''r2'', b2)}. r \<in> dy_killed s \<or> kill_pending (dy_procs s) r (bd_entry b))"
proof -
  let ?b1 = "\<lparr>bd_spec = ex_daemon, bd_entry = 0, bd_phase = BodyLive\<rparr>"
  let ?b2 = "\<lparr>bd_spec = ex_daemon, bd_entry = 1, bd_phase = BodyLive\<rparr>"
  obtain s where s: "run_script script_reload sys_up = Some s" "dy_bodies s = [''r1'' \<mapsto> ?b1, ''r2'' \<mapsto> ?b2]"
    by (simp add: script_reload_def script_defs sys_up_def note_spawn_def set_state_def)
  have l: "live (dy_bodies s) ''r1'' ?b1" "live (dy_bodies s) ''r2'' ?b2" "''r1'' \<noteq> ''r2''"
    "sp_id (bd_spec ?b1) = sp_id (bd_spec ?b2)"
    by (simp_all add: live_def s(2))
  from at_most_one_live_body [OF reach_script [OF s(1)] l] l s(1) show ?thesis by blast
qed

text \<open>The restart policy and its backoff. A body that exits is restarted unless the policy is never,
  or is on-failure and the exit was not a failure; without a restart the published state is
  stopped after a success and crashed otherwise. Restarted after quick exits in a row, a
  daemon waits 1 second doubled each time, never more than 30 seconds, and after a run that
  lasted it waits 1 second again.\<close>

lemma restart_policy_and_backoff:
  "(\<forall>s' ps. restart_daemon_after_exit spec status elapsed s = (s', ps) \<longrightarrow>
     (if restart_policy spec = ''never'' \<or> restart_policy spec = ''on-failure'' \<and> status \<noteq> ''failure''
      then ps = [] \<and> get_state (sp_id spec) (dy_states s') = (if status = ''success'' then DaemonStopped else DaemonCrashed)
      else ps = [PSleep spec (restart_backoff elapsed (dy_backoffs s (sp_id spec)))]) \<and>
     dy_slots s' = dy_slots s \<and> dy_bodies s' = dy_bodies s \<and>
     (\<forall>u. u \<noteq> sp_id spec \<longrightarrow> get_state u (dy_states s') = get_state u (dy_states s))) \<and>
   (next_backoff ^^ k) daemon_backoff_init = min (2 ^ k * daemon_backoff_init) daemon_backoff_max \<and>
   (daemon_stable_threshold \<le> elapsed \<longrightarrow> restart_backoff elapsed stored = daemon_backoff_init)"
proof -
  have "(next_backoff ^^ k) daemon_backoff_init = min (2 ^ k * daemon_backoff_init) daemon_backoff_max" for k
  proof (induction k)
    case 0
    then show ?case by (simp add: daemon_backoff_init_def daemon_backoff_max_def second_def)
  next
    case (Suc k)
    have "next_backoff (min x daemon_backoff_max) = min (2 * x) daemon_backoff_max" for x
      by (auto simp: next_backoff_def min_def daemon_backoff_max_def second_def)
    with Suc show ?case by (simp add: mult.assoc)
  qed
  then show ?thesis
    by (auto simp: restart_daemon_after_exit_def restarts_def Let_def put_state_def get_set_state restart_backoff_def)
qed

lemma restart_policy_and_backoff_witness:
  "snd (restart_daemon_after_exit ex_daemon ''failure'' 0 sys_up) = [PSleep ex_daemon second] \<and>
   restart_backoff (60 * second) (Some (8 * second)) = second"
proof -
  obtain s' ps where r: "restart_daemon_after_exit ex_daemon ''failure'' 0 sys_up = (s', ps)"
    by (cases "restart_daemon_after_exit ex_daemon ''failure'' 0 sys_up")
  note p = restart_policy_and_backoff [of ex_daemon "''failure''" 0 sys_up 0 None, THEN conjunct1, rule_format, OF r]
  have "restart_backoff (60 * second) (Some (8 * second)) = daemon_backoff_init"
    using restart_policy_and_backoff [of ex_daemon "''failure''" "60 * second" sys_up 0 "Some (8 * second)"]
    by (simp add: daemon_stable_threshold_def second_def)
  moreover have "restart_backoff 0 (dy_backoffs sys_up ''d'') = second"
    by (simp add: sys_up_def restart_backoff_def daemon_stable_threshold_def second_def daemon_backoff_init_def)
  ultimately show ?thesis
    using p r by (simp add: restart_policy_def daemon_backoff_init_def)
qed

text \<open>Removing a running daemon does not reset its published state: when the removal, the kill and
  the exit of the body are all over, the daemon is unregistered, nothing of it is live or
  under way, and its state is still running.\<close>

lemma removed_daemon_reads_running:
  "\<exists>s. daemon_reachable s \<and> dy_specs s ''d'' = None \<and> dy_procs s = [] \<and> (\<forall>r b. \<not> live (dy_bodies s) r b) \<and>
     fst (reported_state now ''d'' (dy_crash s, dy_states s)) = DaemonRunning"
proof -
  let ?es = "[ScUnregister ''d'', ScProc 0 0 ''y1'' True, ScProc 0 0 ''y2'' True, ScEnds ''r1'' ''cancelled'' 5,
     ScProc 0 0 ''y3'' True]"
  obtain s where s: "run_script ?es sys_up = Some s" "dy_specs s = Map.empty" "dy_procs s = []"
    "dy_bodies s = [''r1'' \<mapsto> \<lparr>bd_spec = ex_daemon, bd_entry = 0, bd_phase = BodyDone ''cancelled'' 5\<rparr>]"
    "dy_crash s = Map.empty" "dy_states s = [''d'' \<mapsto> DaemonRunning]"
    by (simp add: script_defs sys_up_def reset_crash_def status_of_def elapsed_of_def)
  have "\<not> live (dy_bodies s) r b" for r b
    by (auto simp: live_def s(4) split: if_splits)
  then show ?thesis
    using reach_script [OF s(1)] s by (intro exI [of _ s])
      (simp add: reported_state_def is_crash_looping_def get_state_def)
qed


end
