(* ===== verification/ChainGuards.thy ===== *)
theory ChainGuards
  imports Prelude "HOL-Library.Multiset"
begin

text \<open>
  The guard rails of failure chains, pkg/trigger/engine_guardrails.go: cooldown timestamps,
  concurrency counters and the storm breaker of each source. The counters are meant to count
  the failure handlers in flight; the locale \<open>slot_pool\<close> states that contract against the
  multiset of the failed tasks whose handlers hold a slot.
\<close>

section \<open>State and operations\<close>

text \<open>A missing key of the counter map reads 0, of the window map the empty slice.\<close>

record chain_guards =
  cg_last_fire :: "task_id \<rightharpoonup> time"
  cg_in_flight :: "task_id \<Rightarrow> nat"
  cg_global :: nat
  cg_storm_fires :: "string \<Rightarrow> time list"
  cg_suppressed_until :: "string \<rightharpoonup> time"

definition new_chain_guards :: chain_guards where
  "new_chain_guards = \<lparr>cg_last_fire = Map.empty, cg_in_flight = (\<lambda>_. 0), cg_global = 0,
     cg_storm_fires = (\<lambda>_. []), cg_suppressed_until = Map.empty\<rparr>"

definition record_chain_fire :: "task_id \<Rightarrow> time \<Rightarrow> chain_guards \<Rightarrow> chain_guards" where
  "record_chain_fire tid now g = g\<lparr>cg_last_fire := (cg_last_fire g)(tid \<mapsto> now)\<rparr>"

definition cooldown_active :: "task_id \<Rightarrow> duration \<Rightarrow> time \<Rightarrow> chain_guards \<Rightarrow> bool" where
  "cooldown_active tid cooldown now g =
     (if cooldown \<le> 0 then False
      else (case cg_last_fire g tid of None \<Rightarrow> False | Some fired \<Rightarrow> now - fired < cooldown))"

definition or_default :: "int \<Rightarrow> int \<Rightarrow> int" where
  "or_default n d = (if n \<le> 0 then d else n)"

definition acquire_slot :: "task_id \<Rightarrow> int \<Rightarrow> int \<Rightarrow> chain_guards \<Rightarrow> bool \<times> chain_guards" where
  "acquire_slot tid perTask globalCap g =
     (if or_default perTask 1 \<le> int (cg_in_flight g tid) then (False, g)
      else if or_default globalCap 3 \<le> int (cg_global g) then (False, g)
      else (True, g\<lparr>cg_in_flight := (cg_in_flight g)(tid := Suc (cg_in_flight g tid)),
                    cg_global := Suc (cg_global g)\<rparr>))"

definition release_slot :: "task_id \<Rightarrow> chain_guards \<Rightarrow> chain_guards" where
  "release_slot tid g =
     (let g1 = (if 0 < cg_in_flight g tid
                then g\<lparr>cg_in_flight := (cg_in_flight g)(tid := cg_in_flight g tid - 1)\<rparr> else g)
      in if 0 < cg_global g1 then g1\<lparr>cg_global := cg_global g1 - 1\<rparr> else g1)"

definition observe_chain_fire :: "string \<Rightarrow> int \<Rightarrow> duration \<Rightarrow> duration \<Rightarrow> time \<Rightarrow> chain_guards \<Rightarrow> chain_guards" where
  "observe_chain_fire scope rate window suppress now g =
     (if rate \<le> 0 \<or> window \<le> 0 then g
      else (let pruned = filter (\<lambda>t. now - window < t) (cg_storm_fires g scope) @ [now];
                g1 = g\<lparr>cg_storm_fires := (cg_storm_fires g)(scope := pruned)\<rparr>
            in if rate < int (length pruned)
               then g1\<lparr>cg_suppressed_until := (cg_suppressed_until g1)(scope \<mapsto> now + suppress)\<rparr> else g1))"

definition storm_suppressed :: "string \<Rightarrow> time \<Rightarrow> chain_guards \<Rightarrow> bool \<times> chain_guards" where
  "storm_suppressed scope now g =
     (case cg_suppressed_until g scope of
        None \<Rightarrow> (False, g)
      | Some until \<Rightarrow>
          if until < now then (False, g\<lparr>cg_suppressed_until := (cg_suppressed_until g)(scope := None)\<rparr>)
          else (True, g))"

section \<open>The contract of the slots\<close>

text \<open>
  \<open>holds M s\<close> says that the holders of slots are the multiset \<open>M\<close>; \<open>fits\<close> when one more holder
  may be admitted under given caps.
\<close>

locale slot_pool =
  fixes acquire :: "'k \<Rightarrow> 'c \<Rightarrow> 's \<Rightarrow> bool \<times> 's"
    and release :: "'k \<Rightarrow> 's \<Rightarrow> 's"
    and holds :: "'k multiset \<Rightarrow> 's \<Rightarrow> bool"
    and fits :: "'c \<Rightarrow> 'k \<Rightarrow> 'k multiset \<Rightarrow> bool"
  assumes take: "holds M s \<Longrightarrow> acquire k c s = (True, s') \<Longrightarrow> fits c k M \<and> holds (add_mset k M) s'"
    and busy: "holds M s \<Longrightarrow> acquire k c s = (False, s') \<Longrightarrow> \<not> fits c k M \<and> s' = s"
    and give: "holds (add_mset k M) s \<Longrightarrow> holds M (release k s)"
begin

lemma granted_iff: "holds M s \<Longrightarrow> fst (acquire k c s) \<longleftrightarrow> fits c k M"
  using take [of M s k c "snd (acquire k c s)"] busy [of M s k c "snd (acquire k c s)"]
  by (cases "acquire k c s") auto

lemma take_then_give: "holds M s \<Longrightarrow> acquire k c s = (True, s') \<Longrightarrow> holds M (release k s')"
  using take give by blast

lemma give_member: "k \<in># M \<Longrightarrow> holds M s \<Longrightarrow> holds (M - {#k#}) (release k s)"
  by (metis give insert_DiffM)

end

definition counts :: "task_id multiset \<Rightarrow> chain_guards \<Rightarrow> bool" where
  "counts M g \<longleftrightarrow> (\<forall>t. cg_in_flight g t = count M t) \<and> cg_global g = size M"

definition within_caps :: "int \<times> int \<Rightarrow> task_id \<Rightarrow> task_id multiset \<Rightarrow> bool" where
  "within_caps c k M \<longleftrightarrow> int (count M k) < or_default (fst c) 1 \<and> int (size M) < or_default (snd c) 3"

interpretation chain_slot: slot_pool "\<lambda>t c. acquire_slot t (fst c) (snd c)" release_slot counts within_caps
proof
  fix M g k c g'
  assume "counts M g" "acquire_slot k (fst c) (snd c) g = (True, g')"
  then show "within_caps c k M \<and> counts (add_mset k M) g'"
    by (auto simp: acquire_slot_def counts_def within_caps_def split: if_splits)
next
  fix M g k c g'
  assume "counts M g" "acquire_slot k (fst c) (snd c) g = (False, g')"
  then show "\<not> within_caps c k M \<and> g' = g"
    by (auto simp: acquire_slot_def counts_def within_caps_def split: if_splits)
next
  fix k M g
  assume "counts (add_mset k M) g"
  then show "counts M (release_slot k g)"
    by (auto simp: release_slot_def counts_def Let_def)
qed

lemma counts_new: "counts {#} new_chain_guards"
  by (simp add: counts_def new_chain_guards_def)

text \<open>The other operations leave the counters alone.\<close>

lemma counts_frame [simp]:
  "counts M (record_chain_fire t now g) = counts M g"
  "counts M (observe_chain_fire sc r w sp now g) = counts M g"
  "counts M (snd (storm_suppressed sc now g)) = counts M g"
  by (simp_all add: counts_def record_chain_fire_def observe_chain_fire_def storm_suppressed_def Let_def
      split: option.splits)

section \<open>The storm breaker against a history of fires\<close>

text \<open>The fires of a scope, the latest first, with the policy each was observed under; the reference
  counts a fire and the earlier ones inside its window.\<close>

record storm_policy =
  pol_rate :: int
  pol_window :: duration
  pol_suppress :: duration

definition observes :: "storm_policy \<Rightarrow> bool" where
  "observes p \<longleftrightarrow> 0 < pol_rate p \<and> 0 < pol_window p"

definition observe :: "string \<Rightarrow> storm_policy \<Rightarrow> time \<Rightarrow> chain_guards \<Rightarrow> chain_guards" where
  "observe sc p now g = observe_chain_fire sc (pol_rate p) (pol_window p) (pol_suppress p) now g"

text \<open>All fires of one policy and one scope; times given from the first to the last.\<close>

definition storm_run :: "string \<Rightarrow> storm_policy \<Rightarrow> time list \<Rightarrow> chain_guards" where
  "storm_run sc p ts = fold (observe sc p) ts new_chain_guards"

definition recent :: "duration \<Rightarrow> time \<Rightarrow> time list \<Rightarrow> time list" where
  "recent w now ts = filter (\<lambda>t. now - w < t) ts"

definition trips :: "storm_policy \<Rightarrow> time list \<Rightarrow> bool" where
  "trips p ts \<longleftrightarrow> ts \<noteq> [] \<and> pol_rate p < int (length (recent (pol_window p) (last ts) ts))"

text \<open>The last fire that tripped the breaker.\<close>

fun last_trip :: "storm_policy \<Rightarrow> time list \<Rightarrow> time list \<Rightarrow> time option" where
  "last_trip p seen [] = None"
| "last_trip p seen (t # ts) =
     (case last_trip p (seen @ [t]) ts of
        Some u \<Rightarrow> Some u
      | None \<Rightarrow> (if trips p (seen @ [t]) then Some t else None))"

lemma storm_run_snoc: "storm_run sc p (ts @ [t]) = observe sc p t (storm_run sc p ts)"
  by (simp add: storm_run_def)

lemma recent_shrink:
  assumes "t \<le> t'" "0 < w"
  shows "recent w t' (recent w t ts) = recent w t' ts"
  using assms by (auto simp: recent_def intro!: filter_cong)

lemma last_trip_snoc:
  "last_trip p seen (ts @ [t]) = (if trips p (seen @ ts @ [t]) then Some t else last_trip p seen ts)"
  by (induction ts arbitrary: seen) (auto split: option.splits)

lemma storm_run_state:
  assumes "observes p" "sorted ts"
  shows "cg_storm_fires (storm_run sc p ts) sc = (if ts = [] then [] else recent (pol_window p) (last ts) ts) \<and>
    cg_suppressed_until (storm_run sc p ts) sc = map_option (\<lambda>t. t + pol_suppress p) (last_trip p [] ts)"
  using assms(2)
proof (induction ts rule: rev_induct)
  case Nil
  then show ?case by (simp add: storm_run_def new_chain_guards_def)
next
  case (snoc t ts)
  let ?g = "storm_run sc p ts"
  let ?w = "pol_window p"
  from snoc.prems have srt: "sorted ts" and le: "\<forall>u \<in> set ts. u \<le> t"
    by (auto simp: sorted_append)
  from snoc.IH [OF srt] have IH: "cg_storm_fires ?g sc = (if ts = [] then [] else recent ?w (last ts) ts)"
    "cg_suppressed_until ?g sc = map_option (\<lambda>t. t + pol_suppress p) (last_trip p [] ts)" by blast+
  have w: "0 < ?w" using assms(1) by (simp add: observes_def)
  have "recent ?w t (cg_storm_fires ?g sc) = recent ?w t ts"
  proof (cases "ts = []")
    case False
    with le have "last ts \<le> t" by simp
    with False IH(1) recent_shrink [OF _ w, of "last ts" t ts] show ?thesis by simp
  qed (use IH(1) in simp)
  moreover have new: "recent ?w t (ts @ [t]) = recent ?w t ts @ [t]"
    using w by (simp add: recent_def)
  ultimately have pruned: "filter (\<lambda>u. t - ?w < u) (cg_storm_fires ?g sc) @ [t] = recent ?w t (ts @ [t])"
    by (simp add: recent_def)
  have "cg_storm_fires (storm_run sc p (ts @ [t])) sc = recent ?w t (ts @ [t])"
    using assms(1) pruned
    by (simp add: storm_run_snoc observe_def observe_chain_fire_def observes_def Let_def)
  moreover have "cg_suppressed_until (storm_run sc p (ts @ [t])) sc =
      map_option (\<lambda>t. t + pol_suppress p) (last_trip p [] (ts @ [t]))"
    using assms(1) pruned IH(2)
    by (simp add: storm_run_snoc observe_def observe_chain_fire_def observes_def Let_def last_trip_snoc trips_def)
  ultimately show ?case by simp
qed

text \<open>The storm breaker is the rule it documents. For any history of fires of one scope on a clock
  that does not run backwards, the breaker suppresses the scope if and only if some fire made,
  with the earlier ones inside the observation window, more than the configured rate, and the
  last such fire is not longer ago than the suppression time. Pruning the window at each fire
  loses nothing, and asking the breaker never changes its answer at the same instant.\<close>

lemma storm_breaker_counts_window:
  "observes p \<and> sorted ts \<longrightarrow>
   (fst (storm_suppressed sc now (storm_run sc p ts)) \<longleftrightarrow>
      (\<exists>t. last_trip p [] ts = Some t \<and> now \<le> t + pol_suppress p)) \<and>
   fst (storm_suppressed sc now (snd (storm_suppressed sc now (storm_run sc p ts)))) =
      fst (storm_suppressed sc now (storm_run sc p ts))"
proof
  assume a: "observes p \<and> sorted ts"
  have s: "cg_suppressed_until (storm_run sc p ts) sc = map_option (\<lambda>t. t + pol_suppress p) (last_trip p [] ts)"
    using storm_run_state [of p ts sc] a by simp
  then show "(fst (storm_suppressed sc now (storm_run sc p ts)) \<longleftrightarrow>
      (\<exists>t. last_trip p [] ts = Some t \<and> now \<le> t + pol_suppress p)) \<and>
   fst (storm_suppressed sc now (snd (storm_suppressed sc now (storm_run sc p ts)))) =
      fst (storm_suppressed sc now (storm_run sc p ts))"
    by (cases "last_trip p [] ts") (auto simp: storm_suppressed_def)
qed

lemma storm_breaker_counts_window_witness:
  "fst (storm_suppressed ''mail'' 14 (storm_run ''mail'' \<lparr>pol_rate = 2, pol_window = 10, pol_suppress = 5\<rparr> [1, 3, 9]))"
  using storm_breaker_counts_window [of "\<lparr>pol_rate = 2, pol_window = 10, pol_suppress = 5\<rparr>" "[1, 3, 9]" "''mail''" 14]
  by (simp add: observes_def trips_def recent_def)

end
