(* ===== verification/ChainDispatch.thy ===== *)
theory ChainDispatch
  imports ChainGuards SpecValidate "HOL-Library.AList"
begin

text \<open>
  Dispatch of chain edges, pkg/trigger/chain.go: the edges declared by tasks and pipelines
  (\<open>trigger.chain\<close>), the failure chain with its guards, the payload of a chained run, the hop
  count (\<open>chainDepthOf\<close> of runlifecycle.go) and the cycle check of a registration. A fire is a
  value: which task runs, with which input, parameters and hop count. Whether the engine
  accepts it (\<open>fireAsync\<close>) is a parameter.
\<close>

section \<open>The engine as chain dispatch sees it\<close>

text \<open>\<open>en_tasks\<close> is the snapshot \<open>AllKinded\<close>, sorted by identifier; \<open>en_depth\<close> and \<open>en_source\<close> are
  the maps \<open>runChainDepth\<close> and \<open>runTriggerSource\<close>.\<close>

record chain_engine =
  en_tasks :: "kinded list"
  en_defaults :: on_failure_chain_spec
  en_depth :: "run_id \<rightharpoonup> int"
  en_source :: "run_id \<rightharpoonup> string"
  en_run_url :: "run_id \<Rightarrow> string"

definition all_specs :: "kinded list \<Rightarrow> spec list" where
  "all_specs ks = concat (map (\<lambda>k. case k of KSpec s \<Rightarrow> [s] | KPipeline p \<Rightarrow> []) ks)"

definition get_kinded :: "task_id \<Rightarrow> kinded list \<Rightarrow> kinded option" where
  "get_kinded tid ks = find (\<lambda>k. task_id_of k = tid) ks"

definition get_spec :: "task_id \<Rightarrow> kinded list \<Rightarrow> spec option" where
  "get_spec tid ks = (case get_kinded tid ks of Some (KSpec s) \<Rightarrow> Some s | _ \<Rightarrow> None)"

text \<open>\<open>Registry.Register\<close>: the entry of that identifier is replaced, and snapshots are sorted.\<close>

fun put_kinded :: "kinded \<Rightarrow> kinded list \<Rightarrow> kinded list" where
  "put_kinded k [] = [k]"
| "put_kinded k (x # xs) =
     (if task_id_of x = task_id_of k then k # xs
      else if task_id_of k < task_id_of x then k # x # xs else x # put_kinded k xs)"

record completion =
  cp_task :: task_id
  cp_run :: run_id
  cp_status :: string
  cp_output :: json
  cp_params :: "(string \<rightharpoonup> string) option"

record chain_fire =
  cf_target :: kinded
  cf_parent_run :: run_id
  cf_input :: json
  cf_params :: "(string \<times> string) list"
  cf_depth :: int
  cf_chain_parent :: task_id

definition upstream_context :: "completion \<Rightarrow> input_context" where
  "upstream_context c = \<lparr>ic_output = cp_output c, ic_params = cp_params c\<rparr>"

section \<open>Hop counts\<close>

definition max_success_chain_depth :: int where
  "max_success_chain_depth = 10"

definition chain_depth :: "chain_engine \<Rightarrow> run_id \<Rightarrow> int" where
  "chain_depth e run = (case en_depth e run of None \<Rightarrow> 0 | Some d \<Rightarrow> d)"

definition next_chain_depth :: "chain_engine \<Rightarrow> run_id \<Rightarrow> int option" where
  "next_chain_depth e run =
     (let n = chain_depth e run + 1 in if max_success_chain_depth < n then None else Some n)"

text \<open>\<open>chainDepthOf\<close>: what \<open>beginRun\<close> stores for a fire. A float is cut to its integer part, given by
  a parameter.\<close>

definition chain_depth_of :: "(string \<Rightarrow> int) \<Rightarrow> int \<Rightarrow> json \<Rightarrow> string \<Rightarrow> int option" where
  "chain_depth_of trunc depth input source =
     (if 0 < depth then Some depth
      else if source \<noteq> ''replay'' then None
      else (case input of
              JObj m \<Rightarrow>
                (case map_of m ''_chain_depth'' of
                   Some (JInt n) \<Rightarrow> if n \<le> 0 then None else Some n
                 | Some (JFloat t) \<Rightarrow> if trunc t \<le> 0 then None else Some (trunc t)
                 | _ \<Rightarrow> None)
            | _ \<Rightarrow> None))"

section \<open>Payloads\<close>

definition build_chain_payload ::
  "(string \<times> json) list \<Rightarrow> task_id \<Rightarrow> run_id \<Rightarrow> string \<Rightarrow> json \<Rightarrow> int \<Rightarrow> string \<Rightarrow> (string \<times> json) list" where
  "build_chain_payload userParams tid run status out depth runURL =
     (let m = AList.update ''_chain_depth'' (JInt depth)
               (AList.update ''output'' out
               (AList.update ''status'' (JStr status)
               (AList.update ''runID'' (JStr run)
               (AList.update ''taskID'' (JStr tid) userParams))))
      in if runURL \<noteq> [] then AList.update ''run_url'' (JStr runURL) m else m)"

definition build_chain_input ::
  "(string \<times> json) list \<Rightarrow> completion \<Rightarrow> int \<Rightarrow> string \<Rightarrow> json" where
  "build_chain_input userParams c depth runURL =
     (if userParams = [] then cp_output c
      else JObj (build_chain_payload userParams (cp_task c) (cp_run c) (cp_status c) (cp_output c) depth runURL))"

text \<open>\<open>fmt.Sprintf("%v", v)\<close> on decoded values: a map prints its keys in order.\<close>

fun nat_text :: "nat \<Rightarrow> string" where
  "nat_text n = (if n < 10 then [char_of (48 + n)] else nat_text (n div 10) @ [char_of (48 + n mod 10)])"

declare nat_text.simps [simp del]

definition int_text :: "int \<Rightarrow> string" where
  "int_text i = (if i < 0 then CHR ''-'' # nat_text (nat (- i)) else nat_text (nat i))"

fun go_value :: "json \<Rightarrow> string" where
  "go_value JNull = ''<nil>''"
| "go_value (JBool b) = (if b then ''true'' else ''false'')"
| "go_value (JInt i) = int_text i"
| "go_value (JFloat t) = t"
| "go_value (JStr s) = s"
| "go_value (JArr xs) = ''['' @ join_with '' '' (map go_value xs) @ '']''"
| "go_value (JObj kvs) =
     ''map['' @ join_with '' '' (map snd (sort_key fst (map (\<lambda>(k, v). (k, k @ '':'' @ go_value v)) kvs))) @ '']''"
| "go_value (JStrMap kvs) = ''map['' @ join_with '' '' (map (\<lambda>(k, v). k @ '':'' @ v) (sort_key fst kvs)) @ '']''"

definition flat_string_map :: "json \<Rightarrow> (string \<times> string) list" where
  "flat_string_map v = (case v of JObj m \<Rightarrow> map (\<lambda>(k, x). (k, go_value x)) m | _ \<Rightarrow> [])"

section \<open>Declared edges\<close>

definition chain_edge_matches :: "chain_trigger option \<Rightarrow> task_id \<Rightarrow> string \<Rightarrow> bool" where
  "chain_edge_matches chain completed status =
     (case chain of
        None \<Rightarrow> False
      | Some c \<Rightarrow> ct_from c = completed \<and> (chain_on c = ''always'' \<or> chain_on c = status))"

text \<open>The spec an edge dispatches: the registered one, or with the edge's overrides the validated
  result of applying them.\<close>

definition edge_spec :: "chain_trigger \<Rightarrow> spec \<Rightarrow> spec option" where
  "edge_spec c s =
     (case ct_overrides c of
        None \<Rightarrow> Some s
      | Some ov \<Rightarrow> (case validate_spec (apply_layer ov s) of Inl _ \<Rightarrow> None | Inr (t, _) \<Rightarrow> Some t))"

definition fire_task_edge :: "chain_engine \<Rightarrow> completion \<Rightarrow> spec \<Rightarrow> chain_fire option" where
  "fire_task_edge e c s =
     (case tc_chain (sp_trigger s) of
        None \<Rightarrow> None
      | Some ch \<Rightarrow>
          if \<not> chain_edge_matches (Some ch) (cp_task c) (cp_status c) then None
          else (case edge_spec ch s of
                  None \<Rightarrow> None
                | Some t \<Rightarrow>
                    (case resolve_input_output_map (upstream_context c) (ct_params ch) of
                       Inl _ \<Rightarrow> None
                     | Inr ps \<Rightarrow>
                         (case next_chain_depth e (cp_run c) of
                            None \<Rightarrow> None
                          | Some d \<Rightarrow> Some \<lparr>cf_target = KSpec t, cf_parent_run = cp_run c,
                              cf_input = build_chain_input ps c d (en_run_url e (cp_run c)),
                              cf_params = [], cf_depth = d, cf_chain_parent = []\<rparr>))))"

definition fire_pipeline_edge :: "chain_engine \<Rightarrow> completion \<Rightarrow> pipeline_task \<Rightarrow> chain_fire option" where
  "fire_pipeline_edge e c p =
     (case pt_chain (pl_trigger p) of
        None \<Rightarrow> None
      | Some ch \<Rightarrow>
          if \<not> chain_edge_matches (Some ch) (cp_task c) (cp_status c) then None
          else (case resolve_input_output_map (upstream_context c) (ct_params ch) of
                  Inl _ \<Rightarrow> None
                | Inr ps \<Rightarrow>
                    (case next_chain_depth e (cp_run c) of
                       None \<Rightarrow> None
                     | Some d \<Rightarrow> Some \<lparr>cf_target = KPipeline p, cf_parent_run = cp_run c,
                         cf_input = build_chain_input ps c d (en_run_url e (cp_run c)),
                         cf_params = flat_string_map (JObj ps), cf_depth = d, cf_chain_parent = []\<rparr>)))"

definition fire_success_chains :: "chain_engine \<Rightarrow> completion \<Rightarrow> chain_fire list" where
  "fire_success_chains e c = List.map_filter (fire_task_edge e c) (all_specs (en_tasks e))"

definition all_pipelines :: "kinded list \<Rightarrow> pipeline_task list" where
  "all_pipelines ks = concat (map (\<lambda>k. case k of KSpec s \<Rightarrow> [] | KPipeline p \<Rightarrow> [p]) ks)"

definition fire_pipeline_chains :: "chain_engine \<Rightarrow> completion \<Rightarrow> chain_fire list" where
  "fire_pipeline_chains e c = List.map_filter (fire_pipeline_edge e c) (all_pipelines (en_tasks e))"

section \<open>The failure chain\<close>

definition storm_scope :: "task_id \<Rightarrow> string" where
  "storm_scope tid =
     (case last_index CHR ''/'' tid of
        Some i \<Rightarrow> if 0 < i then take i tid else tid
      | None \<Rightarrow> if tid = [] then ''global'' else tid)"

definition effective_cooldown :: "on_failure_chain_spec \<Rightarrow> duration" where
  "effective_cooldown s = (if 0 < oc_cooldown s then oc_cooldown s else 600 * second)"

text \<open>The failed task's own chain replaces the configured default.\<close>

definition effective_chain :: "chain_engine \<Rightarrow> task_id \<Rightarrow> on_failure_chain_spec" where
  "effective_chain e tid =
     (case get_spec tid (en_tasks e) of
        None \<Rightarrow> en_defaults e
      | Some s \<Rightarrow> (case sp_on_failure_chain s of None \<Rightarrow> en_defaults e | Some c \<Rightarrow> c))"

datatype suppressed =
    NotAFailure
  | NoChainTarget
  | ReplaySource
  | DepthExceeded
  | TargetUnknown
  | StormTripped
  | CooldownActive
  | CapReached
  | InputUnresolved
  | FireRefused

record failure_claim =
  fc_done :: completion
  fc_target :: spec
  fc_chain :: on_failure_chain_spec
  fc_depth :: int
  fc_now :: time

text \<open>\<open>fireFailureChain\<close> up to the slot: the guards in their order. Each guard takes the lock of
  the guards for itself, so other dispatches may run between the checks and the slot.\<close>

definition failure_check ::
  "chain_engine \<Rightarrow> completion \<Rightarrow> time \<Rightarrow> chain_guards \<Rightarrow> (suppressed + failure_claim) \<times> chain_guards" where
  "failure_check e c now g =
     (if cp_status c \<noteq> ''failure'' then (Inl NotAFailure, g)
      else (let ch = effective_chain e (cp_task c); tid = oc_task ch in
        if tid = [] \<or> tid = cp_task c then (Inl NoChainTarget, g)
        else if en_source e (cp_run c) = Some ''replay'' then (Inl ReplaySource, g)
        else (let d = chain_depth e (cp_run c) + 1 in
          if effective_max_depth ch < d then (Inl DepthExceeded, g)
          else (case get_spec tid (en_tasks e) of
                  None \<Rightarrow> (Inl TargetUnknown, g)
                | Some t \<Rightarrow>
                    (case storm_suppressed (storm_scope (cp_task c)) now g of
                       (True, g1) \<Rightarrow> (Inl StormTripped, g1)
                     | (False, g1) \<Rightarrow>
                         if cooldown_active (cp_task c) (effective_cooldown ch) now g1 then (Inl CooldownActive, g1)
                         else (Inr \<lparr>fc_done = c, fc_target = t, fc_chain = ch, fc_depth = d, fc_now = now\<rparr>, g1))))))"

definition failure_acquire ::
  "chain_engine \<Rightarrow> failure_claim \<Rightarrow> chain_guards \<Rightarrow> bool \<times> chain_guards" where
  "failure_acquire e cl g =
     acquire_slot (cp_task (fc_done cl)) (oc_max_concurrent (fc_chain cl))
       (oc_max_concurrent_global (en_defaults e)) g"

definition failure_admit ::
  "chain_engine \<Rightarrow> completion \<Rightarrow> time \<Rightarrow> chain_guards \<Rightarrow> (suppressed + failure_claim) \<times> chain_guards" where
  "failure_admit e c now g =
     (case failure_check e c now g of
        (Inl r, g1) \<Rightarrow> (Inl r, g1)
      | (Inr cl, g1) \<Rightarrow>
          (case failure_acquire e cl g1 of
             (False, g2) \<Rightarrow> (Inl CapReached, g2)
           | (True, g2) \<Rightarrow> (Inr cl, g2)))"

definition failure_input :: "chain_engine \<Rightarrow> failure_claim \<Rightarrow> (string \<times> json) list \<Rightarrow> (string \<times> json) list" where
  "failure_input e cl ps =
     (let c = fc_done cl;
          m = build_chain_payload ps (cp_task c) (cp_run c) (cp_status c) (cp_output c) (fc_depth cl)
                (en_run_url e (cp_run c))
      in if oc_task (fc_chain cl) = ''buildin/auto-fix'' \<and> map_of m ''mode'' = None
         then AList.update ''mode'' (JStr ''review'') m else m)"

text \<open>The rest: resolution, the fire, and the records of a fire that was accepted.\<close>

definition failure_fire ::
  "chain_engine \<Rightarrow> (chain_fire \<Rightarrow> bool) \<Rightarrow> failure_claim \<Rightarrow> chain_guards \<Rightarrow>
     (suppressed + chain_fire) \<times> chain_guards" where
  "failure_fire e accepts cl g =
     (let c = fc_done cl; ch = fc_chain cl in
      case resolve_input_output_map (upstream_context c) (oc_params ch) of
        Inl _ \<Rightarrow> (Inl InputUnresolved, release_slot (cp_task c) g)
      | Inr ps \<Rightarrow>
          (let f = \<lparr>cf_target = KSpec (fc_target cl), cf_parent_run = cp_run c,
                    cf_input = JObj (failure_input e cl ps), cf_params = [], cf_depth = fc_depth cl,
                    cf_chain_parent = cp_task c\<rparr>
           in if \<not> accepts f then (Inl FireRefused, release_slot (cp_task c) g)
              else (Inr f, observe_chain_fire (storm_scope (cp_task c)) (st_rate (oc_storm ch))
                             (st_window (oc_storm ch)) (st_suppress (oc_storm ch)) (fc_now cl)
                             (record_chain_fire (cp_task c) (fc_now cl) g))))"

definition fire_failure_chain ::
  "chain_engine \<Rightarrow> (chain_fire \<Rightarrow> bool) \<Rightarrow> completion \<Rightarrow> time \<Rightarrow> chain_guards \<Rightarrow>
     (suppressed + chain_fire) \<times> chain_guards" where
  "fire_failure_chain e accepts c now g =
     (case failure_admit e c now g of
        (Inl r, g1) \<Rightarrow> (Inl r, g1)
      | (Inr cl, g1) \<Rightarrow> failure_fire e accepts cl g1)"

text \<open>\<open>FireChain\<close>; the restart of live pipelines (\<open>handlePipelineStageRerun\<close>) is not part of it here.\<close>

definition fire_chain ::
  "chain_engine \<Rightarrow> (chain_fire \<Rightarrow> bool) \<Rightarrow> completion \<Rightarrow> time \<Rightarrow> chain_guards \<Rightarrow>
     chain_fire list \<times> chain_guards" where
  "fire_chain e accepts c now g =
     (let fs = fire_success_chains e c @ fire_pipeline_chains e c in
      case fire_failure_chain e accepts c now g of
        (Inl _, g1) \<Rightarrow> (fs, g1)
      | (Inr f, g1) \<Rightarrow> (fs @ [f], g1))"

section \<open>Cycles\<close>

definition success_edge :: "kinded \<Rightarrow> (task_id \<times> task_id) option" where
  "success_edge k =
     (case chain_trigger_of k of
        None \<Rightarrow> None
      | Some c \<Rightarrow> if chain_on c = ''success'' \<or> chain_on c = ''always'' then Some (ct_from c, task_id_of k) else None)"

definition success_edges :: "kinded list \<Rightarrow> (task_id \<times> task_id) list" where
  "success_edges ks = List.map_filter success_edge ks"

definition successors :: "(task_id \<times> task_id) list \<Rightarrow> task_id \<Rightarrow> task_id list" where
  "successors es x = map snd (filter (\<lambda>p. fst p = x) es)"

text \<open>The closure \<open>dfs\<close> on the list of nodes a loop still has to try, with the visited set it
  threads through; \<open>dfs(x)\<close> is the singleton list.\<close>

function dfs_any ::
  "(task_id \<times> task_id) list \<Rightarrow> task_id \<Rightarrow> task_id list \<Rightarrow> task_id set \<Rightarrow> bool \<times> task_id set" where
  "dfs_any es goal [] visited = (False, visited)"
| "dfs_any es goal (x # xs) visited =
     (if x = goal then (True, visited)
      else if x \<in> visited then dfs_any es goal xs visited
      else (case dfs_any es goal (successors es x) (insert x visited) of
              (True, v) \<Rightarrow> (True, v)
            | (False, v) \<Rightarrow> dfs_any es goal xs v))"
  by pat_completeness auto

lemma dfs_any_visited: "dfs_any_dom (es, goal, xs, visited) \<Longrightarrow> visited \<subseteq> snd (dfs_any es goal xs visited)"
proof (induction rule: dfs_any.pinduct)
  case (1 es goal visited)
  then show ?case by (simp add: dfs_any.psimps)
next
  case (2 es goal x xs visited)
  then show ?case
    by (cases "dfs_any es goal (successors es x) (insert x visited)")
      (auto simp: dfs_any.psimps split: bool.splits)
qed

lemma successors_outside: "x \<notin> fst ` set es \<Longrightarrow> successors es x = []"
  by (auto simp: successors_def filter_empty_conv)

termination dfs_any
proof (relation "inv_image (finite_psubset <*lex*> less_than)
    (\<lambda>(es, goal, xs, visited). (fst ` set es - visited, length xs))", goal_cases)
  case 1
  then show ?case by auto
next
  case (2 es goal x xs visited)
  then show ?case by simp
next
  case (3 es goal x xs visited)
  then show ?case
  proof (cases "x \<in> fst ` set es")
    case True
    with 3 have "fst ` set es - insert x visited \<subset> fst ` set es - visited" by auto
    then show ?thesis by (simp add: finite_psubset_def)
  next
    case False
    then have "fst ` set es - insert x visited = fst ` set es - visited" by auto
    with False show ?thesis by (simp add: successors_outside)
  qed
next
  case (4 es goal x xs visited b v)
  then have "v = snd (dfs_any es goal (successors es x) (insert x visited))" by (metis snd_conv)
  with 4 have "insert x visited \<subseteq> v"
    using dfs_any_visited [of es goal "successors es x" "insert x visited"] by auto
  then have "fst ` set es - v \<subset> fst ` set es - visited \<or> fst ` set es - v = fst ` set es - visited" by auto
  then show ?case by (auto simp: finite_psubset_def)
qed

definition has_success_chain_cycle :: "kinded list \<Rightarrow> task_id \<Rightarrow> task_id \<Rightarrow> bool" where
  "has_success_chain_cycle ks newID from =
     fst (dfs_any (success_edges ks @ [(from, newID)]) from [newID] {})"

text \<open>\<open>checkSuccessChainCycle\<close>: \<open>True\<close> when the registration is accepted.\<close>

definition check_success_chain_cycle :: "kinded list \<Rightarrow> kinded \<Rightarrow> bool" where
  "check_success_chain_cycle ks k =
     (case chain_trigger_of k of
        None \<Rightarrow> True
      | Some c \<Rightarrow> if chain_on c \<noteq> ''success'' \<and> chain_on c \<noteq> ''always'' then True
                  else \<not> has_success_chain_cycle ks (task_id_of k) (ct_from c))"

end
