(* ===== verification/ChainSafety.thy ===== *)
theory ChainSafety
  imports ChainDispatch
begin

text \<open>
  What chain dispatch guarantees: cycles are found exactly, hop counts bound every chain, the
  engine's payload keys win, the failure chain's guards hold under interleaving, and the
  places where the code falls short of what it documents.
\<close>

section \<open>The depth-first search\<close>

lemma successors_iff: "y \<in> set (successors es x) \<longleftrightarrow> (x, y) \<in> set es"
  by (force simp: successors_def)

lemma dfs_any_unfold:
  "dfs_any es goal [] visited = (False, visited)"
  "x = goal \<Longrightarrow> dfs_any es goal (x # xs) visited = (True, visited)"
  "x \<noteq> goal \<Longrightarrow> x \<in> visited \<Longrightarrow> dfs_any es goal (x # xs) visited = dfs_any es goal xs visited"
  "x \<noteq> goal \<Longrightarrow> x \<notin> visited \<Longrightarrow> dfs_any es goal (successors es x) (insert x visited) = (True, v) \<Longrightarrow>
     dfs_any es goal (x # xs) visited = (True, v)"
  "x \<noteq> goal \<Longrightarrow> x \<notin> visited \<Longrightarrow> dfs_any es goal (successors es x) (insert x visited) = (False, v) \<Longrightarrow>
     dfs_any es goal (x # xs) visited = dfs_any es goal xs v"
  by simp_all

declare dfs_any.simps [simp del]

lemma dfs_any_sound:
  "fst (dfs_any es goal xs visited) \<Longrightarrow> \<exists>x \<in> set xs. (x, goal) \<in> (set es)\<^sup>*"
proof (induction es goal xs visited rule: dfs_any.induct)
  case (1 es goal visited)
  then show ?case by (simp add: dfs_any_unfold)
next
  case (2 es goal x xs visited)
  show ?case
  proof (cases "x = goal")
    case True
    then show ?thesis by auto
  next
    case new: False
    show ?thesis
    proof (cases "x \<in> visited")
      case True
      with "2.IH"(1) [OF new True] "2.prems" new show ?thesis by (auto simp: dfs_any_unfold)
    next
      case False
      obtain b v where d: "dfs_any es goal (successors es x) (insert x visited) = (b, v)"
        by (cases "dfs_any es goal (successors es x) (insert x visited)")
      show ?thesis
      proof (cases b)
        case True
        with "2.IH"(2) [OF new False] d obtain y where "y \<in> set (successors es x)" "(y, goal) \<in> (set es)\<^sup>*"
          by auto
        then show ?thesis by (auto simp: successors_iff intro: converse_rtrancl_into_rtrancl)
      next
        case b: False
        with d "2.prems" new False have "fst (dfs_any es goal xs v)" by (simp add: dfs_any_unfold)
        with "2.IH"(3) [OF new False d [symmetric]] b show ?thesis by auto
      qed
    qed
  qed
qed

text \<open>When the search fails, what it visited anew is closed under edges.\<close>

lemma dfs_any_fails:
  "dfs_any es goal xs visited = (False, v) \<Longrightarrow>
     visited \<subseteq> v \<and> set xs \<subseteq> v \<and> (goal \<in> v \<longrightarrow> goal \<in> visited) \<and>
     (\<forall>y \<in> v - visited. set (successors es y) \<subseteq> v)"
proof (induction es goal xs visited arbitrary: v rule: dfs_any.induct)
  case (1 es goal visited)
  then show ?case by (simp add: dfs_any_unfold)
next
  case (2 es goal x xs visited)
  from "2.prems" have new: "x \<noteq> goal" by (auto simp: dfs_any_unfold)
  show ?case
  proof (cases "x \<in> visited")
    case True
    with "2.prems" new have "dfs_any es goal xs visited = (False, v)" by (simp add: dfs_any_unfold)
    from "2.IH"(1) [OF new True this] True show ?thesis by auto
  next
    case False
    obtain b v1 where d: "dfs_any es goal (successors es x) (insert x visited) = (b, v1)"
      by (cases "dfs_any es goal (successors es x) (insert x visited)")
    with False new "2.prems" have b: "\<not> b"
      by (cases b) (simp_all add: dfs_any_unfold)
    with d have d1: "dfs_any es goal (successors es x) (insert x visited) = (False, v1)" by simp
    with False new "2.prems" have d2: "dfs_any es goal xs v1 = (False, v)"
      by (simp add: dfs_any_unfold)
    note one = "2.IH"(2) [OF new False d1] and two = "2.IH"(3) [OF new False d1 [symmetric] _ d2]
    have v1: "set (successors es x) \<subseteq> v1" "v1 \<subseteq> v" "\<forall>y \<in> v - v1. set (successors es y) \<subseteq> v"
      "\<forall>y \<in> v1 - insert x visited. set (successors es y) \<subseteq> v1"
      using one two b by blast+
    have closed: "set (successors es y) \<subseteq> v" if y: "y \<in> v - visited" for y
    proof -
      consider "y = x" | "y \<in> v1 - insert x visited" | "y \<in> v - v1" using y by blast
      then show ?thesis using v1 by cases blast+
    qed
    from one two b new have "visited \<subseteq> v \<and> set (x # xs) \<subseteq> v \<and> (goal \<in> v \<longrightarrow> goal \<in> visited)" by auto
    with closed show ?thesis by blast
  qed
qed

lemma dfs_any_complete:
  assumes "dfs_any es goal [x] {} = (False, v)"
  shows "(x, goal) \<notin> (set es)\<^sup>*"
proof
  assume path: "(x, goal) \<in> (set es)\<^sup>*"
  note f = dfs_any_fails [OF assms]
  from path have "goal \<in> v"
  proof (induction rule: rtrancl_induct)
    case base
    with f show ?case by simp
  next
    case (step y z)
    with f show ?case by (auto simp: successors_iff [symmetric])
  qed
  with f show False by simp
qed

lemma dfs_any_reaches: "fst (dfs_any es goal [x] {}) \<longleftrightarrow> (x, goal) \<in> (set es)\<^sup>*"
proof (cases "dfs_any es goal [x] {}")
  case (Pair b v)
  then show ?thesis
    using dfs_any_sound [of es goal "[x]" "{}"] dfs_any_complete [of es goal x v] by (cases b) auto
qed

text \<open>The new edge leads out of the goal, so the search never needs it.\<close>

lemma reach_without_last_edge:
  "(x, a) \<in> (insert (a, b) r)\<^sup>* \<longleftrightarrow> (x, a) \<in> r\<^sup>*"
proof
  assume "(x, a) \<in> (insert (a, b) r)\<^sup>*"
  then show "(x, a) \<in> r\<^sup>*"
    unfolding rtrancl_insert by auto
next
  assume "(x, a) \<in> r\<^sup>*"
  then show "(x, a) \<in> (insert (a, b) r)\<^sup>*"
    by (rule rtrancl_mono [THEN subsetD, rotated]) auto
qed

lemma has_cycle_iff:
  "has_success_chain_cycle ks newID from \<longleftrightarrow> (newID, from) \<in> (set (success_edges ks))\<^sup>*"
  unfolding has_success_chain_cycle_def dfs_any_reaches by (simp add: reach_without_last_edge)

section \<open>The registry\<close>

definition sorted_registry :: "kinded list \<Rightarrow> bool" where
  "sorted_registry ks \<longleftrightarrow> sorted_wrt (\<lambda>a b. task_id_of a < task_id_of b) ks"

lemma set_put_kinded:
  "sorted_registry ks \<Longrightarrow> set (put_kinded k ks) = insert k {x \<in> set ks. task_id_of x \<noteq> task_id_of k}"
  unfolding sorted_registry_def
  by (induction k ks rule: put_kinded.induct) (auto dest: order.strict_trans)

lemma set_success_edges:
  "set (success_edges ks) = {e. \<exists>k \<in> set ks. success_edge k = Some e}"
  by (auto simp: success_edges_def map_filter_def) force

text \<open>The edges that remain when the entry of \<open>k\<close> is taken out.\<close>

definition other_edges :: "kinded \<Rightarrow> kinded list \<Rightarrow> (task_id \<times> task_id) set" where
  "other_edges k ks = {e. \<exists>x \<in> set ks. task_id_of x \<noteq> task_id_of k \<and> success_edge x = Some e}"

lemma edges_after_register:
  assumes "sorted_registry ks"
  shows "set (success_edges (put_kinded k ks)) =
    other_edges k ks \<union> (case success_edge k of None \<Rightarrow> {} | Some e \<Rightarrow> {e})"
  by (auto simp: set_success_edges set_put_kinded [OF assms] other_edges_def split: option.splits)

lemma success_edge_target: "success_edge k = Some (a, b) \<Longrightarrow> b = task_id_of k"
  by (auto simp: success_edge_def split: option.splits if_splits)

lemma check_iff:
  "check_success_chain_cycle ks k \<longleftrightarrow>
     (case success_edge k of None \<Rightarrow> True | Some (a, b) \<Rightarrow> (b, a) \<notin> (set (success_edges ks))\<^sup>*)"
  by (auto simp: check_success_chain_cycle_def success_edge_def has_cycle_iff split: option.splits)

text \<open>C11. The cycle check of a registration is exact. Let a task or pipeline be put into the registry
  and then checked, as the reconciler and the engine do, and let the success-chain edges of
  the other entries have no cycle. Then the check accepts it if and only if the edges of the
  whole registry still have no cycle. The edge the task had before is not held against it,
  and the search visits each task once.\<close>

theorem cycle_check_is_exact:
  "sorted_registry ks \<and> acyclic (other_edges k ks) \<longrightarrow>
   (check_success_chain_cycle (put_kinded k ks) k \<longleftrightarrow> acyclic (set (success_edges (put_kinded k ks))))"
proof
  assume a: "sorted_registry ks \<and> acyclic (other_edges k ks)"
  show "check_success_chain_cycle (put_kinded k ks) k \<longleftrightarrow> acyclic (set (success_edges (put_kinded k ks)))"
  proof (cases "success_edge k")
    case None
    with a show ?thesis by (simp add: check_iff edges_after_register)
  next
    case (Some e)
    obtain f t where e: "e = (f, t)" by (cases e)
    with Some a have edges: "set (success_edges (put_kinded k ks)) = insert (f, t) (other_edges k ks)"
      by (simp add: edges_after_register)
    have "(t, f) \<in> (insert (f, t) (other_edges k ks))\<^sup>* \<longleftrightarrow> (t, f) \<in> (other_edges k ks)\<^sup>*"
      by (rule reach_without_last_edge)
    with a Some e edges show ?thesis
      by (simp add: check_iff acyclic_insert)
  qed
qed

definition chained :: "task_id \<Rightarrow> task_id \<Rightarrow> spec" where
  "chained tid from = empty_spec\<lparr>sp_id := tid, sp_name := tid,
     sp_trigger := no_trigger\<lparr>tc_chain := Some (ChainTrigger from [] [] None)\<rparr>\<rparr>"

lemma success_edge_chained: "success_edge (KSpec (chained tid from)) = Some (from, tid)"
  by (simp add: success_edge_def chained_def chain_on_def)

theorem cycle_check_is_exact_witness:
  "\<not> check_success_chain_cycle (put_kinded (KSpec (chained ''a'' ''b'')) [KSpec (chained ''b'' ''a'')])
      (KSpec (chained ''a'' ''b''))"
proof -
  let ?k = "KSpec (chained ''a'' ''b'')" and ?ks = "[KSpec (chained ''b'' ''a'')]"
  have s: "sorted_registry ?ks" by (simp add: sorted_registry_def)
  have ids: "task_id_of ?k = ''a''" "task_id_of (KSpec (chained ''b'' ''a'')) = ''b''"
    by (simp_all add: chained_def)
  have diff: "sp_id (chained ''b'' ''a'') \<noteq> sp_id (chained ''a'' ''b'')" by (simp add: chained_def)
  have o: "other_edges ?k ?ks = {(''a'', ''b'')}"
    using diff by (auto simp: other_edges_def success_edge_chained)
  then have ac: "acyclic (other_edges ?k ?ks)"
    by (simp add: acyclic_insert) (simp add: acyclic_def)
  have "set (success_edges (put_kinded ?k ?ks)) = {(''a'', ''b''), (''b'', ''a'')}"
    unfolding edges_after_register [OF s] o success_edge_chained by auto
  moreover have "(x, x) \<in> {(x, y), (y, x)}\<^sup>+" for x y :: string
  proof -
    have "(x, y) \<in> {(x, y), (y, x)}\<^sup>+" by (rule r_into_trancl) simp
    then show ?thesis by (rule trancl_into_trancl) simp
  qed
  ultimately have "\<not> acyclic (set (success_edges (put_kinded ?k ?ks)))"
    unfolding acyclic_def by metis
  with cycle_check_is_exact [of ?ks ?k] s ac show ?thesis by blast
qed

section \<open>What a declared edge fires\<close>

lemma fire_task_edge_Some:
  "fire_task_edge e c s = Some f \<longleftrightarrow>
     (\<exists>ch t ps d. tc_chain (sp_trigger s) = Some ch \<and> chain_edge_matches (Some ch) (cp_task c) (cp_status c) \<and>
        edge_spec ch s = Some t \<and> resolve_input_output_map (upstream_context c) (ct_params ch) = Inr ps \<and>
        next_chain_depth e (cp_run c) = Some d \<and>
        f = \<lparr>cf_target = KSpec t, cf_parent_run = cp_run c,
             cf_input = build_chain_input ps c d (en_run_url e (cp_run c)), cf_params = [], cf_depth = d,
             cf_chain_parent = []\<rparr>)"
  by (auto simp: fire_task_edge_def split: option.splits sum.splits)

lemma fire_pipeline_edge_Some:
  "fire_pipeline_edge e c p = Some f \<longleftrightarrow>
     (\<exists>ch ps d. pt_chain (pl_trigger p) = Some ch \<and> chain_edge_matches (Some ch) (cp_task c) (cp_status c) \<and>
        resolve_input_output_map (upstream_context c) (ct_params ch) = Inr ps \<and>
        next_chain_depth e (cp_run c) = Some d \<and>
        f = \<lparr>cf_target = KPipeline p, cf_parent_run = cp_run c,
             cf_input = build_chain_input ps c d (en_run_url e (cp_run c)),
             cf_params = flat_string_map (JObj ps), cf_depth = d, cf_chain_parent = []\<rparr>)"
  by (auto simp: fire_pipeline_edge_def split: option.splits sum.splits)

lemma set_fire_success_chains:
  "set (fire_success_chains e c) = {f. \<exists>s \<in> set (all_specs (en_tasks e)). fire_task_edge e c s = Some f}"
  by (auto simp: fire_success_chains_def map_filter_def) force

lemma set_fire_pipeline_chains:
  "set (fire_pipeline_chains e c) = {f. \<exists>p \<in> set (all_pipelines (en_tasks e)). fire_pipeline_edge e c p = Some f}"
  by (auto simp: fire_pipeline_chains_def map_filter_def) force

lemma set_all_specs: "s \<in> set (all_specs ks) \<longleftrightarrow> KSpec s \<in> set ks"
  by (induction ks) (auto simp: all_specs_def split: kinded.splits)

lemma resolve_map_keys:
  "resolve_input_output_map ctx ps = Inr qs \<Longrightarrow> map fst qs = map fst ps"
proof (induction ctx ps arbitrary: qs rule: resolve_input_output_map.induct)
  case (2 ctx k v ps)
  show ?case
  proof (cases "resolve_input_output_map ctx ps")
    case (Inl x)
    with "2.prems" show ?thesis by (cases v) (simp_all split: sum.splits)
  next
    case (Inr rs)
    have "map fst rs = map fst ps"
      using "2.IH" Inr by (cases v; cases "resolve_string ctx (case v of JStr s \<Rightarrow> s | _ \<Rightarrow> [])") (use "2.prems" in \<open>simp_all split: sum.splits\<close>)
    with "2.prems" Inr show ?thesis by (cases v) (auto split: sum.splits)
  qed
qed simp

subsection \<open>Hop counts\<close>

text \<open>A run fired by a declared edge stores its hop count when it begins.\<close>

inductive chain_hop :: "int \<Rightarrow> int \<Rightarrow> bool" where
  chain_hop: "f \<in> set (fire_success_chains e c @ fire_pipeline_chains e c) \<Longrightarrow>
    chain_depth_of trunc (cf_depth f) (cf_input f) ''chain'' = Some d \<Longrightarrow>
    chain_hop (chain_depth e (cp_run c)) d"

lemma edge_depth:
  "f \<in> set (fire_success_chains e c @ fire_pipeline_chains e c) \<Longrightarrow>
     cf_depth f = chain_depth e (cp_run c) + 1 \<and> cf_depth f \<le> max_success_chain_depth"
  by (auto simp: set_fire_success_chains set_fire_pipeline_chains fire_task_edge_Some fire_pipeline_edge_Some
      next_chain_depth_def Let_def split: if_splits)

lemma chain_hop_step: "chain_hop d d' \<Longrightarrow> 0 \<le> d \<Longrightarrow> d' = d + 1 \<and> d' \<le> 10"
proof (induction rule: chain_hop.induct)
  case (chain_hop f e c trunc d)
  from edge_depth [OF chain_hop(1)] chain_hop(2,3) show ?case
    by (simp add: chain_depth_of_def max_success_chain_depth_def)
qed


definition ex_engine :: "kinded list \<Rightarrow> chain_engine" where
  "ex_engine ks = \<lparr>en_tasks = ks, en_defaults = no_failure_chain, en_depth = Map.empty,
     en_source = Map.empty, en_run_url = (\<lambda>_. [])\<rparr>"

definition ex_done :: "task_id \<Rightarrow> string \<Rightarrow> completion" where
  "ex_done tid status = \<lparr>cp_task = tid, cp_run = ''r1'', cp_status = status, cp_output = JStr ''out'',
     cp_params = None\<rparr>"

definition ex_fire :: "spec \<Rightarrow> chain_fire" where
  "ex_fire s = \<lparr>cf_target = KSpec s, cf_parent_run = ''r1'', cf_input = JStr ''out'', cf_params = [],
     cf_depth = 1, cf_chain_parent = []\<rparr>"

lemma ex_fires:
  "fire_success_chains (ex_engine [KSpec (chained ''b'' ''a'')]) (ex_done ''a'' ''success'') =
     [ex_fire (chained ''b'' ''a'')]"
proof -
  have "fire_task_edge (ex_engine [KSpec (chained ''b'' ''a'')]) (ex_done ''a'' ''success'') (chained ''b'' ''a'') =
      Some (ex_fire (chained ''b'' ''a''))"
    unfolding fire_task_edge_Some
    by (simp add: chained_def ex_done_def ex_engine_def ex_fire_def chain_edge_matches_def chain_on_def edge_spec_def
        next_chain_depth_def chain_depth_def max_success_chain_depth_def build_chain_input_def)
  then show ?thesis
    by (simp add: fire_success_chains_def all_specs_def ex_engine_def map_filter_def)
qed


subsection \<open>Payloads\<close>

lemma map_of_update: "map_of (AList.update k v al) k' = (if k' = k then Some v else map_of al k')"
  by (simp add: update_conv')

lemma payload_keys:
  "map_of (build_chain_payload ps tid run status out d url) ''taskID'' = Some (JStr tid)"
  "map_of (build_chain_payload ps tid run status out d url) ''runID'' = Some (JStr run)"
  "map_of (build_chain_payload ps tid run status out d url) ''status'' = Some (JStr status)"
  "map_of (build_chain_payload ps tid run status out d url) ''output'' = Some out"
  "map_of (build_chain_payload ps tid run status out d url) ''_chain_depth'' = Some (JInt d)"
  "\<not> is_reserved_chain_param_key k \<Longrightarrow>
     map_of (build_chain_payload ps tid run status out d url) k = map_of ps k"
  by (auto simp: build_chain_payload_def Let_def map_of_update is_reserved_chain_param_key_def
      reserved_chain_param_keys_def)

text \<open>The engine's words about a chained run cannot be forged by the edge. Whatever parameters an
  edge declares, also reserved ones that slipped past validation, the payload of the run it
  fires names the true upstream task, run, status, output and hop count, and every other key
  has the edge's resolved value. An edge without parameters passes the upstream's output as
  it is.\<close>

lemma chain_payload_keys_win:
  "fire_task_edge e c s = Some f \<longrightarrow>
   (\<exists>ch ps. tc_chain (sp_trigger s) = Some ch \<and>
      resolve_input_output_map (upstream_context c) (ct_params ch) = Inr ps \<and>
      (if ct_params ch = [] then cf_input f = cp_output c
       else \<exists>m. cf_input f = JObj m \<and> map_of m ''taskID'' = Some (JStr (cp_task c)) \<and>
              map_of m ''runID'' = Some (JStr (cp_run c)) \<and> map_of m ''status'' = Some (JStr (cp_status c)) \<and>
              map_of m ''output'' = Some (cp_output c) \<and>
              map_of m ''_chain_depth'' = Some (JInt (chain_depth e (cp_run c) + 1)) \<and>
              (\<forall>k. \<not> is_reserved_chain_param_key k \<longrightarrow> map_of m k = map_of ps k)))"
proof
  assume "fire_task_edge e c s = Some f"
  then obtain ch t ps d where f: "tc_chain (sp_trigger s) = Some ch"
    "resolve_input_output_map (upstream_context c) (ct_params ch) = Inr ps"
    "next_chain_depth e (cp_run c) = Some d" "cf_input f = build_chain_input ps c d (en_run_url e (cp_run c))"
    by (auto simp: fire_task_edge_Some)
  from f(3) have d: "d = chain_depth e (cp_run c) + 1"
    by (simp add: next_chain_depth_def Let_def split: if_splits)
  have empty: "ps = [] \<longleftrightarrow> ct_params ch = []"
    using resolve_map_keys [OF f(2)] by (metis map_is_Nil_conv)
  show "\<exists>ch ps. tc_chain (sp_trigger s) = Some ch \<and>
      resolve_input_output_map (upstream_context c) (ct_params ch) = Inr ps \<and>
      (if ct_params ch = [] then cf_input f = cp_output c
       else \<exists>m. cf_input f = JObj m \<and> map_of m ''taskID'' = Some (JStr (cp_task c)) \<and>
              map_of m ''runID'' = Some (JStr (cp_run c)) \<and> map_of m ''status'' = Some (JStr (cp_status c)) \<and>
              map_of m ''output'' = Some (cp_output c) \<and>
              map_of m ''_chain_depth'' = Some (JInt (chain_depth e (cp_run c) + 1)) \<and>
              (\<forall>k. \<not> is_reserved_chain_param_key k \<longrightarrow> map_of m k = map_of ps k))"
    using f empty d by (intro exI [of _ ch] exI [of _ ps]) (auto simp: build_chain_input_def payload_keys)
qed

lemma chain_payload_keys_win_witness:
  "cf_input (ex_fire (chained ''b'' ''a'')) = cp_output (ex_done ''a'' ''success'')"
proof -
  have "fire_task_edge (ex_engine [KSpec (chained ''b'' ''a'')]) (ex_done ''a'' ''success'') (chained ''b'' ''a'') =
      Some (ex_fire (chained ''b'' ''a''))"
    unfolding fire_task_edge_Some
    by (simp add: chained_def ex_done_def ex_engine_def ex_fire_def chain_edge_matches_def chain_on_def edge_spec_def
        next_chain_depth_def chain_depth_def max_success_chain_depth_def build_chain_input_def)
  with chain_payload_keys_win [of "ex_engine [KSpec (chained ''b'' ''a'')]" "ex_done ''a'' ''success''"
      "chained ''b'' ''a''"]
  show ?thesis by (auto simp: chained_def)
qed

subsection \<open>Edges that fire although they should not\<close>

text \<open>Neither disabling a task nor the rejection of its registration stops its edge. The documents
  say that a disabled task is not scheduled and that a task that closes a cycle is not
  registered; but dispatch reads the registry, which holds both: the edge of such a task fires
  whenever the upstream completes, until the hop count ends the loop.\<close>

lemma rejected_and_disabled_tasks_still_fire:
  "(\<not> sp_enabled s \<or> \<not> check_success_chain_cycle (en_tasks e) (KSpec s)) \<and> KSpec s \<in> set (en_tasks e) \<and>
   tc_chain (sp_trigger s) = Some ch \<and> chain_edge_matches (Some ch) (cp_task c) (cp_status c) \<and>
   ct_overrides ch = None \<and> ct_params ch = [] \<and> chain_depth e (cp_run c) < max_success_chain_depth \<longrightarrow>
   (\<exists>f \<in> set (fire_success_chains e c). cf_target f = KSpec s)"
proof
  assume a: "(\<not> sp_enabled s \<or> \<not> check_success_chain_cycle (en_tasks e) (KSpec s)) \<and> KSpec s \<in> set (en_tasks e) \<and>
   tc_chain (sp_trigger s) = Some ch \<and> chain_edge_matches (Some ch) (cp_task c) (cp_status c) \<and>
   ct_overrides ch = None \<and> ct_params ch = [] \<and> chain_depth e (cp_run c) < max_success_chain_depth"
  then have "next_chain_depth e (cp_run c) = Some (chain_depth e (cp_run c) + 1)"
    by (simp add: next_chain_depth_def Let_def)
  with a have "\<exists>f. fire_task_edge e c s = Some f \<and> cf_target f = KSpec s"
    by (auto simp: fire_task_edge_Some edge_spec_def)
  moreover have "s \<in> set (all_specs (en_tasks e))" using a by (simp add: set_all_specs)
  ultimately show "\<exists>f \<in> set (fire_success_chains e c). cf_target f = KSpec s"
    unfolding set_fire_success_chains by blast
qed

lemma rejected_and_disabled_tasks_still_fire_witness:
  "\<not> check_success_chain_cycle (put_kinded (KSpec (chained ''a'' ''a'')) []) (KSpec (chained ''a'' ''a'')) \<and>
   \<not> sp_enabled (chained ''a'' ''a'') \<and>
   (\<exists>f \<in> set (fire_success_chains (ex_engine (put_kinded (KSpec (chained ''a'' ''a'')) [])) (ex_done ''a'' ''success'')).
      cf_target f = KSpec (chained ''a'' ''a''))"
proof -
  let ?s = "chained ''a'' ''a''" and ?e = "ex_engine (put_kinded (KSpec (chained ''a'' ''a'')) [])"
  have "\<not> check_success_chain_cycle (put_kinded (KSpec ?s) []) (KSpec ?s)"
    by (simp add: check_iff success_edge_chained)
  moreover have "\<not> sp_enabled ?s" by (simp add: chained_def empty_spec_def)
  moreover have "tc_chain (sp_trigger ?s) = Some (ChainTrigger ''a'' [] [] None)" by (simp add: chained_def)
  ultimately show ?thesis
    using rejected_and_disabled_tasks_still_fire [of ?s ?e "ChainTrigger ''a'' [] [] None" "ex_done ''a'' ''success''"]
    by (simp add: ex_engine_def ex_done_def chain_edge_matches_def chain_on_def chain_depth_def
        max_success_chain_depth_def)
qed

lemma edge_spec_params:
  "edge_spec ch s = Some t \<Longrightarrow> ct_overrides ch = Some ov \<Longrightarrow> sp_params t = merge_params (ov_params ov) (sp_params s)"
  by (auto simp: edge_spec_def validate_spec_Inr apply_layer_def split: option.splits sum.splits)

text \<open>References in the overrides of an edge are accepted and never resolved. Validation lets a
  default such as \<open>${input.output}\<close> pass in the overrides of a chain edge, as a test expects
  dispatch to resolve it; but every fire of the edge hands the task the default exactly as it
  was written, whatever the upstream returned.\<close>

lemma edge_override_reference_is_literal:
  "check_override_param \<lparr>po_name = ''content'', po_default = ''${input.output}'', po_required = None\<rparr> = None \<and>
   (fire_task_edge e c s = Some f \<and> cf_target f = KSpec t \<and> tc_chain (sp_trigger s) = Some ch \<and>
    ct_overrides ch = Some ov \<and> ov_params ov = earlier @ po # later \<and> po_name po \<notin> po_name ` set later \<longrightarrow>
    map_option pa_default (param_lookup (sp_params t) (po_name po)) = Some (po_default po))"
proof
  have "validate_input_refs ''${input.output}'' = None"
    by (simp add: validate_input_refs_def find_attempts.simps match_attempt_def cut_prefix_def input_mark_def
        check_attempt_def match_ref_def match_field_def)
  then show "check_override_param \<lparr>po_name = ''content'', po_default = ''${input.output}'', po_required = None\<rparr> = None"
    by (simp add: check_override_param_def is_reserved_chain_param_key_def reserved_chain_param_keys_def)
  show "fire_task_edge e c s = Some f \<and> cf_target f = KSpec t \<and> tc_chain (sp_trigger s) = Some ch \<and>
    ct_overrides ch = Some ov \<and> ov_params ov = earlier @ po # later \<and> po_name po \<notin> po_name ` set later \<longrightarrow>
    map_option pa_default (param_lookup (sp_params t) (po_name po)) = Some (po_default po)"
  proof
    assume a: "fire_task_edge e c s = Some f \<and> cf_target f = KSpec t \<and> tc_chain (sp_trigger s) = Some ch \<and>
      ct_overrides ch = Some ov \<and> ov_params ov = earlier @ po # later \<and> po_name po \<notin> po_name ` set later"
    then have "edge_spec ch s = Some t" by (auto simp: fire_task_edge_Some)
    with a have "sp_params t = merge_params (earlier @ po # later) (sp_params s)"
      using edge_spec_params by metis
    with a params_overlay_last_wins [of po later earlier "sp_params s"]
    show "map_option pa_default (param_lookup (sp_params t) (po_name po)) = Some (po_default po)" by simp
  qed
qed

definition ex_overridden :: spec where
  "ex_overridden = empty_spec\<lparr>sp_id := ''b'', sp_name := ''b'', sp_trigger := no_trigger\<lparr>tc_chain :=
     Some (ChainTrigger ''a'' [] [] (Some (Overrides None [] [] None
       [\<lparr>po_name = ''content'', po_default = ''${input.output}'', po_required = None\<rparr>] [] [] [] 0 None [] None None None)))\<rparr>\<rparr>"

lemma edge_override_reference_is_literal_witness:
  "\<exists>t. map_option cf_target (fire_task_edge (ex_engine []) (ex_done ''a'' ''success'') ex_overridden) = Some (KSpec t) \<and>
     map_option pa_default (param_lookup (sp_params t) ''content'') = Some ''${input.output}''"
proof -
  let ?po = "\<lparr>po_name = ''content'', po_default = ''${input.output}'', po_required = None\<rparr>"
  let ?ov = "Overrides None [] [] None [?po] [] [] [] 0 None [] None None None"
  let ?ch = "ChainTrigger ''a'' [] [] (Some ?ov)"
  let ?t = "apply_layer ?ov ex_overridden"
  have ok: "check_override_param ?po = None"
    using edge_override_reference_is_literal by blast
  have trig: "tc_chain (sp_trigger ex_overridden) = Some ?ch" by (simp add: ex_overridden_def)
  have shape: "spec_shape_error ?t = None"
    using ok by (simp add: spec_shape_error_def ex_overridden_def apply_layer_def zero_values
        check_chain_trigger_def validate_per_edge_overrides_def trigger_kinds_def fails_if_def)
  have box: "container_error ?t = None" "sp_on_failure_chain ?t = None"
    by (simp_all add: container_error_def ex_overridden_def apply_layer_def zero_values)
  have "\<exists>w. validate_spec ?t = Inr (?t\<lparr>sp_on_failure_chain := None\<rparr>, w)"
    unfolding validate_spec_Inr using shape box by simp
  then have spec: "\<exists>t. edge_spec ?ch ex_overridden = Some t" by (auto simp: edge_spec_def)
  then obtain t where t: "edge_spec ?ch ex_overridden = Some t" by blast
  have "\<exists>f. fire_task_edge (ex_engine []) (ex_done ''a'' ''success'') ex_overridden = Some f \<and> cf_target f = KSpec t"
    unfolding fire_task_edge_Some using trig t
    by (auto simp: chain_edge_matches_def chain_on_def ex_done_def next_chain_depth_def chain_depth_def ex_engine_def
        max_success_chain_depth_def)
  then obtain f where f: "fire_task_edge (ex_engine []) (ex_done ''a'' ''success'') ex_overridden = Some f"
    "cf_target f = KSpec t" by blast
  from edge_override_reference_is_literal [of "ex_engine []" "ex_done ''a'' ''success''" ex_overridden f t ?ch ?ov
      "[]" ?po "[]"] f trig
  have "map_option pa_default (param_lookup (sp_params t) ''content'') = Some ''${input.output}''"
    by simp
  with f show ?thesis by auto
qed

end
