(* ===== verification/FailureChains.thy ===== *)
theory FailureChains
  imports ChainSafety
begin

text \<open>
  The failure chain as a system: what one dispatch does to the guards on every branch, and an
  inductive step relation in which dispatches are cut between the slot and the fire, handlers
  run and close, and the registry may change in between.
\<close>

section \<open>One dispatch\<close>

lemma failure_check_Inr:
  "failure_check e c now g = (Inr cl, g') \<longleftrightarrow>
     (let ch = effective_chain e (cp_task c) in
      cp_status c = ''failure'' \<and> oc_task ch \<noteq> [] \<and> oc_task ch \<noteq> cp_task c \<and>
      en_source e (cp_run c) \<noteq> Some ''replay'' \<and> chain_depth e (cp_run c) + 1 \<le> effective_max_depth ch \<and>
      (\<exists>t. get_spec (oc_task ch) (en_tasks e) = Some t \<and>
         storm_suppressed (storm_scope (cp_task c)) now g = (False, g') \<and>
         \<not> cooldown_active (cp_task c) (effective_cooldown ch) now g' \<and>
         cl = \<lparr>fc_done = c, fc_target = t, fc_chain = ch, fc_depth = chain_depth e (cp_run c) + 1, fc_now = now\<rparr>))"
  by (auto simp: failure_check_def Let_def split: option.splits prod.splits bool.splits if_splits)

lemma failure_check_guards:
  "failure_check e c now g = (r, g') \<Longrightarrow> g' = g \<or> g' = snd (storm_suppressed (storm_scope (cp_task c)) now g)"
  by (auto simp: failure_check_def Let_def split: option.splits prod.splits bool.splits if_splits)

lemma failure_admit_Inr:
  "failure_admit e c now g = (Inr cl, g') \<longleftrightarrow>
     (let ch = effective_chain e (cp_task c) in
      cp_status c = ''failure'' \<and> oc_task ch \<noteq> [] \<and> oc_task ch \<noteq> cp_task c \<and>
      en_source e (cp_run c) \<noteq> Some ''replay'' \<and> chain_depth e (cp_run c) + 1 \<le> effective_max_depth ch \<and>
      (\<exists>t g1. get_spec (oc_task ch) (en_tasks e) = Some t \<and>
         storm_suppressed (storm_scope (cp_task c)) now g = (False, g1) \<and>
         \<not> cooldown_active (cp_task c) (effective_cooldown ch) now g1 \<and>
         acquire_slot (cp_task c) (oc_max_concurrent ch) (oc_max_concurrent_global (en_defaults e)) g1 = (True, g') \<and>
         cl = \<lparr>fc_done = c, fc_target = t, fc_chain = ch, fc_depth = chain_depth e (cp_run c) + 1, fc_now = now\<rparr>))"
proof -
  have "failure_admit e c now g = (Inr cl, g') \<longleftrightarrow>
      (\<exists>g1. failure_check e c now g = (Inr cl, g1) \<and> failure_acquire e cl g1 = (True, g'))"
    by (auto simp: failure_admit_def split: prod.splits sum.splits bool.splits)
  then show ?thesis by (auto simp: failure_check_Inr failure_acquire_def Let_def)
qed

lemma acquire_fails: "acquire_slot t p gl g = (False, g') \<Longrightarrow> g' = g"
  by (auto simp: acquire_slot_def split: if_splits)

lemma failure_admit_Inl:
  "failure_admit e c now g = (Inl r, g') \<Longrightarrow> g' = g \<or> g' = snd (storm_suppressed (storm_scope (cp_task c)) now g)"
  by (auto simp: failure_admit_def failure_acquire_def dest: acquire_fails failure_check_guards
      split: prod.splits sum.splits bool.splits)

lemma storm_suppressed_frame:
  "storm_suppressed sc now g = (b, g') \<Longrightarrow>
     cg_last_fire g' = cg_last_fire g \<and> cg_in_flight g' = cg_in_flight g \<and> cg_global g' = cg_global g \<and>
     cg_storm_fires g' = cg_storm_fires g"
  by (auto simp: storm_suppressed_def split: option.splits if_splits)

lemma acquire_frame:
  "acquire_slot t p gl g = (b, g') \<Longrightarrow>
     cg_last_fire g' = cg_last_fire g \<and> cg_storm_fires g' = cg_storm_fires g \<and>
     cg_suppressed_until g' = cg_suppressed_until g"
  by (auto simp: acquire_slot_def split: if_splits)

lemma release_frame [simp]:
  "cg_last_fire (release_slot t g) = cg_last_fire g"
  "cg_storm_fires (release_slot t g) = cg_storm_fires g"
  "cg_suppressed_until (release_slot t g) = cg_suppressed_until g"
  by (simp_all add: release_slot_def Let_def)

lemma counts_eq:
  "cg_in_flight g' = cg_in_flight g \<Longrightarrow> cg_global g' = cg_global g \<Longrightarrow> counts M g' = counts M g"
  by (simp add: counts_def)

lemma failure_admit_counts:
  assumes "counts M g" "failure_admit e c now g = (r, g')"
  shows "case r of Inl _ \<Rightarrow> counts M g'
    | Inr cl \<Rightarrow> fc_done cl = c \<and>
        within_caps (oc_max_concurrent (effective_chain e (cp_task c)), oc_max_concurrent_global (en_defaults e)) (cp_task c) M \<and>
        counts (add_mset (cp_task c) M) g'"
proof (cases r)
  case (Inl x)
  from failure_admit_Inl [OF assms(2) [unfolded Inl]] assms(1) have "counts M g'" by auto
  with Inl show ?thesis by simp
next
  case (Inr cl)
  with assms(2) obtain g1 where g1: "storm_suppressed (storm_scope (cp_task c)) now g = (False, g1)"
    "acquire_slot (cp_task c) (oc_max_concurrent (effective_chain e (cp_task c)))
       (oc_max_concurrent_global (en_defaults e)) g1 = (True, g')" "fc_done cl = c"
    by (auto simp: failure_admit_Inr Let_def)
  have "counts M g1" using storm_suppressed_frame [OF g1(1)] assms(1) counts_eq by metis
  from chain_slot.take [OF this, of "cp_task c" "(oc_max_concurrent (effective_chain e (cp_task c)),
      oc_max_concurrent_global (en_defaults e))"] g1 Inr
  show ?thesis by simp
qed

lemma failure_fire_counts:
  assumes "counts (add_mset (cp_task (fc_done cl)) M) g" "failure_fire e accepts cl g = (r, g')"
  shows "case r of Inl _ \<Rightarrow> counts M g' | Inr f \<Rightarrow> counts (add_mset (cp_task (fc_done cl)) M) g' \<and>
    cf_chain_parent f = cp_task (fc_done cl) \<and> accepts f"
  using assms chain_slot.give [OF assms(1)]
  by (auto simp: failure_fire_def Let_def split: sum.splits if_splits)

text \<open>A failure-chain dispatch is all or nothing. If it fires, every guard agreed: the run failed and was
  no replay, the hop count is one more and within the chain's depth, the scope is not
  suppressed, the last fire for this task is at least the cooldown ago, and both caps had
  room; then exactly one slot is taken and the cooldown restarts now. On every other branch,
  refusals of the engine and unresolved references included, no slot stays taken and neither
  the cooldowns nor the storm windows move.\<close>

lemma failure_chain_is_all_or_nothing:
  "counts M g \<longrightarrow>
   (case fire_failure_chain e accepts c now g of
      (Inl r, g') \<Rightarrow>
        counts M g' \<and> cg_last_fire g' = cg_last_fire g \<and> cg_storm_fires g' = cg_storm_fires g
    | (Inr f, g') \<Rightarrow>
        (let ch = effective_chain e (cp_task c) in
         cp_status c = ''failure'' \<and> en_source e (cp_run c) \<noteq> Some ''replay'' \<and> accepts f \<and>
         cf_depth f = chain_depth e (cp_run c) + 1 \<and> cf_depth f \<le> effective_max_depth ch \<and>
         \<not> fst (storm_suppressed (storm_scope (cp_task c)) now g) \<and>
         (\<forall>t. cg_last_fire g (cp_task c) = Some t \<longrightarrow> effective_cooldown ch \<le> now - t) \<and>
         within_caps (oc_max_concurrent ch, oc_max_concurrent_global (en_defaults e)) (cp_task c) M \<and>
         counts (add_mset (cp_task c) M) g' \<and> cg_last_fire g' = (cg_last_fire g)(cp_task c \<mapsto> now)))"
proof
  assume M: "counts M g"
  obtain r g1 where ad: "failure_admit e c now g = (r, g1)" by (cases "failure_admit e c now g")
  show "case fire_failure_chain e accepts c now g of
      (Inl r, g') \<Rightarrow>
        counts M g' \<and> cg_last_fire g' = cg_last_fire g \<and> cg_storm_fires g' = cg_storm_fires g
    | (Inr f, g') \<Rightarrow>
        (let ch = effective_chain e (cp_task c) in
         cp_status c = ''failure'' \<and> en_source e (cp_run c) \<noteq> Some ''replay'' \<and> accepts f \<and>
         cf_depth f = chain_depth e (cp_run c) + 1 \<and> cf_depth f \<le> effective_max_depth ch \<and>
         \<not> fst (storm_suppressed (storm_scope (cp_task c)) now g) \<and>
         (\<forall>t. cg_last_fire g (cp_task c) = Some t \<longrightarrow> effective_cooldown ch \<le> now - t) \<and>
         within_caps (oc_max_concurrent ch, oc_max_concurrent_global (en_defaults e)) (cp_task c) M \<and>
         counts (add_mset (cp_task c) M) g' \<and> cg_last_fire g' = (cg_last_fire g)(cp_task c \<mapsto> now))"
  proof (cases r)
    case (Inl x)
    have "cg_last_fire g1 = cg_last_fire g \<and> cg_storm_fires g1 = cg_storm_fires g"
      using failure_admit_Inl [OF ad [unfolded Inl]] storm_suppressed_frame [OF surjective_pairing] by metis
    with ad Inl failure_admit_counts [OF M ad] show ?thesis
      by (simp add: fire_failure_chain_def)
  next
    case (Inr cl)
    note cnt = failure_admit_counts [OF M ad, unfolded Inr, simplified]
    from ad [unfolded Inr failure_admit_Inr Let_def] obtain t g0 where
      a: "cp_status c = ''failure''" "en_source e (cp_run c) \<noteq> Some ''replay''"
        "chain_depth e (cp_run c) + 1 \<le> effective_max_depth (effective_chain e (cp_task c))"
        "storm_suppressed (storm_scope (cp_task c)) now g = (False, g0)"
        "\<not> cooldown_active (cp_task c) (effective_cooldown (effective_chain e (cp_task c))) now g0"
        "acquire_slot (cp_task c) (oc_max_concurrent (effective_chain e (cp_task c)))
           (oc_max_concurrent_global (en_defaults e)) g0 = (True, g1)"
      and cl: "cl = \<lparr>fc_done = c, fc_target = t, fc_chain = effective_chain e (cp_task c),
        fc_depth = chain_depth e (cp_run c) + 1, fc_now = now\<rparr>"
      by auto
    have frame: "cg_last_fire g1 = cg_last_fire g" "cg_storm_fires g1 = cg_storm_fires g"
      "cg_last_fire g0 = cg_last_fire g"
      using storm_suppressed_frame [OF a(4)] acquire_frame [OF a(6)] by auto
    have "0 < effective_cooldown (effective_chain e (cp_task c))"
      by (simp add: effective_cooldown_def second_def)
    with a(5) frame(3) have cool: "\<forall>t. cg_last_fire g (cp_task c) = Some t \<longrightarrow>
        effective_cooldown (effective_chain e (cp_task c)) \<le> now - t"
      by (auto simp: cooldown_active_def)
    obtain r' g' where ff: "failure_fire e accepts cl g1 = (r', g')" by (cases "failure_fire e accepts cl g1")
    have cl_done: "fc_done cl = c" by (simp add: cl)
    have fc: "case r' of Inl _ \<Rightarrow> counts M g' | Inr f \<Rightarrow> counts (add_mset (cp_task c) M) g' \<and>
        cf_chain_parent f = cp_task c \<and> accepts f"
      using failure_fire_counts [of cl M g1 e accepts r' g', unfolded cl_done] cnt ff by blast
    have whole: "fire_failure_chain e accepts c now g = (r', g')"
      using ad Inr ff by (simp add: fire_failure_chain_def)
    show ?thesis
    proof (cases r')
      case (Inl y)
      with ff have "cg_last_fire g' = cg_last_fire g1 \<and> cg_storm_fires g' = cg_storm_fires g1"
        by (auto simp: failure_fire_def Let_def split: sum.splits if_splits)
      with whole Inl fc frame show ?thesis by simp
    next
      case (Inr f)
      with ff have "cf_depth f = chain_depth e (cp_run c) + 1 \<and>
          cg_last_fire g' = (cg_last_fire g1)(cp_task c \<mapsto> now)"
        by (auto simp: failure_fire_def cl Let_def observe_chain_fire_def record_chain_fire_def
            split: sum.splits if_splits)
      with whole Inr fc a cool cnt frame show ?thesis by (simp add: Let_def)
    qed
  qed
qed

definition ex_failing :: spec where
  "ex_failing = empty_spec\<lparr>sp_id := ''job'', sp_on_failure_chain := Some (no_failure_chain\<lparr>oc_task := ''fix''\<rparr>)\<rparr>"

definition ex_fix :: spec where
  "ex_fix = empty_spec\<lparr>sp_id := ''fix''\<rparr>"

abbreviation ex_fail_engine :: chain_engine where
  "ex_fail_engine \<equiv> ex_engine [KSpec ex_fix, KSpec ex_failing]"

lemma ex_fail_chain: "effective_chain ex_fail_engine ''job'' = no_failure_chain\<lparr>oc_task := ''fix''\<rparr>"
  by (simp add: effective_chain_def get_spec_def get_kinded_def ex_engine_def ex_failing_def ex_fix_def)

lemma ex_failure_fires:
  "\<exists>f g'. fire_failure_chain ex_fail_engine (\<lambda>_. True) (ex_done ''job'' ''failure'') 5 new_chain_guards = (Inr f, g')"
proof -
  have "get_spec ''fix'' (en_tasks ex_fail_engine) = Some ex_fix"
    by (simp add: get_spec_def get_kinded_def ex_engine_def ex_failing_def ex_fix_def)
  then have "\<exists>cl g'. failure_admit ex_fail_engine (ex_done ''job'' ''failure'') 5 new_chain_guards = (Inr cl, g')"
    unfolding failure_admit_Inr Let_def
    by (simp add: ex_done_def ex_fail_chain storm_suppressed_def new_chain_guards_def cooldown_active_def
        acquire_slot_def or_default_def chain_depth_def effective_max_depth_def no_failure_chain_def)
      (simp add: ex_engine_def)
  then obtain cl g' where cl: "failure_admit ex_fail_engine (ex_done ''job'' ''failure'') 5 new_chain_guards = (Inr cl, g')"
    by blast
  then have "oc_params (fc_chain cl) = []"
    by (auto simp: failure_admit_Inr Let_def ex_done_def ex_fail_chain no_failure_chain_def)
  with cl show ?thesis
    by (simp add: fire_failure_chain_def failure_fire_def Let_def)
qed

lemma failure_chain_is_all_or_nothing_witness:
  "\<exists>f g'. fire_failure_chain ex_fail_engine (\<lambda>_. True) (ex_done ''job'' ''failure'') 5 new_chain_guards = (Inr f, g') \<and>
     cf_depth f = 1 \<and> counts {#''job''#} g'"
proof -
  obtain f g' where f: "fire_failure_chain ex_fail_engine (\<lambda>_. True) (ex_done ''job'' ''failure'') 5 new_chain_guards = (Inr f, g')"
    using ex_failure_fires by blast
  from failure_chain_is_all_or_nothing [where M = "{#}" and g = new_chain_guards and e = ex_fail_engine and
      accepts = "\<lambda>_. True" and c = "ex_done ''job'' ''failure''" and now = 5]
  have "cf_depth f = chain_depth ex_fail_engine (cp_run (ex_done ''job'' ''failure'')) + 1 \<and>
      counts {#cp_task (ex_done ''job'' ''failure'')#} g'"
    unfolding f by (simp add: counts_new Let_def)
  then have "cf_depth f = 1 \<and> counts {#''job''#} g'"
    by (simp add: ex_done_def chain_depth_def) (simp add: ex_engine_def)
  with f show ?thesis by blast
qed

end
