(* ===== verification/ChainSystem.thy ===== *)
theory ChainSystem
  imports FailureChains
begin

text \<open>
  Failure chains under concurrency. Runs complete on goroutines of their own, so the dispatches
  of several completions interleave: the checks of one, the slot of another, the fire of a
  third, the end of a handler. The steps below are the critical sections of \<open>fireFailureChain\<close>
  and of \<open>runHandle.release\<close>; the registry, the depths and the clock may differ at every step.
\<close>

section \<open>Steps\<close>

text \<open>\<open>cs_checked\<close> are the dispatches between their checks and the slot, \<open>cs_claimed\<close> those between
  the slot and the fire, \<open>cs_open\<close> the runs of accepted fires that are not released, \<open>cs_fired\<close>
  the failure fires so far with the task they answer for and their instant, the latest first.\<close>

record chain_sys =
  cs_guards :: chain_guards
  cs_checked :: "failure_claim list"
  cs_claimed :: "failure_claim list"
  cs_open :: "chain_fire list"
  cs_fired :: "(task_id \<times> time) list"

definition chain_init :: chain_sys where
  "chain_init = \<lparr>cs_guards = new_chain_guards, cs_checked = [], cs_claimed = [], cs_open = [], cs_fired = []\<rparr>"

text \<open>\<open>runHandle.release\<close>, as far as the guards go.\<close>

definition release_chain_run :: "chain_fire \<Rightarrow> chain_guards \<Rightarrow> chain_guards" where
  "release_chain_run f g = (if cf_chain_parent f \<noteq> [] then release_slot (cf_chain_parent f) g else g)"

inductive chain_step :: "on_failure_chain_spec \<Rightarrow> chain_sys \<Rightarrow> chain_sys \<Rightarrow> bool" for d where
  suppressed:
    "failure_check e c now (cs_guards s) = (Inl r, g) \<Longrightarrow>
     chain_step d s (s\<lparr>cs_guards := g\<rparr>)"
| checked:
    "failure_check e c now (cs_guards s) = (Inr cl, g) \<Longrightarrow> cp_task c \<noteq> [] \<Longrightarrow>
     chain_step d s (s\<lparr>cs_guards := g, cs_checked := cl # cs_checked s\<rparr>)"
| capped:
    "cs_checked s = xs @ cl # ys \<Longrightarrow> en_defaults e = d \<Longrightarrow> failure_acquire e cl (cs_guards s) = (False, g) \<Longrightarrow>
     chain_step d s (s\<lparr>cs_guards := g, cs_checked := xs @ ys\<rparr>)"
| claimed:
    "cs_checked s = xs @ cl # ys \<Longrightarrow> en_defaults e = d \<Longrightarrow> failure_acquire e cl (cs_guards s) = (True, g) \<Longrightarrow>
     chain_step d s (s\<lparr>cs_guards := g, cs_checked := xs @ ys, cs_claimed := cl # cs_claimed s\<rparr>)"
| refused:
    "cs_claimed s = xs @ cl # ys \<Longrightarrow> failure_fire e accepts cl (cs_guards s) = (Inl r, g) \<Longrightarrow>
     chain_step d s (s\<lparr>cs_guards := g, cs_claimed := xs @ ys\<rparr>)"
| fired:
    "cs_claimed s = xs @ cl # ys \<Longrightarrow> failure_fire e accepts cl (cs_guards s) = (Inr f, g) \<Longrightarrow>
     chain_step d s (s\<lparr>cs_guards := g, cs_claimed := xs @ ys, cs_open := f # cs_open s,
       cs_fired := (cp_task (fc_done cl), fc_now cl) # cs_fired s\<rparr>)"
| edge:
    "f \<in> set (fire_success_chains e c @ fire_pipeline_chains e c) \<Longrightarrow>
     chain_step d s (s\<lparr>cs_open := f # cs_open s\<rparr>)"
| released:
    "cs_open s = xs @ f # ys \<Longrightarrow>
     chain_step d s (s\<lparr>cs_guards := release_chain_run f (cs_guards s), cs_open := xs @ ys\<rparr>)"

inductive_cases chain_stepE: "chain_step d s s'"

inductive chain_reach :: "on_failure_chain_spec \<Rightarrow> chain_sys \<Rightarrow> bool" for d where
  start: "chain_reach d chain_init"
| step: "chain_reach d s \<Longrightarrow> chain_step d s s' \<Longrightarrow> chain_reach d s'"

section \<open>Who holds a slot\<close>

definition claim_task :: "failure_claim \<Rightarrow> task_id" where
  "claim_task cl = cp_task (fc_done cl)"

definition holders :: "chain_sys \<Rightarrow> task_id multiset" where
  "holders s = mset (map claim_task (cs_claimed s)) +
     mset (filter (\<lambda>t. t \<noteq> []) (map cf_chain_parent (cs_open s)))"

definition global_cap :: "on_failure_chain_spec \<Rightarrow> int" where
  "global_cap d = or_default (oc_max_concurrent_global d) 3"

definition chain_inv :: "on_failure_chain_spec \<Rightarrow> chain_sys \<Rightarrow> bool" where
  "chain_inv d s \<longleftrightarrow> counts (holders s) (cs_guards s) \<and> int (size (holders s)) \<le> global_cap d \<and>
     (\<forall>cl \<in> set (cs_checked s) \<union> set (cs_claimed s). claim_task cl \<noteq> [])"

lemma global_cap_pos: "0 < global_cap d"
  by (simp add: global_cap_def or_default_def)

lemma edges_take_no_slot:
  "f \<in> set (fire_success_chains e c @ fire_pipeline_chains e c) \<Longrightarrow> cf_chain_parent f = []"
proof -
  have t: "fire_task_edge e c s = Some f \<Longrightarrow> cf_chain_parent f = []" for s
    by (auto simp: fire_task_edge_def split: option.splits if_splits sum.splits)
  have p: "fire_pipeline_edge e c p = Some f \<Longrightarrow> cf_chain_parent f = []" for p
    by (auto simp: fire_pipeline_edge_def split: option.splits if_splits sum.splits)
  assume "f \<in> set (fire_success_chains e c @ fire_pipeline_chains e c)"
  then show ?thesis
    by (auto simp: set_fire_success_chains set_fire_pipeline_chains dest: t p)
qed

lemma claim_of_check: "failure_check e c now g = (Inr cl, g') \<Longrightarrow> claim_task cl = cp_task c"
  by (auto simp: failure_check_Inr Let_def claim_task_def)

lemma failure_check_counts: "failure_check e c now g = (r, g') \<Longrightarrow> counts M g' = counts M g"
  by (auto dest!: failure_check_guards)

lemma acquire_counts:
  assumes "counts M g" "failure_acquire e cl g = (b, g')"
  shows "if b then counts (add_mset (claim_task cl) M) g' \<and> int (size M) < global_cap (en_defaults e)
    else counts M g'"
proof -
  have a: "acquire_slot (claim_task cl) (fst (oc_max_concurrent (fc_chain cl), oc_max_concurrent_global (en_defaults e)))
      (snd (oc_max_concurrent (fc_chain cl), oc_max_concurrent_global (en_defaults e))) g = (b, g')"
    using assms(2) by (simp add: failure_acquire_def claim_task_def)
  show ?thesis
  proof (cases b)
    case True
    from chain_slot.take [OF assms(1) a [unfolded eqTrueI [OF True]]] True show ?thesis
      by (simp add: within_caps_def global_cap_def)
  next
    case False
    from assms(2) False acquire_fails [of _ _ _ g g'] have "g' = g" by (auto simp: failure_acquire_def)
    with False assms(1) show ?thesis by simp
  qed
qed

lemma chain_inv_step:
  assumes "chain_step d s s'" "chain_inv d s"
  shows "chain_inv d s'"
  using assms
proof cases
  case (fired xs cl ys e accepts f g)
  let ?M = "mset (map claim_task (xs @ ys)) + mset (filter (\<lambda>t. t \<noteq> []) (map cf_chain_parent (cs_open s)))"
  have h: "holders s = add_mset (claim_task cl) ?M"
    using fired(2) by (simp add: holders_def)
  with assms(2) have c: "counts (add_mset (cp_task (fc_done cl)) ?M) (cs_guards s)"
    by (simp add: chain_inv_def claim_task_def)
  have ne: "claim_task cl \<noteq> []" using assms(2) fired(2) by (simp add: chain_inv_def)
  from failure_fire_counts [OF c fired(3)] have p: "cf_chain_parent f = claim_task cl"
    "counts (add_mset (claim_task cl) ?M) g" by (simp_all add: claim_task_def)
  then have "holders s' = holders s" using h fired(1) ne by (simp add: holders_def)
  with p h assms(2) fired(1,2) show ?thesis by (auto simp: chain_inv_def)
next
  case (refused xs cl ys e accepts r g)
  let ?M = "mset (map claim_task (xs @ ys)) + mset (filter (\<lambda>t. t \<noteq> []) (map cf_chain_parent (cs_open s)))"
  have h: "holders s = add_mset (claim_task cl) ?M" "holders s' = ?M"
    using refused(1,2) by (simp_all add: holders_def)
  with assms(2) have c: "counts (add_mset (cp_task (fc_done cl)) ?M) (cs_guards s)"
    by (simp add: chain_inv_def claim_task_def)
  from failure_fire_counts [OF c refused(3)] h assms(2) refused(1,2) show ?thesis
    by (auto simp: chain_inv_def)
next
  case (claimed xs cl ys e g)
  have h: "holders s' = add_mset (claim_task cl) (holders s)"
    using claimed(1,2) by (simp add: holders_def)
  from acquire_counts [OF _ claimed(4)] assms(2) have
    "counts (holders s') g \<and> int (size (holders s)) < global_cap d"
    using claimed(3) h by (fastforce simp: chain_inv_def)
  with h assms(2) claimed(1,2) show ?thesis by (auto simp: chain_inv_def)
next
  case (capped xs cl ys e g)
  have "holders s' = holders s" using capped(1) by (simp add: holders_def)
  moreover from acquire_counts [OF _ capped(4)] assms(2) have "counts (holders s) g"
    by (fastforce simp: chain_inv_def)
  ultimately show ?thesis using assms(2) capped(1,2) by (auto simp: chain_inv_def)
next
  case (released xs f ys)
  show ?thesis
  proof (cases "cf_chain_parent f = []")
    case True
    then have "holders s' = holders s" "cs_guards s' = cs_guards s"
      using released by (simp_all add: holders_def release_chain_run_def)
    with assms(2) released(1) show ?thesis by (auto simp: chain_inv_def)
  next
    case False
    then have "holders s = add_mset (cf_chain_parent f) (holders s')"
      using released by (simp add: holders_def)
    moreover from this assms(2) chain_slot.give have "counts (holders s') (release_slot (cf_chain_parent f) (cs_guards s))"
      by (metis chain_inv_def)
    ultimately show ?thesis using assms(2) released(1) False
      by (auto simp: chain_inv_def release_chain_run_def)
  qed
next
  case (suppressed e c now r g)
  then show ?thesis using assms(2) failure_check_counts [OF suppressed(2)]
    by (simp add: chain_inv_def holders_def)
next
  case (checked e c now cl g)
  then show ?thesis using assms(2) failure_check_counts [OF checked(2)] claim_of_check [OF checked(2)]
    by (simp add: chain_inv_def holders_def)
next
  case (edge f e c)
  then have "holders s' = holders s" using edges_take_no_slot [OF edge(2)] by (simp add: holders_def)
  with assms(2) edge(1) show ?thesis by (simp add: chain_inv_def)
qed

lemma chain_reach_inv: "chain_reach d s \<Longrightarrow> chain_inv d s"
proof (induction rule: chain_reach.induct)
  case start
  then show ?case using counts_new global_cap_pos [of d]
    by (simp add: chain_inv_def chain_init_def holders_def)
next
  case (step s s')
  then show ?case using chain_inv_step by blast
qed

text \<open>C13. Failure handlers never exceed the global cap, however dispatches interleave. In every reachable
  state the counters are exactly the dispatches holding a slot plus the open runs fired by the
  failure chain, task by task and in total; that total never exceeds the configured global cap
  (3 when it is not set); and when nothing is in flight every counter is back at 0, so no
  refusal, cancellation or lost race leaks a slot.\<close>

theorem handlers_within_caps:
  "chain_reach d s \<longrightarrow>
     (\<forall>t. cg_in_flight (cs_guards s) t = count (holders s) t) \<and>
     cg_global (cs_guards s) = size (holders s) \<and>
     int (cg_global (cs_guards s)) \<le> global_cap d \<and>
     int (length (filter (\<lambda>f. cf_chain_parent f \<noteq> []) (cs_open s))) \<le> global_cap d \<and>
     (cs_claimed s = [] \<and> cs_open s = [] \<longrightarrow> cg_in_flight (cs_guards s) = (\<lambda>_. 0) \<and> cg_global (cs_guards s) = 0)"
proof
  assume "chain_reach d s"
  from chain_reach_inv [OF this] have i: "counts (holders s) (cs_guards s)" "int (size (holders s)) \<le> global_cap d"
    by (simp_all add: chain_inv_def)
  have "length (filter (\<lambda>f. cf_chain_parent f \<noteq> []) (cs_open s)) \<le> size (holders s)"
    by (simp add: holders_def filter_map comp_def mset_filter [symmetric] del: mset_filter)
  with i show "(\<forall>t. cg_in_flight (cs_guards s) t = count (holders s) t) \<and>
     cg_global (cs_guards s) = size (holders s) \<and>
     int (cg_global (cs_guards s)) \<le> global_cap d \<and>
     int (length (filter (\<lambda>f. cf_chain_parent f \<noteq> []) (cs_open s))) \<le> global_cap d \<and>
     (cs_claimed s = [] \<and> cs_open s = [] \<longrightarrow> cg_in_flight (cs_guards s) = (\<lambda>_. 0) \<and> cg_global (cs_guards s) = 0)"
    by (auto simp: counts_def holders_def)
qed

lemma ex_handler_reached:
  "\<exists>s f. chain_reach no_failure_chain s \<and> cs_open s = [f] \<and> cs_claimed s = [] \<and> cf_chain_parent f = ''job''"
proof -
  obtain f g3 where "fire_failure_chain ex_fail_engine (\<lambda>_. True) (ex_done ''job'' ''failure'') 5 new_chain_guards = (Inr f, g3)"
    using ex_failure_fires by blast
  then obtain cl g1 g2 where
    ck: "failure_check ex_fail_engine (ex_done ''job'' ''failure'') 5 new_chain_guards = (Inr cl, g1)" and
    ac: "failure_acquire ex_fail_engine cl g1 = (True, g2)" and
    fi: "failure_fire ex_fail_engine (\<lambda>_. True) cl g2 = (Inr f, g3)"
    by (auto simp: fire_failure_chain_def failure_admit_def split: prod.splits sum.splits bool.splits)
  have d: "en_defaults ex_fail_engine = no_failure_chain" by (simp add: ex_engine_def)
  let ?s1 = "chain_init\<lparr>cs_guards := g1, cs_checked := [cl]\<rparr>"
  let ?s2 = "?s1\<lparr>cs_guards := g2, cs_checked := [], cs_claimed := [cl]\<rparr>"
  have "chain_step no_failure_chain chain_init ?s1"
    using chain_step.checked [of ex_fail_engine "ex_done ''job'' ''failure''" 5 chain_init cl g1] ck
    by (simp add: chain_init_def ex_done_def)
  then have r1: "chain_reach no_failure_chain ?s1" by (rule chain_reach.step [OF chain_reach.start])
  have "chain_step no_failure_chain ?s1 ?s2"
    using chain_step.claimed [of ?s1 "[]" cl "[]" ex_fail_engine no_failure_chain g2] ac d
    by (simp add: chain_init_def)
  from chain_reach.step [OF r1 this] have r2: "chain_reach no_failure_chain ?s2" .
  have "chain_step no_failure_chain ?s2 (?s2\<lparr>cs_guards := g3, cs_claimed := [], cs_open := [f],
      cs_fired := [(cp_task (fc_done cl), fc_now cl)]\<rparr>)"
    using chain_step.fired [of ?s2 "[]" cl "[]" ex_fail_engine "\<lambda>_. True" f g3 no_failure_chain] fi
    by (simp add: chain_init_def)
  moreover have "cf_chain_parent f = ''job''"
    using fi claim_of_check [OF ck] by (auto simp: failure_fire_def Let_def claim_task_def ex_done_def
        split: sum.splits if_splits)
  ultimately show ?thesis using chain_reach.step [OF r2] by fastforce
qed

theorem handlers_within_caps_witness:
  "\<exists>s. chain_reach no_failure_chain s \<and> cs_open s \<noteq> [] \<and> cg_in_flight (cs_guards s) ''job'' = 1 \<and>
     cg_global (cs_guards s) = 1"
proof -
  obtain s f where s: "chain_reach no_failure_chain s" "cs_open s = [f]" "cs_claimed s = []"
    "cf_chain_parent f = ''job''" using ex_handler_reached by blast
  with handlers_within_caps [of no_failure_chain s] show ?thesis by (intro exI [of _ s]) (simp add: holders_def)
qed

section \<open>A task's own chain and the breaker\<close>

lemma failure_check_storm:
  "failure_check e c now g = (r, g') \<Longrightarrow> cg_storm_fires g' = cg_storm_fires g \<and>
     (\<forall>sc u. cg_suppressed_until g' sc = Some u \<longrightarrow> cg_suppressed_until g sc = Some u)"
  by (drule failure_check_guards) (auto simp: storm_suppressed_def split: option.splits if_splits)

lemma failure_fire_storm:
  assumes "oc_storm (fc_chain cl) = no_storm" "failure_fire e accepts cl g = (r, g')"
  shows "cg_storm_fires g' = cg_storm_fires g \<and> cg_suppressed_until g' = cg_suppressed_until g"
  using assms
  by (auto simp: failure_fire_def Let_def observe_chain_fire_def record_chain_fire_def no_storm_def
      split: sum.splits if_splits)

lemma storm_free_dispatch:
  assumes "oc_storm (effective_chain e (cp_task c)) = no_storm" "fire_failure_chain e accepts c now g = (r, g')"
  shows "cg_storm_fires g' = cg_storm_fires g \<and>
    (\<forall>sc u. cg_suppressed_until g' sc = Some u \<longrightarrow> cg_suppressed_until g sc = Some u)"
proof -
  obtain r1 g1 where ch: "failure_check e c now g = (r1, g1)" by (cases "failure_check e c now g")
  note st = failure_check_storm [OF ch]
  show ?thesis
  proof (cases r1)
    case (Inl x)
    with ch assms(2) st show ?thesis by (simp add: fire_failure_chain_def failure_admit_def)
  next
    case (Inr cl)
    obtain b g2 where ac: "failure_acquire e cl g1 = (b, g2)" by (cases "failure_acquire e cl g1")
    from acquire_frame [of "cp_task (fc_done cl)"] ac have
      a: "cg_storm_fires g2 = cg_storm_fires g1" "cg_suppressed_until g2 = cg_suppressed_until g1"
      unfolding failure_acquire_def by blast+
    from ch Inr have "oc_storm (fc_chain cl) = no_storm"
      using assms(1) by (auto simp: failure_check_Inr Let_def)
    from failure_fire_storm [OF this, of e accepts g2] a st ch Inr ac assms(2) show ?thesis
      by (cases b) (auto simp: fire_failure_chain_def failure_admit_def)
  qed
qed

text \<open>A task with a failure chain of its own never moves the storm breaker. Validation strips the
  breaker settings of a task's own chain so that they cannot loosen the operator's, but the
  dispatch reads the breaker from the chain that replaced the default as a whole: its rate is 0
  and the fire is not observed. Whatever breaker the operator configured, failures of such tasks
  add nothing to any window and suppress no scope, in any number.\<close>

lemma own_chain_escapes_storm:
  "validate_spec s0 = Inr (s, ws) \<and> get_spec (cp_task c) (en_tasks e) = Some s \<and>
   sp_on_failure_chain s0 \<noteq> None \<longrightarrow>
     cg_storm_fires (snd (fire_failure_chain e accepts c now g)) = cg_storm_fires g \<and>
     (\<forall>sc t. fst (storm_suppressed sc t (snd (fire_failure_chain e accepts c now g))) \<longrightarrow>
        fst (storm_suppressed sc t g))"
proof
  assume a: "validate_spec s0 = Inr (s, ws) \<and> get_spec (cp_task c) (en_tasks e) = Some s \<and>
   sp_on_failure_chain s0 \<noteq> None"
  then obtain ch where "sp_on_failure_chain s = Some ch" "oc_storm ch = no_storm"
    by (auto simp: validate_spec_Inr validate_failure_chain_Inr)
  with a have "oc_storm (effective_chain e (cp_task c)) = no_storm" by (simp add: effective_chain_def)
  from storm_free_dispatch [OF this surjective_pairing]
  have "cg_storm_fires (snd (fire_failure_chain e accepts c now g)) = cg_storm_fires g"
    "\<And>sc u. cg_suppressed_until (snd (fire_failure_chain e accepts c now g)) sc = Some u \<Longrightarrow>
       cg_suppressed_until g sc = Some u" by blast+
  then show "cg_storm_fires (snd (fire_failure_chain e accepts c now g)) = cg_storm_fires g \<and>
     (\<forall>sc t. fst (storm_suppressed sc t (snd (fire_failure_chain e accepts c now g))) \<longrightarrow>
        fst (storm_suppressed sc t g))"
    by (auto simp: storm_suppressed_def split: option.splits if_splits)
qed

definition ex_job :: spec where
  "ex_job = empty_spec\<lparr>sp_name := ''job'', sp_id := ''job'', sp_trigger := no_trigger\<lparr>tc_manual := True\<rparr>,
     sp_on_failure_chain := Some (no_failure_chain\<lparr>oc_task := ''fix''\<rparr>)\<rparr>"

lemma ex_job_valid: "validate_spec ex_job = Inr (ex_job, [])"
  by (simp add: ex_job_def zero_values validate_spec_def spec_shape_error_def check_chain_trigger_def
      fails_if_def trigger_kinds_def webhook_secret_gated_warnings_def validate_failure_chain_def
      unsatisfiable_param_warnings_def missing_required_params_def container_error_def container_warnings_def)

lemma own_chain_escapes_storm_witness:
  "cg_storm_fires (snd (fire_failure_chain
     ((ex_engine [KSpec ex_fix, KSpec ex_job])\<lparr>en_defaults := no_failure_chain\<lparr>oc_storm :=
        \<lparr>st_rate = 1, st_window = 60 * second, st_suppress = 60 * second, st_scope = []\<rparr>\<rparr>\<rparr>)
     (\<lambda>_. True) (ex_done ''job'' ''failure'') 5 new_chain_guards)) ''job'' = []"
proof -
  let ?e = "(ex_engine [KSpec ex_fix, KSpec ex_job])\<lparr>en_defaults := no_failure_chain\<lparr>oc_storm :=
        \<lparr>st_rate = 1, st_window = 60 * second, st_suppress = 60 * second, st_scope = []\<rparr>\<rparr>\<rparr>"
  have "get_spec (cp_task (ex_done ''job'' ''failure'')) (en_tasks ?e) = Some ex_job"
    by (simp add: get_spec_def get_kinded_def ex_engine_def ex_done_def ex_fix_def ex_job_def)
  moreover have "sp_on_failure_chain ex_job \<noteq> None" by (simp add: ex_job_def)
  ultimately show ?thesis
    using own_chain_escapes_storm [of ex_job ex_job "[]" "ex_done ''job'' ''failure''" ?e] ex_job_valid
    by (simp add: new_chain_guards_def)
qed

section \<open>The cooldown between check and record\<close>

definition ex_twice :: spec where
  "ex_twice = ex_job\<lparr>sp_on_failure_chain := Some (no_failure_chain\<lparr>oc_task := ''fix'', oc_max_concurrent := 2\<rparr>)\<rparr>"

definition ex_twice_engine :: chain_engine where
  "ex_twice_engine = ex_engine [KSpec ex_fix, KSpec ex_twice]"

definition ex_twice_claim :: "run_id \<Rightarrow> time \<Rightarrow> failure_claim" where
  "ex_twice_claim r now = \<lparr>fc_done = (ex_done ''job'' ''failure'')\<lparr>cp_run := r\<rparr>, fc_target = ex_fix,
     fc_chain = no_failure_chain\<lparr>oc_task := ''fix'', oc_max_concurrent := 2\<rparr>, fc_depth = 1, fc_now = now\<rparr>"

lemma ex_twice_chain:
  "effective_chain ex_twice_engine ''job'' = no_failure_chain\<lparr>oc_task := ''fix'', oc_max_concurrent := 2\<rparr>"
  "get_spec ''fix'' (en_tasks ex_twice_engine) = Some ex_fix"
  "en_defaults ex_twice_engine = no_failure_chain" "chain_depth ex_twice_engine r = 0"
  "en_source ex_twice_engine = Map.empty"
  by (simp_all add: effective_chain_def get_spec_def get_kinded_def ex_engine_def ex_twice_engine_def ex_twice_def
      ex_job_def ex_fix_def chain_depth_def)

lemma ex_twice_check:
  "failure_check ex_twice_engine ((ex_done ''job'' ''failure'')\<lparr>cp_run := r\<rparr>) now new_chain_guards =
     (Inr (ex_twice_claim r now), new_chain_guards)"
  unfolding failure_check_Inr Let_def
  by (simp add: ex_twice_chain ex_done_def ex_twice_claim_def effective_max_depth_def no_failure_chain_def
      storm_suppressed_def new_chain_guards_def cooldown_active_def)

abbreviation ex_guards :: "nat \<Rightarrow> chain_guards" where
  "ex_guards n \<equiv> new_chain_guards\<lparr>cg_in_flight := (cg_in_flight new_chain_guards)(''job'' := n), cg_global := n\<rparr>"

lemma ex_twice_acquire:
  "failure_acquire ex_twice_engine (ex_twice_claim r now) new_chain_guards = (True, ex_guards 1)"
  "failure_acquire ex_twice_engine (ex_twice_claim r now) (ex_guards 1) = (True, ex_guards 2)"
  by (simp_all add: failure_acquire_def ex_twice_claim_def acquire_slot_def or_default_def ex_twice_chain
      new_chain_guards_def ex_done_def no_failure_chain_def numeral_2_eq_2)

lemma ex_twice_fire:
  "\<exists>f. failure_fire ex_twice_engine (\<lambda>_. True) (ex_twice_claim r now) g = (Inr f, record_chain_fire ''job'' now g)"
  by (simp add: failure_fire_def Let_def ex_twice_claim_def ex_done_def no_failure_chain_def no_storm_def
      observe_chain_fire_def)

lemma ex_twice_steps:
  "cs_guards s = new_chain_guards \<Longrightarrow>
     chain_step no_failure_chain s (s\<lparr>cs_checked := ex_twice_claim r now # cs_checked s\<rparr>)"
  "cs_checked s = xs @ [ex_twice_claim r now] \<Longrightarrow> failure_acquire ex_twice_engine (ex_twice_claim r now) (cs_guards s) = (True, g) \<Longrightarrow>
     chain_step no_failure_chain s (s\<lparr>cs_guards := g, cs_checked := xs, cs_claimed := ex_twice_claim r now # cs_claimed s\<rparr>)"
  "cs_claimed s = xs @ [ex_twice_claim r now] \<Longrightarrow>
     \<exists>f. chain_step no_failure_chain s (s\<lparr>cs_guards := record_chain_fire ''job'' now (cs_guards s),
       cs_claimed := xs, cs_open := f # cs_open s, cs_fired := (''job'', now) # cs_fired s\<rparr>)"
proof -
  assume "cs_guards s = new_chain_guards"
  moreover from this have "s\<lparr>cs_guards := new_chain_guards, cs_checked := ex_twice_claim r now # cs_checked s\<rparr> =
      s\<lparr>cs_checked := ex_twice_claim r now # cs_checked s\<rparr>" by (cases s) simp
  moreover have "cp_task ((ex_done ''job'' ''failure'')\<lparr>cp_run := r\<rparr>) \<noteq> []" by (simp add: ex_done_def)
  ultimately show "chain_step no_failure_chain s (s\<lparr>cs_checked := ex_twice_claim r now # cs_checked s\<rparr>)"
    using chain_step.checked ex_twice_check [of r now] by metis
next
  assume "cs_checked s = xs @ [ex_twice_claim r now]"
    "failure_acquire ex_twice_engine (ex_twice_claim r now) (cs_guards s) = (True, g)"
  then show "chain_step no_failure_chain s (s\<lparr>cs_guards := g, cs_checked := xs, cs_claimed := ex_twice_claim r now # cs_claimed s\<rparr>)"
    using chain_step.claimed [of s xs _ "[]"] ex_twice_chain(3) by simp
next
  assume c: "cs_claimed s = xs @ [ex_twice_claim r now]"
  obtain f where f: "failure_fire ex_twice_engine (\<lambda>_. True) (ex_twice_claim r now) (cs_guards s) =
      (Inr f, record_chain_fire ''job'' now (cs_guards s))" using ex_twice_fire by blast
  have "cp_task (fc_done (ex_twice_claim r now)) = ''job''" "fc_now (ex_twice_claim r now) = now"
    by (simp_all add: ex_twice_claim_def ex_done_def)
  with chain_step.fired [of s xs "ex_twice_claim r now" "[]", OF _ f, of no_failure_chain] c
  show "\<exists>f. chain_step no_failure_chain s (s\<lparr>cs_guards := record_chain_fire ''job'' now (cs_guards s),
       cs_claimed := xs, cs_open := f # cs_open s, cs_fired := (''job'', now) # cs_fired s\<rparr>)"
    by auto
qed

text \<open>The cooldown is checked before the slot and recorded after the fire, each under the lock on
  its own, so with \<open>max_concurrent: 2\<close> it does not separate fires: two failures of one task that
  are both checked before either is recorded both fire, one nanosecond apart under a cooldown of
  ten minutes.\<close>

lemma cooldown_is_not_atomic:
  "\<exists>s. chain_reach no_failure_chain s \<and> cs_fired s = [(''job'', 6), (''job'', 5)] \<and>
     6 - 5 < effective_cooldown (effective_chain ex_twice_engine ''job'') \<and> length (cs_open s) = 2"
proof -
  let ?a = "ex_twice_claim ''r1'' 5" and ?b = "ex_twice_claim ''r2'' 6" and ?d = no_failure_chain
  let ?s1 = "chain_init\<lparr>cs_checked := [?a]\<rparr>"
  let ?s2 = "chain_init\<lparr>cs_checked := [?b, ?a]\<rparr>"
  let ?s3 = "chain_init\<lparr>cs_guards := ex_guards 1, cs_checked := [?b], cs_claimed := [?a]\<rparr>"
  let ?s4 = "chain_init\<lparr>cs_guards := ex_guards 2, cs_claimed := [?b, ?a]\<rparr>"
  have "chain_reach ?d ?s1"
    using chain_reach.step [OF chain_reach.start ex_twice_steps(1) [of chain_init "''r1''" 5]]
    by (simp add: chain_init_def)
  from chain_reach.step [OF this ex_twice_steps(1) [of ?s1 "''r2''" 6]] have "chain_reach ?d ?s2"
    by (simp add: chain_init_def)
  from chain_reach.step [OF this ex_twice_steps(2) [of ?s2 "[?b]" "''r1''" 5 "ex_guards 1"]]
  have "chain_reach ?d ?s3" by (simp add: chain_init_def ex_twice_acquire)
  from chain_reach.step [OF this ex_twice_steps(2) [of ?s3 "[]" "''r2''" 6 "ex_guards 2"]]
  have r4: "chain_reach ?d ?s4" by (simp add: chain_init_def ex_twice_acquire [unfolded One_nat_def])
  from ex_twice_steps(3) [of ?s4 "[?b]" "''r1''" 5] obtain f where
    s5: "chain_step ?d ?s4 (?s4\<lparr>cs_guards := record_chain_fire ''job'' 5 (cs_guards ?s4), cs_claimed := [?b],
      cs_open := f # cs_open ?s4, cs_fired := (''job'', 5) # cs_fired ?s4\<rparr>)" (is "chain_step ?d ?s4 ?s5") by auto
  from ex_twice_steps(3) [of ?s5 "[]" "''r2''" 6] obtain f' where
    "chain_step ?d ?s5 (?s5\<lparr>cs_guards := record_chain_fire ''job'' 6 (cs_guards ?s5), cs_claimed := [],
      cs_open := f' # cs_open ?s5, cs_fired := (''job'', 6) # cs_fired ?s5\<rparr>)" (is "chain_step ?d ?s5 ?s6") by auto
  from chain_reach.step [OF chain_reach.step [OF r4 s5] this] show ?thesis
    by (intro exI [of _ ?s6])
      (simp add: chain_init_def ex_twice_chain effective_cooldown_def no_failure_chain_def second_def)
qed

end
