(* ===== verification/PipelineSpec.thy ===== *)
theory PipelineSpec
  imports SpecValidate
begin

text \<open>
  Load-time validation of a pipeline, \<open>PipelineTask.Validate\<close> of pkg/task/pipeline.go, with its
  three-colour search for cycles of \<open>depends_on\<close>. Validation records its warnings in the struct
  it checks, so it returns the changed pipeline with its error.
\<close>

section \<open>Errors\<close>

datatype pipeline_error =
    BadApiVersion
  | BadKind
  | PipelineNameRequired
  | SubtypeRequired
  | BadSubtype
  | PipelineManyTriggers
  | PipelineAnyNeedsSecret
  | NoStages
  | StageEmpty nat
  | StageSelf nat
  | StageDuplicate nat
  | DependsNotParallel nat
  | DependsUnknown nat task_id
  | StageOverrides nat spec_error
  | ParamsUnavailable nat string
  | StageCycle "task_id list"

definition trigger_count :: "pipeline_trigger \<Rightarrow> nat" where
  "trigger_count t =
     (if pt_manual t then 1 else 0) + (if pt_cron t \<noteq> [] then 1 else 0) +
     (if pt_webhook t \<noteq> [] then 1 else 0) + (if pt_chain t \<noteq> None then 1 else 0)"

text \<open>\<open>inputParamsRefRe.MatchString\<close>.\<close>

fun mentions_params_ref :: "string \<Rightarrow> bool" where
  "mentions_params_ref [] = False"
| "mentions_params_ref (c # s) =
     (case match_ref (c # s) of
        Some (k, f, r) \<Rightarrow> k = RefParams \<and> f \<noteq> [] \<or> mentions_params_ref s
      | None \<Rightarrow> mentions_params_ref s)"

section \<open>Cycles of depends\_on\<close>

datatype colour = White | Gray | Black

definition stage_edges :: "stage list \<Rightarrow> (task_id \<times> task_id list) list" where
  "stage_edges ss = map (\<lambda>s. (sg_task s, sg_depends_on s)) ss"

text \<open>The map \<open>edges\<close>: a later stage of the same task replaces an earlier one.\<close>

definition edges_of :: "(task_id \<times> task_id list) list \<Rightarrow> task_id \<Rightarrow> task_id list" where
  "edges_of es x = (case map_of (rev es) x of None \<Rightarrow> [] | Some ds \<Rightarrow> ds)"

text \<open>The loop of \<open>dfs\<close> over the successors of the node on top of the stack. A cycle is the
  stack from its first occurrence of the node met again.\<close>

function visit :: "(task_id \<times> task_id list) list \<Rightarrow> task_id list \<Rightarrow> task_id list \<Rightarrow>
    (task_id \<Rightarrow> colour) \<Rightarrow> task_id list option \<times> (task_id \<Rightarrow> colour)" where
  "visit es stack [] col = (None, col)"
| "visit es stack (n # ns) col =
     (case col n of
        Gray \<Rightarrow> (Some (dropWhile (\<lambda>x. x \<noteq> n) stack @ [n]), col)
      | Black \<Rightarrow> visit es stack ns col
      | White \<Rightarrow>
          (case visit es (stack @ [n]) (edges_of es n) (col(n := Gray)) of
             (Some p, c) \<Rightarrow> (Some p, c)
           | (None, c) \<Rightarrow> visit es stack ns (c(n := Black))))"
  by pat_completeness auto

lemma visit_colours:
  "visit_dom (es, stack, ns, col) \<Longrightarrow> snd (visit es stack ns col) x = White \<Longrightarrow> col x = White"
proof (induction rule: visit.pinduct)
  case (1 es stack col)
  then show ?case by (simp add: visit.psimps)
next
  case (2 es stack n ns col)
  show ?case
  proof (cases "col n")
    case White
    obtain p c where v: "visit es (stack @ [n]) (edges_of es n) (col(n := Gray)) = (p, c)"
      by (cases "visit es (stack @ [n]) (edges_of es n) (col(n := Gray))")
    have sub: "c x = White \<Longrightarrow> col x = White" if "x \<noteq> n"
      using 2(2) [OF White, unfolded v] that by simp
    show ?thesis
    proof (cases p)
      case None
      have "visit es stack (n # ns) col = visit es stack ns (c(n := Black))"
        using 2(1) v None White by (simp add: visit.psimps)
      with 2(5) 2(3) [OF White v [symmetric] None] have c: "(c(n := Black)) x = White" by metis
      then have "x \<noteq> n" by auto
      with c sub show ?thesis by simp
    qed (use 2 v White sub in \<open>cases "x = n"; simp add: visit.psimps\<close>)
  qed (use 2 in \<open>auto simp: visit.psimps\<close>)
qed

lemma edges_of_outside: "x \<notin> fst ` set es \<Longrightarrow> edges_of es x = []"
  by (metis edges_of_def fst_conv image_set list.set_map map_of_eq_None_iff option.simps(4) set_rev)

termination visit
proof (relation "inv_image (finite_psubset <*lex*> less_than)
    (\<lambda>(es, stack, ns, col). ({x \<in> fst ` set es. col x = White}, length ns))", goal_cases)
  case 1
  then show ?case by auto
next
  case (2 es stack n ns col)
  show ?case
  proof (cases "n \<in> fst ` set es")
    case True
    with 2 have "{x \<in> fst ` set es. (col(n := Gray)) x = White} \<subset> {x \<in> fst ` set es. col x = White}" by auto
    then show ?thesis by (simp add: finite_psubset_def)
  next
    case False
    then have "{x \<in> fst ` set es. (col(n := Gray)) x = White} = {x \<in> fst ` set es. col x = White}" by auto
    with False show ?thesis by (simp add: edges_of_outside)
  qed
next
  case (3 es stack n ns col p c)
  then have "c = snd (visit es (stack @ [n]) (edges_of es n) (col(n := Gray)))" by (metis snd_conv)
  with visit_colours [of es "stack @ [n]" "edges_of es n" "col(n := Gray)"] 3
  have white: "c x = White \<Longrightarrow> (col(n := Gray)) x = White" for x by blast
  have "col x = White" if "(c(n := Black)) x = White" for x
  proof -
    from that have "x \<noteq> n" by auto
    with that white [of x] show ?thesis by simp
  qed
  then have "{x \<in> fst ` set es. (c(n := Black)) x = White} \<subseteq> {x \<in> fst ` set es. col x = White}" by blast
  then have "{x \<in> fst ` set es. (c(n := Black)) x = White} \<subset> {x \<in> fst ` set es. col x = White} \<or>
      {x \<in> fst ` set es. (c(n := Black)) x = White} = {x \<in> fst ` set es. col x = White}" by blast
  then show ?case by (auto simp: finite_psubset_def simp del: fun_upd_apply)
next
  case (4 es stack n ns col)
  then show ?case by simp
qed

fun visit_roots :: "(task_id \<times> task_id list) list \<Rightarrow> task_id list \<Rightarrow> (task_id \<Rightarrow> colour) \<Rightarrow> task_id list option" where
  "visit_roots es [] col = None"
| "visit_roots es (r # rs) col =
     (if col r = White then
        (case visit es [r] (edges_of es r) (col(r := Gray)) of
           (Some p, c) \<Rightarrow> Some p
         | (None, c) \<Rightarrow> visit_roots es rs (c(r := Black)))
      else visit_roots es rs col)"

definition detect_stage_cycle :: "stage list \<Rightarrow> task_id list option" where
  "detect_stage_cycle ss = visit_roots (stage_edges ss) (map sg_task ss) (\<lambda>_. White)"

section \<open>PipelineTask.Validate\<close>

definition check_stage_param :: "string \<Rightarrow> nat \<Rightarrow> stage \<Rightarrow> param_override \<Rightarrow> pipeline_error option" where
  "check_stage_param subtype i st p = checks
     [fails_if (subtype = ''sequential'' \<and> 0 < i \<and> mentions_params_ref (po_default p)) (ParamsUnavailable i (po_name p)),
      fails_if (subtype = ''parallel'' \<and> sg_depends_on st \<noteq> [] \<and> mentions_params_ref (po_default p))
        (ParamsUnavailable i (po_name p))]"

text \<open>One turn of the loop; \<open>seen\<close> already holds the stage itself where dependencies are looked up.\<close>

definition check_stage :: "string \<Rightarrow> task_id \<Rightarrow> nat \<Rightarrow> task_id set \<Rightarrow> stage \<Rightarrow> pipeline_error option" where
  "check_stage subtype pid i seen st = checks
     [fails_if (sg_task st = []) (StageEmpty i),
      fails_if (sg_task st = pid) (StageSelf i),
      fails_if (sg_task st \<in> seen) (StageDuplicate i),
      fails_if (sg_depends_on st \<noteq> [] \<and> subtype \<noteq> ''parallel'') (DependsNotParallel i),
      first_error (\<lambda>d. fails_if (d \<notin> insert (sg_task st) seen) (DependsUnknown i d)) (sg_depends_on st),
      (case sg_overrides st of
         None \<Rightarrow> None
       | Some ov \<Rightarrow> checks
           [map_option (StageOverrides i) (validate_pipeline_stage_overrides (Some ov)),
            first_error (check_stage_param subtype i st) (ov_params ov)])]"

fun check_stages :: "string \<Rightarrow> task_id \<Rightarrow> nat \<Rightarrow> task_id set \<Rightarrow> stage list \<Rightarrow> pipeline_error option" where
  "check_stages subtype pid i seen [] = None"
| "check_stages subtype pid i seen (st # ss) =
     (case check_stage subtype pid i seen st of
        Some e \<Rightarrow> Some e
      | None \<Rightarrow> check_stages subtype pid (Suc i) (insert (sg_task st) seen) ss)"

text \<open>The warnings as they are recorded; the dash is three bytes of UTF-8.\<close>

definition gated_warning_text :: "spec_warning \<Rightarrow> string" where
  "gated_warning_text w =
     (let msg = (\<lambda>f. ''trigger.'' @ f @ '' is set but trigger.webhook_secret is empty '' @
                  [CHR 0xE2, CHR 0x80, CHR 0x94] @ '' the webhook is unauthenticated and '' @ f @ '' has no effect'')
      in if w = ReplayWithoutSecret then msg ''replay_protection'' else msg ''require_timestamp'')"

definition pipeline_head_error :: "pipeline_task \<Rightarrow> pipeline_error option" where
  "pipeline_head_error p =
     (let t = pl_trigger p in checks
       [fails_if (pl_api_version p \<noteq> ''dicode/v1'') BadApiVersion,
        fails_if (pl_kind p \<noteq> ''PipelineTask'') BadKind,
        fails_if (pl_name p = []) PipelineNameRequired,
        fails_if (pl_subtype p = []) SubtypeRequired,
        fails_if (pl_subtype p \<noteq> ''sequential'' \<and> pl_subtype p \<noteq> ''parallel'') BadSubtype,
        fails_if (1 < trigger_count t) PipelineManyTriggers,
        fails_if (pt_webhook_auth t = AuthAny \<and> pt_webhook_secret t = []) PipelineAnyNeedsSecret])"

definition pipeline_stages_error :: "pipeline_task \<Rightarrow> pipeline_error option" where
  "pipeline_stages_error p = checks
     [fails_if (pl_stages p = []) NoStages,
      check_stages (pl_subtype p) (pl_id p) 0 {} (pl_stages p),
      (if pl_subtype p = ''parallel'' then map_option StageCycle (detect_stage_cycle (pl_stages p)) else None)]"

definition validate_pipeline :: "pipeline_task \<Rightarrow> pipeline_error option \<times> pipeline_task" where
  "validate_pipeline p =
     (case pipeline_head_error p of
        Some e \<Rightarrow> (Some e, p)
      | None \<Rightarrow>
          (let t = pl_trigger p;
               p1 = p\<lparr>pl_warnings := pl_warnings p @ map gated_warning_text
                        (webhook_secret_gated_warnings (pt_webhook_secret t) (pt_replay_protection t)
                           (pt_require_timestamp t))\<rparr>
           in (pipeline_stages_error p1, p1)))"

text \<open>\<open>normalizeWebhookAuthFields\<close> on a pipeline, as the loader calls it before \<open>Validate\<close>.\<close>

definition normalize_pipeline_auth :: "pipeline_task \<Rightarrow> pipeline_task" where
  "normalize_pipeline_auth p =
     (let t = pl_trigger p in
      if pt_webhook_auth t \<noteq> AuthAny \<or> webhook_secret_resolved (pt_webhook_secret t) then p
      else p\<lparr>pl_trigger := t\<lparr>pt_webhook_auth := AuthSession, pt_webhook_secret := [],
               pt_replay_protection := None, pt_require_timestamp := None\<rparr>,
             pl_warnings := pl_warnings p @ [webhook_auth_downgrade_warning]\<rparr>)"

section \<open>The search meets a gray node only through a stage that depends on itself\<close>

lemma visit_gray_kept:
  "fst (visit es stack ns col) = None \<Longrightarrow> (snd (visit es stack ns col) x = Gray \<longleftrightarrow> col x = Gray)"
  supply fun_upd_apply [simp del] fun_upd_same [simp] fun_upd_other [simp]
proof (induction es stack ns col rule: visit.induct)
  case (2 es stack n ns col)
  show ?case
  proof (cases "col n")
    case White
    obtain p c where v: "visit es (stack @ [n]) (edges_of es n) (col(n := Gray)) = (p, c)" by fastforce
    with 2(4) White have p: "p = None" by (cases p) auto
    with v White 2(4) have "fst (visit es stack ns (c(n := Black))) = None" by simp
    from 2(2) [OF White v [symmetric] p this]
    have "snd (visit es stack ns (c(n := Black))) x = Gray \<longleftrightarrow> (c(n := Black)) x = Gray" .
    moreover from 2(1) [OF White, unfolded v] p have "c x = Gray \<longleftrightarrow> (col(n := Gray)) x = Gray" by simp
    ultimately show ?thesis using v p White by (cases "x = n") simp_all
  qed (use 2 in simp_all)
qed simp

lemma visit_meets_gray: "n \<in> set ns \<Longrightarrow> col n = Gray \<Longrightarrow> fst (visit es stack ns col) \<noteq> None"
  supply fun_upd_apply [simp del] fun_upd_same [simp] fun_upd_other [simp]
proof (induction es stack ns col rule: visit.induct)
  case (2 es stack m ns col)
  show ?case
  proof (cases "col m")
    case White
    obtain p c where v: "visit es (stack @ [m]) (edges_of es m) (col(m := Gray)) = (p, c)" by fastforce
    show ?thesis
    proof (cases p)
      case None
      from 2(4,5) White have "n \<in> set ns" "n \<noteq> m" by auto
      moreover from visit_gray_kept [of es "stack @ [m]" "edges_of es m" "col(m := Gray)" n] v None 2(5)
        \<open>n \<noteq> m\<close> have "c n = Gray" by simp
      ultimately have "fst (visit es stack ns (c(m := Black))) \<noteq> None"
        using 2(2) [OF White v [symmetric] None] by auto
      with v None White show ?thesis by simp
    qed (use v White in simp)
  qed (use 2 in auto)
qed simp

lemma visit_no_self:
  "fst (visit es stack ns col) = None \<Longrightarrow> col x = White \<Longrightarrow> snd (visit es stack ns col) x \<noteq> White \<Longrightarrow>
     x \<notin> set (edges_of es x)"
  supply fun_upd_apply [simp del] fun_upd_same [simp] fun_upd_other [simp]
proof (induction es stack ns col rule: visit.induct)
  case (2 es stack n ns col)
  show ?case
  proof (cases "col n")
    case White
    obtain p c where v: "visit es (stack @ [n]) (edges_of es n) (col(n := Gray)) = (p, c)" by fastforce
    with 2(4) White have p: "p = None" by (cases p) auto
    show ?thesis
    proof (cases "x = n")
      case True
      with visit_meets_gray [of n "edges_of es n" "col(n := Gray)" es "stack @ [n]"] v p show ?thesis by auto
    next
      case False
      show ?thesis
      proof (cases "c x = White")
        case True
        with 2(2) [OF White v [symmetric] p] 2(4,6) False v p White show ?thesis by simp
      next
        case False
        with 2(1) [OF White, unfolded v] p 2(5) \<open>x \<noteq> n\<close> show ?thesis by simp
      qed
    qed
  qed (use 2 in auto)
qed simp

lemma visit_backward:
  "(\<And>a b. b \<in> set (edges_of es a) \<Longrightarrow> r b < (r a :: nat)) \<Longrightarrow>
   (\<And>n g. n \<in> set ns \<Longrightarrow> col g = Gray \<Longrightarrow> r n < r g) \<Longrightarrow> fst (visit es stack ns col) = None"
  supply fun_upd_apply [simp del] fun_upd_same [simp] fun_upd_other [simp]
proof (induction es stack ns col rule: visit.induct)
  case (2 es stack n ns col)
  show ?case
  proof (cases "col n")
    case White
    obtain p c where v: "visit es (stack @ [n]) (edges_of es n) (col(n := Gray)) = (p, c)" by fastforce
    have "fst (visit es (stack @ [n]) (edges_of es n) (col(n := Gray))) = None"
    proof (rule 2(1) [OF White 2(4)])
      fix m g assume m: "m \<in> set (edges_of es n)" "(col(n := Gray)) g = Gray"
      show "r m < r g"
      proof (cases "g = n")
        case False
        with m(2) 2(5) [of n g] 2(4) [OF m(1)] show ?thesis by auto
      qed (use 2(4) [OF m(1)] in simp)
    qed
    with v have p: "p = None" by simp
    have "r m < r g" if "m \<in> set ns" "(c(n := Black)) g = Gray" for m g
    proof -
      from that have "g \<noteq> n" by auto
      with that v p visit_gray_kept [of es "stack @ [n]" "edges_of es n" "col(n := Gray)" g]
      show ?thesis using 2(5) [of m g] by simp
    qed
    with 2(2) [OF White v [symmetric] p 2(4)] v p White show ?thesis by simp
  next
    case Gray
    with 2(5) [of n n] show ?thesis by simp
  next
    case Black
    with 2(3) [OF Black 2(4)] 2(5) show ?thesis by simp
  qed
qed simp

lemma visit_roots_backward:
  assumes "\<And>a b. b \<in> set (edges_of es a) \<Longrightarrow> r b < (r a :: nat)"
  shows "\<forall>x. col x \<noteq> Gray \<Longrightarrow> visit_roots es rs col = None"
proof (induction rs arbitrary: col)
  case (Cons a rs)
  show ?case
  proof (cases "col a = White")
    case True
    obtain p c where v: "visit es [a] (edges_of es a) (col(a := Gray)) = (p, c)" by fastforce
    have "fst (visit es [a] (edges_of es a) (col(a := Gray))) = None"
    proof (rule visit_backward [of es r, OF assms])
      fix n g assume n: "n \<in> set (edges_of es a)" "(col(a := Gray)) g = Gray"
      then have "g = a" using Cons.prems by (simp split: if_splits)
      with n assms show "r n < r g" by simp
    qed
    with v have p: "p = None" by simp
    have "\<forall>x. (c(a := Black)) x \<noteq> Gray"
      using visit_gray_kept [of es "[a]" "edges_of es a" "col(a := Gray)"] v p Cons.prems by simp
    from Cons.IH [OF this] v p True show ?thesis by (simp del: fun_upd_apply)
  qed (use Cons in simp)
qed simp

lemma visit_roots_no_self:
  "visit_roots es rs col = None \<Longrightarrow> x \<in> set rs \<Longrightarrow> col x = White \<Longrightarrow> x \<notin> set (edges_of es x)"
proof (induction rs arbitrary: col)
  case (Cons a rs)
  show ?case
  proof (cases "col a = White")
    case True
    obtain p c where v: "visit es [a] (edges_of es a) (col(a := Gray)) = (p, c)" by fastforce
    with Cons.prems(1) True have p: "p = None" by (cases p) auto
    show ?thesis
    proof (cases "x = a")
      case True
      with visit_meets_gray [of a "edges_of es a" "col(a := Gray)" es "[a]"] v p show ?thesis by auto
    next
      case False
      show ?thesis
      proof (cases "c x = White")
        case True
        then have "(c(a := Black)) x = White" using False by simp
        with Cons.IH [of "c(a := Black)"] Cons.prems v p \<open>col a = White\<close> False show ?thesis
          by (simp del: fun_upd_apply)
      next
        case False
        with visit_no_self [of es "[a]" "edges_of es a" "col(a := Gray)" x] v p Cons.prems(3) \<open>x \<noteq> a\<close>
        show ?thesis by simp
      qed
    qed
  qed (use Cons in auto)
qed simp

section \<open>What an accepted pipeline is\<close>

lemma check_stages_None:
  "check_stages sub pid i seen ss = None \<longleftrightarrow>
     (\<forall>k < length ss. check_stage sub pid (i + k) (seen \<union> sg_task ` set (take k ss)) (ss ! k) = None)"
proof (induction ss arbitrary: i seen)
  case (Cons st ss)
  have split: "(\<forall>k < length (st # ss). P k) \<longleftrightarrow> P 0 \<and> (\<forall>k < length ss. P (Suc k))" for P
    by (auto simp: less_Suc_eq_0_disj)
  have "seen \<union> sg_task ` set (take (Suc k) (st # ss)) = insert (sg_task st) seen \<union> sg_task ` set (take k ss)" for k
    by auto
  then show ?case
    unfolding split using Cons.IH [of "Suc i" "insert (sg_task st) seen"]
    by (auto split: option.splits)
qed simp

text \<open>The reference: a stage refers only to stages listed strictly before it.\<close>

definition stage_ok :: "pipeline_task \<Rightarrow> nat \<Rightarrow> bool" where
  "stage_ok p i \<longleftrightarrow>
     (let st = pl_stages p ! i; before = sg_task ` set (take i (pl_stages p)) in
      sg_task st \<noteq> [] \<and> sg_task st \<noteq> pl_id p \<and> sg_task st \<notin> before \<and>
      set (sg_depends_on st) \<subseteq> before \<and> (sg_depends_on st \<noteq> [] \<longrightarrow> pl_subtype p = ''parallel'') \<and>
      (\<forall>ov. sg_overrides st = Some ov \<longrightarrow>
         validate_pipeline_stage_overrides (Some ov) = None \<and>
         ((if pl_subtype p = ''parallel'' then sg_depends_on st \<noteq> [] else 0 < i) \<longrightarrow>
            (\<forall>po \<in> set (ov_params ov). \<not> mentions_params_ref (po_default po)))))"

lemma check_stage_None:
  assumes "pl_subtype p \<in> {''sequential'', ''parallel''}"
  shows "check_stage (pl_subtype p) (pl_id p) i (sg_task ` set (take i (pl_stages p))) (pl_stages p ! i) = None \<and>
     sg_task (pl_stages p ! i) \<notin> set (sg_depends_on (pl_stages p ! i)) \<longleftrightarrow> stage_ok p i"
  using assms
  by (auto simp: check_stage_def stage_ok_def Let_def checks_None first_error_None check_stage_param_def
      split: option.splits)

lemma distinct_by_prefix:
  "(\<forall>i < length xs. f (xs ! i) \<notin> f ` set (take i xs)) \<longleftrightarrow> distinct (map f xs)"
proof (induction xs rule: rev_induct)
  case (snoc x xs)
  have "(\<forall>i < length (xs @ [x]). P i) \<longleftrightarrow> (\<forall>i < length xs. P i) \<and> P (length xs)" for P
    by (auto simp: less_Suc_eq)
  with snoc show ?case by (auto simp: nth_append)
qed simp

lemma edges_of_stage:
  assumes "distinct (map sg_task ss)" "st \<in> set ss"
  shows "edges_of (stage_edges ss) (sg_task st) = sg_depends_on st"
proof -
  have "map_of (rev (stage_edges ss)) (sg_task st) = Some (sg_depends_on st)"
  proof (rule map_of_is_SomeI)
    show "distinct (map fst (rev (stage_edges ss)))"
      using assms(1) by (simp add: stage_edges_def rev_map [symmetric] comp_def)
    show "(sg_task st, sg_depends_on st) \<in> set (rev (stage_edges ss))"
      using assms(2) by (auto simp: stage_edges_def)
  qed
  then show ?thesis by (simp add: edges_of_def)
qed

lemma detect_cycle_iff_self:
  assumes ok: "check_stages sub pid 0 {} ss = None"
  shows "detect_stage_cycle ss \<noteq> None \<longleftrightarrow> (\<exists>st \<in> set ss. sg_task st \<in> set (sg_depends_on st))"
proof
  have each: "check_stage sub pid k (sg_task ` set (take k ss)) (ss ! k) = None" if "k < length ss" for k
    using ok that by (auto simp: check_stages_None)
  then have "\<forall>k < length ss. sg_task (ss ! k) \<notin> sg_task ` set (take k ss)"
    by (simp add: check_stage_def checks_None)
  then have dist: "distinct (map sg_task ss)" using distinct_by_prefix by blast
  show "\<exists>st \<in> set ss. sg_task st \<in> set (sg_depends_on st)" if cyc: "detect_stage_cycle ss \<noteq> None"
  proof (rule ccontr)
    assume ns: "\<not> (\<exists>st \<in> set ss. sg_task st \<in> set (sg_depends_on st))"
    define r where "r t = (LEAST k. k < length ss \<and> sg_task (ss ! k) = t)" for t
    have r: "r (sg_task (ss ! k)) = k" if "k < length ss" for k
    proof -
      have "k' = k" if "k' < length ss" "sg_task (ss ! k') = sg_task (ss ! k)" for k'
        using dist that \<open>k < length ss\<close> nth_eq_iff_index_eq [OF dist, of k' k] by simp
      with that show ?thesis unfolding r_def by (intro Least_equality) auto
    qed
    have "r b < r a" if e: "b \<in> set (edges_of (stage_edges ss) a)" for a b
    proof -
      have "a \<in> fst ` set (stage_edges ss)" using edges_of_outside e by fastforce
      then obtain k where k: "k < length ss" "a = sg_task (ss ! k)"
        by (auto simp: stage_edges_def in_set_conv_nth)
      with e dist have "b \<in> set (sg_depends_on (ss ! k))" by (simp add: edges_of_stage)
      with each [OF k(1)] ns k(1) have "b \<in> sg_task ` set (take k ss)"
        by (auto simp: check_stage_def checks_None first_error_None)
      then obtain j where "j < k" "b = sg_task (ss ! j)" by (auto simp: in_set_conv_nth)
      with k r show ?thesis by simp
    qed
    from visit_roots_backward [OF this, of _ _ "\<lambda>_. White"] cyc show False
      by (simp add: detect_stage_cycle_def)
  qed
  show "detect_stage_cycle ss \<noteq> None" if "\<exists>st \<in> set ss. sg_task st \<in> set (sg_depends_on st)"
  proof
    assume none: "detect_stage_cycle ss = None"
    from that obtain st where st: "st \<in> set ss" "sg_task st \<in> set (sg_depends_on st)" by blast
    with none visit_roots_no_self [of "stage_edges ss" "map sg_task ss" "\<lambda>_. White" "sg_task st"] dist
    show False by (auto simp: detect_stage_cycle_def edges_of_stage)
  qed
qed

lemma accepted_iff:
  "fst (validate_pipeline p) = None \<longleftrightarrow>
     pipeline_head_error p = None \<and> pl_stages p \<noteq> [] \<and> (\<forall>i < length (pl_stages p). stage_ok p i)"
proof (cases "pipeline_head_error p")
  case None
  then have sub: "pl_subtype p \<in> {''sequential'', ''parallel''}"
    by (auto simp: pipeline_head_error_def checks_None Let_def)
  have same: "pipeline_stages_error (p\<lparr>pl_warnings := w\<rparr>) = pipeline_stages_error p" for w
    by (simp add: pipeline_stages_error_def)
  have "fst (validate_pipeline p) = None \<longleftrightarrow> pipeline_stages_error p = None"
    using None by (simp add: validate_pipeline_def Let_def same)
  also have "\<dots> \<longleftrightarrow> pl_stages p \<noteq> [] \<and> check_stages (pl_subtype p) (pl_id p) 0 {} (pl_stages p) = None \<and>
      \<not> (\<exists>st \<in> set (pl_stages p). sg_task st \<in> set (sg_depends_on st))" (is "_ \<longleftrightarrow> ?r")
  proof (cases "pl_subtype p = ''parallel''")
    case True
    then show ?thesis using detect_cycle_iff_self [of "pl_subtype p" "pl_id p" "pl_stages p"]
      by (auto simp: pipeline_stages_error_def checks_None)
  next
    case False
    have "sg_depends_on st = []" if "check_stages (pl_subtype p) (pl_id p) 0 {} (pl_stages p) = None"
      "st \<in> set (pl_stages p)" for st
      using that False by (auto simp: check_stages_None in_set_conv_nth check_stage_def checks_None)
    then show ?thesis using False by (auto simp: pipeline_stages_error_def checks_None)
  qed
  also have "?r \<longleftrightarrow> pl_stages p \<noteq> [] \<and> (\<forall>i < length (pl_stages p). stage_ok p i)"
    unfolding check_stages_None using check_stage_None [OF sub] by (simp add: Ball_def in_set_conv_nth) metis
  finally show ?thesis using None by simp
qed (simp add: validate_pipeline_def)


definition ex_stage :: "task_id \<Rightarrow> task_id list \<Rightarrow> stage" where
  "ex_stage t ds = \<lparr>sg_task = t, sg_depends_on = ds, sg_overrides = None\<rparr>"

definition ex_pipeline :: "string \<Rightarrow> stage list \<Rightarrow> pipeline_task" where
  "ex_pipeline sub ss = empty_pipeline\<lparr>pl_api_version := ''dicode/v1'', pl_kind := ''PipelineTask'',
     pl_name := ''p'', pl_id := ''p'', pl_subtype := sub, pl_stages := ss, pl_enabled := True\<rparr>"


text \<open>The comments call the cycle check unreachable; a stage that depends on itself reaches it.\<close>

lemma self_dependency_is_a_cycle:
  "pipeline_stages_error (empty_pipeline\<lparr>pl_subtype := ''parallel'',
     pl_stages := [\<lparr>sg_task = ''a'', sg_depends_on = [''a''], sg_overrides = None\<rparr>]\<rparr>) =
   Some (StageCycle [''a'', ''a''])"
  by (simp add: pipeline_stages_error_def check_stage_def fails_if_def empty_pipeline_def detect_stage_cycle_def
      stage_edges_def edges_of_def)

text \<open>Unlike \<open>Spec.validate\<close>, the method of a pipeline does not clear the warnings it recorded
  before: every registration and every retry of a deferred pipeline repeats them.\<close>

lemma pipeline_warnings_accumulate:
  assumes "pipeline_head_error p = None"
  defines "w \<equiv> map gated_warning_text (webhook_secret_gated_warnings (pt_webhook_secret (pl_trigger p))
     (pt_replay_protection (pl_trigger p)) (pt_require_timestamp (pl_trigger p)))"
  shows "pl_warnings (((snd \<circ> validate_pipeline) ^^ n) p) = pl_warnings p @ concat (replicate n w)"
proof -
  have step: "snd (validate_pipeline q) = q\<lparr>pl_warnings := pl_warnings q @ map gated_warning_text
      (webhook_secret_gated_warnings (pt_webhook_secret (pl_trigger q))
         (pt_replay_protection (pl_trigger q)) (pt_require_timestamp (pl_trigger q)))\<rparr>"
    if "pipeline_head_error q = None" for q using that by (simp add: validate_pipeline_def Let_def)
  have head: "pipeline_head_error (q\<lparr>pl_warnings := v\<rparr>) = pipeline_head_error q" for q v
    by (simp add: pipeline_head_error_def Let_def)
  have "((snd \<circ> validate_pipeline) ^^ n) p = p\<lparr>pl_warnings := pl_warnings p @ concat (replicate n w)\<rparr>"
  proof (induction n)
    case (Suc n)
    have "concat (replicate n w) @ w = w @ concat (replicate n w)"
      by (induction n) simp_all
    with Suc step [of "p\<lparr>pl_warnings := pl_warnings p @ concat (replicate n w)\<rparr>"] head assms(1)
    show ?case by (simp add: w_def)
  qed simp
  then show ?thesis by simp
qed

end
