(* ===== verification/PipelineRun.thy ===== *)
theory PipelineRun
  imports PipelineSpec ChainDispatch
begin

text \<open>
  One fire of a pipeline, pkg/trigger/pipeline_runner.go: the dispatch of a stage, the sequential
  runner as a function of what the stages' runs do, and the parallel runner as a step relation
  over its stage goroutines. The run of a stage is the engine's (\<open>fireAsync\<close>, \<open>waitRunSettled\<close>): how
  it ends is given from outside. A terminal daemon stage is handed on to the live runner.
\<close>

section \<open>One stage\<close>

datatype stage_error =
    StageMissing
  | StageInput "string \<times> input_unavailable"
  | StageInvalid spec_error
  | StageRefused
  | StageWait
  | StageSuspended
  | StageEnded string

definition set_ov_params :: "param_override list \<Rightarrow> overrides \<Rightarrow> overrides" where
  "set_ov_params ps ov = Overrides (ov_enabled ov) (ov_name ov) (ov_description ov) (ov_trigger ov) ps
     (ov_env ov) (ov_net ov) (ov_fs ov) (ov_timeout ov) (ov_retry ov) (ov_runtime ov) (ov_dicode ov)
     (ov_defaults ov) (ov_entries ov)"

text \<open>\<open>fireStageRaw\<close> up to the fire: the spec it dispatches.\<close>

definition stage_spec :: "kinded list \<Rightarrow> stage \<Rightarrow> input_context \<Rightarrow> stage_error + spec" where
  "stage_spec ks st up =
     (case get_spec (sg_task st) ks of
        None \<Rightarrow> Inl StageMissing
      | Some s \<Rightarrow>
          (case sg_overrides st of
             None \<Rightarrow> Inr s
           | Some ov \<Rightarrow>
               (case resolve_input_output_list up (ov_params ov) of
                  Inl e \<Rightarrow> Inl (StageInput e)
                | Inr ps \<Rightarrow>
                    (case validate_spec (apply_layer (set_ov_params ps ov) s) of
                       Inl e \<Rightarrow> Inl (StageInvalid e)
                     | Inr (t, w) \<Rightarrow> Inr t))))"

text \<open>How the run of a dispatched stage ends: refused by the engine, no result to be had (the
  context was cancelled, or its row is gone), or settled with a status and a return value.\<close>

datatype stage_end = Refused | Unwaitable | Settled string json

definition fire_stage_raw :: "kinded list \<Rightarrow> (spec \<Rightarrow> stage_end) \<Rightarrow> stage \<Rightarrow> input_context \<Rightarrow> stage_error + spec" where
  "fire_stage_raw ks fire st up =
     (case stage_spec ks st up of
        Inl e \<Rightarrow> Inl e
      | Inr s \<Rightarrow> if fire s = Refused then Inl StageRefused else Inr s)"

definition no_input :: input_context where
  "no_input = \<lparr>ic_output = JNull, ic_params = None\<rparr>"

definition await_stage_success :: "stage_end \<Rightarrow> stage_error + input_context" where
  "await_stage_success r =
     (case r of
        Refused \<Rightarrow> Inl StageRefused
      | Unwaitable \<Rightarrow> Inl StageWait
      | Settled status ret \<Rightarrow>
          if status \<noteq> ''success'' then
            (if status = ''suspended'' then Inl StageSuspended else Inl (StageEnded status))
          else Inr \<lparr>ic_output = ret, ic_params = None\<rparr>)"

text \<open>What the runner does to the run of a stage it gives up.\<close>

datatype stage_cleanup = NoCleanup | KillStage | CancelSuspension

definition stage_cleanup :: "stage_end \<Rightarrow> stage_cleanup" where
  "stage_cleanup r =
     (case r of
        Refused \<Rightarrow> NoCleanup
      | Unwaitable \<Rightarrow> KillStage
      | Settled status ret \<Rightarrow> if status = ''suspended'' then CancelSuspension else NoCleanup)"

section \<open>The sequential runner\<close>

text \<open>The world of a run: the registry when stage \<open>i\<close> is dispatched, and how its run ends.\<close>

record stage_world =
  sw_tasks :: "nat \<Rightarrow> kinded list"
  sw_fire :: "nat \<Rightarrow> spec \<Rightarrow> stage_end"

datatype pipeline_end =
    PipelineDone json
  | PipelineFailed nat stage_error
  | PipelineDaemon nat spec input_context

text \<open>The specs dispatched in order, and how the runner ends. \<open>lastRet\<close> is returned where no stage
  is left, which a validated pipeline never reaches.\<close>

fun run_sequential ::
  "stage_world \<Rightarrow> nat \<Rightarrow> input_context \<Rightarrow> json \<Rightarrow> stage list \<Rightarrow> (nat \<times> spec) list \<times> pipeline_end" where
  "run_sequential w i up lastRet [] = ([], PipelineDone lastRet)"
| "run_sequential w i up lastRet (st # ss) =
     (case fire_stage_raw (sw_tasks w i) (sw_fire w i) st up of
        Inl e \<Rightarrow> ([], PipelineFailed i e)
      | Inr s \<Rightarrow>
          if ss = [] \<and> tc_daemon (sp_trigger s) then ([(i, s)], PipelineDaemon i s up)
          else (case await_stage_success (sw_fire w i s) of
                  Inl e \<Rightarrow> ([(i, s)], PipelineFailed i e)
                | Inr out \<Rightarrow>
                    if ss = [] then ([(i, s)], PipelineDone (ic_output out))
                    else apfst (Cons (i, s)) (run_sequential w (Suc i) out (ic_output out) ss)))"

text \<open>\<open>firePipeline\<close>: the input of stage 0. Parameters stand in for a missing input.\<close>

definition pipeline_input :: "json \<Rightarrow> (string \<times> string) list option \<Rightarrow> input_context" where
  "pipeline_input input params =
     \<lparr>ic_output =
        (if input = JNull then
           (case params of
              Some (kv # kvs) \<Rightarrow> JObj (map (\<lambda>(k, v). (k, JStr v)) (kv # kvs))
            | _ \<Rightarrow> JNull)
         else input),
      ic_params = map_option map_of params\<rparr>"

section \<open>The parallel runner\<close>

text \<open>The map \<open>taskIdx\<close>; a task that no stage names reads 0.\<close>

definition task_idx :: "stage list \<Rightarrow> task_id \<Rightarrow> nat" where
  "task_idx ss t = (case map_of (rev (zip (map sg_task ss) [0..<length ss])) t of None \<Rightarrow> 0 | Some i \<Rightarrow> i)"

definition dep_idxs :: "stage list \<Rightarrow> nat \<Rightarrow> nat list" where
  "dep_idxs ss i = map (task_idx ss) (sg_depends_on (ss ! i))"

text \<open>\<open>downstream[j]\<close>: a stage that names a dependency twice occurs twice.\<close>

definition downstream :: "stage list \<Rightarrow> nat \<Rightarrow> nat list" where
  "downstream ss j = concat (map (\<lambda>i. map (\<lambda>_. i) (filter (\<lambda>d. d = j) (dep_idxs ss i))) [0..<length ss])"

text \<open>A stage goroutine: none yet, launched but before its check of the context, dispatched,
  and how it came to an end.\<close>

datatype stage_phase =
    Waiting
  | Launched
  | Dispatched spec input_context
  | Succeeded input_context
  | Failed stage_error
  | Skipped

record par_state =
  ps_phase :: "stage_phase list"
  ps_remaining :: "int list"
  ps_failure :: "(nat \<times> stage_error) option"
  ps_cancelled :: bool

definition stage_output :: "par_state \<Rightarrow> nat \<Rightarrow> input_context" where
  "stage_output s i = (case ps_phase s ! i of Succeeded c \<Rightarrow> c | _ \<Rightarrow> no_input)"

definition merged_outputs :: "(task_id \<times> json) list \<Rightarrow> json" where
  "merged_outputs kvs = JObj (fold (\<lambda>(k, v) m. AList.update k v m) kvs [])"

definition build_upstream :: "stage list \<Rightarrow> input_context \<Rightarrow> par_state \<Rightarrow> nat \<Rightarrow> input_context" where
  "build_upstream ss trig s i =
     (case sg_depends_on (ss ! i) of
        [] \<Rightarrow> trig
      | [d] \<Rightarrow> stage_output s (task_idx ss d)
      | ds \<Rightarrow> \<lparr>ic_output = merged_outputs (map (\<lambda>d. (d, ic_output (stage_output s (task_idx ss d)))) ds),
              ic_params = None\<rparr>)"

definition launch :: "nat \<Rightarrow> stage_phase list \<Rightarrow> stage_phase list" where
  "launch i ph = ph[i := Launched]"

definition par_init :: "stage list \<Rightarrow> par_state" where
  "par_init ss =
     \<lparr>ps_phase = map (\<lambda>st. if sg_depends_on st = [] then Launched else Waiting) ss,
      ps_remaining = map (\<lambda>st. int (length (sg_depends_on st))) ss,
      ps_failure = None, ps_cancelled = False\<rparr>"

text \<open>The loop over \<open>downstream[idx]\<close> after a success.\<close>

definition release_one :: "nat \<Rightarrow> par_state \<Rightarrow> par_state" where
  "release_one d s =
     (let n = ps_remaining s ! d - 1; s1 = s\<lparr>ps_remaining := (ps_remaining s)[d := n]\<rparr> in
      if n = 0 then s1\<lparr>ps_phase := launch d (ps_phase s1)\<rparr> else s1)"

definition stage_success :: "stage list \<Rightarrow> nat \<Rightarrow> input_context \<Rightarrow> par_state \<Rightarrow> par_state" where
  "stage_success ss i out s =
     fold release_one (downstream ss i) (s\<lparr>ps_phase := (ps_phase s)[i := Succeeded out]\<rparr>)"

definition stage_failure :: "nat \<Rightarrow> stage_error \<Rightarrow> par_state \<Rightarrow> par_state" where
  "stage_failure i e s =
     (let s1 = s\<lparr>ps_phase := (ps_phase s)[i := Failed e]\<rparr> in
      if ps_failure s = None then s1\<lparr>ps_failure := Some (i, e), ps_cancelled := True\<rparr> else s1)"

text \<open>One goroutine between two looks at the mutex, or the context cancelled from outside (a kill of
  the parent run, or its timeout). A goroutine that has passed its check of the context
  dispatches even if the context is cancelled meanwhile.\<close>

inductive par_step :: "stage list \<Rightarrow> input_context \<Rightarrow> par_state \<Rightarrow> par_state \<Rightarrow> bool" for ss trig where
  skip: "i < length ss \<Longrightarrow> ps_phase s ! i = Launched \<Longrightarrow> ps_cancelled s \<Longrightarrow>
     par_step ss trig s (s\<lparr>ps_phase := (ps_phase s)[i := Skipped]\<rparr>)"
| dispatch: "i < length ss \<Longrightarrow> ps_phase s ! i = Launched \<Longrightarrow>
     fire_stage_raw ks fire (ss ! i) (build_upstream ss trig s i) = Inr sp \<Longrightarrow>
     par_step ss trig s (s\<lparr>ps_phase := (ps_phase s)[i := Dispatched sp (build_upstream ss trig s i)]\<rparr>)"
| refuse: "i < length ss \<Longrightarrow> ps_phase s ! i = Launched \<Longrightarrow>
     fire_stage_raw ks fire (ss ! i) (build_upstream ss trig s i) = Inl e \<Longrightarrow>
     par_step ss trig s (stage_failure i e s)"
| succeed: "i < length ss \<Longrightarrow> ps_phase s ! i = Dispatched sp up \<Longrightarrow> await_stage_success r = Inr out \<Longrightarrow>
     par_step ss trig s (stage_success ss i out s)"
| fail: "i < length ss \<Longrightarrow> ps_phase s ! i = Dispatched sp up \<Longrightarrow> await_stage_success r = Inl e \<Longrightarrow>
     par_step ss trig s (stage_failure i e s)"
| cancel: "\<not> ps_cancelled s \<Longrightarrow> par_step ss trig s (s\<lparr>ps_cancelled := True\<rparr>)"

inductive par_reach :: "stage list \<Rightarrow> input_context \<Rightarrow> par_state \<Rightarrow> bool" for ss trig where
  start: "par_reach ss trig (par_init ss)"
| step: "par_reach ss trig s \<Longrightarrow> par_step ss trig s s' \<Longrightarrow> par_reach ss trig s'"

text \<open>\<open>wg.Wait()\<close> returns.\<close>

definition quiet :: "par_state \<Rightarrow> bool" where
  "quiet s = list_all (\<lambda>p. case p of Launched \<Rightarrow> False | Dispatched _ _ \<Rightarrow> False | _ \<Rightarrow> True) (ps_phase s)"

definition terminals :: "stage list \<Rightarrow> nat list" where
  "terminals ss =
     filter (\<lambda>i. \<not> list_ex (\<lambda>st. list_ex (\<lambda>d. task_idx ss d = i) (sg_depends_on st)) ss) [0..<length ss]"

definition par_end :: "stage list \<Rightarrow> par_state \<Rightarrow> pipeline_end" where
  "par_end ss s =
     (case ps_failure s of
        Some (i, e) \<Rightarrow> PipelineFailed i e
      | None \<Rightarrow>
          (case terminals ss of
             [i] \<Rightarrow> PipelineDone (ic_output (stage_output s i))
           | is \<Rightarrow> PipelineDone (merged_outputs (map (\<lambda>i. (sg_task (ss ! i), ic_output (stage_output s i))) is))))"

end
