(* ===== verification/PipelineSafety.thy ===== *)
theory PipelineSafety
  imports PipelineRun
begin

text \<open>
  What the two pipeline runners guarantee. The sequential runner is compared with a table of
  outputs, one per stage; the parallel runner is a scheduler on the graph of dependencies,
  with an invariant that ties its counters to the dependencies still missing.
\<close>

section \<open>The sequential runner\<close>

definition threaded :: "input_context \<Rightarrow> json list \<Rightarrow> nat \<Rightarrow> input_context" where
  "threaded trig outs j = (case j of 0 \<Rightarrow> trig | Suc k \<Rightarrow> \<lparr>ic_output = outs ! k, ic_params = None\<rparr>)"

text \<open>Stage \<open>j\<close> is dispatched as \<open>s\<close> on the output of the stage before it, and succeeds with
  output \<open>outs ! j\<close>.\<close>

definition stage_runs :: "stage_world \<Rightarrow> input_context \<Rightarrow> stage list \<Rightarrow> json list \<Rightarrow> nat \<Rightarrow> spec \<Rightarrow> bool" where
  "stage_runs w trig ss outs j s \<longleftrightarrow>
     fire_stage_raw (sw_tasks w j) (sw_fire w j) (ss ! j) (threaded trig outs j) = Inr s \<and>
     await_stage_success (sw_fire w j s) = Inr \<lparr>ic_output = outs ! j, ic_params = None\<rparr>"

lemma await_shape: "await_stage_success r = Inr c \<Longrightarrow> c = \<lparr>ic_output = ic_output c, ic_params = None\<rparr>"
  by (auto simp: await_stage_success_def split: stage_end.splits if_splits)

definition shift_world :: "nat \<Rightarrow> stage_world \<Rightarrow> stage_world" where
  "shift_world n w = \<lparr>sw_tasks = (\<lambda>i. sw_tasks w (n + i)), sw_fire = (\<lambda>i. sw_fire w (n + i))\<rparr>"

text \<open>The prefix of stages that ran, from stage \<open>i\<close> on.\<close>

definition ran_prefix ::
  "stage_world \<Rightarrow> nat \<Rightarrow> input_context \<Rightarrow> stage list \<Rightarrow> json list \<Rightarrow> spec list \<Rightarrow> bool" where
  "ran_prefix w i up ss outs sps \<longleftrightarrow> length sps = length outs \<and> length outs \<le> length ss \<and>
     (\<forall>j < length outs. stage_runs (shift_world i w) up ss outs j (sps ! j) \<and>
        (Suc j = length ss \<longrightarrow> \<not> tc_daemon (sp_trigger (sps ! j))))"

lemma threaded_Cons:
  "threaded up (ov # outs) (Suc j) = threaded \<lparr>ic_output = ov, ic_params = None\<rparr> outs j"
  by (cases j) (simp_all add: threaded_def)

lemma shift_Suc: "sw_tasks (shift_world i w) (Suc j) = sw_tasks (shift_world (Suc i) w) j"
  "sw_fire (shift_world i w) (Suc j) = sw_fire (shift_world (Suc i) w) j"
  by (simp_all add: shift_world_def)

lemma stage_runs_Suc:
  "stage_runs (shift_world i w) up (st # ss) (ov # outs) (Suc j) s \<longleftrightarrow>
     stage_runs (shift_world (Suc i) w) \<lparr>ic_output = ov, ic_params = None\<rparr> ss outs j s"
  by (simp add: stage_runs_def threaded_Cons shift_Suc)

lemma ran_prefix_Cons:
  "ran_prefix w i up (st # ss) (ov # outs) (s # sps) \<longleftrightarrow>
     fire_stage_raw (sw_tasks w i) (sw_fire w i) st up = Inr s \<and>
     await_stage_success (sw_fire w i s) = Inr \<lparr>ic_output = ov, ic_params = None\<rparr> \<and>
     (ss = [] \<longrightarrow> \<not> tc_daemon (sp_trigger s)) \<and>
     ran_prefix w (Suc i) \<lparr>ic_output = ov, ic_params = None\<rparr> ss outs sps"
proof -
  have split: "(\<forall>k < Suc n. P k) \<longleftrightarrow> P 0 \<and> (\<forall>k < n. P (Suc k))" for P and n :: nat
    by (auto simp: less_Suc_eq_0_disj)
  show ?thesis
    unfolding ran_prefix_def list.size add_Suc_right add_0_right split stage_runs_Suc nth_Cons_Suc
    by (auto simp: stage_runs_def shift_world_def threaded_def)
qed

text \<open>The three ways a sequential run ends, told by its prefix of successful stages.\<close>

definition sequential_outcome ::
  "stage_world \<Rightarrow> nat \<Rightarrow> input_context \<Rightarrow> stage list \<Rightarrow> (nat \<times> spec) list \<Rightarrow> pipeline_end \<Rightarrow> bool" where
  "sequential_outcome w i up ss tr r \<longleftrightarrow>
     (\<exists>outs sps. ran_prefix w i up ss outs sps \<and>
        (let k = length outs; inp = threaded up outs k; fired = fire_stage_raw (sw_tasks w (i + k)) (sw_fire w (i + k)) (ss ! k) inp in
         case r of
           PipelineDone ret \<Rightarrow> k = length ss \<and> ret = last outs \<and> tr = enumerate i sps
         | PipelineFailed j e \<Rightarrow> k < length ss \<and> j = i + k \<and>
             (case fired of
                Inl e' \<Rightarrow> e' = e \<and> tr = enumerate i sps
              | Inr s \<Rightarrow> \<not> (Suc k = length ss \<and> tc_daemon (sp_trigger s)) \<and>
                  await_stage_success (sw_fire w j s) = Inl e \<and> tr = enumerate i (sps @ [s]))
         | PipelineDaemon j s up' \<Rightarrow> Suc k = length ss \<and> j = i + k \<and> fired = Inr s \<and> tc_daemon (sp_trigger s) \<and>
             up' = inp \<and> tr = enumerate i (sps @ [s])))"

lemma ran_prefix_Nil [simp]: "ran_prefix w i up ss [] sps \<longleftrightarrow> sps = []"
  by (auto simp: ran_prefix_def)

lemma threaded_0 [simp]: "threaded up outs 0 = up"
  by (simp add: threaded_def)

lemma sequential_outcome_Cons:
  assumes "fire_stage_raw (sw_tasks w i) (sw_fire w i) st up = Inr s"
    "await_stage_success (sw_fire w i s) = Inr \<lparr>ic_output = ov, ic_params = None\<rparr>" "ss \<noteq> []"
    "sequential_outcome w (Suc i) \<lparr>ic_output = ov, ic_params = None\<rparr> ss tr r"
  shows "sequential_outcome w i up (st # ss) ((i, s) # tr) r"
proof -
  from assms(4) obtain outs sps where o: "ran_prefix w (Suc i) \<lparr>ic_output = ov, ic_params = None\<rparr> ss outs sps"
    and r: "let k = length outs; inp = threaded \<lparr>ic_output = ov, ic_params = None\<rparr> outs k;
         fired = fire_stage_raw (sw_tasks w (Suc i + k)) (sw_fire w (Suc i + k)) (ss ! k) inp in
         case r of
           PipelineDone ret \<Rightarrow> k = length ss \<and> ret = last outs \<and> tr = enumerate (Suc i) sps
         | PipelineFailed j e \<Rightarrow> k < length ss \<and> j = Suc i + k \<and>
             (case fired of
                Inl e' \<Rightarrow> e' = e \<and> tr = enumerate (Suc i) sps
              | Inr s \<Rightarrow> \<not> (Suc k = length ss \<and> tc_daemon (sp_trigger s)) \<and>
                  await_stage_success (sw_fire w j s) = Inl e \<and> tr = enumerate (Suc i) (sps @ [s]))
         | PipelineDaemon j s up' \<Rightarrow> Suc k = length ss \<and> j = Suc i + k \<and> fired = Inr s \<and> tc_daemon (sp_trigger s) \<and>
             up' = inp \<and> tr = enumerate (Suc i) (sps @ [s])"
    unfolding sequential_outcome_def by blast
  have "ran_prefix w i up (st # ss) (ov # outs) (s # sps)"
    using o assms(1-3) by (simp add: ran_prefix_Cons)
  moreover have "outs \<noteq> [] \<Longrightarrow> last (ov # outs) = last outs" by simp
  moreover have "outs = [] \<Longrightarrow> length outs \<noteq> length ss" using assms(3) by simp
  ultimately show ?thesis using r unfolding sequential_outcome_def
    by (intro exI [of _ "ov # outs"] exI [of _ "s # sps"])
      (auto simp: threaded_Cons Let_def enumerate_simps split: pipeline_end.splits sum.splits)
qed

lemma run_sequential_outcome:
  "ss \<noteq> [] \<Longrightarrow> sequential_outcome w i up ss (fst (run_sequential w i up lr ss)) (snd (run_sequential w i up lr ss))"
proof (induction ss arbitrary: i up lr)
  case (Cons st ss)
  show ?case
  proof (cases "fire_stage_raw (sw_tasks w i) (sw_fire w i) st up")
    case (Inl e)
    then show ?thesis by (simp add: sequential_outcome_def exI [of _ "[]"])
  next
    case (Inr s)
    show ?thesis
    proof (cases "ss = [] \<and> tc_daemon (sp_trigger s)")
      case True
      with Inr show ?thesis by (simp add: sequential_outcome_def exI [of _ "[]"] enumerate_simps)
    next
      case nd: False
      show ?thesis
      proof (cases "await_stage_success (sw_fire w i s)")
        case (Inl e)
        with Inr nd show ?thesis
          by (auto simp: sequential_outcome_def Let_def enumerate_simps intro!: exI [of _ "[]"])
      next
        case (Inr out)
        note out = await_shape [OF Inr]
        show ?thesis
        proof (cases "ss = []")
          case True
          have "ran_prefix w i up [st] [ic_output out] [s]"
            using \<open>fire_stage_raw _ _ _ _ = Inr s\<close> Inr out nd True by (simp add: ran_prefix_Cons)
          with True nd Inr \<open>fire_stage_raw _ _ _ _ = Inr s\<close> show ?thesis
            by (auto simp: sequential_outcome_def Let_def enumerate_simps
                intro!: exI [of _ "[ic_output out]"] exI [of _ "[s]"])
        next
          case False
          from Inr out have aw: "await_stage_success (sw_fire w i s) = Inr \<lparr>ic_output = ic_output out, ic_params = None\<rparr>"
            by metis
          from Cons.IH [OF False, of "Suc i" out "ic_output out"] out
          have "sequential_outcome w (Suc i) \<lparr>ic_output = ic_output out, ic_params = None\<rparr> ss
              (fst (run_sequential w (Suc i) out (ic_output out) ss))
              (snd (run_sequential w (Suc i) out (ic_output out) ss))" by metis
          from sequential_outcome_Cons [OF \<open>fire_stage_raw _ _ _ _ = Inr s\<close> aw False this]
          show ?thesis using nd False Inr \<open>fire_stage_raw _ _ _ _ = Inr s\<close> by simp
        qed
      qed
    qed
  qed
qed simp

text \<open>C15. A sequential pipeline is a fold over its stages that stops at the first failure. Whatever the
  registry and the runs do, the stages dispatched are a prefix in order; each is dispatched on
  the trigger's input (the first) or on nothing but the output of the stage before it, after
  that stage succeeded; the pipeline succeeds exactly when every stage did, with the last
  output, fails with the first stage that could not be fired or did not succeed, and hands over
  to the live runner exactly when the last stage, overrides applied, is a daemon.\<close>

theorem sequential_pipeline_threads_outputs:
  "ss \<noteq> [] \<longrightarrow>
     sequential_outcome w 0 trig ss (fst (run_sequential w 0 trig JNull ss)) (snd (run_sequential w 0 trig JNull ss))"
  by (simp add: run_sequential_outcome)

definition ex_task :: "task_id \<Rightarrow> spec" where
  "ex_task t = empty_spec\<lparr>sp_id := t, sp_name := t, sp_trigger := no_trigger\<lparr>tc_manual := True\<rparr>\<rparr>"

definition ex_world :: stage_world where
  "ex_world = \<lparr>sw_tasks = (\<lambda>_. [KSpec (ex_task ''a''), KSpec (ex_task ''b'')]),
     sw_fire = (\<lambda>i s. if i = 0 then Settled ''success'' (JStr ''x'') else Settled ''suspended'' JNull)\<rparr>"

theorem sequential_pipeline_threads_outputs_witness:
  "sequential_outcome ex_world 0 no_input [ex_stage ''a'' [], ex_stage ''b'' []]
     [(0, ex_task ''a''), (1, ex_task ''b'')] (PipelineFailed 1 StageSuspended)"
  using sequential_pipeline_threads_outputs [of "[ex_stage ''a'' [], ex_stage ''b'' []]" ex_world no_input]
  by (simp add: ex_world_def ex_stage_def fire_stage_raw_def stage_spec_def get_spec_def get_kinded_def
      ex_task_def await_stage_success_def empty_spec_def no_trigger_def)

section \<open>The dependency graph\<close>

definition backward :: "stage list \<Rightarrow> bool" where
  "backward ss \<longleftrightarrow> (\<forall>i < length ss. \<forall>d \<in> set (dep_idxs ss i). d < i)"

lemma accepted_backward:
  assumes "fst (validate_pipeline p) = None"
  shows "backward (pl_stages p)"
  unfolding backward_def
proof (intro allI impI ballI)
  let ?ss = "pl_stages p"
  note ok = assms [unfolded accepted_iff]
  fix i d assume i: "i < length ?ss" and d: "d \<in> set (dep_idxs ?ss i)"
  from ok have dist: "distinct (map sg_task ?ss)"
    using distinct_by_prefix [of ?ss sg_task] by (auto simp: stage_ok_def Let_def)
  from d obtain t where t: "t \<in> set (sg_depends_on (?ss ! i))" "d = task_idx ?ss t"
    by (auto simp: dep_idxs_def)
  from ok i have "set (sg_depends_on (?ss ! i)) \<subseteq> sg_task ` set (take i ?ss)"
    by (simp add: stage_ok_def Let_def)
  with t(1) have "t \<in> sg_task ` set (take i ?ss)" by blast
  then obtain j where j: "j < i" "t = sg_task (?ss ! j)"
    by (auto simp: in_set_conv_nth)
  have "map_of (rev (zip (map sg_task ?ss) [0..<length ?ss])) t = Some j"
  proof (rule map_of_is_SomeI)
    show "distinct (map fst (rev (zip (map sg_task ?ss) [0..<length ?ss])))"
      using dist by (simp add: rev_map [symmetric])
    show "(t, j) \<in> set (rev (zip (map sg_task ?ss) [0..<length ?ss]))"
      using j i by (auto simp: set_zip intro!: exI [of _ j])
  qed
  with t j show "d < i" by (simp add: task_idx_def)
qed

section \<open>Counters of the parallel runner\<close>

definition succeeded :: "par_state \<Rightarrow> nat \<Rightarrow> bool" where
  "succeeded s j \<longleftrightarrow> (\<exists>c. ps_phase s ! j = Succeeded c)"

definition missing :: "stage list \<Rightarrow> par_state \<Rightarrow> nat \<Rightarrow> nat" where
  "missing ss s i = length (filter (\<lambda>j. \<not> succeeded s j) (dep_idxs ss i))"

definition par_inv :: "stage list \<Rightarrow> input_context \<Rightarrow> par_state \<Rightarrow> bool" where
  "par_inv ss trig s \<longleftrightarrow>
     length (ps_phase s) = length ss \<and> length (ps_remaining s) = length ss \<and>
     (\<forall>i < length ss. ps_remaining s ! i = int (missing ss s i)) \<and>
     (\<forall>i < length ss. ps_phase s ! i = Waiting \<longleftrightarrow> missing ss s i \<noteq> 0) \<and>
     (\<forall>i < length ss. \<forall>sp up. ps_phase s ! i = Dispatched sp up \<longrightarrow> up = build_upstream ss trig s i) \<and>
     (case ps_failure s of
        None \<Rightarrow> \<forall>i < length ss. \<forall>e. ps_phase s ! i \<noteq> Failed e
      | Some (i, e) \<Rightarrow> i < length ss \<and> ps_phase s ! i = Failed e \<and> ps_cancelled s) \<and>
     (\<forall>i < length ss. ps_phase s ! i = Skipped \<longrightarrow> ps_cancelled s)"

lemma count_downstream:
  "i < length ss \<Longrightarrow> count_list (downstream ss j) i = count_list (dep_idxs ss i) j"
proof -
  have rep: "count_list (map (\<lambda>_. k) xs) i = (if k = i then length xs else 0)" for k and xs :: "nat list"
    by (induction xs) auto
  have "count_list (concat (map (\<lambda>i. map (\<lambda>_. i) (filter (\<lambda>d. d = j) (dep_idxs ss i))) ns)) i =
      (if i \<in> set ns then length (filter (\<lambda>d. d = j) (dep_idxs ss i)) else 0)" if "distinct ns" for ns
    using that by (induction ns) (auto simp: rep)
  moreover have "length (filter (\<lambda>d. d = j) xs) = count_list xs j" for xs
    by (induction xs) auto
  moreover assume "i < length ss"
  ultimately show ?thesis by (simp add: downstream_def)
qed

lemma downstream_in_range: "i \<in> set (downstream ss j) \<Longrightarrow> i < length ss"
  by (auto simp: downstream_def)

lemma release_one_fields [simp]:
  "ps_failure (release_one d s) = ps_failure s" "ps_cancelled (release_one d s) = ps_cancelled s"
  "length (ps_phase (release_one d s)) = length (ps_phase s)"
  "length (ps_remaining (release_one d s)) = length (ps_remaining s)"
  by (simp_all add: release_one_def Let_def launch_def)

lemma fold_release_fields [simp]:
  "ps_failure (fold release_one ds s) = ps_failure s" "ps_cancelled (fold release_one ds s) = ps_cancelled s"
  "length (ps_phase (fold release_one ds s)) = length (ps_phase s)"
  "length (ps_remaining (fold release_one ds s)) = length (ps_remaining s)"
  by (induction ds arbitrary: s) simp_all

lemma fold_release:
  assumes "\<forall>d \<in> set ds. d < length (ps_phase s) \<and> d < length (ps_remaining s)"
    "\<forall>d. int (count_list ds d) \<le> ps_remaining s ! d \<or> d \<notin> set ds"
  shows "ps_remaining (fold release_one ds s) ! i = ps_remaining s ! i - int (count_list ds i) \<and>
    ps_phase (fold release_one ds s) ! i =
      (if i \<in> set ds \<and> ps_remaining s ! i = int (count_list ds i) then Launched else ps_phase s ! i)"
  using assms
proof (induction ds arbitrary: s)
  case (Cons d ds)
  let ?s = "release_one d s"
  have len: "d < length (ps_phase s)" "d < length (ps_remaining s)" using Cons.prems(1) by auto
  have rem: "ps_remaining ?s ! k = (if k = d then ps_remaining s ! d - 1 else ps_remaining s ! k)" for k
    using len by (simp add: release_one_def Let_def nth_list_update)
  have ph: "ps_phase ?s ! k = (if k = d \<and> ps_remaining s ! d = 1 then Launched else ps_phase s ! k)" for k
    using len by (auto simp: release_one_def Let_def launch_def nth_list_update)
  have "\<forall>d' \<in> set ds. d' < length (ps_phase ?s) \<and> d' < length (ps_remaining ?s)"
    using Cons.prems(1) by simp
  moreover have "\<forall>k. int (count_list ds k) \<le> ps_remaining ?s ! k \<or> k \<notin> set ds"
  proof
    fix k
    from Cons.prems(2) have "int (count_list (d # ds) k) \<le> ps_remaining s ! k \<or> k \<notin> set (d # ds)" by blast
    then show "int (count_list ds k) \<le> ps_remaining ?s ! k \<or> k \<notin> set ds"
      unfolding rem by (cases "k = d") simp_all
  qed
  ultimately have IH: "ps_remaining (fold release_one ds ?s) ! i = ps_remaining ?s ! i - int (count_list ds i) \<and>
    ps_phase (fold release_one ds ?s) ! i =
      (if i \<in> set ds \<and> ps_remaining ?s ! i = int (count_list ds i) then Launched else ps_phase ?s ! i)"
    by (rule Cons.IH)
  have z: "i \<notin> set ds \<longleftrightarrow> count_list ds i = 0" by (simp add: count_list_0_iff)
  have "int (count_list (d # ds) d) \<le> ps_remaining s ! d" using Cons.prems(2) by (metis list.set_intros(1))
  with IH show ?case using rem ph z by (cases "i = d") auto
qed simp

section \<open>The invariant\<close>

lemma dep_idxs_len: "length (dep_idxs ss i) = length (sg_depends_on (ss ! i))"
  by (simp add: dep_idxs_def)

lemma par_inv_init:
  assumes "backward ss"
  shows "par_inv ss trig (par_init ss)"
proof -
  have un: "\<not> succeeded (par_init ss) j" if "j < length ss" for j
    using that by (simp add: succeeded_def par_init_def)
  have "missing ss (par_init ss) i = length (sg_depends_on (ss ! i))" if "i < length ss" for i
  proof -
    have "\<forall>j \<in> set (dep_idxs ss i). \<not> succeeded (par_init ss) j"
      using that un assms by (metis backward_def order.strict_trans)
    then show ?thesis by (simp add: missing_def dep_idxs_len)
  qed
  then show ?thesis by (auto simp: par_inv_def par_init_def)
qed

text \<open>The phases a goroutine leaves behind: changing one that has not succeeded into one that is
  not a success moves no counter.\<close>

lemma missing_update:
  assumes "\<not> succeeded s i" "\<forall>c. p \<noteq> Succeeded c" "i < length (ps_phase s)"
  shows "missing ss (s\<lparr>ps_phase := (ps_phase s)[i := p]\<rparr>) = missing ss s"
proof -
  have "succeeded (s\<lparr>ps_phase := (ps_phase s)[i := p]\<rparr>) = succeeded s"
    using assms by (auto simp: succeeded_def nth_list_update fun_eq_iff)
  then show ?thesis by (simp add: missing_def fun_eq_iff)
qed

lemma upstream_update:
  assumes "backward ss" "missing ss s k = 0" "k < length ss" "\<not> succeeded s i" "length (ps_phase s) = length ss"
  shows "build_upstream ss trig (s\<lparr>ps_phase := (ps_phase s)[i := p]\<rparr>) k = build_upstream ss trig s k"
proof -
  have "stage_output (s\<lparr>ps_phase := (ps_phase s)[i := p]\<rparr>) (task_idx ss d) = stage_output s (task_idx ss d)"
    if "d \<in> set (sg_depends_on (ss ! k))" for d
  proof -
    have "succeeded s (task_idx ss d)" using assms(2) that
      by (auto simp: missing_def dep_idxs_def filter_empty_conv)
    with assms(4) have "task_idx ss d \<noteq> i" by auto
    then show ?thesis by (simp add: stage_output_def)
  qed
  then show ?thesis by (auto simp: build_upstream_def split: list.splits intro!: arg_cong [where f = merged_outputs])
qed

lemma phase_only:
  assumes "ps_phase s = ps_phase s'"
  shows "missing ss s = missing ss s'" "build_upstream ss trig s = build_upstream ss trig s'"
proof -
  have out: "stage_output s = stage_output s'" and suc: "succeeded s = succeeded s'"
    using assms by (simp_all add: succeeded_def stage_output_def fun_eq_iff)
  show "missing ss s = missing ss s'" by (intro ext) (simp only: missing_def suc)
  show "build_upstream ss trig s = build_upstream ss trig s'" by (intro ext) (simp only: build_upstream_def out)
qed

lemma par_inv_rephase:
  assumes "backward ss" "par_inv ss trig s" "i < length ss" "ps_phase s ! i \<noteq> Waiting" "\<not> succeeded s i"
    "p \<noteq> Waiting" "\<forall>c. p \<noteq> Succeeded c" "\<forall>e. p \<noteq> Failed e" "p = Skipped \<Longrightarrow> ps_cancelled s"
    "\<And>sp up. p = Dispatched sp up \<Longrightarrow> up = build_upstream ss trig s i" "\<forall>e. ps_phase s ! i \<noteq> Failed e"
  shows "par_inv ss trig (s\<lparr>ps_phase := (ps_phase s)[i := p]\<rparr>)" (is "par_inv ss trig ?s")
proof -
  have len: "length (ps_phase s) = length ss" using assms(2) by (simp add: par_inv_def)
  have miss: "missing ss ?s = missing ss s"
    by (rule missing_update) (use assms len in auto)
  have up: "build_upstream ss trig ?s k = build_upstream ss trig s k" if "k < length ss" "missing ss s k = 0" for k
    by (rule upstream_update) (use that assms len in auto)
  have zero: "missing ss s i = 0" using assms(2-4) by (auto simp: par_inv_def)
  show ?thesis
    unfolding par_inv_def miss
  proof (intro conjI allI impI)
    fix k sp up' assume k: "k < length ss" "ps_phase ?s ! k = Dispatched sp up'"
    show "up' = build_upstream ss trig ?s k"
    proof (cases "k = i")
      case True
      with k assms(10) len zero up show ?thesis by simp
    next
      case False
      with k len have "ps_phase s ! k = Dispatched sp up'" by simp
      moreover from this have "missing ss s k = 0" using assms(2) k(1) by (force simp: par_inv_def)
      ultimately show ?thesis using up k(1) assms(2) by (simp add: par_inv_def)
    qed
  next
    show "case ps_failure ?s of
        None \<Rightarrow> \<forall>i < length ss. \<forall>e. ps_phase ?s ! i \<noteq> Failed e
      | Some (i, e) \<Rightarrow> i < length ss \<and> ps_phase ?s ! i = Failed e \<and> ps_cancelled ?s"
    proof (cases "ps_failure s")
      case None
      with assms(2,3,8) len show ?thesis by (simp add: par_inv_def nth_list_update)
    next
      case (Some f)
      obtain a e where f: "f = (a, e)" by (cases f)
      with Some assms(2) have "a < length ss" "ps_phase s ! a = Failed e" "ps_cancelled s"
        by (simp_all add: par_inv_def)
      moreover from this assms(11) have "a \<noteq> i" by metis
      ultimately show ?thesis using Some f by simp
    qed
  qed (use assms(2,3,4,6,9) len zero in \<open>auto simp: par_inv_def nth_list_update split: if_splits\<close>)
qed

lemma par_inv_failure:
  assumes "backward ss" "par_inv ss trig s" "i < length ss" "ps_phase s ! i \<noteq> Waiting" "\<not> succeeded s i"
    "\<forall>e. ps_phase s ! i \<noteq> Failed e"
  shows "par_inv ss trig (stage_failure i e s)"
proof -
  let ?s = "s\<lparr>ps_phase := (ps_phase s)[i := Failed e]\<rparr>"
  have len: "length (ps_phase s) = length ss" using assms(2) by (simp add: par_inv_def)
  have miss: "missing ss ?s = missing ss s"
    by (rule missing_update) (use assms len in auto)
  have up: "build_upstream ss trig ?s k = build_upstream ss trig s k" if "k < length ss" "missing ss s k = 0" for k
    by (rule upstream_update) (use that assms len in auto)
  have ph: "ps_phase (stage_failure i e s) = (ps_phase s)[i := Failed e]"
    "ps_remaining (stage_failure i e s) = ps_remaining s"
    by (simp_all add: stage_failure_def Let_def)
  have miss': "missing ss (stage_failure i e s) = missing ss s"
    using miss phase_only(1) [of "stage_failure i e s" ?s] ph by simp
  have up': "build_upstream ss trig (stage_failure i e s) k = build_upstream ss trig s k"
    if "k < length ss" "missing ss s k = 0" for k
    using up [OF that] phase_only(2) [of "stage_failure i e s" ?s] ph by simp
  have zero: "missing ss s i = 0" using assms(2-4) by (auto simp: par_inv_def)
  show ?thesis
    unfolding par_inv_def miss' ph
  proof (intro conjI allI impI)
    fix k sp up' assume k: "k < length ss" "(ps_phase s)[i := Failed e] ! k = Dispatched sp up'"
    then have "ps_phase s ! k = Dispatched sp up'" "k \<noteq> i" using len by (cases "k = i"; simp)+
    moreover from this have "missing ss s k = 0" using assms(2) k(1) by (force simp: par_inv_def)
    ultimately show "up' = build_upstream ss trig (stage_failure i e s) k"
      using up' k(1) assms(2) by (simp add: par_inv_def)
  next
    show "case ps_failure (stage_failure i e s) of
        None \<Rightarrow> \<forall>k < length ss. \<forall>e'. (ps_phase s)[i := Failed e] ! k \<noteq> Failed e'
      | Some (k, e') \<Rightarrow> k < length ss \<and> (ps_phase s)[i := Failed e] ! k = Failed e' \<and> ps_cancelled (stage_failure i e s)"
      using assms(2,3,6) len
      by (auto simp: par_inv_def stage_failure_def Let_def nth_list_update split: option.splits)
  qed (use assms(2,3,4) len zero in \<open>auto simp: par_inv_def nth_list_update stage_failure_def Let_def split: if_splits\<close>)
qed

lemma upstream_cong:
  assumes "\<forall>d \<in> set (dep_idxs ss k). ps_phase s ! d = ps_phase s' ! d"
  shows "build_upstream ss trig s k = build_upstream ss trig s' k"
proof -
  have "stage_output s (task_idx ss d) = stage_output s' (task_idx ss d)" if "d \<in> set (sg_depends_on (ss ! k))" for d
    using assms that by (simp add: dep_idxs_def stage_output_def)
  then show ?thesis by (auto simp: build_upstream_def split: list.splits intro!: arg_cong [where f = merged_outputs])
qed

lemma filter_one_less:
  "\<not> P i \<Longrightarrow> length (filter (\<lambda>j. \<not> P j) xs) = length (filter (\<lambda>j. \<not> P j \<and> j \<noteq> i) xs) + count_list xs i"
  by (induction xs) auto

lemma success_changes:
  fixes out :: input_context
  assumes "backward ss" "par_inv ss trig s" "i < length ss" "ps_phase s ! i = Dispatched sp up"
    "k < length ss"
  defines "s1 \<equiv> s\<lparr>ps_phase := (ps_phase s)[i := Succeeded out]\<rparr>"
  shows "missing ss s k = missing ss s1 k + count_list (dep_idxs ss k) i"
    "ps_remaining (stage_success ss i out s) ! k = int (missing ss s1 k)"
    "ps_phase (stage_success ss i out s) ! k =
      (if k \<in> set (downstream ss i) \<and> missing ss s1 k = 0 then Launched else ps_phase s1 ! k)"
    "k \<in> set (downstream ss i) \<longleftrightarrow> i \<in> set (dep_idxs ss k)"
    "k \<in> set (downstream ss i) \<Longrightarrow> ps_phase s ! k = Waiting \<and> k \<noteq> i"
proof -
  let ?n = "length ss" and ?s1 = "s\<lparr>ps_phase := (ps_phase s)[i := Succeeded out]\<rparr>"
  let ?s' = "stage_success ss i out s"
  have len: "length (ps_phase s) = ?n" "length (ps_remaining s) = ?n" using assms(2) by (simp_all add: par_inv_def)
  have rem: "ps_remaining s ! k = int (missing ss s k)" if "k < ?n" for k using assms(2) that by (simp add: par_inv_def)
  have wait: "ps_phase s ! k = Waiting \<longleftrightarrow> missing ss s k \<noteq> 0" if "k < ?n" for k
    using assms(2) that by (simp add: par_inv_def)
  have nsucc: "\<not> succeeded s i" using assms(4) by (simp add: succeeded_def)
  have succ1: "succeeded ?s1 j \<longleftrightarrow> succeeded s j \<or> j = i" for j
    using assms(3) len by (auto simp: succeeded_def nth_list_update)
  have miss1: "missing ss s k = missing ss ?s1 k + count_list (dep_idxs ss k) i" for k
    using filter_one_less [of "succeeded s" i "dep_idxs ss k", OF nsucc] by (simp add: missing_def succ1)
  have cnt: "count_list (downstream ss i) k = count_list (dep_idxs ss k) i" if "k < ?n" for k
    using count_downstream [OF that] .
  have range: "\<forall>d \<in> set (downstream ss i). d < length (ps_phase ?s1) \<and> d < length (ps_remaining ?s1)"
    using downstream_in_range len by auto
  have enough: "\<forall>d. int (count_list (downstream ss i) d) \<le> ps_remaining ?s1 ! d \<or> d \<notin> set (downstream ss i)"
    using rem cnt miss1 downstream_in_range by (metis of_nat_mono le_add2 par_state.select_convs(2) par_state.surjective par_state.update_convs(1))
  note fr = fold_release [OF range enough, folded stage_success_def]
  have rem': "ps_remaining ?s' ! k = int (missing ss ?s1 k)" if "k < ?n" for k
    using fr [of k] rem [OF that] cnt [OF that] miss1 [of k] by simp
  have ph': "ps_phase ?s' ! k =
      (if k \<in> set (downstream ss i) \<and> missing ss ?s1 k = 0 then Launched else ps_phase ?s1 ! k)" if "k < ?n" for k
    using fr [of k] rem [OF that] cnt [OF that] miss1 [of k] by auto
  have dn: "k \<in> set (downstream ss i) \<longleftrightarrow> i \<in> set (dep_idxs ss k)" if "k < ?n" for k
    using cnt [OF that] by (metis count_list_0_iff)
  have dn_wait: "ps_phase s ! k = Waiting \<and> k \<noteq> i" if "k < ?n" "k \<in> set (downstream ss i)" for k
  proof -
    have "missing ss s k \<noteq> 0" using dn [OF that(1)] that(2) miss1 [of k] by (metis add_is_0 count_list_0_iff)
    with wait [OF that(1)] assms(4) show ?thesis by auto
  qed
  show "missing ss s k = missing ss s1 k + count_list (dep_idxs ss k) i"
    "ps_remaining (stage_success ss i out s) ! k = int (missing ss s1 k)"
    "ps_phase (stage_success ss i out s) ! k =
      (if k \<in> set (downstream ss i) \<and> missing ss s1 k = 0 then Launched else ps_phase s1 ! k)"
    "k \<in> set (downstream ss i) \<longleftrightarrow> i \<in> set (dep_idxs ss k)"
    "k \<in> set (downstream ss i) \<Longrightarrow> ps_phase s ! k = Waiting \<and> k \<noteq> i"
    using miss1 rem' [OF assms(5)] ph' [OF assms(5)] dn [OF assms(5)] dn_wait [OF assms(5)] by (simp_all add: s1_def)
qed

lemma par_inv_success:
  assumes "backward ss" "par_inv ss trig s" "i < length ss" "ps_phase s ! i = Dispatched sp up"
  shows "par_inv ss trig (stage_success ss i out s)"
proof -
  let ?n = "length ss" and ?s1 = "s\<lparr>ps_phase := (ps_phase s)[i := Succeeded out]\<rparr>"
  let ?s' = "stage_success ss i out s"
  have len: "length (ps_phase s) = ?n" "length (ps_remaining s) = ?n" using assms(2) by (simp_all add: par_inv_def)
  have wait: "ps_phase s ! k = Waiting \<longleftrightarrow> missing ss s k \<noteq> 0" if "k < ?n" for k
    using assms(2) that by (simp add: par_inv_def)
  have nsucc: "\<not> succeeded s i" using assms(4) by (simp add: succeeded_def)
  note ch = success_changes(1-3) [where out = out, OF assms] success_changes(4,5) [OF assms]
  note miss1 = ch(1) and rem' = ch(2) and ph' = ch(3) and dn = ch(4) and dn_wait = ch(5)
  have succ': "succeeded ?s' k \<longleftrightarrow> succeeded ?s1 k" if "k < ?n" for k
    using ph' [OF that] dn_wait [OF that] by (auto simp: succeeded_def)
  have deps: "d < ?n" if "d \<in> set (dep_idxs ss k)" "k < ?n" for d k
    using assms(1) that by (meson backward_def order.strict_trans)
  have miss': "missing ss ?s' k = missing ss ?s1 k" if "k < ?n" for k
    unfolding missing_def using succ' deps that by (intro arg_cong [where f = length] filter_cong) auto
  have len': "length (ps_phase ?s') = ?n" "length (ps_remaining ?s') = ?n"
    using len by (simp_all add: stage_success_def)
  have i0: "missing ss s i = 0" using wait [OF assms(3)] assms(4) by simp
  show ?thesis
    unfolding par_inv_def
  proof (intro conjI allI impI)
    fix k assume k: "k < ?n"
    show "ps_remaining ?s' ! k = int (missing ss ?s' k)" using rem' miss' k by simp
    show "(ps_phase ?s' ! k = Waiting) = (missing ss ?s' k \<noteq> 0)"
    proof (cases "k \<in> set (downstream ss i)")
      case True
      with dn_wait [OF k] ph' [OF k] miss' [OF k] show ?thesis by auto
    next
      case False
      then have "missing ss ?s1 k = missing ss s k" using miss1 [OF k] dn [OF k] by (simp add: count_list_0_iff)
      with False ph' [OF k] miss' [OF k] wait [OF k] i0 len k assms(3) show ?thesis
        by (cases "k = i") simp_all
    qed
    show "ps_cancelled ?s'" if "ps_phase ?s' ! k = Skipped"
    proof -
      from that ph' [OF k] len assms(3) k have "ps_phase s ! k = Skipped" by (auto simp: nth_list_update split: if_splits)
      with assms(2) k show ?thesis by (simp add: par_inv_def stage_success_def)
    qed
    fix sp' up' assume d: "ps_phase ?s' ! k = Dispatched sp' up'"
    with ph' [OF k] len assms(3) k have ks: "ps_phase s ! k = Dispatched sp' up'" "k \<noteq> i"
      by (auto simp: nth_list_update split: if_splits)
    then have "missing ss s k = 0" using wait [OF k] by simp
    then have "\<forall>j \<in> set (dep_idxs ss k). succeeded s j" by (simp add: missing_def filter_empty_conv)
    then have "ps_phase s ! j = ps_phase ?s' ! j" if "j \<in> set (dep_idxs ss k)" for j
    proof -
      have j: "j < ?n" "succeeded s j" using deps that k \<open>\<forall>j \<in> set (dep_idxs ss k). succeeded s j\<close> by auto
      with nsucc have "j \<noteq> i" by auto
      moreover from j dn_wait [OF j(1)] have "j \<notin> set (downstream ss i)" by (auto simp: succeeded_def)
      ultimately show ?thesis using ph' [OF j(1)] by simp
    qed
    then have "build_upstream ss trig s k = build_upstream ss trig ?s' k" by (intro upstream_cong) blast
    with ks assms(2) k show "up' = build_upstream ss trig ?s' k" by (simp add: par_inv_def)
  next
    show "case ps_failure ?s' of None \<Rightarrow> \<forall>k < ?n. \<forall>e. ps_phase ?s' ! k \<noteq> Failed e
      | Some (k, e) \<Rightarrow> k < ?n \<and> ps_phase ?s' ! k = Failed e \<and> ps_cancelled ?s'"
    proof (cases "ps_failure s")
      case None
      have "ps_phase ?s' ! k \<noteq> Failed e" if "k < ?n" for k e
        using ph' [OF that] None assms(2,3) len that by (auto simp: par_inv_def nth_list_update split: if_splits)
      with None show ?thesis by (simp add: stage_success_def)
    next
      case (Some f)
      obtain a e where f: "f = (a, e)" by (cases f)
      with Some assms(2) have a: "a < ?n" "ps_phase s ! a = Failed e" "ps_cancelled s"
        by (simp_all add: par_inv_def)
      from a(2) assms(4) have "a \<noteq> i" by auto
      with a dn_wait [OF a(1)] ph' [OF a(1)] have "ps_phase ?s' ! a = Failed e" by auto
      with a Some f show ?thesis by (simp add: stage_success_def)
    qed
  qed (use len' in simp_all)
qed

lemma par_inv_step:
  assumes "backward ss" "par_inv ss trig s" "par_step ss trig s s'"
  shows "par_inv ss trig s'"
  using assms(3)
proof cases
  case (skip i)
  then show ?thesis using par_inv_rephase [OF assms(1,2), of i Skipped] by (simp add: succeeded_def)
next
  case (dispatch i ks fire sp)
  then show ?thesis
    using par_inv_rephase [OF assms(1,2), of i "Dispatched sp (build_upstream ss trig s i)"]
    by (simp add: succeeded_def)
next
  case (refuse i ks fire e)
  then show ?thesis using par_inv_failure [OF assms(1,2), of i e] by (simp add: succeeded_def)
next
  case (succeed i sp up r out)
  then show ?thesis using par_inv_success [OF assms(1,2)] by simp
next
  case (fail i sp up r e)
  then show ?thesis using par_inv_failure [OF assms(1,2), of i e] by (simp add: succeeded_def)
next
  case cancel
  have "missing ss s' = missing ss s" "build_upstream ss trig s' = build_upstream ss trig s"
    using phase_only [of s' s] cancel by simp_all
  with assms(2) cancel show ?thesis by (auto simp: par_inv_def split: option.splits)
qed

lemma par_reach_inv: "backward ss \<Longrightarrow> par_reach ss trig s \<Longrightarrow> par_inv ss trig s"
proof -
  assume b: "backward ss"
  assume "par_reach ss trig s"
  then show ?thesis by induction (use b par_inv_init par_inv_step in blast)+
qed

section \<open>What the parallel runner guarantees\<close>

text \<open>C16. A stage of a parallel pipeline runs on the results of its dependencies. However the goroutines
  interleave, a stage that has been dispatched has only dependencies that already succeeded,
  and the input it was dispatched with is the trigger's if it has none, the output of the one
  it has, or else the object of their outputs by task, read off their final results.\<close>

theorem stages_wait_for_dependencies:
  "fst (validate_pipeline p) = None \<and> par_reach (pl_stages p) trig s \<and> i < length (pl_stages p) \<and>
   ps_phase s ! i = Dispatched sp up \<longrightarrow>
     (\<forall>d \<in> set (dep_idxs (pl_stages p) i). succeeded s d) \<and> up = build_upstream (pl_stages p) trig s i"
proof
  assume a: "fst (validate_pipeline p) = None \<and> par_reach (pl_stages p) trig s \<and> i < length (pl_stages p) \<and>
   ps_phase s ! i = Dispatched sp up"
  then have inv: "par_inv (pl_stages p) trig s" using par_reach_inv accepted_backward by blast
  with a have "missing (pl_stages p) s i = 0" by (force simp: par_inv_def)
  with inv a show "(\<forall>d \<in> set (dep_idxs (pl_stages p) i). succeeded s d) \<and>
      up = build_upstream (pl_stages p) trig s i"
    by (simp add: par_inv_def missing_def filter_empty_conv)
qed

definition phase_rank :: "stage_phase \<Rightarrow> nat" where
  "phase_rank p = (case p of Waiting \<Rightarrow> 3 | Launched \<Rightarrow> 2 | Dispatched _ _ \<Rightarrow> 1 | _ \<Rightarrow> 0)"

definition par_measure :: "par_state \<Rightarrow> nat" where
  "par_measure s = (\<Sum>k < length (ps_phase s). phase_rank (ps_phase s ! k)) + (if ps_cancelled s then 0 else 1)"

lemma par_measure_less:
  assumes "length (ps_phase s') = length (ps_phase s)" "i < length (ps_phase s)"
    "phase_rank (ps_phase s' ! i) < phase_rank (ps_phase s ! i)"
    "\<And>k. k < length (ps_phase s) \<Longrightarrow> phase_rank (ps_phase s' ! k) \<le> phase_rank (ps_phase s ! k)"
    "ps_cancelled s \<Longrightarrow> ps_cancelled s'"
  shows "par_measure s' < par_measure s"
proof -
  have "(\<Sum>k < length (ps_phase s). phase_rank (ps_phase s' ! k)) < (\<Sum>k < length (ps_phase s). phase_rank (ps_phase s ! k))"
    using assms(2-4) by (intro sum_strict_mono_ex1) auto
  with assms(1,5) show ?thesis by (auto simp: par_measure_def)
qed

lemma rephase_rank:
  assumes "ps_phase s' = (ps_phase s)[i := p]" "i < length (ps_phase s)" "phase_rank p < phase_rank (ps_phase s ! i)"
    "ps_cancelled s \<Longrightarrow> ps_cancelled s'"
  shows "par_measure s' < par_measure s"
  using assms by (intro par_measure_less [of s' s i]) (auto simp: nth_list_update)

lemma par_step_measure:
  assumes "backward ss" "par_inv ss trig s" "par_step ss trig s s'"
  shows "par_measure s' < par_measure s"
proof -
  have len: "length (ps_phase s) = length ss" using assms(2) by (simp add: par_inv_def)
  show ?thesis using assms(3)
  proof cases
    case (skip i)
    then show ?thesis using len by (intro rephase_rank [of s' s i Skipped]) (auto simp: phase_rank_def)
  next
    case (dispatch i ks fire sp)
    then show ?thesis using len
      by (intro rephase_rank [of s' s i "Dispatched sp (build_upstream ss trig s i)"]) (auto simp: phase_rank_def)
  next
    case (refuse i ks fire e)
    then show ?thesis using len
      by (intro rephase_rank [of s' s i "Failed e"]) (auto simp: phase_rank_def stage_failure_def Let_def)
  next
    case (fail i sp up r e)
    then show ?thesis using len
      by (intro rephase_rank [of s' s i "Failed e"]) (auto simp: phase_rank_def stage_failure_def Let_def)
  next
    case (succeed i sp up r out)
    note ch = success_changes(1-3) [where out = out, OF assms(1,2) succeed(2,3)]
      success_changes(4,5) [OF assms(1,2) succeed(2,3)]
    have ph: "ps_phase s' ! k = (if k = i then Succeeded out else if ps_phase s ! k = Waiting \<and> k \<in> set (downstream ss i) \<and>
        ps_phase s' ! k = Launched then Launched else ps_phase s ! k)" if "k < length ss" for k
      using ch(3,5) [OF that] succeed(1,2) len by auto
    show ?thesis
    proof (rule par_measure_less [of s' s i])
      fix k assume "k < length (ps_phase s)"
      with ph [of k] len succeed(3) show "phase_rank (ps_phase s' ! k) \<le> phase_rank (ps_phase s ! k)"
        by (auto simp: phase_rank_def split: if_splits)
    qed (use ph [of i] succeed len in \<open>auto simp: phase_rank_def stage_success_def\<close>)
  next
    case cancel
    then show ?thesis by (simp add: par_measure_def)
  qed
qed

lemma par_steps_bounded:
  assumes "backward ss" "(par_step ss trig ^^ n) (par_init ss) s"
  shows "par_reach ss trig s \<and> n + par_measure s \<le> 3 * length ss + 1"
  using assms(2)
proof (induction n arbitrary: s)
  case 0
  have "phase_rank p \<le> 3" for p by (simp add: phase_rank_def split: stage_phase.splits)
  then have "(\<Sum>k < length ss. phase_rank (ps_phase (par_init ss) ! k)) \<le> (\<Sum>k < length ss. 3)"
    by (intro sum_mono) simp
  moreover have "length (ps_phase (par_init ss)) = length ss" by (simp add: par_init_def)
  ultimately have "par_measure (par_init ss) \<le> 3 * length ss + 1" by (simp add: par_measure_def)
  with 0 show ?case using par_reach.start by auto
next
  case (Suc n)
  then obtain t where t: "(par_step ss trig ^^ n) (par_init ss) t" "par_step ss trig t s" by auto
  from Suc.IH [OF t(1)] have "par_reach ss trig t" "n + par_measure t \<le> 3 * length ss + 1" by auto
  with par_step_measure [OF assms(1) par_reach_inv [OF assms(1)] t(2)] par_reach.step [OF _ t(2)]
  show ?case by fastforce
qed

lemma quiet_iff:
  "quiet s \<longleftrightarrow> (\<forall>i < length (ps_phase s). ps_phase s ! i \<noteq> Launched \<and> (\<forall>sp up. ps_phase s ! i \<noteq> Dispatched sp up))"
proof -
  have "(case p of Launched \<Rightarrow> False | Dispatched _ _ \<Rightarrow> False | _ \<Rightarrow> True) \<longleftrightarrow>
      p \<noteq> Launched \<and> (\<forall>sp up. p \<noteq> Dispatched sp up)" for p
    by (cases p) auto
  then show ?thesis by (simp add: quiet_def list_all_length)
qed

lemma not_quiet_steps:
  assumes "par_inv ss trig s" "\<not> quiet s"
  shows "\<exists>s'. par_step ss trig s s'"
proof -
  have len: "length (ps_phase s) = length ss" using assms(1) by (simp add: par_inv_def)
  with assms(2) obtain i where i: "i < length ss" "ps_phase s ! i = Launched \<or> (\<exists>sp up. ps_phase s ! i = Dispatched sp up)"
    by (auto simp: quiet_iff)
  from i(2) show ?thesis
  proof
    assume l: "ps_phase s ! i = Launched"
    show ?thesis
    proof (cases "fire_stage_raw [] (\<lambda>_. Refused) (ss ! i) (build_upstream ss trig s i)")
      case (Inl e)
      from par_step.refuse [OF i(1) l Inl] show ?thesis by blast
    next
      case (Inr sp)
      from par_step.dispatch [OF i(1) l Inr] show ?thesis by blast
    qed
  next
    assume "\<exists>sp up. ps_phase s ! i = Dispatched sp up"
    then obtain sp up where d: "ps_phase s ! i = Dispatched sp up" by blast
    have "await_stage_success Unwaitable = Inl StageWait" by (simp add: await_stage_success_def)
    from par_step.fail [OF i(1) d this] show ?thesis by blast
  qed
qed

lemma quiet_all_succeed:
  assumes "backward ss" "par_inv ss trig s" "quiet s" "ps_failure s = None" "\<not> ps_cancelled s" "i < length ss"
  shows "succeeded s i"
  using assms(6)
proof (induction i rule: less_induct)
  case (less i)
  have "succeeded s d" if "d \<in> set (dep_idxs ss i)" for d
    using less assms(1) that by (meson backward_def order.strict_trans)
  then have "missing ss s i = 0" by (simp add: missing_def filter_empty_conv)
  with less.prems assms(2-5) show ?case
    by (cases "ps_phase s ! i") (auto simp: par_inv_def quiet_iff succeeded_def)
qed

text \<open>C17. A parallel pipeline that passes validation comes to an end, and its end tells the truth unless
  it is cancelled from outside. Every interleaving stops after at most three steps per stage and
  one cancellation; until every goroutine is done some step is possible, so no stage waits for
  ever; and once all are done, either the failure reported is that of a stage that failed, or
  the context was cancelled, or every stage succeeded. The acyclicity that validation
  establishes is what the last part needs.\<close>

theorem parallel_pipeline_completes:
  "fst (validate_pipeline p) = None \<longrightarrow>
     (\<forall>n s. (par_step (pl_stages p) trig ^^ n) (par_init (pl_stages p)) s \<longrightarrow> n \<le> 3 * length (pl_stages p) + 1) \<and>
     (\<forall>s. par_reach (pl_stages p) trig s \<longrightarrow>
        (quiet s \<or> (\<exists>s'. par_step (pl_stages p) trig s s')) \<and>
        (quiet s \<longrightarrow>
           (case ps_failure s of
              Some (i, e) \<Rightarrow> i < length (pl_stages p) \<and> ps_phase s ! i = Failed e \<and>
                par_end (pl_stages p) s = PipelineFailed i e
            | None \<Rightarrow> ps_cancelled s \<or> (\<forall>i < length (pl_stages p). succeeded s i))))"
proof
  assume "fst (validate_pipeline p) = None"
  then have b: "backward (pl_stages p)" by (rule accepted_backward)
  have "(quiet s \<or> (\<exists>s'. par_step (pl_stages p) trig s s')) \<and>
        (quiet s \<longrightarrow>
           (case ps_failure s of
              Some (i, e) \<Rightarrow> i < length (pl_stages p) \<and> ps_phase s ! i = Failed e \<and>
                par_end (pl_stages p) s = PipelineFailed i e
            | None \<Rightarrow> ps_cancelled s \<or> (\<forall>i < length (pl_stages p). succeeded s i)))"
    if r: "par_reach (pl_stages p) trig s" for s
  proof -
    note inv = par_reach_inv [OF b r]
    have "ps_failure s = None \<Longrightarrow> quiet s \<Longrightarrow> ps_cancelled s \<or> (\<forall>i < length (pl_stages p). succeeded s i)"
      using quiet_all_succeed [OF b inv] by blast
    moreover have "ps_failure s = Some (i, e) \<Longrightarrow> i < length (pl_stages p) \<and> ps_phase s ! i = Failed e \<and>
        par_end (pl_stages p) s = PipelineFailed i e" for i e
      using inv by (simp add: par_inv_def par_end_def)
    ultimately show ?thesis using not_quiet_steps [OF inv] by (auto split: option.splits)
  qed
  with par_steps_bounded [OF b] show "(\<forall>n s. (par_step (pl_stages p) trig ^^ n) (par_init (pl_stages p)) s \<longrightarrow>
        n \<le> 3 * length (pl_stages p) + 1) \<and>
     (\<forall>s. par_reach (pl_stages p) trig s \<longrightarrow>
        (quiet s \<or> (\<exists>s'. par_step (pl_stages p) trig s s')) \<and>
        (quiet s \<longrightarrow>
           (case ps_failure s of
              Some (i, e) \<Rightarrow> i < length (pl_stages p) \<and> ps_phase s ! i = Failed e \<and>
                par_end (pl_stages p) s = PipelineFailed i e
            | None \<Rightarrow> ps_cancelled s \<or> (\<forall>i < length (pl_stages p). succeeded s i))))"
    by fastforce
qed

section \<open>A pipeline of two stages\<close>

definition ex_par :: pipeline_task where
  "ex_par = ex_pipeline ''parallel'' [ex_stage ''a'' [], ex_stage ''b'' [''a'']]"

lemma ex_par_stages: "pl_stages ex_par = [ex_stage ''a'' [], ex_stage ''b'' [''a'']]"
  by (simp add: ex_par_def ex_pipeline_def)

lemma ex_par_accepted: "fst (validate_pipeline ex_par) = None"
  unfolding accepted_iff ex_par_def
  by (simp add: ex_pipeline_def ex_stage_def empty_pipeline_def pipeline_head_error_def fails_if_def
      trigger_count_def no_pipeline_trigger_def stage_ok_def All_less_Suc Let_def)

abbreviation ex_state :: "stage_phase \<Rightarrow> stage_phase \<Rightarrow> int \<Rightarrow> bool \<Rightarrow> par_state" where
  "ex_state p q n c \<equiv> \<lparr>ps_phase = [p, q], ps_remaining = [0, n], ps_failure = None, ps_cancelled = c\<rparr>"

abbreviation ex_out :: input_context where
  "ex_out \<equiv> \<lparr>ic_output = JStr ''x'', ic_params = None\<rparr>"

lemma ex_par_run:
  "par_reach (pl_stages ex_par) trig (ex_state (Dispatched (ex_task ''a'') trig) Waiting 1 False)"
  "par_reach (pl_stages ex_par) trig (ex_state (Succeeded ex_out) Launched 0 False)"
proof -
  let ?ss = "[ex_stage ''a'' [], ex_stage ''b'' [''a'']]"
  have up: "build_upstream ?ss trig s 0 = trig" for s by (simp add: build_upstream_def ex_stage_def)
  have "par_init ?ss = ex_state Launched Waiting 1 False" by (simp add: par_init_def ex_stage_def)
  with par_reach.start [of ?ss trig] have r0: "par_reach ?ss trig (ex_state Launched Waiting 1 False)" by simp
  have "fire_stage_raw [KSpec (ex_task ''a'')] (\<lambda>_. Unwaitable) (?ss ! 0)
      (build_upstream ?ss trig (ex_state Launched Waiting 1 False) 0) = Inr (ex_task ''a'')"
    by (simp add: fire_stage_raw_def stage_spec_def get_spec_def get_kinded_def ex_stage_def ex_task_def)
  from par_reach.step [OF r0 par_step.dispatch [OF _ _ this]] up
  have r1: "par_reach ?ss trig (ex_state (Dispatched (ex_task ''a'') trig) Waiting 1 False)" by simp
  then show "par_reach (pl_stages ex_par) trig (ex_state (Dispatched (ex_task ''a'') trig) Waiting 1 False)"
    by (simp add: ex_par_stages)
  have "await_stage_success (Settled ''success'' (JStr ''x'')) = Inr ex_out" by (simp add: await_stage_success_def)
  from par_reach.step [OF r1 par_step.succeed [OF _ _ this]]
  have "par_reach ?ss trig (stage_success ?ss 0 ex_out (ex_state (Dispatched (ex_task ''a'') trig) Waiting 1 False))"
    by simp
  moreover have "stage_success ?ss 0 ex_out (ex_state (Dispatched (ex_task ''a'') trig) Waiting 1 False) =
      ex_state (Succeeded ex_out) Launched 0 False"
    by (simp add: stage_success_def downstream_def dep_idxs_def task_idx_def ex_stage_def release_one_def launch_def)
  ultimately show "par_reach (pl_stages ex_par) trig (ex_state (Succeeded ex_out) Launched 0 False)"
    by (simp add: ex_par_stages)
qed

theorem stages_wait_for_dependencies_witness:
  "no_input = build_upstream (pl_stages ex_par) no_input (ex_state (Dispatched (ex_task ''a'') no_input) Waiting 1 False) 0"
  using stages_wait_for_dependencies [of ex_par no_input "ex_state (Dispatched (ex_task ''a'') no_input) Waiting 1 False" 0
      "ex_task ''a''" no_input] ex_par_accepted ex_par_run(1) [of no_input]
  by (simp add: ex_par_stages)

theorem parallel_pipeline_completes_witness:
  "\<exists>s'. par_step (pl_stages ex_par) no_input (ex_state (Succeeded ex_out) Launched 0 False) s'"
  using parallel_pipeline_completes [of ex_par no_input] ex_par_accepted ex_par_run(2) [of no_input]
  by (auto simp: quiet_def)

text \<open>C18. A parallel pipeline that is killed, or runs into its timeout, between two stages reports success.
  The goroutine of a stage that finds the context cancelled returns without a word; when no
  stage was in flight nothing recorded a failure, and the pipeline is finished as successful
  with the output of a stage that never ran. The sequential runner fails in the same place.\<close>

theorem killed_parallel_pipeline_succeeds:
  "fst (validate_pipeline ex_par) = None \<and>
   (\<exists>s. par_reach (pl_stages ex_par) trig s \<and> quiet s \<and> ps_cancelled s \<and> ps_phase s ! 1 = Skipped \<and>
      par_end (pl_stages ex_par) s = PipelineDone JNull)"
proof
  let ?ss = "pl_stages ex_par" and ?s = "ex_state (Succeeded ex_out) Skipped 0 True"
  from par_reach.step [OF ex_par_run(2) par_step.cancel]
  have "par_reach ?ss trig (ex_state (Succeeded ex_out) Launched 0 True)" by simp
  from par_reach.step [OF this par_step.skip [of 1]] have "par_reach ?ss trig ?s" by (simp add: ex_par_stages)
  moreover have "quiet ?s" by (simp add: quiet_def)
  moreover have "par_end ?ss ?s = PipelineDone JNull"
    by (simp add: par_end_def terminals_def ex_par_stages ex_stage_def task_idx_def stage_output_def no_input_def)
  ultimately show "\<exists>s. par_reach ?ss trig s \<and> quiet s \<and> ps_cancelled s \<and> ps_phase s ! 1 = Skipped \<and>
      par_end ?ss s = PipelineDone JNull"
    by (intro exI [of _ ?s]) simp
qed (rule ex_par_accepted)

end
