(* ===== verification/EngineRegister.thy ===== *)
theory EngineRegister
  imports PipelineRun
begin

text \<open>
  Registration of triggers: \<open>Register\<close>, \<open>Unregister\<close>, the cron scheduling and the catch-up of
  missed cron runs of pkg/trigger/engine.go, \<open>registerPipeline\<close> with the deferral of pipelines
  whose stages are missing (registerpipeline.go), and the claim and lookup of webhook paths
  (webhook.go). The cron library is its set of entries; when an expression next occurs, or that
  it does not parse, is a parameter. Statements on the \<open>cron_jobs\<close> table succeed. The state of
  standalone daemons is in DaemonLifecycle; here only which tasks are registered as daemons.
\<close>

section \<open>State\<close>

record reg_engine =
  re_tasks :: "kinded list"
  re_armed :: "task_id \<rightharpoonup> nat \<times> string"
  re_entries :: "nat \<rightharpoonup> task_id \<times> string"
  re_next_entry :: nat
  re_rows :: "task_id \<rightharpoonup> string \<times> time"
  re_webhooks :: "string \<rightharpoonup> task_id"
  re_daemons :: "task_id set"
  re_deferred :: "(task_id \<times> pipeline_task) list"

definition reg_init :: reg_engine where
  "reg_init = \<lparr>re_tasks = [], re_armed = Map.empty, re_entries = Map.empty, re_next_entry = 1, re_rows = Map.empty,
     re_webhooks = Map.empty, re_daemons = {}, re_deferred = []\<rparr>"

section \<open>Webhook paths\<close>

definition reserved_oauth_path :: string where
  "reserved_oauth_path = ''/hooks/oauth-complete''"

definition oauth_relay_id :: task_id where
  "oauth_relay_id = ''buildin/auth-relay''"

text \<open>\<open>strings.TrimSuffix(p, "/")\<close>.\<close>

definition trim_slash :: "string \<Rightarrow> string" where
  "trim_slash p = (if p \<noteq> [] \<and> last p = CHR ''/'' then butlast p else p)"

definition register_webhook_path :: "task_id \<Rightarrow> string \<Rightarrow> reg_engine \<Rightarrow> reg_engine" where
  "register_webhook_path tid path e =
     (if path = reserved_oauth_path \<and> tid \<noteq> oauth_relay_id then e
      else (let p = trim_slash path in
        case re_webhooks e p of
          None \<Rightarrow> e\<lparr>re_webhooks := (re_webhooks e)(p \<mapsto> tid)\<rparr>
        | Some t \<Rightarrow> if t \<noteq> tid then e else e\<lparr>re_webhooks := (re_webhooks e)(p \<mapsto> tid)\<rparr>))"

text \<open>\<open>resolveWebhookPath\<close>: the walk over the parents of a path that no hook claims, with the asset
  path below the hook found. \<open>n\<close> bounds the length of the candidate.\<close>

fun parent_hook :: "nat \<Rightarrow> string \<Rightarrow> string \<Rightarrow> (string \<rightharpoonup> task_id) \<Rightarrow> (task_id \<times> string \<times> string) option" where
  "parent_hook 0 path cand hooks = None"
| "parent_hook (Suc n) path cand hooks =
     (case last_index CHR ''/'' cand of
        None \<Rightarrow> None
      | Some i \<Rightarrow>
          if i = 0 then None
          else (let c = take i cand in
            case hooks c of
              Some t \<Rightarrow> Some (t, c, drop (Suc i) path)
            | None \<Rightarrow> parent_hook n path c hooks))"

definition resolve_webhook_path :: "string \<Rightarrow> reg_engine \<Rightarrow> (task_id \<times> string \<times> string) option" where
  "resolve_webhook_path path e =
     (case re_webhooks e path of
        Some t \<Rightarrow> Some (t, path, [])
      | None \<Rightarrow> parent_hook (length path) path path (re_webhooks e))"

section \<open>Cron entries\<close>

text \<open>\<open>scheduleCron\<close>, with the next occurrence of an expression after a time.\<close>

definition schedule_cron ::
  "(string \<Rightarrow> time \<Rightarrow> time option) \<Rightarrow> time \<Rightarrow> task_id \<Rightarrow> string \<Rightarrow> bool \<Rightarrow> reg_engine \<Rightarrow> reg_engine" where
  "schedule_cron nxt now tid expr kept e =
     (if kept then e
      else (case nxt expr now of
              None \<Rightarrow> e
            | Some n \<Rightarrow>
                e\<lparr>re_entries := (re_entries e)(re_next_entry e \<mapsto> (tid, expr)),
                  re_armed := (re_armed e)(tid \<mapsto> (re_next_entry e, expr)),
                  re_next_entry := Suc (re_next_entry e),
                  re_rows := (re_rows e)(tid \<mapsto> (expr, n))\<rparr>))"

text \<open>The closure of an entry after a fire that was accepted: only the row that still holds its
  expression is advanced.\<close>

definition cron_fired ::
  "(string \<Rightarrow> time \<Rightarrow> time option) \<Rightarrow> time \<Rightarrow> task_id \<Rightarrow> string \<Rightarrow> reg_engine \<Rightarrow> reg_engine" where
  "cron_fired nxt now tid expr e =
     (case (nxt expr now, re_rows e tid) of
        (Some n, Some (x, _)) \<Rightarrow> if x = expr then e\<lparr>re_rows := (re_rows e)(tid \<mapsto> (expr, n))\<rparr> else e
      | _ \<Rightarrow> e)"

definition unregister_triggers_keeping :: "task_id \<Rightarrow> string \<Rightarrow> string \<Rightarrow> reg_engine \<Rightarrow> bool \<times> reg_engine" where
  "unregister_triggers_keeping tid keepWebhook keepCron e =
     (let kw = trim_slash keepWebhook;
          kept = (case re_armed e tid of None \<Rightarrow> False | Some (n, x) \<Rightarrow> keepCron \<noteq> [] \<and> x = keepCron);
          e1 = (case re_armed e tid of
                  None \<Rightarrow> e
                | Some (n, x) \<Rightarrow>
                    if kept then e
                    else e\<lparr>re_entries := (re_entries e)(n := None), re_armed := (re_armed e)(tid := None),
                           re_rows := (re_rows e)(tid := None)\<rparr>);
          e2 = e1\<lparr>re_webhooks := (\<lambda>p. if re_webhooks e1 p = Some tid \<and> p \<noteq> kw then None else re_webhooks e1 p)\<rparr>
      in (kept, e2\<lparr>re_daemons := re_daemons e2 - {tid}\<rparr>))"

definition unregister_triggers :: "task_id \<Rightarrow> reg_engine \<Rightarrow> reg_engine" where
  "unregister_triggers tid e = snd (unregister_triggers_keeping tid [] [] e)"

definition unregister :: "task_id \<Rightarrow> reg_engine \<Rightarrow> reg_engine" where
  "unregister tid e = unregister_triggers tid (e\<lparr>re_deferred := AList.delete tid (re_deferred e)\<rparr>)"

text \<open>What a registration is going to claim again.\<close>

definition keep_webhook :: "bool \<Rightarrow> task_id \<Rightarrow> string \<Rightarrow> string" where
  "keep_webhook enabled tid path =
     (if enabled \<and> path \<noteq> [] \<and> \<not> (path = reserved_oauth_path \<and> tid \<noteq> oauth_relay_id) then path else [])"

definition keep_cron :: "bool \<Rightarrow> string \<Rightarrow> string" where
  "keep_cron enabled expr = (if enabled \<and> expr \<noteq> [] then expr else [])"

section \<open>Pipelines\<close>

datatype refs_error =
    RefMissing nat
  | RefNotTask nat
  | RefOverrides nat spec_error
  | RefCycle "task_id list"

definition clean_param :: "param_override \<Rightarrow> param_override" where
  "clean_param p = (if contains_sub input_mark (po_default p) then p\<lparr>po_default := []\<rparr> else p)"

definition check_stage_ref :: "kinded list \<Rightarrow> nat \<Rightarrow> stage \<Rightarrow> refs_error option" where
  "check_stage_ref ks i st =
     (case get_kinded (sg_task st) ks of
        None \<Rightarrow> Some (RefMissing i)
      | Some (KPipeline p) \<Rightarrow> Some (RefNotTask i)
      | Some (KSpec s) \<Rightarrow>
          (case sg_overrides st of
             None \<Rightarrow> None
           | Some ov \<Rightarrow>
               (case validate_spec (apply_layer (set_ov_params (map clean_param (ov_params ov)) ov) s) of
                  Inl e \<Rightarrow> Some (RefOverrides i e)
                | Inr _ \<Rightarrow> None)))"

fun check_stage_refs :: "kinded list \<Rightarrow> nat \<Rightarrow> stage list \<Rightarrow> refs_error option" where
  "check_stage_refs ks i [] = None"
| "check_stage_refs ks i (st # ss) =
     (case check_stage_ref ks i st of Some e \<Rightarrow> Some e | None \<Rightarrow> check_stage_refs ks (Suc i) ss)"

definition pipeline_edges :: "kinded list \<Rightarrow> pipeline_task \<Rightarrow> (task_id \<times> task_id list) list" where
  "pipeline_edges ks p =
     map (\<lambda>q. (pl_id q, map sg_task (pl_stages q))) (filter (\<lambda>q. pl_id q \<noteq> pl_id p) (all_pipelines ks)) @
     [(pl_id p, map sg_task (pl_stages p))]"

definition detect_pipeline_cycle :: "kinded list \<Rightarrow> pipeline_task \<Rightarrow> task_id list option" where
  "detect_pipeline_cycle ks p =
     (let es = pipeline_edges ks p in
      fst (visit es [pl_id p] (edges_of es (pl_id p)) ((\<lambda>_. White)(pl_id p := Gray))))"

definition validate_pipeline_refs :: "kinded list \<Rightarrow> pipeline_task \<Rightarrow> refs_error option" where
  "validate_pipeline_refs ks p =
     (case check_stage_refs ks 0 (pl_stages p) of
        Some e \<Rightarrow> Some e
      | None \<Rightarrow> map_option RefCycle (detect_pipeline_cycle ks p))"

datatype register_error =
    PipelineInvalid pipeline_error
  | RefsInvalid refs_error
  | ChainCycle

text \<open>The pipeline in the registry is the struct that validation records its warnings in.\<close>

definition register_pipeline ::
  "(string \<Rightarrow> time \<Rightarrow> time option) \<Rightarrow> time \<Rightarrow> pipeline_task \<Rightarrow> reg_engine \<Rightarrow> register_error option \<times> reg_engine" where
  "register_pipeline nxt now p0 e0 =
     (case validate_pipeline p0 of
        (Some err, _) \<Rightarrow> (Some (PipelineInvalid err), e0)
      | (None, p) \<Rightarrow>
          (let tid = pl_id p; t = pl_trigger p;
               kw = keep_webhook (pl_enabled p) tid (pt_webhook t);
               kc = keep_cron (pl_enabled p) (pt_cron t)
           in case unregister_triggers_keeping tid kw kc e0 of
                (kept, e) \<Rightarrow>
                  if \<not> pl_enabled p then (None, e\<lparr>re_deferred := AList.delete tid (re_deferred e)\<rparr>)
                  else (case validate_pipeline_refs (re_tasks e) p of
                          Some (RefMissing i) \<Rightarrow> (None, e\<lparr>re_deferred := AList.update tid p (re_deferred e)\<rparr>)
                        | Some err \<Rightarrow> (Some (RefsInvalid err), e)
                        | None \<Rightarrow>
                            if \<not> check_success_chain_cycle (re_tasks e) (KPipeline p) then (Some ChainCycle, e)
                            else
                              (let e1 = e\<lparr>re_deferred := AList.delete tid (re_deferred e)\<rparr>;
                                   e2 = (if pt_cron t \<noteq> [] then schedule_cron nxt now tid (pt_cron t) kept e1 else e1);
                                   e3 = (if pt_webhook t \<noteq> [] then register_webhook_path tid (pt_webhook t) e2 else e2)
                               in (None, e3)))))"

text \<open>\<open>retryDeferredPipelines\<close>: Go ranges over the map in some order, here the list's. An entry that
  a retry before it removed is skipped.\<close>

fun retry_pipelines ::
  "(string \<Rightarrow> time \<Rightarrow> time option) \<Rightarrow> time \<Rightarrow> pipeline_task list \<Rightarrow> reg_engine \<Rightarrow> reg_engine" where
  "retry_pipelines nxt now [] e = e"
| "retry_pipelines nxt now (p # ps) e =
     (if map_of (re_deferred e) (pl_id p) \<noteq> Some p then retry_pipelines nxt now ps e
      else (case register_pipeline nxt now p e of
              (None, e1) \<Rightarrow> retry_pipelines nxt now ps e1
            | (Some err, e1) \<Rightarrow>
                retry_pipelines nxt now ps (e1\<lparr>re_deferred := AList.delete (pl_id p) (re_deferred e1)\<rparr>)))"

definition retry_deferred :: "(string \<Rightarrow> time \<Rightarrow> time option) \<Rightarrow> time \<Rightarrow> reg_engine \<Rightarrow> reg_engine" where
  "retry_deferred nxt now e = retry_pipelines nxt now (map snd (re_deferred e)) e"

section \<open>Register\<close>

definition register_spec ::
  "(string \<Rightarrow> time \<Rightarrow> time option) \<Rightarrow> time \<Rightarrow> spec \<Rightarrow> reg_engine \<Rightarrow> register_error option \<times> reg_engine" where
  "register_spec nxt now s e0 =
     (let tid = sp_id s; t = sp_trigger s;
          e1 = e0\<lparr>re_deferred := AList.delete tid (re_deferred e0)\<rparr>
      in case unregister_triggers_keeping tid (keep_webhook (sp_enabled s) tid (tc_webhook t))
                (keep_cron (sp_enabled s) (tc_cron t)) e1 of
           (kept, e) \<Rightarrow>
             if \<not> sp_enabled s then (None, e)
             else if \<not> check_success_chain_cycle (re_tasks e) (KSpec s) then (Some ChainCycle, e)
             else
               (let e2 = (if tc_cron t \<noteq> [] then schedule_cron nxt now tid (tc_cron t) kept e else e);
                    e3 = (if tc_webhook t \<noteq> [] then register_webhook_path tid (tc_webhook t) e2 else e2);
                    e4 = (if tc_daemon t then e3\<lparr>re_daemons := insert tid (re_daemons e3)\<rparr> else e3)
                in (None, retry_deferred nxt now e4)))"

definition register ::
  "(string \<Rightarrow> time \<Rightarrow> time option) \<Rightarrow> time \<Rightarrow> kinded \<Rightarrow> reg_engine \<Rightarrow> register_error option \<times> reg_engine" where
  "register nxt now k e =
     (case k of KSpec s \<Rightarrow> register_spec nxt now s e | KPipeline p \<Rightarrow> register_pipeline nxt now p e)"

section \<open>Missed cron runs\<close>

definition day_seconds :: time where
  "day_seconds = 24 * 3600"

text \<open>\<open>catchupMissedCronRuns\<close>: rows of unknown tasks are deleted; the rest are read as a list, and
  the tasks fired are those due in the last day. Times are in seconds.\<close>

definition prune_rows :: "reg_engine \<Rightarrow> reg_engine" where
  "prune_rows e =
     e\<lparr>re_rows := (\<lambda>t. if get_kinded t (re_tasks e) = None then None else re_rows e t)\<rparr>"

definition missed :: "time \<Rightarrow> reg_engine \<Rightarrow> task_id \<Rightarrow> bool" where
  "missed now e t =
     (case re_rows e t of None \<Rightarrow> False | Some (x, due) \<Rightarrow> due < now \<and> now - day_seconds < due)"

definition catchup_missed_cron_runs :: "time \<Rightarrow> reg_engine \<Rightarrow> kinded list \<times> reg_engine" where
  "catchup_missed_cron_runs now e =
     (let e1 = prune_rows e in (filter (\<lambda>k. missed now e1 (task_id_of k)) (re_tasks e1), e1))"

end
