(* ===== verification/RegisterSafety.thy ===== *)
theory RegisterSafety
  imports EngineRegister ChainSafety
begin

text \<open>
  What registration guarantees: the table of armed cron entries and the scheduler's entries
  are the same set whatever is registered, unregistered and deferred, in any order; reloading
  an unchanged task touches neither its entry nor its row nor its path; a deferred pipeline
  waits only for a stage that is missing.
\<close>

section \<open>The invariant\<close>

definition reg_inv :: "reg_engine \<Rightarrow> bool" where
  "reg_inv e \<longleftrightarrow>
     (\<forall>t n x. re_armed e t = Some (n, x) \<longleftrightarrow> re_entries e n = Some (t, x)) \<and>
     (\<forall>n. re_entries e n \<noteq> None \<longrightarrow> n < re_next_entry e) \<and>
     (\<forall>t n x. re_armed e t = Some (n, x) \<longrightarrow> (\<exists>due. re_rows e t = Some (x, due))) \<and>
     (\<forall>(t, p) \<in> set (re_deferred e). t = pl_id p \<and> pl_enabled p) \<and>
     distinct (map fst (re_deferred e))"

lemma reg_inv_init: "reg_inv reg_init"
  by (simp add: reg_inv_def reg_init_def)

lemma reg_invD:
  assumes "reg_inv e"
  shows "re_armed e t = Some (n, x) \<longleftrightarrow> re_entries e n = Some (t, x)"
    "re_entries e n = Some y \<Longrightarrow> n < re_next_entry e"
    "re_armed e t = Some (n, x) \<Longrightarrow> \<exists>due. re_rows e t = Some (x, due)"
    "(t, p) \<in> set (re_deferred e) \<Longrightarrow> t = pl_id p \<and> pl_enabled p"
    "distinct (map fst (re_deferred e))"
  using assms by (auto simp: reg_inv_def)

text \<open>The fields that the operations on the triggers of some tasks leave alone.\<close>

definition same_outside :: "task_id set \<Rightarrow> reg_engine \<Rightarrow> reg_engine \<Rightarrow> bool" where
  "same_outside S e e' \<longleftrightarrow>
     re_tasks e' = re_tasks e \<and>
     (\<forall>t. t \<notin> S \<longrightarrow> re_armed e' t = re_armed e t \<and> re_rows e' t = re_rows e t \<and> (t \<in> re_daemons e' \<longleftrightarrow> t \<in> re_daemons e)) \<and>
     (\<forall>p t. t \<notin> S \<longrightarrow> (re_webhooks e' p = Some t \<longleftrightarrow> re_webhooks e p = Some t))"

abbreviation same_others :: "task_id \<Rightarrow> reg_engine \<Rightarrow> reg_engine \<Rightarrow> bool" where
  "same_others tid \<equiv> same_outside {tid}"

lemma same_outside_refl [simp]: "same_outside S e e"
  by (simp add: same_outside_def)

lemma same_outside_deferred [simp]: "same_outside S e (e'\<lparr>re_deferred := d\<rparr>) = same_outside S e e'" "same_outside S (e\<lparr>re_deferred := d\<rparr>) e' = same_outside S e e'"
  by (simp_all add: same_outside_def)

lemma same_outside_trans: "same_outside S e e1 \<Longrightarrow> same_outside S e1 e2 \<Longrightarrow> same_outside S e e2"
  by (simp add: same_outside_def)

lemma same_outside_mono: "same_outside S e e' \<Longrightarrow> S \<subseteq> T \<Longrightarrow> same_outside T e e'"
  by (auto simp: same_outside_def)

lemma unregister_keeping_facts:
  assumes "unregister_triggers_keeping tid kw kc e = (kept, e')"
  shows "same_others tid e e'" "re_deferred e' = re_deferred e"
    "kept \<longleftrightarrow> kc \<noteq> [] \<and> (\<exists>n. re_armed e tid = Some (n, kc))"
    "re_armed e' tid = (if kept then re_armed e tid else None)"
    "kept \<Longrightarrow> re_rows e' = re_rows e \<and> re_entries e' = re_entries e"
    "re_webhooks e' p = Some tid \<longleftrightarrow> re_webhooks e p = Some tid \<and> p = trim_slash kw"
    "tid \<notin> re_daemons e'" "re_next_entry e' = re_next_entry e"
  using assms
  by (auto simp: unregister_triggers_keeping_def Let_def same_outside_def split: option.splits if_splits)

lemma unregister_keeping_inv:
  assumes "reg_inv e" "unregister_triggers_keeping tid kw kc e = (kept, e')"
  shows "reg_inv e'"
proof (cases "re_armed e tid")
  case None
  with assms show ?thesis by (auto simp: unregister_triggers_keeping_def Let_def reg_inv_def)
next
  case (Some a)
  obtain n x where a: "a = (n, x)" by (cases a)
  show ?thesis
  proof (cases "kc \<noteq> [] \<and> x = kc")
    case True
    with assms Some a show ?thesis by (auto simp: unregister_triggers_keeping_def Let_def reg_inv_def)
  next
    case False
    let ?w = "\<lambda>p. if re_webhooks e p = Some tid \<and> p \<noteq> trim_slash kw then None else re_webhooks e p"
    have e': "e' = e\<lparr>re_entries := (re_entries e)(n := None), re_armed := (re_armed e)(tid := None),
        re_rows := (re_rows e)(tid := None), re_webhooks := ?w, re_daemons := re_daemons e - {tid}\<rparr>"
      using assms(2) Some a False by (auto simp: unregister_triggers_keeping_def Let_def cong: if_cong)
    have "re_armed e t = Some (n, y) \<Longrightarrow> t = tid \<and> y = x" for t y
      using reg_invD(1) [OF assms(1)] Some a by (metis option.inject prod.inject)
    moreover have "re_entries e m = Some (tid, y) \<Longrightarrow> m = n" for m y
      using reg_invD(1) [OF assms(1)] Some a by (metis option.inject prod.inject)
    ultimately show ?thesis
      using assms(1) unfolding e' reg_inv_def by (auto 4 3)
  qed
qed

lemma schedule_cron_facts:
  assumes "re_armed e tid = None \<or> kept"
  shows "same_others tid e (schedule_cron nxt now tid x kept e)"
    "re_deferred (schedule_cron nxt now tid x kept e) = re_deferred e"
    "re_webhooks (schedule_cron nxt now tid x kept e) = re_webhooks e"
    "re_daemons (schedule_cron nxt now tid x kept e) = re_daemons e"
  by (auto simp: schedule_cron_def same_outside_def split: option.splits)

lemma schedule_cron_inv:
  assumes "reg_inv e" "re_armed e tid = None \<or> kept"
  shows "reg_inv (schedule_cron nxt now tid x kept e)"
proof (cases "kept \<or> nxt x now = None")
  case True
  with assms(1) show ?thesis by (auto simp: schedule_cron_def)
next
  case False
  then obtain due where due: "nxt x now = Some due" and k: "\<not> kept" by auto
  have fresh: "re_entries e (re_next_entry e) = None"
    using reg_invD(2) [OF assms(1)] by (metis less_irrefl not_None_eq)
  have free: "re_armed e t \<noteq> Some (re_next_entry e, y)" for t y
    using reg_invD(1) [OF assms(1)] fresh by (metis option.distinct(1))
  have none: "re_entries e n \<noteq> Some (tid, y)" for n y
    using reg_invD(1) [OF assms(1), of tid n y] assms(2) k by simp
  show ?thesis
    using assms(1) due k fresh free none unfolding reg_inv_def schedule_cron_def
    by (auto simp: less_Suc_eq)
qed

lemma register_webhook_facts:
  "re_armed (register_webhook_path tid p e) = re_armed e" "re_rows (register_webhook_path tid p e) = re_rows e"
  "re_deferred (register_webhook_path tid p e) = re_deferred e" "re_entries (register_webhook_path tid p e) = re_entries e"
  "re_next_entry (register_webhook_path tid p e) = re_next_entry e"
  "same_others tid e (register_webhook_path tid p e)" "re_daemons (register_webhook_path tid p e) = re_daemons e"
  by (auto simp: register_webhook_path_def Let_def same_outside_def split: option.splits)

lemma register_webhook_inv: "reg_inv e \<Longrightarrow> reg_inv (register_webhook_path tid p e)"
  by (simp add: reg_inv_def register_webhook_facts)

lemma deferred_delete_inv: "reg_inv e \<Longrightarrow> reg_inv (e\<lparr>re_deferred := AList.delete t (re_deferred e)\<rparr>)"
  by (auto simp: reg_inv_def AList.delete_eq distinct_map_filter)

lemma update_mem: "x \<in> set (AList.update k v al) \<Longrightarrow> x = (k, v) \<or> x \<in> set al"
  by (induction al) (auto split: if_splits)

lemma deferred_update_inv:
  "reg_inv e \<Longrightarrow> pl_enabled p \<Longrightarrow> reg_inv (e\<lparr>re_deferred := AList.update (pl_id p) p (re_deferred e)\<rparr>)"
  unfolding reg_inv_def by (auto simp: AList.distinct_update dest: update_mem)

section \<open>Pipelines\<close>

lemma validate_pipeline_shape:
  assumes "validate_pipeline p0 = (r, p)"
  shows "\<exists>w. p = p0\<lparr>pl_warnings := w\<rparr>"
proof -
  have "\<exists>w. p0 = p0\<lparr>pl_warnings := w\<rparr>" by (rule exI [of _ "pl_warnings p0"]) simp
  with assms show ?thesis by (auto simp: validate_pipeline_def Let_def split: option.splits)
qed

definition still_missing :: "kinded list \<Rightarrow> pipeline_task \<Rightarrow> bool" where
  "still_missing ks p \<longleftrightarrow> (\<exists>i. validate_pipeline_refs ks p = Some (RefMissing i))"

text \<open>The part that tasks and pipelines share: the cron entry, then the path.\<close>

definition arm_triggers ::
  "(string \<Rightarrow> time \<Rightarrow> time option) \<Rightarrow> time \<Rightarrow> task_id \<Rightarrow> string \<Rightarrow> string \<Rightarrow> bool \<Rightarrow> reg_engine \<Rightarrow> reg_engine" where
  "arm_triggers nxt now tid x path kept e =
     (let e2 = (if x \<noteq> [] then schedule_cron nxt now tid x kept e else e) in
      if path \<noteq> [] then register_webhook_path tid path e2 else e2)"

lemma arm_triggers_facts:
  assumes "reg_inv e" "re_armed e tid = None \<or> kept"
  shows "reg_inv (arm_triggers nxt now tid x path kept e)"
    "same_others tid e (arm_triggers nxt now tid x path kept e)"
    "re_deferred (arm_triggers nxt now tid x path kept e) = re_deferred e"
    "re_daemons (arm_triggers nxt now tid x path kept e) = re_daemons e"
proof -
  let ?e2 = "if x \<noteq> [] then schedule_cron nxt now tid x kept e else e"
  have "reg_inv ?e2 \<and> same_others tid e ?e2 \<and> re_deferred ?e2 = re_deferred e \<and> re_daemons ?e2 = re_daemons e"
    using schedule_cron_inv [OF assms] schedule_cron_facts [OF assms(2)] assms(1) by simp
  then show "reg_inv (arm_triggers nxt now tid x path kept e)"
    "same_others tid e (arm_triggers nxt now tid x path kept e)"
    "re_deferred (arm_triggers nxt now tid x path kept e) = re_deferred e"
    "re_daemons (arm_triggers nxt now tid x path kept e) = re_daemons e"
    using register_webhook_inv register_webhook_facts same_outside_trans
    by (auto simp: arm_triggers_def Let_def)
qed

text \<open>The ways the registration of a pipeline ends. \<open>deferral\<close> is a pipeline as the deferred set
  holds it: its validation recorded warnings in it.\<close>

definition deferral :: "kinded list \<Rightarrow> pipeline_task \<Rightarrow> pipeline_task \<Rightarrow> bool" where
  "deferral ks p0 p \<longleftrightarrow> (\<exists>w. p = p0\<lparr>pl_warnings := w\<rparr>) \<and> pl_enabled p0 \<and> still_missing ks p"

lemma register_pipeline_cases:
  assumes "register_pipeline nxt now p0 e = (r, e')"
  obtains
    (invalid) "r \<noteq> None" "e' = e"
  | (off) kept e1 where "r = None" "\<not> pl_enabled p0"
      "unregister_triggers_keeping (pl_id p0) [] [] e = (kept, e1)"
      "e' = e1\<lparr>re_deferred := AList.delete (pl_id p0) (re_deferred e1)\<rparr>"
  | (deferred) kept e1 p kw kc where "r = None" "deferral (re_tasks e) p0 p"
      "unregister_triggers_keeping (pl_id p0) kw kc e = (kept, e1)"
      "e' = e1\<lparr>re_deferred := AList.update (pl_id p0) p (re_deferred e1)\<rparr>"
  | (refused) kept kw kc where "r \<noteq> None" "unregister_triggers_keeping (pl_id p0) kw kc e = (kept, e')"
  | (armed) kept e1 where "r = None" "pl_enabled p0"
      "unregister_triggers_keeping (pl_id p0) (keep_webhook True (pl_id p0) (pt_webhook (pl_trigger p0)))
         (keep_cron True (pt_cron (pl_trigger p0))) e = (kept, e1)"
      "e' = arm_triggers nxt now (pl_id p0) (pt_cron (pl_trigger p0)) (pt_webhook (pl_trigger p0)) kept
         (e1\<lparr>re_deferred := AList.delete (pl_id p0) (re_deferred e1)\<rparr>)"
proof (cases "validate_pipeline p0")
  case (Pair v p)
  from validate_pipeline_shape [OF this] obtain w where w: "p = p0\<lparr>pl_warnings := w\<rparr>" by blast
  then have p: "pl_id p = pl_id p0" "pl_enabled p = pl_enabled p0" "pl_trigger p = pl_trigger p0" by simp_all
  show ?thesis
  proof (cases v)
    case (Some err)
    with assms Pair have "r \<noteq> None" "e' = e" by (auto simp: register_pipeline_def)
    then show ?thesis by (rule invalid)
  next
    case None
    let ?kw = "keep_webhook (pl_enabled p0) (pl_id p0) (pt_webhook (pl_trigger p0))"
    let ?kc = "keep_cron (pl_enabled p0) (pt_cron (pl_trigger p0))"
    obtain kept e1 where u: "unregister_triggers_keeping (pl_id p0) ?kw ?kc e = (kept, e1)" by fastforce
    have tasks: "re_tasks e1 = re_tasks e"
      using unregister_keeping_facts(1) [OF u] by (simp add: same_outside_def)
    note r = assms [unfolded register_pipeline_def Pair None prod.case option.case Let_def p u]
    show ?thesis
    proof (cases "pl_enabled p0")
      case False
      with r u off show ?thesis by (simp add: keep_webhook_def keep_cron_def)
    next
      case en: True
      show ?thesis
      proof (cases "validate_pipeline_refs (re_tasks e) p")
        case None
        show ?thesis
        proof (cases "check_success_chain_cycle (re_tasks e) (KPipeline p)")
          case True
          with r en None tasks u armed show ?thesis by (simp add: arm_triggers_def Let_def)
        next
          case False
          with r en None tasks u have "r \<noteq> None" "unregister_triggers_keeping (pl_id p0) ?kw ?kc e = (kept, e')" by auto
          then show ?thesis by (rule refused)
        qed
      next
        case (Some err)
        show ?thesis
        proof (cases err)
          case (RefMissing i)
          with Some w en have "deferral (re_tasks e) p0 p" by (auto simp: deferral_def still_missing_def)
          with r en Some RefMissing tasks u deferred show ?thesis by simp
        next
          case (RefNotTask i)
          with r en Some tasks u have "r \<noteq> None" "unregister_triggers_keeping (pl_id p0) ?kw ?kc e = (kept, e')" by auto
          then show ?thesis by (rule refused)
        next
          case (RefOverrides i x)
          with r en Some tasks u have "r \<noteq> None" "unregister_triggers_keeping (pl_id p0) ?kw ?kc e = (kept, e')" by auto
          then show ?thesis by (rule refused)
        next
          case (RefCycle ps)
          with r en Some tasks u have "r \<noteq> None" "unregister_triggers_keeping (pl_id p0) ?kw ?kc e = (kept, e')" by auto
          then show ?thesis by (rule refused)
        qed
      qed
    qed
  qed
qed

lemma armed_or_kept:
  "unregister_triggers_keeping tid kw kc e = (kept, e1) \<Longrightarrow> re_armed (e1\<lparr>re_deferred := d\<rparr>) tid = None \<or> kept"
  by (simp add: unregister_keeping_facts(4))

lemma register_pipeline_facts:
  assumes "reg_inv e" "register_pipeline nxt now p0 e = (r, e')"
  shows "reg_inv e' \<and> same_others (pl_id p0) e e'"
  using assms(2)
proof (cases rule: register_pipeline_cases)
  case invalid
  with assms(1) show ?thesis by simp
next
  case (off kept e1)
  note f = unregister_keeping_facts [OF off(3)] and i = unregister_keeping_inv [OF assms(1) off(3)]
  show ?thesis unfolding off(4) using f(1) deferred_delete_inv [OF i] by simp
next
  case (deferred kept e1 p kw kc)
  note f = unregister_keeping_facts [OF deferred(3)] and i = unregister_keeping_inv [OF assms(1) deferred(3)]
  have "pl_id p = pl_id p0" "pl_enabled p" using deferred(2) by (auto simp: deferral_def)
  with deferred_update_inv [OF i, of p] f(1) show ?thesis unfolding deferred(4) by simp
next
  case (refused kept kw kc)
  show ?thesis
    using unregister_keeping_facts(1) [OF refused(2)] unregister_keeping_inv [OF assms(1) refused(2)] by simp
next
  case (armed kept e1)
  note i = deferred_delete_inv [OF unregister_keeping_inv [OF assms(1) armed(3)], of "pl_id p0"]
  note a = arm_triggers_facts [OF i armed_or_kept [OF armed(3)], folded armed(4)]
  have "same_others (pl_id p0) e (e1\<lparr>re_deferred := AList.delete (pl_id p0) (re_deferred e1)\<rparr>)"
    using unregister_keeping_facts(1) [OF armed(3)] by simp
  from a(1) same_outside_trans [OF this a(2)] show ?thesis unfolding armed(4) by blast
qed

lemmas register_pipeline_inv = register_pipeline_facts [THEN conjunct1]
lemmas register_pipeline_others = register_pipeline_facts [THEN conjunct2]

lemma register_pipeline_tasks:
  "reg_inv e \<Longrightarrow> register_pipeline nxt now p e = (r, e') \<Longrightarrow> re_tasks e' = re_tasks e"
  using register_pipeline_others by (fastforce simp: same_outside_def)

text \<open>What a registration leaves of the deferred set: entries of other pipelines, and its own only
  when it was deferred again or refused.\<close>

lemma register_pipeline_deferred:
  assumes "reg_inv e" "register_pipeline nxt now p0 e = (r, e')" "(t, q) \<in> set (re_deferred e')"
  shows "(t, q) \<in> set (re_deferred e) \<and> (t = pl_id p0 \<longrightarrow> r \<noteq> None) \<or> deferral (re_tasks e) p0 q"
  using assms(2)
proof (cases rule: register_pipeline_cases)
  case invalid
  with assms(3) show ?thesis by simp
next
  case (off kept e1)
  with assms(3) unregister_keeping_facts(2) [OF off(3)] show ?thesis by (auto simp: AList.delete_eq)
next
  case (deferred kept e1 p kw kc)
  have "re_deferred e' = AList.update (pl_id p0) p (re_deferred e)"
    using deferred(4) unregister_keeping_facts(2) [OF deferred(3)] by simp
  moreover have "distinct (map fst (re_deferred e))" using reg_invD(5) [OF assms(1)] .
  ultimately have "map_of (re_deferred e') t = Some q"
    using assms(3) by (simp add: AList.distinct_update map_of_is_SomeI)
  then have "(if t = pl_id p0 then p = q else map_of (re_deferred e) t = Some q)"
    using \<open>re_deferred e' = _\<close> by (simp add: AList.update_conv' split: if_splits)
  with deferred(2) show ?thesis by (auto split: if_splits dest: map_of_SomeD)
next
  case (refused kept kw kc)
  with assms(3) unregister_keeping_facts(2) [OF refused(2)] show ?thesis by simp
next
  case (armed kept e1)
  note i = deferred_delete_inv [OF unregister_keeping_inv [OF assms(1) armed(3)], of "pl_id p0"]
  have "re_deferred e' = AList.delete (pl_id p0) (re_deferred e)"
    unfolding armed(4) using arm_triggers_facts(3) [OF i armed_or_kept [OF armed(3)]]
      unregister_keeping_facts(2) [OF armed(3)] by simp
  with assms(3) show ?thesis by (auto simp: AList.delete_eq)
qed

section \<open>Retries\<close>

lemma retry_pipelines_facts:
  "reg_inv e \<Longrightarrow> reg_inv (retry_pipelines nxt now ps e) \<and>
     same_outside (pl_id ` set ps) e (retry_pipelines nxt now ps e)"
proof (induction nxt now ps e rule: retry_pipelines.induct)
  case (2 nxt now p ps e)
  show ?case
  proof (cases "map_of (re_deferred e) (pl_id p) = Some p")
    case False
    with 2 show ?thesis by (auto intro: same_outside_mono)
  next
    case True
    obtain r e1 where r: "register_pipeline nxt now p e = (r, e1)" by fastforce
    let ?e2 = "if r = None then e1 else e1\<lparr>re_deferred := AList.delete (pl_id p) (re_deferred e1)\<rparr>"
    note f = register_pipeline_facts [OF 2(4) r]
    have i: "reg_inv ?e2" and o1: "same_outside {pl_id p} e ?e2" using f deferred_delete_inv by auto
    have eq: "retry_pipelines nxt now (p # ps) e = retry_pipelines nxt now ps ?e2"
      using True r by (cases r) auto
    have "reg_inv (retry_pipelines nxt now ps ?e2) \<and>
        same_outside (pl_id ` set ps) ?e2 (retry_pipelines nxt now ps ?e2)"
      using 2(2) [OF _ r [symmetric]] 2(3) [OF _ r [symmetric]] True i by (cases r) auto
    with o1 show ?thesis unfolding eq
      by (meson image_mono same_outside_mono same_outside_trans set_subset_Cons insert_subset empty_subsetI
          imageI list.set_intros(1))
  qed
qed simp

lemma retry_pipelines_deferred:
  "reg_inv e \<Longrightarrow> (t, q) \<in> set (re_deferred (retry_pipelines nxt now ps e)) \<Longrightarrow>
     (t, q) \<in> set (re_deferred e) \<and> q \<notin> set ps \<or> still_missing (re_tasks e) q"
proof (induction nxt now ps e rule: retry_pipelines.induct)
  case (2 nxt now p ps e)
  show ?case
  proof (cases "map_of (re_deferred e) (pl_id p) = Some p")
    case False
    have "q \<noteq> p" if "(t, q) \<in> set (re_deferred e)"
      using that False reg_invD(4,5) [OF 2(4)] by (metis map_of_is_SomeI)
    with 2 False show ?thesis by auto
  next
    case True
    obtain r e1 where r: "register_pipeline nxt now p e = (r, e1)" by fastforce
    let ?e2 = "if r = None then e1 else e1\<lparr>re_deferred := AList.delete (pl_id p) (re_deferred e1)\<rparr>"
    note f = register_pipeline_facts [OF 2(4) r]
    have i: "reg_inv ?e2" using f deferred_delete_inv by auto
    have eq: "retry_pipelines nxt now (p # ps) e = retry_pipelines nxt now ps ?e2"
      using True r by (cases r) auto
    have tk: "re_tasks ?e2 = re_tasks e" using f by (auto simp: same_outside_def)
    have "(t, q) \<in> set (re_deferred ?e2) \<and> q \<notin> set ps \<or> still_missing (re_tasks e) q"
      using 2(2) [OF _ r [symmetric]] 2(3) [OF _ r [symmetric]] 2(5) [unfolded eq] True i tk by (cases r) auto
    then show ?thesis
    proof (elim disjE conjE)
      assume q: "(t, q) \<in> set (re_deferred ?e2)" "q \<notin> set ps"
      then have "(t, q) \<in> set (re_deferred e1)" "r \<noteq> None \<Longrightarrow> t \<noteq> pl_id p"
        by (auto simp: AList.delete_eq split: if_splits)
      with register_pipeline_deferred [OF 2(4) r this(1)]
      have "(t, q) \<in> set (re_deferred e) \<and> t \<noteq> pl_id p \<or> still_missing (re_tasks e) q"
        by (auto simp: deferral_def)
      with q(2) reg_invD(4) [OF 2(4)] show ?thesis by auto
    qed simp
  qed
qed simp

lemma retry_deferred_facts:
  assumes "reg_inv e"
  shows "reg_inv (retry_deferred nxt now e)"
    "same_outside (fst ` set (re_deferred e)) e (retry_deferred nxt now e)"
    "(t, q) \<in> set (re_deferred (retry_deferred nxt now e)) \<Longrightarrow> still_missing (re_tasks e) q"
proof -
  have "pl_id ` set (map snd (re_deferred e)) = fst ` set (re_deferred e)"
    using reg_invD(4) [OF assms] by (force simp: image_iff)
  with retry_pipelines_facts [OF assms, of nxt now "map snd (re_deferred e)"]
  show "reg_inv (retry_deferred nxt now e)"
    "same_outside (fst ` set (re_deferred e)) e (retry_deferred nxt now e)"
    by (simp_all add: retry_deferred_def)
  assume "(t, q) \<in> set (re_deferred (retry_deferred nxt now e))"
  from retry_pipelines_deferred [OF assms this [unfolded retry_deferred_def]]
  show "still_missing (re_tasks e) q" by force
qed

section \<open>Register\<close>

text \<open>The ways the registration of a task ends.\<close>

lemma register_spec_cases:
  assumes "register_spec nxt now s e = (r, e')"
  obtains
    (off) kept where "r = None" "\<not> sp_enabled s"
      "unregister_triggers_keeping (sp_id s) [] [] (e\<lparr>re_deferred := AList.delete (sp_id s) (re_deferred e)\<rparr>) = (kept, e')"
  | (refused) kept kw kc where "r = Some ChainCycle" "sp_enabled s"
      "unregister_triggers_keeping (sp_id s) kw kc (e\<lparr>re_deferred := AList.delete (sp_id s) (re_deferred e)\<rparr>) = (kept, e')"
  | (armed) kept e1 e2 where "r = None" "sp_enabled s"
      "unregister_triggers_keeping (sp_id s) (keep_webhook True (sp_id s) (tc_webhook (sp_trigger s)))
         (keep_cron True (tc_cron (sp_trigger s))) (e\<lparr>re_deferred := AList.delete (sp_id s) (re_deferred e)\<rparr>) = (kept, e1)"
      "e2 = arm_triggers nxt now (sp_id s) (tc_cron (sp_trigger s)) (tc_webhook (sp_trigger s)) kept e1"
      "e' = retry_deferred nxt now
         (if tc_daemon (sp_trigger s) then e2\<lparr>re_daemons := insert (sp_id s) (re_daemons e2)\<rparr> else e2)"
proof -
  let ?e0 = "e\<lparr>re_deferred := AList.delete (sp_id s) (re_deferred e)\<rparr>"
  let ?kw = "keep_webhook (sp_enabled s) (sp_id s) (tc_webhook (sp_trigger s))"
  let ?kc = "keep_cron (sp_enabled s) (tc_cron (sp_trigger s))"
  obtain kept e1 where u: "unregister_triggers_keeping (sp_id s) ?kw ?kc ?e0 = (kept, e1)" by fastforce
  note r = assms [unfolded register_spec_def Let_def u prod.case]
  show ?thesis
  proof (cases "sp_enabled s")
    case False
    with r u off show ?thesis by (simp add: keep_webhook_def keep_cron_def)
  next
    case en: True
    show ?thesis
    proof (cases "check_success_chain_cycle (re_tasks e1) (KSpec s)")
      case True
      let ?e2 = "arm_triggers nxt now (sp_id s) (tc_cron (sp_trigger s)) (tc_webhook (sp_trigger s)) kept e1"
      have "r = None" "e' = retry_deferred nxt now
         (if tc_daemon (sp_trigger s) then ?e2\<lparr>re_daemons := insert (sp_id s) (re_daemons ?e2)\<rparr> else ?e2)"
        using r en True by (simp_all only: arm_triggers_def Let_def simp_thms if_True if_False prod.inject)
      with en u show ?thesis by (intro armed [OF _ _ _ refl]) simp_all
    next
      case False
      with r en have "r = Some ChainCycle" "e1 = e'" by auto
      with en u refused show ?thesis by simp
    qed
  qed
qed

lemma daemons_inv [simp]: "reg_inv (e\<lparr>re_daemons := d\<rparr>) = reg_inv e"
  by (simp add: reg_inv_def)

lemma same_others_daemons: "same_others t e e1 \<Longrightarrow> same_others t e (e1\<lparr>re_daemons := insert t (re_daemons e1)\<rparr>)"
  by (auto simp: same_outside_def)

text \<open>The state before the retries: everything about the task itself is settled there.\<close>

lemma register_spec_armed:
  assumes "reg_inv e" "register_spec nxt now s e = (None, e')" "sp_enabled s"
  obtains kept e1 e2 where
    "unregister_triggers_keeping (sp_id s) (keep_webhook True (sp_id s) (tc_webhook (sp_trigger s)))
       (keep_cron True (tc_cron (sp_trigger s))) (e\<lparr>re_deferred := AList.delete (sp_id s) (re_deferred e)\<rparr>) = (kept, e1)"
    "e2 = arm_triggers nxt now (sp_id s) (tc_cron (sp_trigger s)) (tc_webhook (sp_trigger s)) kept e1"
    "reg_inv e1" "reg_inv e2" "same_others (sp_id s) e e2"
    "re_deferred e2 = AList.delete (sp_id s) (re_deferred e)"
    "re_armed e' (sp_id s) = re_armed e2 (sp_id s)" "re_rows e' (sp_id s) = re_rows e2 (sp_id s)"
    "\<And>p. re_webhooks e' p = Some (sp_id s) \<longleftrightarrow> re_webhooks e2 p = Some (sp_id s)"
    "reg_inv e'" "re_tasks e' = re_tasks e"
    "\<And>t q. (t, q) \<in> set (re_deferred e') \<Longrightarrow> still_missing (re_tasks e) q"
  using assms(2)
proof (cases rule: register_spec_cases)
  case (armed kept e1 e2)
  let ?d = "if tc_daemon (sp_trigger s) then e2\<lparr>re_daemons := insert (sp_id s) (re_daemons e2)\<rparr> else e2"
  note i0 = deferred_delete_inv [OF assms(1), of "sp_id s"]
  note i1 = unregister_keeping_inv [OF i0 armed(3)]
  have a: "re_armed e1 (sp_id s) = None \<or> kept" using unregister_keeping_facts(4) [OF armed(3)] by simp
  note f = arm_triggers_facts [OF i1 a, of nxt now "tc_cron (sp_trigger s)" "tc_webhook (sp_trigger s)", folded armed(4)]
  have d: "re_deferred e2 = AList.delete (sp_id s) (re_deferred e)"
    using f(3) unregister_keeping_facts(2) [OF armed(3)] by simp
  have o2: "same_others (sp_id s) e e2"
    using same_outside_trans [OF _ f(2)] unregister_keeping_facts(1) [OF armed(3)] by simp
  have dd: "reg_inv ?d" "re_deferred ?d = re_deferred e2" "re_tasks ?d = re_tasks e"
      "re_armed ?d = re_armed e2" "re_rows ?d = re_rows e2" "re_webhooks ?d = re_webhooks e2"
    using f(1) o2 by (auto simp: same_outside_def)
  note rt = retry_deferred_facts [OF dd(1), where nxt = nxt and now = now, folded armed(5)]
  have "sp_id s \<notin> fst ` set (re_deferred ?d)" unfolding dd(2) d by (auto simp: AList.delete_eq)
  with rt(2) have "re_armed e' (sp_id s) = re_armed e2 (sp_id s)" "re_rows e' (sp_id s) = re_rows e2 (sp_id s)"
    "re_webhooks e' p = Some (sp_id s) \<longleftrightarrow> re_webhooks e2 p = Some (sp_id s)" "re_tasks e' = re_tasks e" for p
    using dd by (simp_all add: same_outside_def)
  from that [OF armed(3,4) i1 f(1) o2 d this(1,2) this(3) rt(1) this(4)] rt(3) dd(3) show ?thesis by simp
qed (use assms(3) in simp_all)

lemma register_spec_inv:
  assumes "reg_inv e" "register_spec nxt now s e = (r, e')"
  shows "reg_inv e' \<and> re_tasks e' = re_tasks e"
  using assms(2)
proof (cases rule: register_spec_cases)
  case (off kept)
  show ?thesis
    using unregister_keeping_inv [OF deferred_delete_inv [OF assms(1)] off(3)] unregister_keeping_facts(1) [OF off(3)]
    by (simp add: same_outside_def)
next
  case (refused kept kw kc)
  show ?thesis
    using unregister_keeping_inv [OF deferred_delete_inv [OF assms(1)] refused(3)] unregister_keeping_facts(1) [OF refused(3)]
    by (simp add: same_outside_def)
next
  case (armed kept e1 e2)
  show ?thesis
    by (rule register_spec_armed [OF assms(1) assms(2) [unfolded armed(1)] armed(2)]) simp
qed

lemma register_inv:
  "reg_inv e \<Longrightarrow> register nxt now k e = (r, e') \<Longrightarrow> reg_inv e' \<and> re_tasks e' = re_tasks e"
  using register_spec_inv [of e nxt now _ r e'] register_pipeline_inv [of e nxt now _ r e']
    register_pipeline_tasks [of e nxt now _ r e']
  by (cases k) (simp_all add: register_def)

lemma unregister_inv: "reg_inv e \<Longrightarrow> reg_inv (unregister t e)"
  unfolding unregister_def unregister_triggers_def
  by (metis deferred_delete_inv unregister_keeping_inv surjective_pairing)

section \<open>Sequences of operations\<close>

text \<open>The operations as they may follow one another; \<open>registerMu\<close> makes each atomic. \<open>RegistryIs\<close> is a change
  of the task registry, which the reconciler makes before it calls the engine. The process starts
  with the rows of the one before it.\<close>

datatype reg_op =
    OpRegister time kinded
  | OpUnregister task_id
  | OpCronFired time task_id string
  | RegistryIs "kinded list"

fun reg_exec :: "(string \<Rightarrow> time \<Rightarrow> time option) \<Rightarrow> reg_op \<Rightarrow> reg_engine \<Rightarrow> reg_engine" where
  "reg_exec nxt (OpRegister now k) e = snd (register nxt now k e)"
| "reg_exec nxt (OpUnregister t) e = unregister t e"
| "reg_exec nxt (OpCronFired now t x) e = cron_fired nxt now t x e"
| "reg_exec nxt (RegistryIs ks) e = e\<lparr>re_tasks := ks\<rparr>"

definition reg_run ::
  "(string \<Rightarrow> time \<Rightarrow> time option) \<Rightarrow> (task_id \<rightharpoonup> string \<times> time) \<Rightarrow> reg_op list \<Rightarrow> reg_engine" where
  "reg_run nxt rows ops = fold (reg_exec nxt) ops (reg_init\<lparr>re_rows := rows\<rparr>)"

lemma cron_fired_fields:
  "re_armed (cron_fired nxt now t x e) = re_armed e" "re_entries (cron_fired nxt now t x e) = re_entries e"
  "re_next_entry (cron_fired nxt now t x e) = re_next_entry e" "re_deferred (cron_fired nxt now t x e) = re_deferred e"
  "(\<exists>due. re_rows (cron_fired nxt now t x e) u = Some (y, due)) \<longleftrightarrow> (\<exists>due. re_rows e u = Some (y, due))"
  by (auto simp: cron_fired_def split: option.splits)

lemma reg_exec_inv: "reg_inv e \<Longrightarrow> reg_inv (reg_exec nxt x e)"
proof (cases x)
  case (OpRegister now k)
  moreover assume "reg_inv e"
  ultimately show ?thesis using register_inv [of e nxt now k] by (cases "register nxt now k e") simp
next
  case (OpCronFired now t y)
  moreover assume "reg_inv e"
  ultimately show ?thesis by (simp add: reg_inv_def cron_fired_fields)
next
  case (RegistryIs ks)
  moreover assume "reg_inv e"
  ultimately show ?thesis by (simp add: reg_inv_def)
qed (simp add: unregister_inv)

lemma reg_run_inv: "reg_inv (reg_run nxt rows ops)"
proof -
  have "reg_inv (reg_init\<lparr>re_rows := rows\<rparr>)" by (simp add: reg_inv_def reg_init_def)
  then have "reg_inv (fold (reg_exec nxt) ops (reg_init\<lparr>re_rows := rows\<rparr>))"
    by (induction ops arbitrary: rows rule: rev_induct) (simp_all add: reg_exec_inv)
  then show ?thesis by (simp add: reg_run_def)
qed

lemma unregister_clears:
  assumes "reg_inv e"
  shows "re_armed (unregister t e) t = None" "re_entries (unregister t e) n \<noteq> Some (t, x)"
    "p \<noteq> [] \<Longrightarrow> re_webhooks (unregister t e) p \<noteq> Some t" "t \<notin> re_daemons (unregister t e)"
    "map_of (re_deferred (unregister t e)) t = None"
proof -
  let ?e0 = "e\<lparr>re_deferred := AList.delete t (re_deferred e)\<rparr>"
  obtain kept e1 where u: "unregister_triggers_keeping t [] [] ?e0 = (kept, e1)" by fastforce
  then have e1: "unregister t e = e1" by (simp add: unregister_def unregister_triggers_def)
  note f = unregister_keeping_facts [OF u]
  show a: "re_armed (unregister t e) t = None" using f(3,4) by (simp add: e1)
  show "re_entries (unregister t e) n \<noteq> Some (t, x)"
    using a reg_invD(1) [OF unregister_inv [OF assms], of t t n x] by simp
  show "p \<noteq> [] \<Longrightarrow> re_webhooks (unregister t e) p \<noteq> Some t" using f(6) [of p] by (auto simp: e1 trim_slash_def)
  show "t \<notin> re_daemons (unregister t e)" using f(7) by (simp add: e1)
  show "map_of (re_deferred (unregister t e)) t = None" using f(2) by (simp add: e1 AList.delete_conv')
qed

section \<open>Properties\<close>


definition ex_cron :: "task_id \<Rightarrow> string \<Rightarrow> spec" where
  "ex_cron t x = empty_spec\<lparr>sp_id := t, sp_name := t, sp_enabled := True, sp_trigger := no_trigger\<lparr>tc_cron := x\<rparr>\<rparr>"

definition ex_next :: "string \<Rightarrow> time \<Rightarrow> time option" where
  "ex_next x now = Some (now + 60)"

lemmas ex_register_simps = register_def register_spec_def unregister_triggers_keeping_def keep_webhook_def
  keep_cron_def ex_cron_def empty_spec_def no_trigger_def schedule_cron_def ex_next_def retry_deferred_def
  check_success_chain_cycle_def success_edge_def Let_def

lemma ex_cron_armed:
  "reg_run ex_next rows [OpRegister 100 (KSpec (ex_cron ''t'' ''hourly''))] =
     reg_init\<lparr>re_rows := rows(''t'' \<mapsto> (''hourly'', 160)), re_armed := [''t'' \<mapsto> (1, ''hourly'')],
       re_entries := [1 \<mapsto> (''t'', ''hourly'')], re_next_entry := 2\<rparr>"
  by (simp add: reg_run_def ex_register_simps reg_init_def)


text \<open>The registration of an enabled task, seen from its own triggers.\<close>

lemma registered_task_triggers:
  assumes "reg_inv e" "register nxt now (KSpec s) e = (None, e')" "sp_enabled s"
    and x: "x = tc_cron (sp_trigger s)" and w: "w = tc_webhook (sp_trigger s)"
  shows "re_entries e' n = Some (sp_id s, y) \<Longrightarrow> y = x \<and> x \<noteq> []"
    "x \<noteq> [] \<Longrightarrow> re_armed e (sp_id s) = Some (n, x) \<Longrightarrow>
       re_entries e' n = Some (sp_id s, x) \<and> re_rows e' (sp_id s) = re_rows e (sp_id s)"
    "p \<noteq> [] \<Longrightarrow> re_webhooks e' p = Some (sp_id s) \<Longrightarrow> w \<noteq> [] \<and> p = trim_slash w"
    "w \<noteq> [] \<Longrightarrow> w \<noteq> reserved_oauth_path \<Longrightarrow> re_webhooks e (trim_slash w) = Some (sp_id s) \<Longrightarrow>
       re_webhooks e' (trim_slash w) = Some (sp_id s)"
    "\<forall>(t, q) \<in> set (re_deferred e'). still_missing (re_tasks e') q"
proof -
  from assms(2) have r: "register_spec nxt now s e = (None, e')" by (simp add: register_def)
  obtain kept e1 e2 where
      u: "unregister_triggers_keeping (sp_id s) (keep_webhook True (sp_id s) w)
         (keep_cron True x) (e\<lparr>re_deferred := AList.delete (sp_id s) (re_deferred e)\<rparr>) = (kept, e1)"
    and e2: "e2 = arm_triggers nxt now (sp_id s) x w kept e1"
    and i: "reg_inv e1" "reg_inv e2"
    and a: "re_armed e' (sp_id s) = re_armed e2 (sp_id s)" "re_rows e' (sp_id s) = re_rows e2 (sp_id s)"
    and wh: "\<And>p. re_webhooks e' p = Some (sp_id s) \<longleftrightarrow> re_webhooks e2 p = Some (sp_id s)"
    and i': "reg_inv e'" "re_tasks e' = re_tasks e"
    and dfr: "\<And>t q. (t, q) \<in> set (re_deferred e') \<Longrightarrow> still_missing (re_tasks e) q"
    by (rule register_spec_armed [OF assms(1) r assms(3)]) (simp only: x w)
  note f = unregister_keeping_facts [OF u]
  show "\<forall>(t, q) \<in> set (re_deferred e'). still_missing (re_tasks e') q" using dfr i'(2) by auto
  have armed2: "re_armed e2 (sp_id s) =
      (if kept then re_armed e (sp_id s) else if x = [] then None
       else map_option (\<lambda>_. (re_next_entry e1, x)) (nxt x now))"
    using f(3,4) unfolding e2 arm_triggers_def Let_def
    by (auto simp: register_webhook_facts schedule_cron_def keep_cron_def split: option.splits)
  have kept: "kept \<longleftrightarrow> x \<noteq> [] \<and> (\<exists>n. re_armed e (sp_id s) = Some (n, x))"
    using f(3) by (simp add: keep_cron_def)
  show "re_entries e' n = Some (sp_id s, y) \<Longrightarrow> y = x \<and> x \<noteq> []"
    using reg_invD(1) [OF i'(1), of "sp_id s" n y] a(1) armed2 kept by (auto split: if_splits)
  show "re_entries e' n = Some (sp_id s, x) \<and> re_rows e' (sp_id s) = re_rows e (sp_id s)"
    if "x \<noteq> []" "re_armed e (sp_id s) = Some (n, x)"
  proof -
    have k: kept using kept that by blast
    have "re_rows e2 (sp_id s) = re_rows e (sp_id s)"
      using k f(5) [OF k] unfolding e2 arm_triggers_def Let_def
      by (simp add: register_webhook_facts schedule_cron_def)
    moreover have "re_armed e' (sp_id s) = Some (n, x)" using a(1) armed2 k that by simp
    ultimately show ?thesis using a(2) reg_invD(1) [OF i'(1)] by simp
  qed
  have web2: "re_webhooks e2 = (if w = [] then re_webhooks e1 else re_webhooks (register_webhook_path (sp_id s) w e1))"
    unfolding e2 arm_triggers_def Let_def
    by (simp add: register_webhook_path_def schedule_cron_def Let_def split: option.splits)
  show "w \<noteq> [] \<and> p = trim_slash w" if "p \<noteq> []" "re_webhooks e' p = Some (sp_id s)"
    using that wh [of p] web2 f(6) [of p]
    by (auto simp: register_webhook_path_def Let_def keep_webhook_def trim_slash_def split: if_splits option.splits)
  show "re_webhooks e' (trim_slash w) = Some (sp_id s)"
    if "w \<noteq> []" "w \<noteq> reserved_oauth_path" "re_webhooks e (trim_slash w) = Some (sp_id s)"
    using that wh [of "trim_slash w"] web2 f(6) [of "trim_slash w"]
    by (auto simp: register_webhook_path_def Let_def keep_webhook_def)
qed


lemma ex_cron_reload:
  "register ex_next 130 (KSpec (ex_cron ''t'' ''hourly'')) (reg_run ex_next rows [OpRegister 100 (KSpec (ex_cron ''t'' ''hourly''))]) =
     (None, reg_run ex_next rows [OpRegister 100 (KSpec (ex_cron ''t'' ''hourly''))])"
  unfolding ex_cron_armed by (simp add: ex_register_simps reg_init_def)


text \<open>A registration that the cycle check rejects has already disarmed the task: \<open>Register\<close> says that on
  an error no triggers are modified, but the check stands behind the tear-down. A task on a
  schedule that is edited into a cycle loses the schedule, its paths and its daemon.\<close>

lemma rejected_registration_disarms:
  "register nxt now (KSpec s) e = (Some err, e') \<longrightarrow>
     err = ChainCycle \<and>
     (\<forall>n x. re_armed e' (sp_id s) = Some (n, x) \<longrightarrow> x = tc_cron (sp_trigger s) \<and> x \<noteq> []) \<and>
     (\<forall>p. p \<noteq> [] \<and> re_webhooks e' p = Some (sp_id s) \<longrightarrow> p = trim_slash (tc_webhook (sp_trigger s))) \<and>
     sp_id s \<notin> re_daemons e' \<and> re_deferred e' = AList.delete (sp_id s) (re_deferred e)"
proof
  assume "register nxt now (KSpec s) e = (Some err, e')"
  then have r: "register_spec nxt now s e = (Some err, e')" by (simp add: register_def)
  let ?e0 = "e\<lparr>re_deferred := AList.delete (sp_id s) (re_deferred e)\<rparr>"
  let ?kw = "keep_webhook (sp_enabled s) (sp_id s) (tc_webhook (sp_trigger s))"
  let ?kc = "keep_cron (sp_enabled s) (tc_cron (sp_trigger s))"
  obtain kept e1 where u: "unregister_triggers_keeping (sp_id s) ?kw ?kc ?e0 = (kept, e1)" by fastforce
  from r have e: "e' = e1" "err = ChainCycle"
    by (simp_all add: register_spec_def Let_def u split: if_splits)
  note f = unregister_keeping_facts [OF u]
  have a: "x = tc_cron (sp_trigger s) \<and> x \<noteq> []" if "re_armed e' (sp_id s) = Some (n, x)" for n x
    using that f(3,4) by (auto simp: e(1) keep_cron_def split: if_splits)
  have w: "p = trim_slash (tc_webhook (sp_trigger s))" if "p \<noteq> []" "re_webhooks e' p = Some (sp_id s)" for p
    using that f(6) [of p] by (auto simp: e(1) keep_webhook_def trim_slash_def split: if_splits)
  show "err = ChainCycle \<and>
     (\<forall>n x. re_armed e' (sp_id s) = Some (n, x) \<longrightarrow> x = tc_cron (sp_trigger s) \<and> x \<noteq> []) \<and>
     (\<forall>p. p \<noteq> [] \<and> re_webhooks e' p = Some (sp_id s) \<longrightarrow> p = trim_slash (tc_webhook (sp_trigger s))) \<and>
     sp_id s \<notin> re_daemons e' \<and> re_deferred e' = AList.delete (sp_id s) (re_deferred e)"
    using e(2) a w f(7) f(2) e(1) by simp
qed

abbreviation ex_loop :: "task_id \<Rightarrow> task_id \<Rightarrow> kinded" where
  "ex_loop t u \<equiv> KSpec ((chained t u)\<lparr>sp_enabled := True\<rparr>)"

definition ex_before_loop :: reg_engine where
  "ex_before_loop = reg_run ex_next Map.empty
     [OpRegister 100 (KSpec (ex_cron ''t'' ''hourly'')), RegistryIs [ex_loop ''t'' ''a'', ex_loop ''a'' ''t'']]"

lemma ex_before_loop_simps:
  "re_armed ex_before_loop = [''t'' \<mapsto> (1, ''hourly'')]" "re_tasks ex_before_loop = [ex_loop ''t'' ''a'', ex_loop ''a'' ''t'']"
  unfolding ex_before_loop_def reg_run_def fold.simps comp_def id_def
  using ex_cron_armed [of Map.empty, unfolded reg_run_def fold.simps comp_def id_def] by simp_all

lemma ex_loop_refused: "\<not> check_success_chain_cycle [ex_loop ''t'' ''a'', ex_loop ''a'' ''t''] (ex_loop ''t'' ''a'')"
proof -
  have e: "success_edge (ex_loop t u) = Some (u, t)" for t u
    by (simp add: success_edge_def chained_def chain_on_def)
  then have "(''t'', ''a'') \<in> set (success_edges [ex_loop ''t'' ''a'', ex_loop ''a'' ''t''])"
    by (simp add: success_edges_def)
  then show ?thesis by (simp add: check_iff e r_into_rtrancl)
qed

lemma rejected_registration_disarms_witness:
  "re_armed ex_before_loop ''t'' = Some (1, ''hourly'') \<and>
   re_armed (snd (register ex_next 130 (ex_loop ''t'' ''a'') ex_before_loop)) ''t'' = None"
proof -
  let ?e' = "snd (register ex_next 130 (ex_loop ''t'' ''a'') ex_before_loop)"
  have i: "sp_id ((chained ''t'' ''a'')\<lparr>sp_enabled := True\<rparr>) = ''t''"
    "sp_trigger (chained ''t'' ''a'') = no_trigger\<lparr>tc_chain := Some (ChainTrigger ''a'' [] [] None)\<rparr>"
    by (simp_all add: chained_def)
  have "fst (register ex_next 130 (ex_loop ''t'' ''a'') ex_before_loop) = Some ChainCycle"
    using ex_loop_refused ex_before_loop_simps
    by (simp add: register_def register_spec_def unregister_triggers_keeping_def keep_cron_def keep_webhook_def
        i no_trigger_def Let_def)
  then have "register ex_next 130 (ex_loop ''t'' ''a'') ex_before_loop = (Some ChainCycle, ?e')"
    by (simp add: prod_eq_iff)
  from rejected_registration_disarms [THEN mp, OF this]
  have "\<forall>n x. re_armed ?e' ''t'' \<noteq> Some (n, x)" using i by (simp add: no_trigger_def)
  then show ?thesis using ex_before_loop_simps(1) by (cases "re_armed ?e' ''t''") auto
qed

text \<open>The path that OAuth deliveries come in on is reserved for one built-in task, but the check compares
  the path as written, before the trailing slash is cut: a task that asks for the path with a
  slash gets it, and the built-in, which registers the path itself, is then refused as a
  duplicate.\<close>

lemma reserved_path_is_claimable:
  "tid \<noteq> oauth_relay_id \<and> re_webhooks e reserved_oauth_path = None \<longrightarrow>
     register_webhook_path tid reserved_oauth_path e = e \<and>
     (let e' = register_webhook_path tid (reserved_oauth_path @ ''/'') e in
        resolve_webhook_path reserved_oauth_path e' = Some (tid, reserved_oauth_path, []) \<and>
        register_webhook_path oauth_relay_id reserved_oauth_path e' = e')"
  by (simp add: register_webhook_path_def resolve_webhook_path_def reserved_oauth_path_def trim_slash_def Let_def)

lemma reserved_path_is_claimable_witness:
  "resolve_webhook_path reserved_oauth_path (register_webhook_path ''evil'' (reserved_oauth_path @ ''/'') reg_init) =
     Some (''evil'', reserved_oauth_path, [])"
  using reserved_path_is_claimable [of "''evil''" reg_init]
  by (simp add: oauth_relay_id_def reg_init_def Let_def)

text \<open>The catch-up of missed runs depends on what the registry holds at that moment. It fires exactly
  the registered tasks whose row is due within the last day. With the registry still empty, as
  it may be at a start where the reconciler runs beside the engine, it fires nothing and deletes every row, so that
  the missed runs are lost; and once the engine registered a task whose next occurrence lies
  ahead, its row no longer says that a run was missed.\<close>

lemma catch_up_needs_the_registry:
  "(k \<in> set (fst (catchup_missed_cron_runs now e)) \<longleftrightarrow>
      k \<in> set (re_tasks e) \<and>
      (\<exists>x due. re_rows e (task_id_of k) = Some (x, due) \<and> due < now \<and> now - 86400 < due)) \<and>
   (let (ks, e') = catchup_missed_cron_runs now (e\<lparr>re_tasks := []\<rparr>) in ks = [] \<and> re_rows e' = Map.empty) \<and>
   (\<forall>n. nxt x now = Some n \<and> now \<le> n \<longrightarrow>
      k \<notin> set (fst (catchup_missed_cron_runs now (schedule_cron nxt now (task_id_of k) x False e))))"
proof -
  have known: "k \<in> set (re_tasks e) \<Longrightarrow> get_kinded (task_id_of k) (re_tasks e) \<noteq> None" for e
    by (auto simp: get_kinded_def find_None_iff)
  have fires: "k \<in> set (fst (catchup_missed_cron_runs now e)) \<longleftrightarrow>
      k \<in> set (re_tasks e) \<and>
      (\<exists>x due. re_rows e (task_id_of k) = Some (x, due) \<and> due < now \<and> now - 86400 < due)" for e
    using known [of e]
    by (auto simp: catchup_missed_cron_runs_def prune_rows_def missed_def day_seconds_def Let_def split: option.splits)
  have "get_kinded t [] = None" for t by (simp add: get_kinded_def)
  then have "let (ks, e') = catchup_missed_cron_runs now (e\<lparr>re_tasks := []\<rparr>) in ks = [] \<and> re_rows e' = Map.empty"
    by (simp add: catchup_missed_cron_runs_def prune_rows_def Let_def)
  then show ?thesis using fires by (auto simp: schedule_cron_def)
qed

lemma catch_up_needs_the_registry_witness:
  "KSpec (ex_cron ''t'' ''hourly'') \<notin> set (fst (catchup_missed_cron_runs 5000
     (schedule_cron ex_next 5000 ''t'' ''hourly'' False
       (reg_init\<lparr>re_tasks := [KSpec (ex_cron ''t'' ''hourly'')], re_rows := [''t'' \<mapsto> (''hourly'', 160)]\<rparr>))))"
  using catch_up_needs_the_registry [of "KSpec (ex_cron ''t'' ''hourly'')" 5000
      "reg_init\<lparr>re_tasks := [KSpec (ex_cron ''t'' ''hourly'')], re_rows := [''t'' \<mapsto> (''hourly'', 160)]\<rparr>" ex_next "''hourly''"]
  by (simp add: ex_next_def) (simp add: ex_cron_def)

end
