(* ===== verification/RunStore.thy ===== *)
theory RunStore
  imports TaskSpec
begin

text \<open>
  The run log of pkg/registry (registry.go, resume.go): the tables \<open>runs\<close> and \<open>run_logs\<close> and
  the SQL statements on them. A table is the list of its rows in the order of insertion; an
  \<open>UPDATE ... WHERE\<close> maps over it, a \<open>SELECT ... WHERE\<close> filters it. A column that may be \<open>NULL\<close> is
  an \<open>option\<close>. A JSON column holds the value it encodes. Statements succeed; the one error kept
  is the violation of the primary key. Rows that tie in an \<open>ORDER BY\<close> come in the order of
  insertion, where the database may choose.
\<close>

section \<open>Tables\<close>

definition status_running :: string where "status_running = ''running''"
definition status_success :: string where "status_success = ''success''"
definition status_failure :: string where "status_failure = ''failure''"
definition status_cancelled :: string where "status_cancelled = ''cancelled''"
definition status_suspended :: string where "status_suspended = ''suspended''"
definition status_resumed :: string where "status_resumed = ''resumed''"

definition reason_resume_timeout :: string where "reason_resume_timeout = ''resume_timeout''"

definition run_kind_task :: string where "run_kind_task = ''task''"
definition run_kind_pipeline :: string where "run_kind_pipeline = ''pipeline''"

text \<open>The fire-time context that a suspension carries over, kept in \<open>resume_params\<close>.\<close>

record resume_carry =
  ry_params :: "(string \<times> string) list"
  ry_depth :: int

record run_row =
  rr_id :: run_id
  rr_task :: task_id
  rr_kind :: string
  rr_status :: string
  rr_started :: time
  rr_finished :: "time option"
  rr_parent :: run_id
  rr_source :: string
  rr_return :: string
  rr_ctype :: string
  rr_content :: string
  rr_reason :: string
  rr_group :: string
  rr_root :: "run_id option"
  rr_input_key :: "string option"
  rr_input_size :: "int option"
  rr_input_stored :: "time option"
  rr_input_redacted :: "string list option"
  rr_input_pinned :: bool
  rr_state :: "string option"
  rr_schema :: "string option"
  rr_token :: "string option"
  rr_suspended_at :: "time option"
  rr_deadline :: "time option"
  rr_carry :: "resume_carry option"
  rr_carry_redacted :: "string list option"
  rr_blob_key :: "string option"
  rr_blob_size :: "int option"
  rr_blob_stored :: "time option"

record log_row =
  lg_id :: int
  lg_run :: run_id
  lg_ts :: time
  lg_level :: string
  lg_msg :: string

record run_store =
  st_runs :: "run_row list"
  st_logs :: "log_row list"
  st_next_log :: int

definition new_store :: run_store where
  "new_store = \<lparr>st_runs = [], st_logs = [], st_next_log = 1\<rparr>"

section \<open>Statements\<close>

definition sql_update :: "(run_row \<Rightarrow> bool) \<Rightarrow> (run_row \<Rightarrow> run_row) \<Rightarrow> run_store \<Rightarrow> run_store" where
  "sql_update P f s = s\<lparr>st_runs := map (\<lambda>r. if P r then f r else r) (st_runs s)\<rparr>"

definition sql_affected :: "(run_row \<Rightarrow> bool) \<Rightarrow> run_store \<Rightarrow> nat" where
  "sql_affected P s = length (filter P (st_runs s))"

definition sql_limit :: "int \<Rightarrow> 'a list \<Rightarrow> 'a list" where
  "sql_limit n xs = (if n < 0 then xs else take (nat n) xs)"

definition has_id :: "run_id \<Rightarrow> run_row \<Rightarrow> bool" where
  "has_id i r = (rr_id r = i)"

definition coalesce :: "'a \<Rightarrow> 'a option \<Rightarrow> 'a" where
  "coalesce d x = (case x of None \<Rightarrow> d | Some v \<Rightarrow> v)"

section \<open>Runs\<close>

definition get_run :: "run_id \<Rightarrow> run_store \<Rightarrow> run_row option" where
  "get_run i s = find (has_id i) (st_runs s)"

definition get_root_run_id :: "run_id \<Rightarrow> run_store \<Rightarrow> run_id" where
  "get_root_run_id i s = (case get_run i s of None \<Rightarrow> [] | Some r \<Rightarrow> coalesce [] (rr_root r))"

definition fresh_row :: "time \<Rightarrow> run_id \<Rightarrow> task_id \<Rightarrow> run_id \<Rightarrow> string \<Rightarrow> string \<Rightarrow> run_id \<Rightarrow> run_row" where
  "fresh_row now i task parent source kind root =
     \<lparr>rr_id = i, rr_task = task, rr_kind = kind, rr_status = status_running, rr_started = now, rr_finished = None,
      rr_parent = parent, rr_source = source, rr_return = [], rr_ctype = [], rr_content = [], rr_reason = [],
      rr_group = [], rr_root = Some root,
      rr_input_key = None, rr_input_size = None, rr_input_stored = None, rr_input_redacted = None, rr_input_pinned = False,
      rr_state = None, rr_schema = None, rr_token = None, rr_suspended_at = None, rr_deadline = None,
      rr_carry = None, rr_carry_redacted = None, rr_blob_key = None, rr_blob_size = None, rr_blob_stored = None\<rparr>"

definition start_run_with_id ::
  "time \<Rightarrow> run_id \<Rightarrow> task_id \<Rightarrow> run_id \<Rightarrow> string \<Rightarrow> string \<Rightarrow> run_store \<Rightarrow> run_store option" where
  "start_run_with_id now i task parent source kind s =
     (let kind' = (if kind = [] then run_kind_task else kind);
          root = (if parent = [] then i
                  else (let pr = get_root_run_id parent s in if pr \<noteq> [] then pr else parent))
      in if get_run i s \<noteq> None then None
         else Some (s\<lparr>st_runs := st_runs s @ [fresh_row now i task parent source kind' root]\<rparr>))"

definition set_run_result :: "run_id \<Rightarrow> string \<Rightarrow> string \<Rightarrow> string \<Rightarrow> run_store \<Rightarrow> run_store" where
  "set_run_result i ret ctype content =
     sql_update (has_id i) (\<lambda>r. r\<lparr>rr_return := ret, rr_ctype := ctype, rr_content := content\<rparr>)"

definition finish_run :: "time \<Rightarrow> run_id \<Rightarrow> string \<Rightarrow> run_store \<Rightarrow> run_store" where
  "finish_run now i status = sql_update (has_id i) (\<lambda>r. r\<lparr>rr_status := status, rr_finished := Some now\<rparr>)"

definition finish_run_with_reason :: "time \<Rightarrow> run_id \<Rightarrow> string \<Rightarrow> string \<Rightarrow> run_store \<Rightarrow> run_store" where
  "finish_run_with_reason now i status reason =
     sql_update (has_id i) (\<lambda>r. r\<lparr>rr_status := status, rr_finished := Some now, rr_reason := reason\<rparr>)"

definition finish_run_with_result ::
  "time \<Rightarrow> run_id \<Rightarrow> string \<Rightarrow> string \<Rightarrow> string \<Rightarrow> string \<Rightarrow> run_store \<Rightarrow> run_store" where
  "finish_run_with_result now i status ret ctype content =
     sql_update (has_id i)
       (\<lambda>r. r\<lparr>rr_status := status, rr_finished := Some now, rr_return := ret, rr_ctype := ctype, rr_content := content\<rparr>)"

definition set_run_group :: "run_id \<Rightarrow> string \<Rightarrow> run_store \<Rightarrow> run_store" where
  "set_run_group i g = sql_update (has_id i) (\<lambda>r. r\<lparr>rr_group := g\<rparr>)"

section \<open>Queries\<close>

text \<open>\<open>queryRuns\<close> selects the columns of \<open>runColumns\<close>; the others read as their zero values.\<close>

definition run_columns :: "run_row \<Rightarrow> run_row" where
  "run_columns r = r\<lparr>rr_input_key := None, rr_input_size := None, rr_input_stored := None, rr_input_redacted := None,
     rr_input_pinned := False, rr_state := None, rr_schema := None, rr_token := None, rr_suspended_at := None,
     rr_deadline := None, rr_carry := None, rr_carry_redacted := None, rr_blob_key := None, rr_blob_size := None,
     rr_blob_stored := None\<rparr>"

definition newest_first :: "run_row list \<Rightarrow> run_row list" where
  "newest_first = sort_key (\<lambda>r. - rr_started r)"

definition root_of :: "run_row \<Rightarrow> run_id" where
  "root_of r = coalesce (rr_id r) (rr_root r)"

definition list_runs :: "task_id \<Rightarrow> int \<Rightarrow> run_store \<Rightarrow> run_row list" where
  "list_runs t n s = map run_columns (sql_limit n (newest_first (filter (\<lambda>r. rr_task r = t) (st_runs s))))"

definition list_children :: "run_id \<Rightarrow> int \<Rightarrow> run_store \<Rightarrow> run_row list" where
  "list_children p n s = map run_columns (sql_limit n (newest_first (filter (\<lambda>r. rr_parent r = p) (st_runs s))))"

definition list_by_group :: "task_id \<Rightarrow> string \<Rightarrow> int \<Rightarrow> run_store \<Rightarrow> run_row list" where
  "list_by_group t g n s =
     map run_columns (sql_limit n (newest_first (filter (\<lambda>r. rr_task r = t \<and> rr_group r = g) (st_runs s))))"

definition list_run_group :: "run_id \<Rightarrow> int \<Rightarrow> run_store \<Rightarrow> run_row list" where
  "list_run_group root n s =
     map run_columns (sql_limit n (sort_key rr_started (filter (\<lambda>r. root_of r = root) (st_runs s))))"

section \<open>Logs\<close>

definition insert_log :: "run_id \<Rightarrow> time \<Rightarrow> string \<Rightarrow> string \<Rightarrow> run_store \<Rightarrow> run_store" where
  "insert_log i ts lvl msg s =
     s\<lparr>st_logs := st_logs s @ [\<lparr>lg_id = st_next_log s, lg_run = i, lg_ts = ts, lg_level = lvl, lg_msg = msg\<rparr>],
       st_next_log := st_next_log s + 1\<rparr>"

definition append_log :: "time \<Rightarrow> run_id \<Rightarrow> string \<Rightarrow> string \<Rightarrow> run_store \<Rightarrow> run_store" where
  "append_log now i lvl msg = insert_log i now lvl msg"

text \<open>A pending entry is its run, level, message and the time it was queued at.\<close>

definition bulk_append_logs :: "(run_id \<times> string \<times> string \<times> time) list \<Rightarrow> run_store \<Rightarrow> run_store" where
  "bulk_append_logs es = fold (\<lambda>(i, lvl, msg, ts). insert_log i ts lvl msg) es"

definition get_run_logs_since :: "run_id \<Rightarrow> int \<Rightarrow> run_store \<Rightarrow> log_row list" where
  "get_run_logs_since i n s = sort_key lg_id (filter (\<lambda>l. lg_run l = i \<and> n < lg_id l) (st_logs s))"

definition get_run_logs :: "run_id \<Rightarrow> run_store \<Rightarrow> log_row list" where
  "get_run_logs i s = get_run_logs_since i 0 s"

text \<open>By time, then by id: a stable sort after a sort by id.\<close>

definition get_run_group_logs :: "run_id \<Rightarrow> run_store \<Rightarrow> log_row list" where
  "get_run_group_logs root s =
     sort_key lg_ts (sort_key lg_id
       (filter (\<lambda>l. case get_run (lg_run l) s of None \<Rightarrow> False | Some r \<Rightarrow> root_of r = root) (st_logs s)))"

section \<open>Start-up\<close>

definition cleanup_stale_runs :: "time \<Rightarrow> run_store \<Rightarrow> task_id list \<times> run_store" where
  "cleanup_stale_runs now s =
     (let ids = remdups (map rr_task (filter (\<lambda>r. rr_status r = status_running) (st_runs s)))
      in (ids, if ids = [] then s
               else sql_update (\<lambda>r. rr_status r = status_running)
                      (\<lambda>r. r\<lparr>rr_status := status_cancelled, rr_finished := Some now\<rparr>) s))"

definition sweep_stale_pins :: "run_store \<Rightarrow> nat \<times> run_store" where
  "sweep_stale_pins s =
     (let P = (\<lambda>r. rr_input_pinned r \<and> rr_status r \<noteq> status_running); n = sql_affected P s
      in (n, if n = 0 then s else sql_update P (\<lambda>r. r\<lparr>rr_input_pinned := False\<rparr>) s))"

section \<open>Stored inputs\<close>

definition set_run_input :: "run_id \<Rightarrow> string \<Rightarrow> int \<Rightarrow> time \<Rightarrow> string list \<Rightarrow> run_store \<Rightarrow> run_store" where
  "set_run_input i key sz stored flds =
     sql_update (has_id i)
       (\<lambda>r. r\<lparr>rr_input_key := Some key, rr_input_size := Some sz, rr_input_stored := Some stored,
              rr_input_redacted := Some flds\<rparr>)"

definition input_expired :: "time \<Rightarrow> run_row \<Rightarrow> bool" where
  "input_expired before r =
     (coalesce [] (rr_input_key r) \<noteq> [] \<and> (case rr_input_stored r of None \<Rightarrow> False | Some t \<Rightarrow> t < before) \<and>
      \<not> rr_input_pinned r)"

definition list_expired_inputs :: "time \<Rightarrow> run_store \<Rightarrow> (run_id \<times> string \<times> time) list" where
  "list_expired_inputs before s =
     map (\<lambda>r. (rr_id r, coalesce [] (rr_input_key r), coalesce 0 (rr_input_stored r)))
       (filter (input_expired before) (st_runs s))"

definition clear_input :: "run_row \<Rightarrow> run_row" where
  "clear_input r = r\<lparr>rr_input_key := None, rr_input_size := None, rr_input_stored := None, rr_input_redacted := None\<rparr>"

definition clear_run_input :: "run_id \<Rightarrow> run_store \<Rightarrow> run_store" where
  "clear_run_input i = sql_update (has_id i) clear_input"

definition max_in_clause_vars :: nat where
  "max_in_clause_vars = 500"

function chunk_strings :: "nat \<Rightarrow> 'a list \<Rightarrow> 'a list list" where
  "chunk_strings n xs = (if xs = [] \<or> n = 0 then [] else take n xs # chunk_strings n (drop n xs))"
  by auto
termination by (relation "measure (\<lambda>(n, xs). length xs)") auto

declare chunk_strings.simps [simp del]

text \<open>The keys go into a map, row by row and chunk by chunk.\<close>

definition add_input_key :: "run_row \<Rightarrow> (run_id \<rightharpoonup> string) \<Rightarrow> (run_id \<rightharpoonup> string)" where
  "add_input_key r out =
     (let key = coalesce [] (rr_input_key r) in if key \<noteq> [] then out(rr_id r \<mapsto> key) else out)"

definition get_run_input_keys :: "run_id list \<Rightarrow> run_store \<Rightarrow> (run_id \<rightharpoonup> string)" where
  "get_run_input_keys ids s =
     fold (\<lambda>chunk. fold add_input_key (filter (\<lambda>r. rr_id r \<in> set chunk) (st_runs s)))
       (chunk_strings max_in_clause_vars ids) Map.empty"

definition clear_run_inputs :: "run_id list \<Rightarrow> run_store \<Rightarrow> run_store" where
  "clear_run_inputs ids =
     fold (\<lambda>chunk. sql_update (\<lambda>r. rr_id r \<in> set chunk) clear_input) (chunk_strings max_in_clause_vars ids)"

definition pin_run_input :: "run_id \<Rightarrow> run_store \<Rightarrow> run_store" where
  "pin_run_input i = sql_update (has_id i) (\<lambda>r. r\<lparr>rr_input_pinned := True\<rparr>)"

definition unpin_run_input :: "run_id \<Rightarrow> run_store \<Rightarrow> run_store" where
  "unpin_run_input i = sql_update (has_id i) (\<lambda>r. r\<lparr>rr_input_pinned := False\<rparr>)"

section \<open>Suspension\<close>

record blob_ref =
  br_key :: string
  br_size :: int
  br_stored :: time

definition suspend_run ::
  "run_id \<Rightarrow> string option \<Rightarrow> string option \<Rightarrow> string \<Rightarrow> time \<Rightarrow> time \<Rightarrow> resume_carry option \<Rightarrow> string list \<Rightarrow>
   blob_ref option \<Rightarrow> run_store \<Rightarrow> bool \<times> run_store" where
  "suspend_run i state schema token at deadline carry flds ref s =
     (let P = (\<lambda>r. has_id i r \<and> rr_status r = status_running)
      in (0 < sql_affected P s,
          sql_update P
            (\<lambda>r. r\<lparr>rr_status := status_suspended,
                   rr_state := (if ref = None then state else None), rr_schema := schema, rr_token := Some token,
                   rr_suspended_at := Some at, rr_deadline := (if 0 < deadline then Some deadline else None),
                   rr_carry := carry, rr_carry_redacted := Some flds,
                   rr_blob_key := map_option br_key ref, rr_blob_size := map_option br_size ref,
                   rr_blob_stored := map_option br_stored ref\<rparr>) s))"

definition get_run_by_resume_token :: "string \<Rightarrow> run_store \<Rightarrow> run_row option" where
  "get_run_by_resume_token token s =
     (if token = [] then None else find (\<lambda>r. rr_token r = Some token) (st_runs s))"

definition list_suspended_runs :: "int \<Rightarrow> run_store \<Rightarrow> run_row list" where
  "list_suspended_runs n s =
     sql_limit n (sort_key (\<lambda>r. - coalesce 0 (rr_suspended_at r)) (filter (\<lambda>r. rr_status r = status_suspended) (st_runs s)))"

datatype resume_mark_error = RunNotFound | RunNotSuspended

definition mark_run_resumed :: "time \<Rightarrow> run_id \<Rightarrow> run_store \<Rightarrow> resume_mark_error option \<times> run_store" where
  "mark_run_resumed now i s =
     (let P = (\<lambda>r. has_id i r \<and> rr_status r = status_suspended);
          s' = sql_update P (\<lambda>r. r\<lparr>rr_status := status_resumed, rr_finished := Some now\<rparr>) s
      in if 0 < sql_affected P s then (None, s')
         else if get_run i s' = None then (Some RunNotFound, s')
         else (Some RunNotSuspended, s'))"

definition cancel_suspended_run :: "time \<Rightarrow> run_id \<Rightarrow> string \<Rightarrow> run_store \<Rightarrow> bool \<times> run_store" where
  "cancel_suspended_run now i reason s =
     (let P = (\<lambda>r. has_id i r \<and> rr_status r = status_suspended)
      in (0 < sql_affected P s,
          sql_update P (\<lambda>r. r\<lparr>rr_status := status_cancelled, rr_finished := Some now, rr_reason := reason,
                              rr_token := None\<rparr>) s))"

definition suspension_expired :: "time \<Rightarrow> run_row \<Rightarrow> bool" where
  "suspension_expired now r =
     (rr_status r = status_suspended \<and> (case rr_deadline r of None \<Rightarrow> False | Some d \<Rightarrow> 0 < d \<and> d < now))"

definition sweep_one :: "time \<Rightarrow> run_id \<Rightarrow> run_id list \<times> run_store \<Rightarrow> run_id list \<times> run_store" where
  "sweep_one now i acc =
     (case acc of (out, s) \<Rightarrow>
        (let P = (\<lambda>r. has_id i r \<and> rr_status r = status_suspended)
         in (if 0 < sql_affected P s then out @ [i] else out,
             sql_update P (\<lambda>r. r\<lparr>rr_status := status_cancelled, rr_finished := Some now,
                                 rr_reason := reason_resume_timeout\<rparr>) s)))"

definition sweep_expired_suspensions :: "time \<Rightarrow> run_store \<Rightarrow> run_id list \<times> run_store" where
  "sweep_expired_suspensions now s =
     fold (sweep_one now) (map rr_id (filter (suspension_expired now) (st_runs s))) ([], s)"

section \<open>Blobs of suspended runs\<close>

definition blob_expired :: "time \<Rightarrow> run_row \<Rightarrow> bool" where
  "blob_expired before r =
     (coalesce [] (rr_blob_key r) \<noteq> [] \<and> (case rr_blob_stored r of None \<Rightarrow> False | Some t \<Rightarrow> t < before) \<and>
      rr_status r \<noteq> status_suspended)"

definition list_expired_resume_states :: "time \<Rightarrow> run_store \<Rightarrow> (run_id \<times> string \<times> time) list" where
  "list_expired_resume_states before s =
     map (\<lambda>r. (rr_id r, coalesce [] (rr_blob_key r), coalesce 0 (rr_blob_stored r)))
       (filter (blob_expired before) (st_runs s))"

definition clear_resume_state_blob :: "run_id \<Rightarrow> run_store \<Rightarrow> run_store" where
  "clear_resume_state_blob i =
     sql_update (has_id i) (\<lambda>r. r\<lparr>rr_blob_key := None, rr_blob_size := None, rr_blob_stored := None\<rparr>)"

end
