(* ===== verification/RunSafety.thy ===== *)
theory RunSafety
  imports RunStore
begin

text \<open>
  What the run log guarantees: the life of a row, the single outcome of a suspension, the groups
  of runs that share a root, incremental reading of logs, and that the statements cut into chunks
  do what one statement would.
\<close>

section \<open>Rows\<close>

lemmas status_defs = status_running_def status_success_def status_failure_def status_cancelled_def
  status_suspended_def status_resumed_def

definition row_phase :: "run_row \<Rightarrow> nat" where
  "row_phase r = (if rr_status r = status_running then 0 else if rr_status r = status_suspended then 1 else 2)"

definition row_ok :: "run_row \<Rightarrow> bool" where
  "row_ok r \<longleftrightarrow>
     rr_status r \<in> {status_running, status_success, status_failure, status_cancelled, status_suspended, status_resumed} \<and>
     (rr_finished r = None \<longleftrightarrow> row_phase r < 2) \<and>
     (rr_status r = status_suspended \<longrightarrow> rr_token r \<noteq> None \<and> rr_suspended_at r \<noteq> None)"

definition row_le :: "run_row \<Rightarrow> run_row \<Rightarrow> bool" where
  "row_le r r' \<longleftrightarrow>
     rr_id r' = rr_id r \<and> rr_task r' = rr_task r \<and> rr_kind r' = rr_kind r \<and> rr_started r' = rr_started r \<and>
     rr_parent r' = rr_parent r \<and> rr_source r' = rr_source r \<and> rr_root r' = rr_root r \<and>
     row_phase r \<le> row_phase r'"

lemma row_le_refl [simp]: "row_le r r"
  by (simp add: row_le_def)

lemma row_le_trans: "row_le r r1 \<Longrightarrow> row_le r1 r2 \<Longrightarrow> row_le r r2"
  by (simp add: row_le_def)

lemma row_phase_simps [simp]:
  "rr_status r = status_running \<Longrightarrow> row_phase r = 0"
  "rr_status r = status_suspended \<Longrightarrow> row_phase r = 1"
  by (simp_all add: row_phase_def status_defs)

lemma row_phase_le: "row_phase r \<le> 2"
  by (simp add: row_phase_def)

section \<open>Statements on rows\<close>

lemma find_map_id:
  "(\<And>r. rr_id (g r) = rr_id r) \<Longrightarrow> find (has_id i) (map g rs) = map_option g (find (has_id i) rs)"
  by (induction rs) (auto simp: has_id_def)

lemma get_run_update:
  assumes "\<And>r. rr_id (f r) = rr_id r"
  shows "get_run i (sql_update P f s) = map_option (\<lambda>r. if P r then f r else r) (get_run i s)"
  unfolding get_run_def sql_update_def by (simp add: find_map_id assms)

lemma get_run_Some: "get_run i s = Some r \<Longrightarrow> r \<in> set (st_runs s) \<and> rr_id r = i"
  unfolding get_run_def by (auto simp: find_Some_iff has_id_def)

lemma get_run_mem:
  assumes "distinct (map rr_id (st_runs s))" "r \<in> set (st_runs s)"
  shows "get_run (rr_id r) s = Some r"
proof -
  have "distinct (map rr_id rs) \<Longrightarrow> r \<in> set rs \<Longrightarrow> find (has_id (rr_id r)) rs = Some r" for rs
    by (induction rs) (auto simp: has_id_def)
  with assms show ?thesis by (simp add: get_run_def)
qed

lemma rows_unique:
  "distinct (map rr_id (st_runs s)) \<Longrightarrow> r \<in> set (st_runs s) \<Longrightarrow> r' \<in> set (st_runs s) \<Longrightarrow> rr_id r = rr_id r' \<Longrightarrow> r = r'"
  by (metis distinct_map inj_onD)

lemma get_run_None: "get_run i s = None \<longleftrightarrow> i \<notin> rr_id ` set (st_runs s)"
  by (auto simp: get_run_def find_None_iff has_id_def)

lemma affected_pos: "0 < sql_affected P s \<longleftrightarrow> (\<exists>r \<in> set (st_runs s). P r)"
  by (auto simp: sql_affected_def filter_empty_conv)

definition store_ok :: "run_store \<Rightarrow> bool" where
  "store_ok s \<longleftrightarrow> distinct (map rr_id (st_runs s)) \<and> (\<forall>r \<in> set (st_runs s). row_ok r)"

definition store_le :: "run_store \<Rightarrow> run_store \<Rightarrow> bool" where
  "store_le s s' \<longleftrightarrow> (\<forall>i r. get_run i s = Some r \<longrightarrow> (\<exists>r'. get_run i s' = Some r' \<and> row_le r r'))"

lemma store_le_refl [simp]: "store_le s s"
  by (simp add: store_le_def)

lemma store_le_trans: "store_le s s1 \<Longrightarrow> store_le s1 s2 \<Longrightarrow> store_le s s2"
  unfolding store_le_def by (meson row_le_trans)

text \<open>A statement is harmless when it keeps rows well formed and moves them forward.\<close>

definition harmless :: "(run_row \<Rightarrow> bool) \<Rightarrow> (run_row \<Rightarrow> run_row) \<Rightarrow> bool" where
  "harmless P f \<longleftrightarrow> (\<forall>r. rr_id (f r) = rr_id r) \<and> (\<forall>r. P r \<longrightarrow> row_ok r \<longrightarrow> row_ok (f r) \<and> row_le r (f r))"

definition store_step :: "run_store \<Rightarrow> run_store \<Rightarrow> bool" where
  "store_step s s' \<longleftrightarrow> (store_ok s \<longrightarrow> store_ok s' \<and> store_le s s')"

lemma store_step_refl [simp]: "store_step s s"
  by (simp add: store_step_def)

lemma store_step_trans: "store_step s s1 \<Longrightarrow> store_step s1 s2 \<Longrightarrow> store_step s s2"
  unfolding store_step_def by (meson store_le_trans)

lemma harmless_step:
  assumes "harmless P f"
  shows "store_step s (sql_update P f s)"
  unfolding store_step_def
proof (intro impI conjI)
  assume ok: "store_ok s"
  have id: "rr_id (f r) = rr_id r" for r using assms by (simp add: harmless_def)
  have m: "map rr_id (st_runs (sql_update P f s)) = map rr_id (st_runs s)"
    by (simp add: sql_update_def id)
  have rows: "row_ok (if P r then f r else r) \<and> row_le r (if P r then f r else r)" if "r \<in> set (st_runs s)" for r
    using ok assms that by (auto simp: store_ok_def harmless_def)
  have "distinct (map rr_id (st_runs (sql_update P f s)))" using ok m by (simp only: store_ok_def)
  moreover have "\<forall>r \<in> set (st_runs (sql_update P f s)). row_ok r" using rows unfolding sql_update_def by fastforce
  ultimately show "store_ok (sql_update P f s)" by (simp add: store_ok_def)
  have "get_run i (sql_update P f s) = map_option (\<lambda>r. if P r then f r else r) (get_run i s)" for i
    by (rule get_run_update) (rule id)
  with rows show "store_le s (sql_update P f s)"
    unfolding store_le_def using get_run_Some by fastforce
qed

lemma harmless_running_or_finish:
  "status \<in> {status_success, status_failure, status_cancelled} \<Longrightarrow>
   harmless (has_id i) (\<lambda>r. r\<lparr>rr_status := status, rr_finished := Some now\<rparr>)"
  "status \<in> {status_success, status_failure, status_cancelled} \<Longrightarrow>
   harmless (has_id i) (\<lambda>r. r\<lparr>rr_status := status, rr_finished := Some now, rr_reason := reason\<rparr>)"
  "status \<in> {status_success, status_failure, status_cancelled} \<Longrightarrow>
   harmless (has_id i) (\<lambda>r. r\<lparr>rr_status := status, rr_finished := Some now, rr_return := ret, rr_ctype := ct, rr_content := co\<rparr>)"
  by (auto simp: harmless_def row_ok_def row_le_def row_phase_def status_defs)

lemma harmless_cancel:
  "harmless (\<lambda>r. rr_status r = status_running) (\<lambda>r. r\<lparr>rr_status := status_cancelled, rr_finished := Some now\<rparr>)"
  "harmless (\<lambda>r. has_id i r \<and> rr_status r = status_suspended)
     (\<lambda>r. r\<lparr>rr_status := status_cancelled, rr_finished := Some now, rr_reason := reason, rr_token := None\<rparr>)"
  "harmless (\<lambda>r. has_id i r \<and> rr_status r = status_suspended)
     (\<lambda>r. r\<lparr>rr_status := status_cancelled, rr_finished := Some now, rr_reason := reason\<rparr>)"
  "harmless (\<lambda>r. has_id i r \<and> rr_status r = status_suspended)
     (\<lambda>r. r\<lparr>rr_status := status_resumed, rr_finished := Some now\<rparr>)"
  by (auto simp: harmless_def row_ok_def row_le_def row_phase_def status_defs)

lemma harmless_columns:
  "harmless P (\<lambda>r. r\<lparr>rr_return := ret, rr_ctype := ct, rr_content := co\<rparr>)"
  "harmless P (\<lambda>r. r\<lparr>rr_group := g\<rparr>)"
  "harmless P (\<lambda>r. r\<lparr>rr_input_pinned := b\<rparr>)"
  "harmless P (\<lambda>r. r\<lparr>rr_input_key := k, rr_input_size := sz, rr_input_stored := st, rr_input_redacted := fs\<rparr>)"
  "harmless P clear_input"
  "harmless P (\<lambda>r. r\<lparr>rr_blob_key := bk, rr_blob_size := bs, rr_blob_stored := bt\<rparr>)"
  by (auto simp: harmless_def row_ok_def row_le_def row_phase_def clear_input_def)

lemma harmless_suspend:
  "harmless (\<lambda>r. has_id i r \<and> rr_status r = status_running)
     (\<lambda>r. r\<lparr>rr_status := status_suspended, rr_state := sta, rr_schema := sc, rr_token := Some t, rr_suspended_at := Some a,
            rr_deadline := d, rr_carry := c, rr_carry_redacted := fs, rr_blob_key := bk, rr_blob_size := bs,
            rr_blob_stored := bt\<rparr>)"
  by (auto simp: harmless_def row_ok_def row_le_def row_phase_def status_defs)

section \<open>Sequences of operations\<close>

datatype run_op =
    StartRun time run_id task_id run_id string string
  | SetResult run_id string string string
  | Finish time run_id string
  | FinishReason time run_id string string
  | FinishResult time run_id string string string string
  | SetGroup run_id string
  | AppendLog time run_id string string
  | BulkLogs "(run_id \<times> string \<times> string \<times> time) list"
  | CleanupStale time
  | SweepPins
  | SetInput run_id string int time "string list"
  | ClearInput run_id
  | ClearInputs "run_id list"
  | PinInput run_id
  | UnpinInput run_id
  | Suspend run_id "string option" "string option" string time time "resume_carry option" "string list" "blob_ref option"
  | MarkResumed time run_id
  | CancelSuspended time run_id string
  | SweepExpired time
  | ClearBlob run_id

fun run_exec :: "run_op \<Rightarrow> run_store \<Rightarrow> run_store" where
  "run_exec (StartRun now i t p src k) s = (case start_run_with_id now i t p src k s of None \<Rightarrow> s | Some s' \<Rightarrow> s')"
| "run_exec (SetResult i ret ct co) s = set_run_result i ret ct co s"
| "run_exec (Finish now i status) s = finish_run now i status s"
| "run_exec (FinishReason now i status reason) s = finish_run_with_reason now i status reason s"
| "run_exec (FinishResult now i status ret ct co) s = finish_run_with_result now i status ret ct co s"
| "run_exec (SetGroup i g) s = set_run_group i g s"
| "run_exec (AppendLog now i lvl msg) s = append_log now i lvl msg s"
| "run_exec (BulkLogs es) s = bulk_append_logs es s"
| "run_exec (CleanupStale now) s = snd (cleanup_stale_runs now s)"
| "run_exec SweepPins s = snd (sweep_stale_pins s)"
| "run_exec (SetInput i key sz st fs) s = set_run_input i key sz st fs s"
| "run_exec (ClearInput i) s = clear_run_input i s"
| "run_exec (ClearInputs ids) s = clear_run_inputs ids s"
| "run_exec (PinInput i) s = pin_run_input i s"
| "run_exec (UnpinInput i) s = unpin_run_input i s"
| "run_exec (Suspend i sta sc tok at dl ca fs ref) s = snd (suspend_run i sta sc tok at dl ca fs ref s)"
| "run_exec (MarkResumed now i) s = snd (mark_run_resumed now i s)"
| "run_exec (CancelSuspended now i reason) s = snd (cancel_suspended_run now i reason s)"
| "run_exec (SweepExpired now) s = snd (sweep_expired_suspensions now s)"
| "run_exec (ClearBlob i) s = clear_resume_state_blob i s"

text \<open>The engine finishes runs with one of the three statuses of a finished body.\<close>

fun op_ok :: "run_op \<Rightarrow> bool" where
  "op_ok (Finish now i status) = (status \<in> {status_success, status_failure, status_cancelled})"
| "op_ok (FinishReason now i status reason) = (status \<in> {status_success, status_failure, status_cancelled})"
| "op_ok (FinishResult now i status ret ct co) = (status \<in> {status_success, status_failure, status_cancelled})"
| "op_ok _ = True"

definition run_ops :: "run_op list \<Rightarrow> run_store \<Rightarrow> run_store" where
  "run_ops ops = fold run_exec ops"

lemma fold_steps: "(\<And>x s. x \<in> set xs \<Longrightarrow> store_step s (f x s)) \<Longrightarrow> store_step s (fold f xs s)"
proof (induction xs arbitrary: s)
  case (Cons x xs)
  from Cons.prems [of x s] have "store_step s (f x s)" by simp
  moreover have "store_step (f x s) (fold f xs (f x s))" using Cons by simp
  ultimately show ?case by (simp add: store_step_trans)
qed simp

lemma logs_step: "st_runs s' = st_runs s \<Longrightarrow> store_step s s'"
  by (auto simp: store_step_def store_ok_def store_le_def get_run_def)

lemma insert_log_runs [simp]: "st_runs (insert_log i ts lvl msg s) = st_runs s"
  by (simp add: insert_log_def)

lemma bulk_runs: "st_runs (bulk_append_logs es s) = st_runs s"
  by (induction es arbitrary: s) (auto simp: bulk_append_logs_def)

lemma start_step: "start_run_with_id now i t p src k s = Some s' \<Longrightarrow> store_step s s'"
proof -
  assume a: "start_run_with_id now i t p src k s = Some s'"
  then obtain row where s': "s' = s\<lparr>st_runs := st_runs s @ [row]\<rparr>" and row: "rr_id row = i" "row_ok row"
    and new: "get_run i s = None"
    by (auto simp: start_run_with_id_def Let_def fresh_row_def row_ok_def row_phase_def status_defs split: if_splits)
  have "find (has_id j) rs = Some r \<Longrightarrow> find (has_id j) (rs @ [row]) = Some r" for j r rs
    by (induction rs) (auto split: if_splits)
  then have "get_run j s = Some r \<Longrightarrow> get_run j s' = Some r" for j r
    by (simp add: get_run_def s')
  moreover have "store_ok s \<Longrightarrow> store_ok s'"
    using new row by (auto simp: store_ok_def s' get_run_None)
  ultimately show ?thesis by (auto simp: store_step_def store_le_def)
qed

lemma sweep_one_snd: "snd (sweep_one now i acc) =
    sql_update (\<lambda>r. has_id i r \<and> rr_status r = status_suspended)
      (\<lambda>r. r\<lparr>rr_status := status_cancelled, rr_finished := Some now, rr_reason := reason_resume_timeout\<rparr>) (snd acc)"
  by (simp add: sweep_one_def Let_def split: prod.splits)

lemma sweep_step: "store_step s (snd (sweep_expired_suspensions now s))"
proof -
  have "store_step s (snd (fold (sweep_one now) is (out, s)))" for "is" out s
  proof (induction "is" arbitrary: out s)
    case (Cons i "is")
    obtain out1 s1 where o1: "sweep_one now i (out, s) = (out1, s1)" by fastforce
    then have "s1 = snd (sweep_one now i (out, s))" by simp
    then have "store_step s s1" unfolding sweep_one_snd using harmless_step [OF harmless_cancel(3)] by simp
    with Cons [of s1 out1] o1 show ?case by (simp add: store_step_trans)
  qed simp
  then show ?thesis by (simp add: sweep_expired_suspensions_def)
qed

lemma exec_step: "op_ok x \<Longrightarrow> store_step s (run_exec x s)"
proof (cases x)
  case (StartRun now i t p src k)
  then show ?thesis by (cases "start_run_with_id now i t p src k s") (auto intro: start_step)
next
  case (ClearInputs ids)
  have "store_step s (clear_run_inputs ids s)"
    unfolding clear_run_inputs_def by (intro fold_steps harmless_step harmless_columns)
  with ClearInputs show ?thesis by simp
next
  case (SweepExpired now)
  then show ?thesis using sweep_step by simp
next
  case (BulkLogs es)
  then show ?thesis by (simp add: logs_step bulk_runs)
next
  case (AppendLog now i lvl msg)
  then show ?thesis by (simp add: logs_step append_log_def)
next
  case (Suspend i sta sc tok at dl ca fs ref)
  have "store_step s (snd (suspend_run i sta sc tok at dl ca fs ref s))"
    unfolding suspend_run_def Let_def snd_conv by (intro harmless_step harmless_suspend)
  with Suspend show ?thesis by simp
next
  case (SweepPins)
  then show ?thesis by (simp add: sweep_stale_pins_def Let_def harmless_step harmless_columns)
next
  case (CleanupStale now)
  then show ?thesis by (simp add: cleanup_stale_runs_def Let_def harmless_step harmless_cancel)
next
  case (MarkResumed now i)
  then show ?thesis by (simp add: mark_run_resumed_def Let_def harmless_step harmless_cancel)
qed (simp_all add: set_run_result_def finish_run_def finish_run_with_reason_def finish_run_with_result_def
    set_run_group_def set_run_input_def clear_run_input_def pin_run_input_def unpin_run_input_def
    cancel_suspended_run_def clear_resume_state_blob_def Let_def
    harmless_step harmless_running_or_finish harmless_cancel harmless_columns)

lemma ops_step: "list_all op_ok ops \<Longrightarrow> store_step s (run_ops ops s)"
  unfolding run_ops_def by (rule fold_steps) (auto simp: list_all_iff intro: exec_step)

lemma store_ok_new: "store_ok new_store"
  by (simp add: store_ok_def new_store_def)

lemma run_ops_ok: "list_all op_ok ops \<Longrightarrow> store_ok (run_ops ops new_store)"
  using ops_step store_ok_new by (auto simp: store_step_def)

text \<open>C21. The life of a run, under any sequence of the statements the registry issues. A row is running or
  suspended exactly while it has no finish time, and a suspended row has a resume token. A row
  only moves forward, from running over suspended to a final status: nothing sets a run running
  again, a run that left \<open>suspended\<close> is never suspended again, and its task, parent, source,
  start and root never change. Two rows never share an id.\<close>

theorem run_rows_move_forward:
  "list_all op_ok ops \<and> list_all op_ok later \<and> s = run_ops ops new_store \<and> get_run i s = Some r \<longrightarrow>
     (rr_finished r = None \<longleftrightarrow> rr_status r = status_running \<or> rr_status r = status_suspended) \<and>
     (rr_status r = status_suspended \<longrightarrow> rr_token r \<noteq> None) \<and>
     distinct (map rr_id (st_runs s)) \<and>
     (\<exists>r'. get_run i (run_ops later s) = Some r' \<and>
        rr_task r' = rr_task r \<and> rr_parent r' = rr_parent r \<and> rr_source r' = rr_source r \<and>
        rr_started r' = rr_started r \<and> rr_root r' = rr_root r \<and>
        (rr_status r' = status_running \<longrightarrow> rr_status r = status_running) \<and>
        (rr_status r' = status_suspended \<longrightarrow> rr_status r = status_running \<or> rr_status r = status_suspended))"
proof (intro impI, elim conjE)
  assume a: "list_all op_ok ops" "list_all op_ok later" "s = run_ops ops new_store" "get_run i s = Some r"
  have ok: "store_ok s" using a(1,3) run_ops_ok by simp
  with a(4) have rok: "row_ok r" using get_run_Some by (auto simp: store_ok_def)
  from ops_step [OF a(2)] ok have "store_le s (run_ops later s)" by (simp add: store_step_def)
  with a(4) obtain r' where r': "get_run i (run_ops later s) = Some r'" "row_le r r'" by (auto simp: store_le_def)
  have "rr_status r' = status_running \<longrightarrow> rr_status r = status_running"
    "rr_status r' = status_suspended \<longrightarrow> rr_status r = status_running \<or> rr_status r = status_suspended"
    using r'(2) by (auto simp: row_le_def row_phase_def status_defs split: if_splits)
  moreover have "rr_finished r = None \<longleftrightarrow> rr_status r = status_running \<or> rr_status r = status_suspended"
    "rr_status r = status_suspended \<longrightarrow> rr_token r \<noteq> None"
    using rok by (auto simp: row_ok_def row_phase_def split: if_splits)
  ultimately show "(rr_finished r = None \<longleftrightarrow> rr_status r = status_running \<or> rr_status r = status_suspended) \<and>
     (rr_status r = status_suspended \<longrightarrow> rr_token r \<noteq> None) \<and>
     distinct (map rr_id (st_runs s)) \<and>
     (\<exists>r'. get_run i (run_ops later s) = Some r' \<and>
        rr_task r' = rr_task r \<and> rr_parent r' = rr_parent r \<and> rr_source r' = rr_source r \<and>
        rr_started r' = rr_started r \<and> rr_root r' = rr_root r \<and>
        (rr_status r' = status_running \<longrightarrow> rr_status r = status_running) \<and>
        (rr_status r' = status_suspended \<longrightarrow> rr_status r = status_running \<or> rr_status r = status_suspended))"
    using ok r' by (auto simp: store_ok_def row_le_def)
qed

text \<open>A run that suspends and is resumed.\<close>

definition ex_suspending :: "run_op list" where
  "ex_suspending = [StartRun 10 ''r1'' ''t'' [] ''manual'' [],
     Suspend ''r1'' (Some ''s'') None ''tok'' 20 100 None [] None]"

lemma ex_suspending_row:
  "st_runs (run_ops ex_suspending new_store) =
     [(fresh_row 10 ''r1'' ''t'' [] ''manual'' ''task'' ''r1'')\<lparr>rr_status := status_suspended, rr_state := Some ''s'',
        rr_token := Some ''tok'', rr_suspended_at := Some 20, rr_deadline := Some 100, rr_carry_redacted := Some []\<rparr>]"
  by (simp add: run_ops_def ex_suspending_def start_run_with_id_def get_run_def new_store_def suspend_run_def Let_def
      sql_update_def has_id_def fresh_row_def run_kind_task_def)

theorem run_rows_move_forward_witness:
  "\<exists>r r'. get_run ''r1'' (run_ops ex_suspending new_store) = Some r \<and> rr_status r = status_suspended \<and>
     get_run ''r1'' (run_ops [MarkResumed 30 ''r1''] (run_ops ex_suspending new_store)) = Some r' \<and> rr_status r' \<noteq> status_running"
proof -
  let ?s = "run_ops ex_suspending new_store"
  obtain r where r: "get_run ''r1'' ?s = Some r" "rr_status r = status_suspended"
    by (simp add: get_run_def ex_suspending_row has_id_def fresh_row_def)
  have "list_all op_ok ex_suspending" "list_all op_ok [MarkResumed 30 ''r1'']" by (simp_all add: ex_suspending_def)
  with run_rows_move_forward [of ex_suspending "[MarkResumed 30 ''r1'']" ?s "''r1''" r] r
  show ?thesis by (auto simp: status_defs)
qed

section \<open>The outcome of a suspension\<close>

lemma update_none: "(\<And>r. r \<in> set (st_runs s) \<Longrightarrow> \<not> P r) \<Longrightarrow> sql_update P f s = s"
  by (simp add: sql_update_def map_idI)

lemma update_update:
  "(\<And>r. Q r \<Longrightarrow> \<not> P (f r)) \<Longrightarrow> sql_update P f (sql_update Q f s) = sql_update (\<lambda>r. Q r \<or> P r) f s"
  by (auto simp: sql_update_def)

lemma update_cong: "(\<And>r. r \<in> set (st_runs s) \<Longrightarrow> P r = Q r) \<Longrightarrow> sql_update P f s = sql_update Q f s"
  by (auto simp: sql_update_def)

abbreviation timed_out :: "time \<Rightarrow> run_row \<Rightarrow> run_row" where
  "timed_out now r \<equiv> r\<lparr>rr_status := status_cancelled, rr_finished := Some now, rr_reason := reason_resume_timeout\<rparr>"

text \<open>The sweep in one statement.\<close>

lemma sweep_fold:
  assumes "distinct is" "store_ok s"
    "\<And>i. i \<in> set is \<Longrightarrow> \<exists>r. get_run i s = Some r \<and> rr_status r = status_suspended"
  shows "fold (sweep_one now) is (out, s) =
    (out @ is, sql_update (\<lambda>r. rr_id r \<in> set is \<and> rr_status r = status_suspended) (timed_out now) s)"
  using assms
proof (induction "is" arbitrary: out s)
  case Nil
  then show ?case by (simp add: update_none)
next
  case (Cons i "is")
  let ?P = "\<lambda>r. has_id i r \<and> rr_status r = status_suspended"
  let ?s1 = "sql_update ?P (timed_out now) s"
  obtain r where "get_run i s = Some r" "rr_status r = status_suspended" using Cons.prems(3) [of i] by auto
  then have "0 < sql_affected ?P s" unfolding affected_pos using get_run_Some by (fastforce simp: has_id_def)
  then have step: "sweep_one now i (out, s) = (out @ [i], ?s1)" by (simp add: sweep_one_def Let_def)
  have ok1: "store_ok ?s1" using harmless_step [OF harmless_cancel(3)] Cons.prems(2) by (simp add: store_step_def)
  have "\<exists>r. get_run j ?s1 = Some r \<and> rr_status r = status_suspended" if "j \<in> set is" for j
  proof -
    have "j \<noteq> i" using that Cons.prems(1) by auto
    have "j \<in> set (i # is)" using that by simp
    from Cons.prems(3) [OF this] obtain r where r: "get_run j s = Some r" "rr_status r = status_suspended" by blast
    then have "rr_id r = j" using get_run_Some by blast
    with r \<open>j \<noteq> i\<close> show ?thesis by (simp add: get_run_update has_id_def)
  qed
  from Cons.IH [OF _ ok1 this] Cons.prems(1) step
  have "fold (sweep_one now) (i # is) (out, s) =
      (out @ i # is, sql_update (\<lambda>r. rr_id r \<in> set is \<and> rr_status r = status_suspended) (timed_out now) ?s1)"
    by simp
  also have "sql_update (\<lambda>r. rr_id r \<in> set is \<and> rr_status r = status_suspended) (timed_out now) ?s1 =
      sql_update (\<lambda>r. rr_id r \<in> set (i # is) \<and> rr_status r = status_suspended) (timed_out now) s"
    by (subst update_update) (auto simp: status_defs has_id_def intro!: update_cong)
  finally show ?case .
qed

lemma sweep_is_one_update:
  assumes "store_ok s"
  shows "sweep_expired_suspensions now s =
    (map rr_id (filter (suspension_expired now) (st_runs s)), sql_update (suspension_expired now) (timed_out now) s)"
proof -
  let ?is = "map rr_id (filter (suspension_expired now) (st_runs s))"
  have d: "distinct (map rr_id (st_runs s))" using assms by (simp add: store_ok_def)
  have "distinct ?is" using d by (simp add: distinct_map_filter)
  moreover have "\<exists>r. get_run i s = Some r \<and> rr_status r = status_suspended" if "i \<in> set ?is" for i
    using that get_run_mem [OF d] by (auto simp: suspension_expired_def)
  ultimately have f: "fold (sweep_one now) ?is ([], s) =
    (?is, sql_update (\<lambda>r. rr_id r \<in> set ?is \<and> rr_status r = status_suspended) (timed_out now) s)"
    using sweep_fold [OF _ assms, of ?is now "[]"] by simp
  have "rr_id r \<in> set ?is \<and> rr_status r = status_suspended \<longleftrightarrow> suspension_expired now r"
    if "r \<in> set (st_runs s)" for r
  proof -
    have eq: "r' = r" if "r' \<in> set (st_runs s)" "rr_id r' = rr_id r" for r'
      by (rule rows_unique [OF d that(1) \<open>r \<in> set (st_runs s)\<close> that(2)])
    have "rr_id r \<in> set ?is \<longleftrightarrow> suspension_expired now r"
    proof
      assume "rr_id r \<in> set ?is"
      then obtain r' where "r' \<in> set (st_runs s)" "suspension_expired now r'" "rr_id r' = rr_id r" by auto
      with eq show "suspension_expired now r" by blast
    next
      assume "suspension_expired now r"
      with that show "rr_id r \<in> set ?is" by (simp add: image_iff) blast
    qed
    moreover have "suspension_expired now r \<Longrightarrow> rr_status r = status_suspended" by (simp add: suspension_expired_def)
    ultimately show ?thesis by blast
  qed
  then have "sql_update (\<lambda>r. rr_id r \<in> set ?is \<and> rr_status r = status_suspended) (timed_out now) s =
      sql_update (suspension_expired now) (timed_out now) s"
    by (rule update_cong)
  then show ?thesis by (simp only: sweep_expired_suspensions_def f)
qed

text \<open>A suspension ends by one of three statements; \<open>consumes\<close> says that one of them took it.\<close>

definition consumes :: "run_id \<Rightarrow> run_store \<Rightarrow> run_store \<Rightarrow> bool" where
  "consumes i s s' \<longleftrightarrow>
     (\<exists>now. mark_run_resumed now i s = (None, s')) \<or>
     (\<exists>now reason. cancel_suspended_run now i reason s = (True, s')) \<or>
     (\<exists>now ids. sweep_expired_suspensions now s = (ids, s') \<and> i \<in> set ids)"

lemma consumes_closes:
  assumes "store_ok s" "consumes i s s'"
  shows "store_ok s' \<and> (\<exists>r. get_run i s' = Some r \<and> row_phase r = 2)"
proof -
  have d: "distinct (map rr_id (st_runs s))" using assms(1) by (simp add: store_ok_def)
  let ?P = "\<lambda>r. has_id i r \<and> rr_status r = status_suspended"
  have upd: "store_ok (sql_update Q f s) \<and> (\<exists>r. get_run i (sql_update Q f s) = Some r \<and> row_phase r = 2)"
    if "harmless Q f" "r0 \<in> set (st_runs s)" "rr_id r0 = i" "Q r0" "row_phase (f r0) = 2" for Q f r0
  proof -
    have "store_ok (sql_update Q f s)" using harmless_step [OF that(1)] assms(1) by (simp add: store_step_def)
    moreover have "get_run i (sql_update Q f s) = Some (f r0)"
      using get_run_update [of f i Q s] that get_run_mem [OF d that(2)] by (simp add: harmless_def)
    ultimately show ?thesis using that(5) by blast
  qed
  from assms(2) consider
      (resume) now where "mark_run_resumed now i s = (None, s')"
    | (cancel) now reason where "cancel_suspended_run now i reason s = (True, s')"
    | (sweep) now ids where "sweep_expired_suspensions now s = (ids, s')" "i \<in> set ids"
    unfolding consumes_def by blast
  then show ?thesis
  proof cases
    case resume
    then have "0 < sql_affected ?P s" and s': "s' = sql_update ?P (\<lambda>r. r\<lparr>rr_status := status_resumed, rr_finished := Some now\<rparr>) s"
      by (auto simp: mark_run_resumed_def Let_def split: if_splits)
    then obtain r0 where "r0 \<in> set (st_runs s)" "?P r0" by (auto simp: affected_pos)
    with upd [OF harmless_cancel(4) [where i = i and now = now]] show ?thesis
      unfolding s' by (fastforce simp: has_id_def row_phase_def status_defs)
  next
    case cancel
    then have "0 < sql_affected ?P s" and s': "s' = sql_update ?P
        (\<lambda>r. r\<lparr>rr_status := status_cancelled, rr_finished := Some now, rr_reason := reason, rr_token := None\<rparr>) s"
      by (auto simp: cancel_suspended_run_def Let_def)
    then obtain r0 where "r0 \<in> set (st_runs s)" "?P r0" by (auto simp: affected_pos)
    with upd [OF harmless_cancel(2) [where i = i and now = now and reason = reason]] show ?thesis
      unfolding s' by (fastforce simp: has_id_def row_phase_def status_defs)
  next
    case sweep
    with sweep_is_one_update [OF assms(1), of now]
    have s': "s' = sql_update (suspension_expired now) (timed_out now) s" and "i \<in> set (map rr_id (filter (suspension_expired now) (st_runs s)))"
      by auto
    then obtain r0 where r0: "r0 \<in> set (st_runs s)" "rr_id r0 = i" "suspension_expired now r0" by auto
    have "harmless (suspension_expired now) (timed_out now)"
      by (auto simp: harmless_def row_ok_def row_le_def row_phase_def status_defs suspension_expired_def)
    from upd [OF this r0] show ?thesis unfolding s' by (simp add: row_phase_def status_defs)
  qed
qed

text \<open>C22. A suspension has one outcome. Once a run was resumed, cancelled as a pipeline stage or timed out by
  the sweep, then after any further statements none of the three takes it again, it cannot be
  suspended again, and no token leads to a suspended run of that id.\<close>

theorem suspension_has_one_outcome:
  "list_all op_ok ops \<and> list_all op_ok later \<and> s = run_ops ops new_store \<and> consumes i s s1 \<and> s2 = run_ops later s1 \<longrightarrow>
     (\<forall>s3. \<not> consumes i s2 s3) \<and> mark_run_resumed now i s2 = (Some RunNotSuspended, s2) \<and>
     \<not> fst (suspend_run i sta sc tok at dl ca fs ref s2) \<and>
     (\<forall>t r. get_run_by_resume_token t s2 = Some r \<and> rr_id r = i \<longrightarrow> rr_status r \<noteq> status_suspended)"
proof (intro impI, elim conjE)
  assume a: "list_all op_ok ops" "list_all op_ok later" "s = run_ops ops new_store" "consumes i s s1" "s2 = run_ops later s1"
  from a(1,3) have ok: "store_ok s" using run_ops_ok by simp
  from consumes_closes [OF ok a(4)] obtain r1 where ok1: "store_ok s1" and r1: "get_run i s1 = Some r1" "row_phase r1 = 2"
    by blast
  from ops_step [OF a(2)] ok1 a(5) have ok2: "store_ok s2" and "store_le s1 s2" by (auto simp: store_step_def)
  with r1 obtain r2 where r2: "get_run i s2 = Some r2" "row_le r1 r2" by (auto simp: store_le_def)
  then have r2: "get_run i s2 = Some r2" "row_phase r2 = 2"
    using r1(2) row_phase_le [of r2] by (simp_all add: row_le_def)
  have d: "distinct (map rr_id (st_runs s2))" using ok2 by (simp add: store_ok_def)
  have ph: "row_phase r = 2" if "r \<in> set (st_runs s2)" "rr_id r = i" for r
    using get_run_mem [OF d that(1)] that(2) r2 by simp
  have no: "\<not> (has_id i r \<and> rr_status r = status_suspended)" "\<not> (has_id i r \<and> rr_status r = status_running)"
    if "r \<in> set (st_runs s2)" for r
    using ph [OF that] by (auto simp: has_id_def)
  have mark: "mark_run_resumed n i s2 = (Some RunNotSuspended, s2)" for n
    using no(1) r2 by (auto simp: mark_run_resumed_def Let_def affected_pos update_none)
  have sweep: "i \<notin> set ids" if "sweep_expired_suspensions n s2 = (ids, s3)" for n ids s3
    using that sweep_is_one_update [OF ok2, of n] no(1) by (auto simp: suspension_expired_def has_id_def)
  have cancel: "\<not> fst (cancel_suspended_run n i reason s2)" for n reason
    using no(1) by (auto simp: cancel_suspended_run_def Let_def affected_pos)
  have "\<not> consumes i s2 s3" for s3
    unfolding consumes_def using sweep cancel by (auto simp: mark) (metis fst_conv)
  moreover have "\<not> fst (suspend_run i sta sc tok at dl ca fs ref s2)"
    using no(2) by (auto simp: suspend_run_def Let_def affected_pos)
  moreover have "rr_status r \<noteq> status_suspended" if "get_run_by_resume_token t s2 = Some r" "rr_id r = i" for t r
    using that ph [of r] by (auto simp: get_run_by_resume_token_def find_Some_iff split: if_splits)
  ultimately show "(\<forall>s3. \<not> consumes i s2 s3) \<and> mark_run_resumed now i s2 = (Some RunNotSuspended, s2) \<and>
     \<not> fst (suspend_run i sta sc tok at dl ca fs ref s2) \<and>
     (\<forall>t r. get_run_by_resume_token t s2 = Some r \<and> rr_id r = i \<longrightarrow> rr_status r \<noteq> status_suspended)"
    using mark by blast
qed

theorem suspension_has_one_outcome_witness:
  "let s = run_ops ex_suspending new_store; s1 = snd (mark_run_resumed 30 ''r1'' s)
   in fst (mark_run_resumed 30 ''r1'' s) = None \<and> mark_run_resumed 40 ''r1'' s1 = (Some RunNotSuspended, s1)"
proof -
  let ?s = "run_ops ex_suspending new_store"
  have f: "fst (mark_run_resumed 30 ''r1'' ?s) = None"
    by (simp add: mark_run_resumed_def Let_def affected_pos ex_suspending_row has_id_def fresh_row_def)
  then have "consumes ''r1'' ?s (snd (mark_run_resumed 30 ''r1'' ?s))"
    unfolding consumes_def by (metis prod.collapse)
  with suspension_has_one_outcome [of ex_suspending "[]" ?s "''r1''" "snd (mark_run_resumed 30 ''r1'' ?s)"
      "snd (mark_run_resumed 30 ''r1'' ?s)" 40] f
  show ?thesis by (simp add: run_ops_def ex_suspending_def Let_def)
qed

section \<open>Runs that share a root\<close>

text \<open>What a row says about its place in the tree of runs, and the relation from child to parent.\<close>

definition places :: "run_store \<Rightarrow> (run_id \<times> run_id \<times> run_id option) set" where
  "places s = (\<lambda>r. (rr_id r, rr_parent r, rr_root r)) ` set (st_runs s)"

definition run_parents :: "run_store \<Rightarrow> (run_id \<times> run_id) set" where
  "run_parents s = {(i, p). p \<noteq> [] \<and> (\<exists>x. (i, p, x) \<in> places s)}"

text \<open>A run is started with a parent that exists, or none.\<close>

fun rooted :: "run_op \<Rightarrow> run_store \<Rightarrow> bool" where
  "rooted (StartRun now i t p src k) s = (i \<noteq> [] \<and> (p = [] \<or> get_run p s \<noteq> None))"
| "rooted _ s = True"

inductive run_reach :: "run_store \<Rightarrow> bool" where
  start: "run_reach new_store"
| step: "run_reach s \<Longrightarrow> op_ok x \<Longrightarrow> rooted x s \<Longrightarrow> run_reach (run_exec x s)"

definition place_inv :: "run_store \<Rightarrow> bool" where
  "place_inv s \<longleftrightarrow>
     (\<forall>i p x. (i, p, x) \<in> places s \<longrightarrow>
        i \<noteq> [] \<and>
        (\<exists>y. x = Some y \<and> y \<noteq> [] \<and> (i, y) \<in> (run_parents s)\<^sup>* \<and> (\<exists>z. (y, [], z) \<in> places s)) \<and>
        (p = [] \<longrightarrow> x = Some i) \<and> (p \<noteq> [] \<longrightarrow> (\<exists>pp. (p, pp, x) \<in> places s)))"

lemma places_unique: "store_ok s \<Longrightarrow> (i, p, x) \<in> places s \<Longrightarrow> (i, p', x') \<in> places s \<Longrightarrow> p = p' \<and> x = x'"
  by (auto simp: places_def store_ok_def dest: rows_unique)

lemma length_update [simp]: "length (st_runs (sql_update P f s)) = length (st_runs s)"
  by (simp add: sql_update_def)

lemma exec_length: "\<not> (\<exists>now i t p src k. x = StartRun now i t p src k) \<Longrightarrow> length (st_runs (run_exec x s)) = length (st_runs s)"
proof (cases x)
  case (ClearInputs ids)
  have "length (st_runs (fold (\<lambda>c. sql_update (\<lambda>r. rr_id r \<in> set c) clear_input) cs s)) = length (st_runs s)" for cs
    by (induction cs arbitrary: s) simp_all
  with ClearInputs show ?thesis by (simp add: clear_run_inputs_def)
next
  case (SweepExpired now)
  have "length (st_runs (snd (fold (sweep_one now) is acc))) = length (st_runs (snd acc))" for "is" acc
    by (induction "is" arbitrary: acc) (simp_all add: sweep_one_snd)
  with SweepExpired show ?thesis by (simp add: sweep_expired_suspensions_def)
qed (simp_all add: set_run_result_def finish_run_def finish_run_with_reason_def finish_run_with_result_def bulk_runs
    append_log_def cleanup_stale_runs_def sweep_stale_pins_def suspend_run_def mark_run_resumed_def
    set_run_group_def set_run_input_def clear_run_input_def pin_run_input_def unpin_run_input_def
    cancel_suspended_run_def clear_resume_state_blob_def Let_def)

lemma places_le:
  assumes "store_ok s" "store_ok s'" "store_le s s'" "length (st_runs s') = length (st_runs s)"
  shows "places s' = places s"
proof -
  have d: "distinct (map rr_id (st_runs s))" "distinct (map rr_id (st_runs s'))"
    using assms by (simp_all add: store_ok_def)
  have inj: "inj_on (\<lambda>r. (rr_id r, rr_parent r, rr_root r)) (set (st_runs t))" if "distinct (map rr_id (st_runs t))" for t
    using rows_unique [OF that] by (auto intro: inj_onI)
  have card: "card (places s) = card (places s')"
    using assms(4) d by (simp add: places_def card_image inj distinct_card distinct_map)
  have "places s \<subseteq> places s'"
  proof
    fix q assume "q \<in> places s"
    then obtain r where r: "r \<in> set (st_runs s)" "q = (rr_id r, rr_parent r, rr_root r)" by (auto simp: places_def)
    from assms(3) get_run_mem [OF d(1) r(1)] obtain r' where "get_run (rr_id r) s' = Some r'" "row_le r r'"
      unfolding store_le_def by blast
    then have "r' \<in> set (st_runs s')" "q = (rr_id r', rr_parent r', rr_root r')"
      using get_run_Some r(2) by (auto simp: row_le_def)
    then show "q \<in> places s'" by (auto simp: places_def)
  qed
  moreover have "finite (places s')" by (simp add: places_def)
  ultimately show ?thesis using card by (metis card_subset_eq)
qed

lemma place_inv_start:
  assumes "store_ok s" "place_inv s" "start_run_with_id now i t p src k s = Some s'" "i \<noteq> []" "p = [] \<or> get_run p s \<noteq> None"
  shows "place_inv s'"
proof -
  define root where "root = (if p = [] then i else get_root_run_id p s)"
  have new: "get_run i s = None" using assms(3) by (auto simp: start_run_with_id_def Let_def split: if_splits)
  have par: "\<exists>pp. (p, pp, Some root) \<in> places s \<and> root \<noteq> []" if p: "p \<noteq> []"
  proof -
    obtain q where q: "get_run p s = Some q" using assms(5) p by auto
    then have m: "(p, rr_parent q, rr_root q) \<in> places s" using get_run_Some by (force simp: places_def)
    with assms(2) obtain y where "rr_root q = Some y" "y \<noteq> []" unfolding place_inv_def by blast
    with m q p show ?thesis by (auto simp: root_def get_root_run_id_def coalesce_def)
  qed
  have s': "places s' = insert (i, p, Some root) (places s)"
    using assms(3) par by (auto simp: start_run_with_id_def Let_def places_def fresh_row_def root_def split: if_splits)
  have sub: "run_parents s \<subseteq> run_parents s'" by (auto simp: run_parents_def s')
  have old: "q \<in> (run_parents s')\<^sup>*" if "q \<in> (run_parents s)\<^sup>*" for q
    using that rtrancl_mono [OF sub] by blast
  have top: "\<exists>z. (root, [], z) \<in> places s'" and reach: "(i, root) \<in> (run_parents s')\<^sup>*" and ne: "root \<noteq> []"
  proof -
    have "(\<exists>z. (root, [], z) \<in> places s') \<and> (i, root) \<in> (run_parents s')\<^sup>* \<and> root \<noteq> []"
    proof (cases "p = []")
      case True
      then show ?thesis using assms(4) by (auto simp: root_def s')
    next
      case False
      with par obtain pp where pp: "(p, pp, Some root) \<in> places s" "root \<noteq> []" by blast
      with assms(2) have "(p, root) \<in> (run_parents s)\<^sup>*" "\<exists>z. (root, [], z) \<in> places s"
        unfolding place_inv_def by blast+
      moreover have "(i, p) \<in> run_parents s'" using False by (auto simp: run_parents_def s')
      ultimately show ?thesis using pp(2) old by (auto simp: s' intro: converse_rtrancl_into_rtrancl)
    qed
    then show "\<exists>z. (root, [], z) \<in> places s'" "(i, root) \<in> (run_parents s')\<^sup>*" "root \<noteq> []" by auto
  qed
  show ?thesis
    unfolding place_inv_def
  proof (intro allI impI)
    fix j pj x assume "(j, pj, x) \<in> places s'"
    then consider "(j, pj, x) = (i, p, Some root)" | "(j, pj, x) \<in> places s" using s' by blast
    then show "j \<noteq> [] \<and>
        (\<exists>y. x = Some y \<and> y \<noteq> [] \<and> (j, y) \<in> (run_parents s')\<^sup>* \<and> (\<exists>z. (y, [], z) \<in> places s')) \<and>
        (pj = [] \<longrightarrow> x = Some j) \<and> (pj \<noteq> [] \<longrightarrow> (\<exists>pp. (pj, pp, x) \<in> places s'))"
    proof cases
      case 1
      then show ?thesis using top reach ne par assms(4) by (auto simp: s' root_def)
    next
      case 2
      then show ?thesis using assms(2) old unfolding place_inv_def s' by blast
    qed
  qed
qed

lemma run_reach_inv: "run_reach s \<Longrightarrow> store_ok s \<and> place_inv s"
proof (induction rule: run_reach.induct)
  case start
  have "places new_store = {}" by (simp add: places_def new_store_def)
  then show ?case by (simp add: store_ok_new place_inv_def)
next
  case (step s x)
  from exec_step [OF step.hyps(2)] step.IH have ok: "store_ok (run_exec x s)" "store_le s (run_exec x s)"
    by (auto simp: store_step_def)
  show ?case
  proof (cases "\<exists>now i t p src k. x = StartRun now i t p src k")
    case True
    then obtain now i t p src k where x: "x = StartRun now i t p src k" by blast
    show ?thesis
    proof (cases "start_run_with_id now i t p src k s")
      case None
      with step.IH x show ?thesis by simp
    next
      case (Some s')
      with step.hyps(3) x place_inv_start [OF _ _ Some] step.IH ok show ?thesis by simp
    qed
  next
    case False
    from places_le [OF _ ok(1,2) exec_length [OF False]] step.IH have "places (run_exec x s) = places s" by blast
    with ok(1) step.IH show ?thesis by (simp add: place_inv_def run_parents_def)
  qed
qed

text \<open>The group of a run. \<open>root_run_id\<close> is computed once, from the parent's row, when a run starts; if every
  parent exists at that moment, then at any later time the group listed under a run without a
  parent is exactly the tree below it: the runs from which it is reached over parents, however
  deep. A run that has a parent has no group under its own id.\<close>

lemma run_group_is_the_tree:
  "run_reach s \<and> get_run t s = Some r \<longrightarrow>
     rr_id ` set (list_run_group t (-1) s) =
       (if rr_parent r = [] then {i. (i, t) \<in> (run_parents s)\<^sup>*} else {})"
proof (intro impI, elim conjE)
  assume "run_reach s" and r: "get_run t s = Some r"
  then have ok: "store_ok s" and pinv: "place_inv s" using run_reach_inv by blast+
  have rt: "(t, rr_parent r, rr_root r) \<in> places s" using get_run_Some [OF r] by (auto simp: places_def)
  have grp: "rr_id ` set (list_run_group t (-1) s) = {i. \<exists>p. (i, p, Some t) \<in> places s}"
  proof -
    have "rr_id ` set (list_run_group t (-1) s) = rr_id ` {q \<in> set (st_runs s). root_of q = t}"
      by (auto simp: list_run_group_def sql_limit_def run_columns_def image_iff)
    also have "\<dots> = {i. \<exists>p. (i, p, Some t) \<in> places s}"
    proof -
      have "root_of q = t \<longleftrightarrow> rr_root q = Some t" if "q \<in> set (st_runs s)" for q
      proof -
        have "(rr_id q, rr_parent q, rr_root q) \<in> places s" using that by (auto simp: places_def)
        with pinv obtain y where "rr_root q = Some y" unfolding place_inv_def by blast
        then show ?thesis by (simp add: root_of_def coalesce_def)
      qed
      then have "{q \<in> set (st_runs s). root_of q = t} = {q \<in> set (st_runs s). rr_root q = Some t}" by blast
      then show ?thesis by (force simp: places_def)
    qed
    finally show ?thesis .
  qed
  show "rr_id ` set (list_run_group t (-1) s) = (if rr_parent r = [] then {i. (i, t) \<in> (run_parents s)\<^sup>*} else {})"
  proof (cases "rr_parent r = []")
    case True
    have "(\<exists>p. (i, p, Some t) \<in> places s)" if "(i, t) \<in> (run_parents s)\<^sup>*" for i
      using that
    proof (induction rule: converse_rtrancl_induct)
      case base
      with rt True pinv show ?case unfolding place_inv_def by metis
    next
      case (step i j)
      then obtain x p where "(i, j, x) \<in> places s" "j \<noteq> []" "(j, p, Some t) \<in> places s"
        by (auto simp: run_parents_def)
      moreover from this pinv obtain pp where "(j, pp, x) \<in> places s" unfolding place_inv_def by blast
      ultimately show ?case using places_unique [OF ok] by blast
    qed
    moreover have "(i, t) \<in> (run_parents s)\<^sup>*" if "(i, p, Some t) \<in> places s" for i p
      using that pinv unfolding place_inv_def by blast
    ultimately show ?thesis using True grp by auto
  next
    case False
    have "\<not> (\<exists>i p. (i, p, Some t) \<in> places s)"
      using False rt pinv places_unique [OF ok] unfolding place_inv_def by (metis option.inject)
    with False grp show ?thesis by auto
  qed
qed

definition ex_family :: "run_op list" where
  "ex_family = [StartRun 1 ''a'' ''t'' [] ''manual'' [], StartRun 2 ''b'' ''t'' ''a'' ''chain'' [],
     StartRun 3 ''c'' ''t'' ''b'' ''chain'' []]"

lemma ex_family_runs:
  "st_runs (run_ops ex_family new_store) =
     [fresh_row 1 ''a'' ''t'' [] ''manual'' ''task'' ''a'', fresh_row 2 ''b'' ''t'' ''a'' ''chain'' ''task'' ''a'',
      fresh_row 3 ''c'' ''t'' ''b'' ''chain'' ''task'' ''a'']"
  by (simp add: run_ops_def ex_family_def start_run_with_id_def get_run_def get_root_run_id_def new_store_def Let_def
      has_id_def fresh_row_def run_kind_task_def coalesce_def)

lemma ex_family_reach: "run_reach (run_ops ex_family new_store)"
proof -
  have "run_reach (run_exec (StartRun 1 ''a'' ''t'' [] ''manual'' []) new_store)"
    by (intro run_reach.intros) simp_all
  then have "run_reach (run_exec (StartRun 2 ''b'' ''t'' ''a'' ''chain'' []) (run_exec (StartRun 1 ''a'' ''t'' [] ''manual'' []) new_store))"
    by (rule run_reach.step) (simp_all add: start_run_with_id_def get_run_def new_store_def Let_def has_id_def fresh_row_def)
  then have "run_reach (run_exec (StartRun 3 ''c'' ''t'' ''b'' ''chain'' [])
      (run_exec (StartRun 2 ''b'' ''t'' ''a'' ''chain'' []) (run_exec (StartRun 1 ''a'' ''t'' [] ''manual'' []) new_store)))"
    by (rule run_reach.step) (simp_all add: start_run_with_id_def get_run_def new_store_def Let_def has_id_def fresh_row_def)
  then show ?thesis by (simp add: run_ops_def ex_family_def)
qed

lemma run_group_is_the_tree_witness:
  "rr_id ` set (list_run_group ''b'' (-1) (run_ops ex_family new_store)) = {}"
  using run_group_is_the_tree [of "run_ops ex_family new_store" "''b''" "fresh_row 2 ''b'' ''t'' ''a'' ''chain'' ''task'' ''a''"]
    ex_family_reach
  by (simp add: get_run_def ex_family_runs has_id_def fresh_row_def)

section \<open>Statements in chunks\<close>

lemma chunk_concat: "0 < n \<Longrightarrow> concat (chunk_strings n xs) = xs"
  by (induction n xs rule: chunk_strings.induct) (subst chunk_strings.simps, simp)

lemma chunk_length: "c \<in> set (chunk_strings n xs) \<Longrightarrow> length c \<le> n"
proof (induction n xs rule: chunk_strings.induct)
  case (1 n xs)
  then show ?case by (subst (asm) (2) chunk_strings.simps) (auto split: if_splits)
qed

lemma clear_input_id [simp]: "rr_id (clear_input r) = rr_id r"
  by (simp add: clear_input_def)

lemma clear_clear:
  "(\<And>r. P (clear_input r) = P r) \<Longrightarrow>
   sql_update P clear_input (sql_update Q clear_input s) = sql_update (\<lambda>r. Q r \<or> P r) clear_input s"
  by (auto simp: sql_update_def) (auto simp: clear_input_def)

lemma clear_chunks:
  "fold (\<lambda>c. sql_update (\<lambda>r. rr_id r \<in> set c) clear_input) cs s =
     sql_update (\<lambda>r. rr_id r \<in> set (concat cs)) clear_input s"
proof (induction cs arbitrary: s)
  case Nil
  then show ?case by (simp add: update_none)
next
  case (Cons c cs)
  then show ?case by (simp add: clear_clear)
qed

definition input_key_of :: "run_store \<Rightarrow> run_id \<Rightarrow> string option" where
  "input_key_of s i = (case get_run i s of None \<Rightarrow> None
     | Some r \<Rightarrow> if coalesce [] (rr_input_key r) = [] then None else Some (coalesce [] (rr_input_key r)))"

lemma add_keys:
  assumes "distinct (map rr_id rs)"
  shows "fold add_input_key (filter (\<lambda>r. rr_id r \<in> A) rs) m =
    (\<lambda>i. case find (has_id i) rs of
        Some r \<Rightarrow> if i \<in> A \<and> coalesce [] (rr_input_key r) \<noteq> [] then Some (coalesce [] (rr_input_key r)) else m i
      | None \<Rightarrow> m i)"
  using assms
proof (induction rs arbitrary: m)
  case (Cons r rs)
  then have n: "find (has_id (rr_id r)) rs = None"
    by (fastforce simp: find_None_iff has_id_def image_iff)
  have d: "distinct (map rr_id rs)" using Cons.prems by simp
  show ?case
  proof (rule ext)
    fix i
    show "fold add_input_key (filter (\<lambda>r. rr_id r \<in> A) (r # rs)) m i =
      (case find (has_id i) (r # rs) of
        Some r \<Rightarrow> if i \<in> A \<and> coalesce [] (rr_input_key r) \<noteq> [] then Some (coalesce [] (rr_input_key r)) else m i
      | None \<Rightarrow> m i)"
    proof (cases "rr_id r = i")
      case True
      then have "find (has_id i) rs = None" "has_id i r" using n by (simp_all add: has_id_def)
      with True show ?thesis by (simp add: Cons.IH [OF d] add_input_key_def Let_def)
    next
      case False
      then have "\<not> has_id i r" by (simp add: has_id_def)
      moreover have "add_input_key r m i = m i" using False by (simp add: add_input_key_def Let_def)
      ultimately show ?thesis by (auto simp: Cons.IH [OF d] split: option.splits)
    qed
  qed
qed simp

lemma add_chunks:
  assumes "distinct (map rr_id (st_runs s))"
  shows "fold (\<lambda>c. fold add_input_key (filter (\<lambda>r. rr_id r \<in> set c) (st_runs s))) cs m =
    (\<lambda>i. if i \<in> set (concat cs) \<and> input_key_of s i \<noteq> None then input_key_of s i else m i)"
proof (induction cs arbitrary: m)
  case (Cons c cs)
  show ?case
  proof (rule ext)
    fix i
    show "fold (\<lambda>c. fold add_input_key (filter (\<lambda>r. rr_id r \<in> set c) (st_runs s))) (c # cs) m i =
      (if i \<in> set (concat (c # cs)) \<and> input_key_of s i \<noteq> None then input_key_of s i else m i)"
      by (cases "get_run i s") (auto simp: Cons.IH add_keys [OF assms] input_key_of_def get_run_def)
  qed
qed simp

text \<open>The batched forms agree with the single ones, whatever the number of ids: no statement binds more
  than five hundred variables, clearing in chunks clears exactly the given runs, and looking the
  storage keys up in chunks finds the key of every given run that has one, once.\<close>

lemma chunked_statements_agree:
  "list_all op_ok ops \<and> s = run_ops ops new_store \<longrightarrow>
     list_all (\<lambda>c. length c \<le> 500) (chunk_strings max_in_clause_vars ids) \<and>
     clear_run_inputs ids s = fold clear_run_input ids s \<and>
     get_run_input_keys ids s = (\<lambda>i. if i \<in> set ids then input_key_of s i else None)"
proof (intro impI, elim conjE)
  assume a: "list_all op_ok ops" "s = run_ops ops new_store"
  have d: "distinct (map rr_id (st_runs s))" using run_ops_ok a by (simp add: store_ok_def)
  have pos: "0 < max_in_clause_vars" by (simp add: max_in_clause_vars_def)
  have single: "fold clear_run_input is t = sql_update (\<lambda>r. rr_id r \<in> set is) clear_input t" for "is" t
  proof (induction "is" arbitrary: t)
    case Nil
    then show ?case by (simp add: update_none)
  next
    case (Cons i "is")
    have "clear_run_input i t = sql_update (\<lambda>r. rr_id r = i) clear_input t"
      by (simp add: clear_run_input_def has_id_def [abs_def])
    with Cons show ?case by (simp add: clear_clear)
  qed
  have "list_all (\<lambda>c. length c \<le> 500) (chunk_strings max_in_clause_vars ids)"
    using chunk_length [of _ max_in_clause_vars ids] by (auto simp: list_all_iff max_in_clause_vars_def)
  moreover have "clear_run_inputs ids s = fold clear_run_input ids s"
    unfolding single clear_run_inputs_def clear_chunks chunk_concat [OF pos] by simp
  moreover have "get_run_input_keys ids s = (\<lambda>i. if i \<in> set ids then input_key_of s i else None)"
    unfolding get_run_input_keys_def add_chunks [OF d] chunk_concat [OF pos] by auto
  ultimately show "list_all (\<lambda>c. length c \<le> 500) (chunk_strings max_in_clause_vars ids) \<and>
     clear_run_inputs ids s = fold clear_run_input ids s \<and>
     get_run_input_keys ids s = (\<lambda>i. if i \<in> set ids then input_key_of s i else None)" by blast
qed

lemma chunked_statements_agree_witness:
  "clear_run_inputs [''a'', ''c''] (run_ops ex_family new_store) = fold clear_run_input [''a'', ''c''] (run_ops ex_family new_store)"
  using chunked_statements_agree [of ex_family "run_ops ex_family new_store" "[''a'', ''c'']"] by (simp add: ex_family_def)

section \<open>Reading logs\<close>

definition log_inv :: "run_store \<Rightarrow> bool" where
  "log_inv s \<longleftrightarrow> sorted_wrt (<) (map lg_id (st_logs s)) \<and> (\<forall>l \<in> set (st_logs s). 1 \<le> lg_id l \<and> lg_id l < st_next_log s) \<and>
     1 \<le> st_next_log s"

definition log_ext :: "run_store \<Rightarrow> run_store \<Rightarrow> bool" where
  "log_ext s s' \<longleftrightarrow> (log_inv s \<longrightarrow> log_inv s' \<and> st_next_log s \<le> st_next_log s' \<and>
     (\<exists>new. st_logs s' = st_logs s @ new \<and> (\<forall>l \<in> set new. st_next_log s \<le> lg_id l)))"

lemma log_ext_same: "st_logs s' = st_logs s \<Longrightarrow> st_next_log s' = st_next_log s \<Longrightarrow> log_ext s s'"
  by (simp add: log_ext_def log_inv_def)

lemma log_ext_refl [simp]: "log_ext s s"
  by (simp add: log_ext_same)

lemma log_ext_trans:
  assumes "log_ext s s1" "log_ext s1 s2"
  shows "log_ext s s2"
  unfolding log_ext_def
proof
  assume i: "log_inv s"
  with assms(1) obtain n1 where 1: "log_inv s1" "st_next_log s \<le> st_next_log s1" "st_logs s1 = st_logs s @ n1"
    "\<forall>l \<in> set n1. st_next_log s \<le> lg_id l" by (auto simp: log_ext_def)
  with assms(2) obtain n2 where 2: "log_inv s2" "st_next_log s1 \<le> st_next_log s2" "st_logs s2 = st_logs s1 @ n2"
    "\<forall>l \<in> set n2. st_next_log s1 \<le> lg_id l" by (auto simp: log_ext_def)
  from 1 2 have "st_logs s2 = st_logs s @ (n1 @ n2)" "\<forall>l \<in> set (n1 @ n2). st_next_log s \<le> lg_id l" by auto
  with 1 2 show "log_inv s2 \<and> st_next_log s \<le> st_next_log s2 \<and>
     (\<exists>new. st_logs s2 = st_logs s @ new \<and> (\<forall>l \<in> set new. st_next_log s \<le> lg_id l))"
    by (intro conjI exI [of _ "n1 @ n2"]) auto
qed

lemma log_ext_insert: "log_ext s (insert_log i ts lvl msg s)"
  by (auto simp: log_ext_def log_inv_def insert_log_def sorted_wrt_append)

lemma log_ext_update: "log_ext s (sql_update P f s)"
  by (simp add: log_ext_same sql_update_def)

lemma log_ext_fold: "(\<And>x s. log_ext s (f x s)) \<Longrightarrow> log_ext s (fold f xs s)"
proof (induction xs arbitrary: s)
  case (Cons x xs)
  then show ?case using log_ext_trans [of s "f x s"] by simp
qed simp

lemma log_ext_exec: "log_ext s (run_exec x s)"
proof (cases x)
  case (StartRun now i t p src k)
  then show ?thesis
    by (auto simp: start_run_with_id_def Let_def log_ext_same split: option.splits if_splits)
next
  case (ClearInputs ids)
  then show ?thesis by (simp add: clear_run_inputs_def log_ext_fold log_ext_update)
next
  case (SweepExpired now)
  have "log_ext s (snd (fold (sweep_one now) is (out, s)))" for "is" out s
  proof (induction "is" arbitrary: out s)
    case (Cons i "is")
    obtain out1 s1 where o1: "sweep_one now i (out, s) = (out1, s1)" by fastforce
    then have "s1 = snd (sweep_one now i (out, s))" by simp
    then have "log_ext s s1" unfolding sweep_one_snd by (simp add: log_ext_update)
    with Cons [of s1 out1] o1 show ?case by (simp add: log_ext_trans)
  qed simp
  with SweepExpired show ?thesis by (simp add: sweep_expired_suspensions_def)
next
  case (BulkLogs es)
  have "log_ext s (fold (\<lambda>(i, lvl, msg, ts). insert_log i ts lvl msg) es s)"
    by (rule log_ext_fold) (auto simp: log_ext_insert)
  with BulkLogs show ?thesis by (simp add: bulk_append_logs_def)
qed (simp_all add: log_ext_update log_ext_insert set_run_result_def finish_run_def finish_run_with_reason_def
    finish_run_with_result_def append_log_def cleanup_stale_runs_def sweep_stale_pins_def suspend_run_def mark_run_resumed_def
    set_run_group_def set_run_input_def clear_run_input_def pin_run_input_def unpin_run_input_def
    cancel_suspended_run_def clear_resume_state_blob_def Let_def)

lemma log_ext_ops: "log_ext s (run_ops ops s)"
  unfolding run_ops_def by (rule log_ext_fold) (rule log_ext_exec)

lemma sorted_logs: "log_inv s \<Longrightarrow> get_run_logs_since i n s = filter (\<lambda>l. lg_run l = i \<and> n < lg_id l) (st_logs s)"
  unfolding get_run_logs_since_def
proof (rule sort_key_id_if_sorted)
  assume "log_inv s"
  then have "sorted_wrt (\<lambda>l l'. lg_id l < lg_id l') (st_logs s)" by (simp add: log_inv_def sorted_wrt_map)
  then have "sorted_wrt (\<lambda>l l'. lg_id l < lg_id l') (filter (\<lambda>l. lg_run l = i \<and> n < lg_id l) (st_logs s))"
    by (rule sorted_wrt_filter)
  then show "sorted (map lg_id (filter (\<lambda>l. lg_run l = i \<and> n < lg_id l) (st_logs s)))"
    unfolding sorted_wrt_map by (rule sorted_wrt_mono_rel [rotated]) simp
qed

lemma sorted_le_last: "sorted xs \<Longrightarrow> x \<in> set xs \<Longrightarrow> x \<le> last (xs :: int list)"
  by (induction xs) auto

text \<open>Incremental reading loses and repeats nothing: a client that read the log of a run at some moment
  and later asks for the entries after the last one it saw has, with what it had, exactly the
  log as a full read would return it then, in the same order.\<close>

lemma log_polling_is_complete:
  "s = run_ops ops new_store \<and> s' = run_ops later s \<and> seen = get_run_logs i s \<longrightarrow>
     get_run_logs i s' = seen @ get_run_logs_since i (if seen = [] then 0 else lg_id (last seen)) s'"
proof (intro impI, elim conjE)
  assume s: "s = run_ops ops new_store" and s': "s' = run_ops later s" and seen: "seen = get_run_logs i s"
  have "log_inv new_store" by (simp add: log_inv_def new_store_def)
  then have inv: "log_inv s" using log_ext_ops [of new_store ops] s by (auto simp: log_ext_def)
  then obtain new where inv': "log_inv s'" and logs: "st_logs s' = st_logs s @ new"
    and new: "\<forall>l \<in> set new. st_next_log s \<le> lg_id l"
    using log_ext_ops [of s later] s' by (auto simp: log_ext_def)
  have pos: "1 \<le> lg_id l \<and> lg_id l < st_next_log s" if "l \<in> set (st_logs s)" for l
    using inv that by (auto simp: log_inv_def)
  have seen': "seen = filter (\<lambda>l. lg_run l = i) (st_logs s)"
    unfolding seen get_run_logs_def sorted_logs [OF inv] using pos by (intro filter_cong) fastforce+
  have all: "get_run_logs i s' = seen @ filter (\<lambda>l. lg_run l = i) new"
  proof -
    have "0 < lg_id l" if "l \<in> set (st_logs s')" for l using inv' that by (fastforce simp: log_inv_def)
    then have "get_run_logs i s' = filter (\<lambda>l. lg_run l = i) (st_logs s')"
      unfolding get_run_logs_def sorted_logs [OF inv'] by (intro filter_cong) auto
    then show ?thesis by (simp add: logs seen')
  qed
  define n where "n = (if seen = [] then 0 else lg_id (last seen))"
  have before: "lg_id l \<le> n" if "l \<in> set seen" for l
  proof -
    have "sorted_wrt (\<lambda>l l'. lg_id l < lg_id l') seen"
      unfolding seen' using inv by (intro sorted_wrt_filter) (simp add: log_inv_def sorted_wrt_map)
    then have "sorted (map lg_id seen)" unfolding sorted_wrt_map by (rule sorted_wrt_mono_rel [rotated]) simp
    with that have "lg_id l \<le> last (map lg_id seen)" by (intro sorted_le_last) simp_all
    with that show ?thesis by (auto simp: n_def last_map)
  qed
  have n_next: "n < st_next_log s"
  proof (cases "seen = []")
    case True
    then show ?thesis using inv by (simp add: n_def log_inv_def)
  next
    case False
    then have "last seen \<in> set (st_logs s)" using last_in_set [OF False] by (auto simp: seen')
    with pos False show ?thesis by (simp add: n_def)
  qed
  have "get_run_logs_since i n s' = filter (\<lambda>l. lg_run l = i \<and> n < lg_id l) (st_logs s) @ filter (\<lambda>l. lg_run l = i \<and> n < lg_id l) new"
    by (simp add: sorted_logs [OF inv'] logs)
  also have "filter (\<lambda>l. lg_run l = i \<and> n < lg_id l) (st_logs s) = []"
    using before by (force simp: filter_empty_conv seen')
  also have "filter (\<lambda>l. lg_run l = i \<and> n < lg_id l) new = filter (\<lambda>l. lg_run l = i) new"
    using new n_next by (intro filter_cong) fastforce+
  finally show "get_run_logs i s' = seen @ get_run_logs_since i (if seen = [] then 0 else lg_id (last seen)) s'"
    using all by (simp add: n_def)
qed

lemma log_polling_is_complete_witness:
  "let s = run_ops [AppendLog 5 ''r'' ''info'' ''one''] new_store; s' = run_ops [AppendLog 6 ''r'' ''info'' ''two''] s
   in get_run_logs ''r'' s' = get_run_logs ''r'' s @ get_run_logs_since ''r'' 1 s'"
proof -
  let ?s = "run_ops [AppendLog 5 ''r'' ''info'' ''one''] new_store"
  have "get_run_logs ''r'' ?s = [\<lparr>lg_id = 1, lg_run = ''r'', lg_ts = 5, lg_level = ''info'', lg_msg = ''one''\<rparr>]"
    by (simp add: run_ops_def append_log_def insert_log_def new_store_def get_run_logs_def get_run_logs_since_def)
  then have "get_run_logs ''r'' ?s \<noteq> []" "lg_id (last (get_run_logs ''r'' ?s)) = 1" by simp_all
  moreover have "get_run_logs ''r'' (run_ops [AppendLog 6 ''r'' ''info'' ''two''] ?s) = get_run_logs ''r'' ?s @
      get_run_logs_since ''r'' (if get_run_logs ''r'' ?s = [] then 0 else lg_id (last (get_run_logs ''r'' ?s)))
        (run_ops [AppendLog 6 ''r'' ''info'' ''two''] ?s)"
    by (rule log_polling_is_complete [where s = ?s and ops = "[AppendLog 5 ''r'' ''info'' ''one'']"
          and later = "[AppendLog 6 ''r'' ''info'' ''two'']", THEN mp]) simp
  ultimately show ?thesis unfolding Let_def by (simp only: if_False)
qed

end
