(* ===== verification/Resume.thy ===== *)
theory Resume
  imports RunSafety ChainDispatch
begin

text \<open>
  Suspension and resumption in the engine: pkg/trigger/resume.go and sweep.go, and the store of
  large states, pkg/registry/resumestatestore.go. The secrets chain, the storage task, the
  cipher and the outcome of a fire are parameters; the storage task is called with the keys and
  values the code sends it, and its replies are the JSON the code inspects.
\<close>

section \<open>Secret-backed parameters\<close>

datatype secret_result = Secret string | SecretMissing | SecretFailed

type_synonym secrets_chain = "string \<Rightarrow> secret_result"

definition redact_placeholder :: string where
  "redact_placeholder = ''<redacted>''"

definition secret_backed_param_names :: "spec \<Rightarrow> string list" where
  "secret_backed_param_names s = filter (\<lambda>n. n \<noteq> []) (map ee_secret (pm_env (sp_permissions s)))"

text \<open>The loop over the sorted names. The map of parameters is an association list with distinct
  keys; \<open>AList.update\<close> is the assignment.\<close>

fun redact_names ::
  "secrets_chain \<Rightarrow> string list \<Rightarrow> (string \<times> string) list \<Rightarrow> string list \<Rightarrow>
   (string \<times> string) list \<Rightarrow> string list \<Rightarrow> ((string \<times> string) list \<times> string list) option" where
  "redact_names resolve allowed params [] out red = Some (out, red)"
| "redact_names resolve allowed params (n # ns) out red =
     (if n \<notin> set allowed then redact_names resolve allowed params ns out red
      else (case resolve n of
              SecretMissing \<Rightarrow> redact_names resolve allowed params ns out red
            | SecretFailed \<Rightarrow> None
            | Secret v \<Rightarrow>
                if map_of params n \<noteq> Some v then redact_names resolve allowed params ns out red
                else redact_names resolve allowed params ns (AList.update n redact_placeholder out)
                       (red @ [''params.'' @ n])))"

definition redact_secret_backed_params ::
  "secrets_chain option \<Rightarrow> spec \<Rightarrow> (string \<times> string) list \<Rightarrow> ((string \<times> string) list \<times> string list) option" where
  "redact_secret_backed_params secrets s params =
     (case secrets of
        None \<Rightarrow> Some (params, [])
      | Some resolve \<Rightarrow>
          if params = [] then Some (params, [])
          else (let allowed = secret_backed_param_names s
                in if allowed = [] then Some (params, [])
                   else redact_names resolve allowed params (sort (map fst params)) params []))"

datatype restore_error = NoSecretsChain | NoLongerGranted string | SecretUnavailable string

fun restore_names ::
  "secrets_chain \<Rightarrow> string list \<Rightarrow> string list \<Rightarrow> (string \<times> string) list \<Rightarrow>
   restore_error + (string \<times> string) list" where
  "restore_names resolve allowed [] out = Inr out"
| "restore_names resolve allowed (f # fs) out =
     (case cut_prefix ''params.'' f of
        None \<Rightarrow> restore_names resolve allowed fs out
      | Some n \<Rightarrow>
          if n \<notin> set allowed then Inl (NoLongerGranted n)
          else (case resolve n of
                  Secret v \<Rightarrow> restore_names resolve allowed fs (AList.update n v out)
                | _ \<Rightarrow> Inl (SecretUnavailable n)))"

definition restore_secret_backed_params ::
  "secrets_chain option \<Rightarrow> spec \<Rightarrow> (string \<times> string) list \<Rightarrow> string list \<Rightarrow>
   restore_error + (string \<times> string) list" where
  "restore_secret_backed_params secrets s params flds =
     (if flds = [] then Inr params
      else (case secrets of
              None \<Rightarrow> Inl NoSecretsChain
            | Some resolve \<Rightarrow> restore_names resolve (secret_backed_param_names s) flds params))"

section \<open>The store of large states\<close>

datatype storage_op = OpPut string string | OpGet string | OpDelete string

datatype storage_reply = ReplyError | Reply json

type_synonym blobs = "string \<rightharpoonup> string"
type_synonym storage_runner = "storage_op \<Rightarrow> blobs \<Rightarrow> storage_reply \<times> blobs"

record state_crypto =
  cr_encrypt :: "string \<Rightarrow> run_id \<Rightarrow> time \<Rightarrow> string option"
  cr_decrypt :: "string \<Rightarrow> run_id \<Rightarrow> time \<Rightarrow> string option"
  cr_base64 :: "string \<Rightarrow> string"
  cr_unbase64 :: "string \<Rightarrow> string option"

record resume_store =
  rs_crypto :: state_crypto
  rs_runner :: storage_runner

text \<open>\<open>storageResult\<close>: a reply without \<open>ok: true\<close> is a failure although the task returned.\<close>

definition storage_result :: "json \<Rightarrow> string + (string \<times> json) list" where
  "storage_result r =
     (case r of
        JObj m \<Rightarrow>
          (case map_of m ''ok'' of
             Some (JBool True) \<Rightarrow> Inr m
           | _ \<Rightarrow> (case map_of m ''error'' of
                     Some (JStr msg) \<Rightarrow> Inl (if msg = [] then ''storage task reported failure'' else msg)
                   | _ \<Rightarrow> Inl ''storage task reported failure''))
      | _ \<Rightarrow> Inl ''storage task returned non-map'')"

definition reply_result :: "storage_reply \<Rightarrow> string + (string \<times> json) list" where
  "reply_result r = (case r of ReplyError \<Rightarrow> Inl ''run task'' | Reply j \<Rightarrow> storage_result j)"

definition resume_state_key_prefix :: string where
  "resume_state_key_prefix = ''resume-state/''"

definition blob_delete :: "resume_store \<Rightarrow> string \<Rightarrow> blobs \<Rightarrow> bool \<times> blobs" where
  "blob_delete st key b =
     (case rs_runner st (OpDelete key) b of
        (r, b') \<Rightarrow> ((case reply_result r of Inl _ \<Rightarrow> False | Inr _ \<Rightarrow> True), b'))"

definition blob_persist :: "resume_store \<Rightarrow> time \<Rightarrow> run_id \<Rightarrow> string \<Rightarrow> blobs \<Rightarrow> blob_ref option \<times> blobs" where
  "blob_persist st now i state b =
     (case cr_encrypt (rs_crypto st) state i now of
        None \<Rightarrow> (None, b)
      | Some blob \<Rightarrow>
          (let key = resume_state_key_prefix @ i in
           case rs_runner st (OpPut key (cr_base64 (rs_crypto st) blob)) b of
             (r, b') \<Rightarrow>
               (case reply_result r of
                  Inl _ \<Rightarrow> (None, snd (blob_delete st key b'))
                | Inr _ \<Rightarrow> (Some \<lparr>br_key = key, br_size = int (length blob), br_stored = now\<rparr>, b'))))"

datatype fetch_error = FetchFailed | StateUnavailable | DecodeFailed | DecryptFailed

definition blob_fetch ::
  "resume_store \<Rightarrow> run_id \<Rightarrow> string \<Rightarrow> time \<Rightarrow> blobs \<Rightarrow> (fetch_error + string) \<times> blobs" where
  "blob_fetch st i key stored b =
     (case rs_runner st (OpGet key) b of
        (r, b') \<Rightarrow>
          ((case reply_result r of
              Inl _ \<Rightarrow> Inl FetchFailed
            | Inr m \<Rightarrow>
                (case map_of m ''value'' of
                   Some (JStr v) \<Rightarrow>
                     if v = [] then Inl StateUnavailable
                     else (case cr_unbase64 (rs_crypto st) v of
                             None \<Rightarrow> Inl DecodeFailed
                           | Some blob \<Rightarrow>
                               (case cr_decrypt (rs_crypto st) blob i stored of
                                  None \<Rightarrow> Inl DecryptFailed
                                | Some pt \<Rightarrow> Inr pt))
                 | _ \<Rightarrow> Inl StateUnavailable)), b'))"

section \<open>Suspending\<close>

definition default_resume_ttl :: time where
  "default_resume_ttl = 24 * 60 * 60 * 1000"

text \<open>What a task hands over with \<open>dicode.suspend()\<close>: the state, the schema, its deadline (zero for
  none). Times are in milliseconds, the stored time of a blob in seconds.\<close>

record suspend_result =
  sr_state :: string
  sr_schema :: "string option"
  sr_deadline :: time

record resume_config =
  rc_secrets :: "secrets_chain option"
  rc_store :: "resume_store option"
  rc_threshold :: int

definition carry_of :: "(string \<times> string) list \<Rightarrow> int \<Rightarrow> resume_carry option" where
  "carry_of params depth =
     (if params \<noteq> [] \<or> 0 < depth then Some \<lparr>ry_params = params, ry_depth = depth\<rparr> else None)"

text \<open>\<open>suspendRun\<close>: \<open>None\<close> is an error, which the caller records as a failed run; the flag tells whether
  the row changed.\<close>

definition engine_suspend_run ::
  "resume_config \<Rightarrow> string \<Rightarrow> time \<Rightarrow> spec \<Rightarrow> run_id \<Rightarrow> (string \<times> string) list \<Rightarrow> int \<Rightarrow> suspend_result \<Rightarrow>
   blobs \<times> run_store \<Rightarrow> bool option \<times> blobs \<times> run_store" where
  "engine_suspend_run cfg token now spec i params depth res w =
     (case w of (b, s) \<Rightarrow>
        (let deadline = (if sr_deadline res \<le> 0 then now + default_resume_ttl else sr_deadline res)
         in case redact_secret_backed_params (rc_secrets cfg) spec params of
              None \<Rightarrow> (None, b, s)
            | Some (red, flds) \<Rightarrow>
                (let offload = (case rc_store cfg of
                                  None \<Rightarrow> None
                                | Some st \<Rightarrow> if rc_threshold cfg < int (length (sr_state res)) then Some st else None)
                 in case offload of
                      None \<Rightarrow>
                        (case suspend_run i (Some (sr_state res)) (sr_schema res) token now deadline (carry_of red depth)
                                flds None s of
                           (ok, s') \<Rightarrow> (Some ok, b, s'))
                    | Some st \<Rightarrow>
                        (case blob_persist st (now div 1000) i (sr_state res) b of
                           (None, b') \<Rightarrow> (None, b', s)
                         | (Some ref, b') \<Rightarrow>
                             (case suspend_run i None (sr_schema res) token now deadline (carry_of red depth)
                                     flds (Some ref) s of
                                (ok, s') \<Rightarrow>
                                  (Some ok, if ok then b' else snd (blob_delete st (br_key ref) b'), s'))))))"

section \<open>The engine's sweep\<close>

text \<open>What follows the cancellation of one suspension: the finish hooks, the chains, and, for a
  standalone daemon, the release of its slot.\<close>

datatype sweep_effect =
    RunFinished task_id run_id string string
  | ChainFired task_id run_id string
  | DaemonSwept task_id run_id

definition trigger_pipeline_stage :: string where
  "trigger_pipeline_stage = ''pipeline-stage''"

definition sweep_effects :: "(task_id \<rightharpoonup> spec) \<Rightarrow> run_store \<Rightarrow> run_id \<Rightarrow> sweep_effect list" where
  "sweep_effects daemons s i =
     (case get_run i s of
        None \<Rightarrow> []
      | Some r \<Rightarrow>
          [RunFinished (rr_task r) (rr_id r) status_cancelled (rr_source r), ChainFired (rr_task r) (rr_id r) status_cancelled] @
          (if rr_source r \<noteq> trigger_pipeline_stage then
             (case daemons (rr_task r) of
                Some spec \<Rightarrow> if tc_daemon (sp_trigger spec) then [DaemonSwept (rr_task r) (rr_id r)] else []
              | None \<Rightarrow> [])
           else []))"

definition engine_sweep ::
  "(task_id \<rightharpoonup> spec) \<Rightarrow> time \<Rightarrow> run_store \<Rightarrow> run_id list \<times> sweep_effect list \<times> run_store" where
  "engine_sweep daemons now s =
     (case sweep_expired_suspensions now s of (ids, s') \<Rightarrow> (ids, concat (map (sweep_effects daemons s') ids), s'))"

section \<open>Resuming\<close>

record continuation =
  co_parent :: run_id
  co_state :: "string option"
  co_input :: string
  co_params :: "(string \<times> string) list"
  co_depth :: int

datatype resume_error =
    TokenNotFound
  | NotSuspended
  | Expired
  | TaskGone task_id
  | Pending task_id
  | RestoreFailed restore_error
  | NoStateStore
  | FetchState fetch_error
  | MarkFailed
  | SpawnFailed

text \<open>Everything before the token is consumed. It writes to the run log only when the deadline has
  passed: then it sweeps.\<close>

definition resume_prepare ::
  "resume_config \<Rightarrow> kinded list \<Rightarrow> (task_id \<Rightarrow> bool) \<Rightarrow> (task_id \<rightharpoonup> spec) \<Rightarrow> time \<Rightarrow> string \<Rightarrow> string \<Rightarrow>
   blobs \<times> run_store \<Rightarrow> (resume_error + run_row \<times> spec \<times> continuation) \<times> blobs \<times> run_store" where
  "resume_prepare cfg tasks guard daemons now token input w =
     (case w of (b, s) \<Rightarrow>
        (case get_run_by_resume_token token s of
           None \<Rightarrow> (Inl TokenNotFound, b, s)
         | Some run \<Rightarrow>
             if rr_status run \<noteq> status_suspended then (Inl NotSuspended, b, s)
             else if 0 < coalesce 0 (rr_deadline run) \<and> coalesce 0 (rr_deadline run) < now
             then (Inl Expired, b, snd (snd (engine_sweep daemons now s)))
             else (case get_spec (rr_task run) tasks of
                     None \<Rightarrow> (Inl (TaskGone (rr_task run)), b, s)
                   | Some spec \<Rightarrow>
                       if \<not> guard (sp_id spec) then (Inl (Pending (sp_id spec)), b, s)
                       else (case (case rr_carry run of
                                     None \<Rightarrow> Inr ([], 0)
                                   | Some c \<Rightarrow>
                                       (case restore_secret_backed_params (rc_secrets cfg) spec (ry_params c)
                                               (coalesce [] (rr_carry_redacted run)) of
                                          Inl e \<Rightarrow> Inl e
                                        | Inr ps \<Rightarrow> Inr (ps, ry_depth c))) of
                               Inl e \<Rightarrow> (Inl (RestoreFailed e), b, s)
                             | Inr (ps, depth) \<Rightarrow>
                                 (let co = \<lparr>co_parent = rr_id run, co_state = rr_state run, co_input = input,
                                            co_params = ps, co_depth = depth\<rparr>
                                  in if coalesce [] (rr_blob_key run) = [] then (Inr (run, spec, co), b, s)
                                     else (case rc_store cfg of
                                             None \<Rightarrow> (Inl NoStateStore, b, s)
                                           | Some st \<Rightarrow>
                                               (case blob_fetch st (rr_id run) (coalesce [] (rr_blob_key run))
                                                       (coalesce 0 (rr_blob_stored run)) b of
                                                  (Inl e, b') \<Rightarrow> (Inl (FetchState e), b', s)
                                                | (Inr state, b') \<Rightarrow> (Inr (run, spec, co\<lparr>co_state := Some state\<rparr>), b', s))))))))"

text \<open>After the continuation was spawned, its state is freed.\<close>

definition resume_collect :: "resume_config \<Rightarrow> run_row \<Rightarrow> blobs \<times> run_store \<Rightarrow> blobs \<times> run_store" where
  "resume_collect cfg run w =
     (case w of (b, s) \<Rightarrow>
        (case rc_store cfg of
           None \<Rightarrow> (b, s)
         | Some st \<Rightarrow>
             if coalesce [] (rr_blob_key run) = [] then (b, s)
             else (case blob_delete st (coalesce [] (rr_blob_key run)) b of
                     (ok, b') \<Rightarrow> (b', if ok then clear_resume_state_blob (rr_id run) s else s))))"

text \<open>\<open>ResumeRun\<close> from the consumption of the token on; \<open>spawn\<close> says whether the fire of the continuation
  succeeds.\<close>

definition resume_finish ::
  "resume_config \<Rightarrow> (spec \<Rightarrow> continuation \<Rightarrow> bool) \<Rightarrow> time \<Rightarrow> run_row \<times> spec \<times> continuation \<Rightarrow>
   blobs \<times> run_store \<Rightarrow> (resume_error + continuation) \<times> blobs \<times> run_store" where
  "resume_finish cfg spawn now p w =
     (case p of (run, spec, co) \<Rightarrow> case w of (b, s) \<Rightarrow>
        (case mark_run_resumed now (rr_id run) s of
           (Some RunNotSuspended, s') \<Rightarrow> (Inl NotSuspended, b, s')
         | (Some RunNotFound, s') \<Rightarrow> (Inl MarkFailed, b, s')
         | (None, s') \<Rightarrow>
             if \<not> spawn spec co then (Inl SpawnFailed, b, s')
             else (Inr co, resume_collect cfg run (b, s'))))"

definition resume_run ::
  "resume_config \<Rightarrow> kinded list \<Rightarrow> (task_id \<Rightarrow> bool) \<Rightarrow> (task_id \<rightharpoonup> spec) \<Rightarrow> (spec \<Rightarrow> continuation \<Rightarrow> bool) \<Rightarrow>
   time \<Rightarrow> string \<Rightarrow> string \<Rightarrow> blobs \<times> run_store \<Rightarrow> (resume_error + continuation) \<times> blobs \<times> run_store" where
  "resume_run cfg tasks guard daemons spawn now token input w =
     (case resume_prepare cfg tasks guard daemons now token input w of
        (Inl e, w') \<Rightarrow> (Inl e, w')
      | (Inr p, w') \<Rightarrow> resume_finish cfg spawn now p w')"

end
