(* ===== verification/ResumeSafety.thy ===== *)
theory ResumeSafety
  imports Resume
begin

text \<open>
  What suspension and resumption guarantee: parameters that came from secrets are not stored and
  come back, the state of a suspended task reaches its continuation whatever happens in between,
  and a refused resume leaves the suspension as it was, except where the code gives it up.
\<close>

section \<open>Parameters\<close>

definition secret_hit :: "secrets_chain \<Rightarrow> string list \<Rightarrow> (string \<times> string) list \<Rightarrow> string \<Rightarrow> bool" where
  "secret_hit resolve allowed params n \<longleftrightarrow>
     n \<in> set allowed \<and> (\<exists>v. resolve n = Secret v \<and> map_of params n = Some v)"

lemma redact_names_hits:
  "redact_names resolve allowed params ns out red = Some (out', red') \<Longrightarrow>
     red' = red @ map (\<lambda>n. ''params.'' @ n) (filter (secret_hit resolve allowed params) ns) \<and>
     map_of out' = (\<lambda>n. if n \<in> set ns \<and> secret_hit resolve allowed params n then Some redact_placeholder else map_of out n)"
proof (induction resolve allowed params ns out red rule: redact_names.induct)
  case (1 resolve allowed params out red)
  then show ?case by simp
next
  case (2 resolve allowed params n ns out red)
  show ?case
  proof (cases "secret_hit resolve allowed params n")
    case False
    then have "redact_names resolve allowed params ns out red = Some (out', red')"
      using "2.prems" by (auto simp: secret_hit_def split: if_splits secret_result.splits)
    have "red' = red @ map (\<lambda>n. ''params.'' @ n) (filter (secret_hit resolve allowed params) ns) \<and>
       map_of out' = (\<lambda>n. if n \<in> set ns \<and> secret_hit resolve allowed params n then Some redact_placeholder else map_of out n)"
    proof (cases "n \<in> set allowed")
      case no: False
      from "2.IH"(1) [OF no \<open>redact_names resolve allowed params ns out red = _\<close>] show ?thesis .
    next
      case yes: True
      with "2.prems" have "resolve n \<noteq> SecretFailed" by auto
      then show ?thesis
      proof (cases "resolve n")
        case (Secret v)
        with False yes have "map_of params n \<noteq> Some v" by (auto simp: secret_hit_def)
        with yes Secret \<open>redact_names resolve allowed params ns out red = _\<close> "2.IH" show ?thesis by blast
      next
        case SecretMissing
        with yes \<open>redact_names resolve allowed params ns out red = _\<close> "2.IH" show ?thesis by blast
      qed simp
    qed
    with False show ?thesis by (auto simp: fun_eq_iff)
  next
    case True
    then obtain v where v: "n \<in> set allowed" "resolve n = Secret v" "map_of params n = Some v"
      by (auto simp: secret_hit_def)
    with "2.prems" have "redact_names resolve allowed params ns (AList.update n redact_placeholder out)
        (red @ [''params.'' @ n]) = Some (out', red')" by simp
    moreover have "redact_names resolve allowed params ns (AList.update n redact_placeholder out)
        (red @ [''params.'' @ n]) = Some (out', red') \<Longrightarrow>
      red' = (red @ [''params.'' @ n]) @ map (\<lambda>n. ''params.'' @ n) (filter (secret_hit resolve allowed params) ns) \<and>
      map_of out' = (\<lambda>m. if m \<in> set ns \<and> secret_hit resolve allowed params m then Some redact_placeholder
        else map_of (AList.update n redact_placeholder out) m)"
      using v by (intro "2.IH"(3)) simp_all
    ultimately show ?thesis using v True
      by (auto simp: AList.update_conv' fun_eq_iff)
  qed
qed

lemma restore_names_hits:
  assumes "\<forall>n \<in> set ns. n \<in> set allowed \<and> (\<exists>v. resolve n = Secret v)"
  shows "\<exists>out'. restore_names resolve allowed (map (\<lambda>n. ''params.'' @ n) ns) out = Inr out' \<and>
    map_of out' = (\<lambda>n. if n \<in> set ns then (case resolve n of Secret v \<Rightarrow> Some v | _ \<Rightarrow> None) else map_of out n)"
  using assms
proof (induction ns arbitrary: out)
  case (Cons n ns)
  then obtain v where v: "n \<in> set allowed" "resolve n = Secret v" by auto
  have c: "cut_prefix ''params.'' (''params.'' @ n) = Some n" by (simp only: cut_prefix_Some)
  obtain out' where "restore_names resolve allowed (map (\<lambda>n. ''params.'' @ n) ns) (AList.update n v out) = Inr out'"
    "map_of out' = (\<lambda>m. if m \<in> set ns then (case resolve m of Secret v \<Rightarrow> Some v | _ \<Rightarrow> None)
       else map_of (AList.update n v out) m)"
    using Cons.IH [of "AList.update n v out"] Cons.prems by auto
  with c v show ?case
    by (intro exI [of _ out']) (auto simp: AList.update_conv' fun_eq_iff simp del: append_Cons)
qed simp

lemma redact_restore:
  assumes "redact_secret_backed_params secrets s params = Some (red, flds)"
  shows "(\<exists>ps. restore_secret_backed_params secrets s red flds = Inr ps \<and> map_of ps = map_of params)"
    "secrets = Some resolve \<Longrightarrow> n \<in> set (secret_backed_param_names s) \<Longrightarrow> resolve n = Secret v \<Longrightarrow>
       v \<noteq> redact_placeholder \<Longrightarrow> map_of red n \<noteq> Some v"
proof -
  have *: "(\<exists>ps. restore_secret_backed_params secrets s red flds = Inr ps \<and> map_of ps = map_of params) \<and>
    (\<forall>resolve n v. secrets = Some resolve \<longrightarrow> n \<in> set (secret_backed_param_names s) \<longrightarrow> resolve n = Secret v \<longrightarrow>
       v \<noteq> redact_placeholder \<longrightarrow> map_of red n \<noteq> Some v)"
  proof (cases secrets)
    case None
    with assms show ?thesis by (simp add: redact_secret_backed_params_def restore_secret_backed_params_def)
  next
    case (Some resolve)
    let ?al = "secret_backed_param_names s"
    show ?thesis
    proof (cases "params = [] \<or> ?al = []")
      case True
      with assms Some have "red = params" "flds = []"
        by (auto simp: redact_secret_backed_params_def Let_def split: if_splits)
      with True Some show ?thesis by (auto simp: restore_secret_backed_params_def)
    next
      case False
      let ?ns = "sort (map fst params)"
      let ?hs = "filter (secret_hit resolve ?al params) ?ns"
      from False Some assms have "redact_names resolve ?al params ?ns params [] = Some (red, flds)"
        by (simp add: redact_secret_backed_params_def Let_def)
      from redact_names_hits [OF this] have f: "flds = map (\<lambda>n. ''params.'' @ n) ?hs"
        and m: "map_of red = (\<lambda>n. if n \<in> fst ` set params \<and> secret_hit resolve ?al params n
          then Some redact_placeholder else map_of params n)" by auto
      have "\<forall>n \<in> set ?hs. n \<in> set ?al \<and> (\<exists>v. resolve n = Secret v)" by (auto simp: secret_hit_def)
      from restore_names_hits [OF this, of red] obtain ps where
        ps: "restore_names resolve ?al flds red = Inr ps" and
        mps: "map_of ps = (\<lambda>n. if n \<in> set ?hs then (case resolve n of Secret v \<Rightarrow> Some v | _ \<Rightarrow> None) else map_of red n)"
        unfolding f by blast
      have "map_of ps n = map_of params n" for n
        using map_of_SomeD by (fastforce simp: mps m secret_hit_def image_iff)
      then have "map_of ps = map_of params" by (rule ext)
      moreover have "restore_secret_backed_params secrets s red flds = Inr ps \<or> (flds = [] \<and> ps = red)"
        using ps Some by (auto simp: restore_secret_backed_params_def)
      moreover have "map_of red n \<noteq> Some v"
        if "n \<in> set ?al" "resolve n = Secret v" "v \<noteq> redact_placeholder" for n v
        using that by (cases "map_of params n = Some v")
          (auto simp: m secret_hit_def dest: map_of_SomeD intro: rev_image_eqI)
      ultimately show ?thesis using Some by (auto simp: restore_secret_backed_params_def)
    qed
  qed
  then show "\<exists>ps. restore_secret_backed_params secrets s red flds = Inr ps \<and> map_of ps = map_of params"
    "secrets = Some resolve \<Longrightarrow> n \<in> set (secret_backed_param_names s) \<Longrightarrow> resolve n = Secret v \<Longrightarrow>
       v \<noteq> redact_placeholder \<Longrightarrow> map_of red n \<noteq> Some v" by blast+
qed

lemma redact_keeps_keys:
  assumes "redact_secret_backed_params secrets s params = Some (red, flds)"
  shows "map_of red n = None \<longleftrightarrow> map_of params n = None"
proof (cases "red = params")
  case False
  then obtain resolve where "redact_names resolve (secret_backed_param_names s) params (sort (map fst params)) params [] =
      Some (red, flds)"
    using assms by (auto simp: redact_secret_backed_params_def Let_def split: if_splits option.splits)
  from redact_names_hits [OF this] show ?thesis by (auto simp: secret_hit_def)
qed simp

text \<open>C24. Parameters across a suspension. As long as the secrets and the grants of the task are the same,
  what is stored for a suspended run is restored to exactly the parameters it was fired with;
  and no value that the task is granted as a secret is stored under that name.\<close>

theorem secret_params_roundtrip:
  "redact_secret_backed_params secrets s params = Some (red, flds) \<longrightarrow>
     (\<exists>ps. restore_secret_backed_params secrets s red flds = Inr ps \<and> map_of ps = map_of params) \<and>
     (\<forall>resolve n v. secrets = Some resolve \<and> n \<in> set (secret_backed_param_names s) \<and> resolve n = Secret v \<and>
        v \<noteq> redact_placeholder \<longrightarrow> map_of red n \<noteq> Some v)"
  using redact_restore by blast

definition ex_granted :: spec where
  "ex_granted = empty_spec\<lparr>sp_id := ''t'', sp_permissions := no_permissions\<lparr>pm_env :=
     [\<lparr>ee_name = ''KEY'', ee_from = [], ee_secret = ''key'', ee_value = [], ee_default = [], ee_optional = False,
       ee_if_missing = None\<rparr>]\<rparr>\<rparr>"

definition ex_secrets :: secrets_chain where
  "ex_secrets n = (if n = ''key'' then Secret ''hunter2'' else SecretMissing)"

lemma ex_redact:
  "redact_secret_backed_params (Some ex_secrets) ex_granted [(''key'', ''hunter2''), (''url'', ''x'')] =
     Some ([(''key'', redact_placeholder), (''url'', ''x'')], [''params.key''])"
  by (simp add: redact_secret_backed_params_def secret_backed_param_names_def ex_granted_def no_permissions_def
      ex_secrets_def less_char_def)

theorem secret_params_roundtrip_witness:
  "\<exists>ps. restore_secret_backed_params (Some ex_secrets) ex_granted [(''key'', redact_placeholder), (''url'', ''x'')] [''params.key''] =
     Inr ps \<and> map_of ps ''key'' = Some ''hunter2''"
  using secret_params_roundtrip [of "Some ex_secrets" ex_granted "[(''key'', ''hunter2''), (''url'', ''x'')]"] ex_redact
  by fastforce

section \<open>Rows of suspended runs\<close>

abbreviation is_suspended :: "run_row \<Rightarrow> bool" where
  "is_suspended r \<equiv> rr_status r = status_suspended"

text \<open>The columns a resume reads.\<close>

definition resume_view :: "run_row \<Rightarrow> run_id \<times> task_id \<times> string option \<times> string option \<times> time option \<times>
    resume_carry option \<times> string list option \<times> string option \<times> time option" where
  "resume_view r = (rr_id r, rr_task r, rr_state r, rr_token r, rr_deadline r, rr_carry r, rr_carry_redacted r,
     rr_blob_key r, rr_blob_stored r)"

definition token_only :: "run_id \<Rightarrow> string \<Rightarrow> run_store \<Rightarrow> bool" where
  "token_only i t s \<longleftrightarrow> (\<forall>r \<in> set (st_runs s). rr_token r = Some t \<longrightarrow> rr_id r = i)"

definition leaves_alone :: "run_id \<Rightarrow> string \<Rightarrow> (run_row \<Rightarrow> bool) \<Rightarrow> (run_row \<Rightarrow> run_row) \<Rightarrow> bool" where
  "leaves_alone i t P f \<longleftrightarrow>
     (\<forall>r. rr_id (f r) = rr_id r) \<and>
     (\<forall>r. P r \<longrightarrow> rr_token (f r) = Some t \<longrightarrow> rr_token r = Some t) \<and>
     (\<forall>r. rr_id r = i \<longrightarrow> P r \<longrightarrow> is_suspended r \<longrightarrow> is_suspended (f r) \<longrightarrow> resume_view (f r) = resume_view r)"

definition undisturbed :: "run_id \<Rightarrow> string \<Rightarrow> run_store \<Rightarrow> run_store \<Rightarrow> bool" where
  "undisturbed i t s s' \<longleftrightarrow>
     (\<forall>r r'. get_run i s = Some r \<longrightarrow> is_suspended r \<longrightarrow> get_run i s' = Some r' \<longrightarrow> is_suspended r' \<longrightarrow>
        resume_view r' = resume_view r) \<and>
     (token_only i t s \<longrightarrow> token_only i t s')"

lemma undisturbed_same: "st_runs s' = st_runs s \<Longrightarrow> undisturbed i t s s'"
  by (auto simp: undisturbed_def token_only_def get_run_def)

lemma undisturbed_update:
  assumes "leaves_alone i t P f"
  shows "undisturbed i t s (sql_update P f s)"
proof -
  have id: "rr_id (f r) = rr_id r" for r using assms by (simp add: leaves_alone_def)
  have "get_run i (sql_update P f s) = map_option (\<lambda>r. if P r then f r else r) (get_run i s)"
    by (rule get_run_update) (rule id)
  then have "resume_view r' = resume_view r"
    if "get_run i s = Some r" "is_suspended r" "get_run i (sql_update P f s) = Some r'" "is_suspended r'" for r r'
    using that assms get_run_Some [OF that(1)] by (auto simp: leaves_alone_def split: if_splits)
  moreover have "token_only i t s \<Longrightarrow> token_only i t (sql_update P f s)"
    using assms by (auto simp: token_only_def sql_update_def leaves_alone_def)
  ultimately show ?thesis by (auto simp: undisturbed_def)
qed

lemma leaves_alone_columns:
  "leaves_alone i t P (\<lambda>r. r\<lparr>rr_return := ret, rr_ctype := ct, rr_content := co\<rparr>)"
  "leaves_alone i t P (\<lambda>r. r\<lparr>rr_group := g\<rparr>)"
  "leaves_alone i t P (\<lambda>r. r\<lparr>rr_input_pinned := p\<rparr>)"
  "leaves_alone i t P (\<lambda>r. r\<lparr>rr_input_key := k, rr_input_size := sz, rr_input_stored := st, rr_input_redacted := fs\<rparr>)"
  "leaves_alone i t P clear_input"
  "j \<noteq> i \<Longrightarrow> leaves_alone i t (has_id j) (\<lambda>r. r\<lparr>rr_blob_key := bk, rr_blob_size := bs, rr_blob_stored := bt\<rparr>)"
  by (auto simp: leaves_alone_def resume_view_def clear_input_def has_id_def)

lemma leaves_alone_finish:
  "status \<noteq> status_suspended \<Longrightarrow> leaves_alone i t P (\<lambda>r. r\<lparr>rr_status := status, rr_finished := Some now\<rparr>)"
  "status \<noteq> status_suspended \<Longrightarrow> leaves_alone i t P (\<lambda>r. r\<lparr>rr_status := status, rr_finished := Some now, rr_reason := reason\<rparr>)"
  "status \<noteq> status_suspended \<Longrightarrow> leaves_alone i t P
     (\<lambda>r. r\<lparr>rr_status := status, rr_finished := Some now, rr_return := ret, rr_ctype := ct, rr_content := co\<rparr>)"
  "status \<noteq> status_suspended \<Longrightarrow> leaves_alone i t P
     (\<lambda>r. r\<lparr>rr_status := status, rr_finished := Some now, rr_reason := reason, rr_token := None\<rparr>)"
  by (auto simp: leaves_alone_def)

lemma leaves_alone_suspend:
  "t' \<noteq> t \<Longrightarrow> leaves_alone i t (\<lambda>r. has_id j r \<and> rr_status r = status_running)
     (\<lambda>r. r\<lparr>rr_status := status_suspended, rr_state := sta, rr_schema := sc, rr_token := Some t', rr_suspended_at := Some a,
            rr_deadline := d, rr_carry := c, rr_carry_redacted := fs, rr_blob_key := bk, rr_blob_size := bs,
            rr_blob_stored := bt\<rparr>)"
  by (auto simp: leaves_alone_def status_defs)

text \<open>The operations that may come between: the state of the run is not freed by hand, and nobody
  draws the same token again.\<close>

fun op_elsewhere :: "run_id \<Rightarrow> string \<Rightarrow> run_op \<Rightarrow> bool" where
  "op_elsewhere i t (ClearBlob j) = (j \<noteq> i)"
| "op_elsewhere i t (Suspend j sta sc t' at dl ca fs ref) = (t' \<noteq> t)"
| "op_elsewhere i t x = op_ok x"

lemma op_elsewhere_ok: "op_elsewhere i t x \<Longrightarrow> op_ok x"
  by (cases x) auto

lemma statuses_differ [simp]:
  "status_cancelled \<noteq> status_suspended" "status_resumed \<noteq> status_suspended" "status_failure \<noteq> status_suspended"
  "status_success \<noteq> status_suspended" "status_running \<noteq> status_suspended"
  by (simp_all add: status_defs)

lemmas statuses_differ' [simp] = statuses_differ [THEN not_sym]

lemma exec_undisturbed:
  assumes "store_ok s" "op_elsewhere i t x"
  shows "undisturbed i t s (run_exec x s)"
proof (cases x)
  case (StartRun now j tk p src k)
  show ?thesis
  proof (cases "start_run_with_id now j tk p src k s")
    case None
    with StartRun show ?thesis by (simp add: undisturbed_same)
  next
    case (Some s')
    then obtain row where s': "s' = s\<lparr>st_runs := st_runs s @ [row]\<rparr>" and row: "rr_token row = None"
      by (auto simp: start_run_with_id_def Let_def fresh_row_def split: if_splits)
    have "find (has_id i) rs = Some r \<Longrightarrow> find (has_id i) (rs @ [row]) = Some r" for r rs
      by (induction rs) (auto split: if_splits)
    then have "undisturbed i t s s'"
      using row by (auto simp: undisturbed_def s' token_only_def get_run_def)
    with StartRun Some show ?thesis by simp
  qed
next
  case (ClearInputs ids)
  then show ?thesis by (simp add: clear_run_inputs_def clear_chunks undisturbed_update leaves_alone_columns)
next
  case (SweepExpired now)
  then show ?thesis by (simp add: sweep_is_one_update [OF assms(1)] undisturbed_update leaves_alone_finish)
next
  case (Suspend j sta sc tok at dl ca fs ref)
  have "undisturbed i t s (snd (suspend_run j sta sc tok at dl ca fs ref s))"
    using assms(2) Suspend unfolding suspend_run_def Let_def snd_conv
    by (intro undisturbed_update leaves_alone_suspend) simp
  with Suspend show ?thesis by simp
next
  case (SweepPins)
  then show ?thesis
    by (simp add: sweep_stale_pins_def Let_def undisturbed_update leaves_alone_columns undisturbed_same)
next
  case (CleanupStale now)
  then show ?thesis
    by (simp add: cleanup_stale_runs_def Let_def undisturbed_update leaves_alone_finish undisturbed_same)
next
  case (MarkResumed now j)
  then show ?thesis by (simp add: mark_run_resumed_def Let_def undisturbed_update leaves_alone_finish)
next
  case (Finish now j status)
  with assms(2) show ?thesis by (auto simp: finish_run_def intro!: undisturbed_update leaves_alone_finish)
next
  case (FinishReason now j status reason)
  with assms(2) show ?thesis by (auto simp: finish_run_with_reason_def intro!: undisturbed_update leaves_alone_finish)
next
  case (FinishResult now j status ret ct co)
  with assms(2) show ?thesis by (auto simp: finish_run_with_result_def intro!: undisturbed_update leaves_alone_finish)
qed (use assms(2) in \<open>simp_all add: set_run_result_def append_log_def bulk_runs
    set_run_group_def set_run_input_def clear_run_input_def pin_run_input_def unpin_run_input_def
    cancel_suspended_run_def clear_resume_state_blob_def Let_def
    undisturbed_update leaves_alone_columns leaves_alone_finish undisturbed_same\<close>)

lemma ops_undisturbed:
  assumes "store_ok s" "list_all (op_elsewhere i t) ops" "get_run i s = Some r" "is_suspended r"
    "get_run i (run_ops ops s) = Some r'" "is_suspended r'" "token_only i t s"
  shows "resume_view r' = resume_view r \<and> token_only i t (run_ops ops s)"
  using assms
proof (induction ops arbitrary: s r)
  case Nil
  then show ?case by (simp add: run_ops_def)
next
  case (Cons x ops)
  let ?s1 = "run_exec x s"
  have x: "op_elsewhere i t x" "list_all (op_elsewhere i t) ops" using Cons.prems(2) by simp_all
  from exec_step [OF op_elsewhere_ok [OF x(1)]] Cons.prems(1) have ok1: "store_ok ?s1" and le: "store_le s ?s1"
    by (auto simp: store_step_def)
  from le Cons.prems(3) obtain r1 where r1: "get_run i ?s1 = Some r1" "row_le r r1" by (auto simp: store_le_def)
  have "list_all op_ok ops" using x(2) op_elsewhere_ok by (auto simp: list_all_iff)
  from ops_step [OF this] ok1 have "store_le ?s1 (run_ops ops ?s1)" by (simp add: store_step_def)
  moreover have eq: "run_ops (x # ops) s = run_ops ops ?s1" by (simp add: run_ops_def)
  ultimately have "row_le r1 r'" using Cons.prems(5) r1(1) unfolding store_le_def by fastforce
  with r1(2) Cons.prems(4,6) have "row_phase r1 = 1" by (simp add: row_le_def)
  then have sus1: "is_suspended r1" by (auto simp: row_phase_def split: if_splits)
  from exec_undisturbed [OF Cons.prems(1) x(1)] r1(1) sus1 Cons.prems(3,4,7)
  have v1: "resume_view r1 = resume_view r" "token_only i t ?s1" by (auto simp: undisturbed_def)
  from Cons.IH [OF ok1 x(2) r1(1) sus1] Cons.prems(5,6) v1 eq show ?case by simp
qed

section \<open>What the store of large states promises\<close>

text \<open>The contract of the storage task and of the cipher: what was put is kept and comes back, what was
  encrypted for a run and a time decrypts for them, and no encryption is empty.\<close>

definition storage_contract :: "storage_runner \<Rightarrow> bool" where
  "storage_contract run \<longleftrightarrow>
     (\<forall>k v b m. reply_result (fst (run (OpPut k v) b)) = Inr m \<longrightarrow> snd (run (OpPut k v) b) k = Some v) \<and>
     (\<forall>k v b. b k = Some v \<longrightarrow> (\<exists>m. reply_result (fst (run (OpGet k) b)) = Inr m \<and> map_of m ''value'' = Some (JStr v)))"

definition crypto_contract :: "state_crypto \<Rightarrow> bool" where
  "crypto_contract c \<longleftrightarrow>
     (\<forall>p i t x. cr_encrypt c p i t = Some x \<longrightarrow> cr_decrypt c x i t = Some p \<and> x \<noteq> []) \<and>
     (\<forall>x. cr_unbase64 c (cr_base64 c x) = Some x \<and> (x \<noteq> [] \<longrightarrow> cr_base64 c x \<noteq> []))"

definition stores_ok :: "resume_config \<Rightarrow> bool" where
  "stores_ok cfg \<longleftrightarrow> (case rc_store cfg of None \<Rightarrow> True
     | Some st \<Rightarrow> storage_contract (rs_runner st) \<and> crypto_contract (rs_crypto st))"

lemma persist_fetch:
  assumes "storage_contract (rs_runner st)" "crypto_contract (rs_crypto st)"
    "blob_persist st now i state b = (Some ref, b1)" "b2 (br_key ref) = b1 (br_key ref)"
  shows "br_key ref = resume_state_key_prefix @ i" "br_stored ref = now"
    "fst (blob_fetch st i (br_key ref) now b2) = Inr state"
proof -
  let ?k = "resume_state_key_prefix @ i"
  from assms(3) obtain x where x: "cr_encrypt (rs_crypto st) state i now = Some x"
    by (auto simp: blob_persist_def split: option.splits)
  let ?v = "cr_base64 (rs_crypto st) x"
  obtain r bb where r: "rs_runner st (OpPut ?k ?v) b = (r, bb)" by fastforce
  with assms(3) x obtain m where m: "reply_result r = Inr m"
    by (cases "reply_result r") (auto simp: blob_persist_def Let_def)
  with assms(3) x r have ref: "ref = \<lparr>br_key = ?k, br_size = int (length x), br_stored = now\<rparr>" and b1: "b1 = bb"
    by (auto simp: blob_persist_def Let_def)
  from ref show "br_key ref = ?k" "br_stored ref = now" by simp_all
  from assms(1) r m have "bb ?k = Some ?v" unfolding storage_contract_def by (metis fst_conv snd_conv)
  with assms(4) ref b1 have "b2 ?k = Some ?v" by simp
  with assms(1) obtain m' where m': "reply_result (fst (rs_runner st (OpGet ?k) b2)) = Inr m'"
    "map_of m' ''value'' = Some (JStr ?v)" unfolding storage_contract_def by blast
  moreover have "?v \<noteq> []" "cr_unbase64 (rs_crypto st) ?v = Some x" "cr_decrypt (rs_crypto st) x i now = Some state"
    using assms(2) x by (auto simp: crypto_contract_def)
  ultimately show "fst (blob_fetch st i (br_key ref) now b2) = Inr state"
    by (auto simp: blob_fetch_def ref split: prod.split)
qed

text \<open>What a successful suspension leaves in the row.\<close>

lemma suspend_run_row:
  assumes "store_ok s" "suspend_run i sta sc t at dl ca fs ref s = (True, s1)"
    "\<forall>r \<in> set (st_runs s). rr_token r \<noteq> Some t"
  shows "store_ok s1" "token_only i t s1"
    "\<exists>r. get_run i s1 = Some r \<and> is_suspended r \<and> rr_id r = i \<and> rr_state r = (if ref = None then sta else None) \<and>
       rr_token r = Some t \<and> rr_deadline r = (if 0 < dl then Some dl else None) \<and> rr_carry r = ca \<and>
       rr_carry_redacted r = Some fs \<and> rr_blob_key r = map_option br_key ref \<and> rr_blob_stored r = map_option br_stored ref"
proof -
  let ?P = "\<lambda>r. has_id i r \<and> rr_status r = status_running"
  have s1: "s1 = snd (suspend_run i sta sc t at dl ca fs ref s)" using assms(2) by simp
  then show "store_ok s1"
    using harmless_step [OF harmless_suspend] assms(1) by (auto simp: suspend_run_def Let_def store_step_def)
  show "token_only i t s1"
    using assms(3) unfolding s1 by (auto simp: token_only_def suspend_run_def Let_def sql_update_def has_id_def)
  have "0 < sql_affected ?P s" using assms(2) by (simp add: suspend_run_def Let_def)
  then obtain r0 where r0: "r0 \<in> set (st_runs s)" "?P r0" by (auto simp: affected_pos)
  have "get_run i s = Some r0" using get_run_mem [OF _ r0(1)] r0(2) assms(1) by (simp add: store_ok_def has_id_def)
  then show "\<exists>r. get_run i s1 = Some r \<and> is_suspended r \<and> rr_id r = i \<and> rr_state r = (if ref = None then sta else None) \<and>
       rr_token r = Some t \<and> rr_deadline r = (if 0 < dl then Some dl else None) \<and> rr_carry r = ca \<and>
       rr_carry_redacted r = Some fs \<and> rr_blob_key r = map_option br_key ref \<and> rr_blob_stored r = map_option br_stored ref"
    unfolding s1 suspend_run_def Let_def using r0(2) by (simp add: get_run_update has_id_def)
qed

section \<open>From suspension to continuation\<close>

abbreviation suspend_deadline :: "time \<Rightarrow> suspend_result \<Rightarrow> time" where
  "suspend_deadline now res \<equiv> (if sr_deadline res \<le> 0 then now + default_resume_ttl else sr_deadline res)"

lemma engine_suspend_cases:
  assumes "engine_suspend_run cfg t now spec i params depth res (b, s) = (Some True, b1, s1)"
  obtains red flds ref where "redact_secret_backed_params (rc_secrets cfg) spec params = Some (red, flds)"
    "suspend_run i (if ref = None then Some (sr_state res) else None) (sr_schema res) t now (suspend_deadline now res)
       (carry_of red depth) flds ref s = (True, s1)"
    "\<And>rf. ref = Some rf \<Longrightarrow> \<exists>st. rc_store cfg = Some st \<and>
       blob_persist st (now div 1000) i (sr_state res) b = (Some rf, b1)"
proof -
  let ?red = "redact_secret_backed_params (rc_secrets cfg) spec params"
  from assms obtain red flds where red: "?red = Some (red, flds)"
    by (cases ?red) (auto simp: engine_suspend_run_def Let_def)
  define off where "off = (case rc_store cfg of None \<Rightarrow> None
    | Some st \<Rightarrow> if rc_threshold cfg < int (length (sr_state res)) then Some st else None)"
  show ?thesis
  proof (cases off)
    case None
    with assms red have "suspend_run i (Some (sr_state res)) (sr_schema res) t now (suspend_deadline now res)
       (carry_of red depth) flds None s = (True, s1)"
      by (auto simp: engine_suspend_run_def Let_def off_def split: prod.splits)
    with red that [of red flds None] show ?thesis by simp
  next
    case (Some st)
    then have st: "rc_store cfg = Some st" by (auto simp: off_def split: option.splits if_splits)
    from assms red Some obtain rf b' where p: "blob_persist st (now div 1000) i (sr_state res) b = (Some rf, b')"
      and su: "suspend_run i None (sr_schema res) t now (suspend_deadline now res)
         (carry_of red depth) flds (Some rf) s = (True, s1)" and b: "b1 = b'"
      unfolding engine_suspend_run_def Let_def off_def by (auto split: prod.splits option.splits)
    show ?thesis by (rule that [of red flds "Some rf"]) (use red su p b st in auto)
  qed
qed

lemma carried_params:
  assumes "redact_secret_backed_params secrets spec params = Some (red, flds)" "0 \<le> depth" "carry_of red depth = ca"
    "secret_backed_param_names spec' = secret_backed_param_names spec"
  shows "\<exists>ps. (case ca of None \<Rightarrow> Inr ([], 0)
     | Some c \<Rightarrow> (case restore_secret_backed_params secrets spec' (ry_params c) flds of
                   Inl e \<Rightarrow> Inl e | Inr ps \<Rightarrow> Inr (ps, ry_depth c))) = (Inr (ps, depth) :: restore_error + _) \<and>
     map_of ps = map_of params"
proof -
  have "restore_secret_backed_params secrets spec' = restore_secret_backed_params secrets spec"
    by (intro ext) (simp only: restore_secret_backed_params_def assms(4))
  with redact_restore(1) [OF assms(1)] obtain ps where
    ps: "restore_secret_backed_params secrets spec' red flds = Inr ps" "map_of ps = map_of params" by auto
  show ?thesis
  proof (cases "red \<noteq> [] \<or> 0 < depth")
    case True
    with ps assms(3) show ?thesis by (auto simp: carry_of_def)
  next
    case False
    have "params = []"
    proof (rule ccontr)
      assume "params \<noteq> []"
      then obtain p ps where "params = p # ps" by (cases params) auto
      then have "map_of params (fst p) \<noteq> None" by simp
      then obtain n v where "map_of params n = Some v" by blast
      moreover have "map_of red = (\<lambda>_. None)" using False by auto
      ultimately show False using redact_keeps_keys [OF assms(1), of n] by auto
    qed
    with False assms(2,3) show ?thesis by (auto simp: carry_of_def)
  qed
qed

lemma token_lookup:
  assumes "store_ok s" "token_only i t s" "get_run i s = Some r" "rr_token r = Some t" "t \<noteq> []"
  shows "get_run_by_resume_token t s = Some r"
proof -
  have "find (\<lambda>r. rr_token r = Some t) (st_runs s) = Some r"
  proof (cases "find (\<lambda>r. rr_token r = Some t) (st_runs s)")
    case None
    with assms(3,4) get_run_Some show ?thesis by (fastforce simp: find_None_iff)
  next
    case (Some r')
    then have "r' \<in> set (st_runs s)" "rr_token r' = Some t" by (auto simp: find_Some_iff)
    with assms get_run_Some [OF assms(3)] have "r' = r"
      by (auto simp: token_only_def store_ok_def intro: rows_unique)
    with Some show ?thesis by simp
  qed
  with assms(5) show ?thesis by (simp add: get_run_by_resume_token_def)
qed

lemma mark_suspended:
  assumes "get_run i s = Some r" "is_suspended r"
  obtains s' where "mark_run_resumed now i s = (None, s')"
    "get_run i s' = Some (r\<lparr>rr_status := status_resumed, rr_finished := Some now\<rparr>)"
proof -
  let ?P = "\<lambda>r. has_id i r \<and> rr_status r = status_suspended"
  let ?s' = "sql_update ?P (\<lambda>r. r\<lparr>rr_status := status_resumed, rr_finished := Some now\<rparr>) s"
  from assms get_run_Some [OF assms(1)] have "0 < sql_affected ?P s" by (auto simp: affected_pos has_id_def)
  then have "mark_run_resumed now i s = (None, ?s')" by (simp add: mark_run_resumed_def Let_def)
  moreover have "get_run i ?s' = Some (r\<lparr>rr_status := status_resumed, rr_finished := Some now\<rparr>)"
    using assms get_run_Some [OF assms(1)] by (simp add: get_run_update has_id_def)
  ultimately show ?thesis by (rule that)
qed

lemma collect_status:
  assumes "get_run i s = Some r" "resume_collect cfg run (b, s) = (b', s')"
  shows "\<exists>r'. get_run i s' = Some r' \<and> rr_status r' = rr_status r"
  using assms
  by (auto simp: resume_collect_def clear_resume_state_blob_def get_run_update split: option.splits if_splits prod.splits)

lemma resume_finish_ok:
  assumes "get_run (rr_id run) s = Some r" "is_suspended r" "spawn spec co"
  obtains b' s' r' where "resume_finish cfg spawn now (run, spec, co) (b, s) = (Inr co, b', s')"
    "get_run (rr_id run) s' = Some r'" "rr_status r' = status_resumed"
proof -
  obtain s1 where s1: "mark_run_resumed now (rr_id run) s = (None, s1)"
    "get_run (rr_id run) s1 = Some (r\<lparr>rr_status := status_resumed, rr_finished := Some now\<rparr>)"
    by (rule mark_suspended [OF assms(1,2)])
  obtain b' s' where c: "resume_collect cfg run (b, s1) = (b', s')" by fastforce
  from collect_status [OF s1(2) c] obtain r' where "get_run (rr_id run) s' = Some r'" "rr_status r' = status_resumed" by auto
  moreover have "resume_finish cfg spawn now (run, spec, co) (b, s) = (Inr co, b', s')"
    using s1 c assms(3) by (simp add: resume_finish_def)
  ultimately show ?thesis using that by blast
qed

text \<open>C23. Suspended work reaches its continuation. A task suspends with a state, in the database or in
  the store of large states. Whatever the registry then does to this and other runs, as long as
  the run is still suspended, its blob is in place and its deadline is not over, the token finds
  it; and if the task is registered with the same secret grants and approved, and the fire
  succeeds, the continuation gets exactly the suspended state, parameters and chain depth, as a
  child of the suspended run, which is \<open>resumed\<close> then.\<close>

theorem suspended_work_reaches_continuation:
  "store_ok s \<and> t \<noteq> [] \<and> (\<forall>r \<in> set (st_runs s). rr_token r \<noteq> Some t) \<and> stores_ok cfg \<and> 0 \<le> depth \<and>
   engine_suspend_run cfg t now spec i params depth res (b, s) = (Some True, b1, s1) \<and>
   list_all (op_elsewhere i t) ops \<and> s2 = run_ops ops s1 \<and> get_run i s2 = Some r \<and> is_suspended r \<and>
   b2 (resume_state_key_prefix @ i) = b1 (resume_state_key_prefix @ i) \<and> later \<le> suspend_deadline now res \<and>
   get_spec (rr_task r) tasks = Some spec' \<and> guard (sp_id spec') \<and> spawn spec' = (\<lambda>co. True) \<and>
   secret_backed_param_names spec' = secret_backed_param_names spec \<longrightarrow>
     (\<exists>ps b3 s3 r3. resume_run cfg tasks guard daemons spawn later t input (b2, s2) =
        (Inr \<lparr>co_parent = i, co_state = Some (sr_state res), co_input = input, co_params = ps, co_depth = depth\<rparr>, b3, s3) \<and>
        map_of ps = map_of params \<and> get_run i s3 = Some r3 \<and> rr_status r3 = status_resumed)"
proof (intro impI, elim conjE)
  let ?co = "\<lambda>ps. \<lparr>co_parent = i, co_state = Some (sr_state res), co_input = input, co_params = ps, co_depth = depth\<rparr>"
  assume a: "store_ok s" "t \<noteq> []" "\<forall>r \<in> set (st_runs s). rr_token r \<noteq> Some t" "stores_ok cfg" "0 \<le> depth"
    "engine_suspend_run cfg t now spec i params depth res (b, s) = (Some True, b1, s1)"
    "list_all (op_elsewhere i t) ops" "s2 = run_ops ops s1" "get_run i s2 = Some r" "is_suspended r"
    "b2 (resume_state_key_prefix @ i) = b1 (resume_state_key_prefix @ i)" "later \<le> suspend_deadline now res"
    "get_spec (rr_task r) tasks = Some spec'" "guard (sp_id spec')" "spawn spec' = (\<lambda>co. True)"
    "secret_backed_param_names spec' = secret_backed_param_names spec"
  obtain red flds ref where red: "redact_secret_backed_params (rc_secrets cfg) spec params = Some (red, flds)"
    and su: "suspend_run i (if ref = None then Some (sr_state res) else None) (sr_schema res) t now
       (suspend_deadline now res) (carry_of red depth) flds ref s = (True, s1)"
    and rf: "\<And>rf. ref = Some rf \<Longrightarrow> \<exists>st. rc_store cfg = Some st \<and>
       blob_persist st (now div 1000) i (sr_state res) b = (Some rf, b1)"
    by (rule engine_suspend_cases [OF a(6)]) blast
  from suspend_run_row [OF a(1) su a(3)] obtain r1 where ok1: "store_ok s1" "token_only i t s1" and
    r1: "get_run i s1 = Some r1" "is_suspended r1" "rr_id r1 = i"
      "rr_state r1 = (if ref = None then Some (sr_state res) else None)"
      "rr_token r1 = Some t" "rr_deadline r1 = (if 0 < suspend_deadline now res then Some (suspend_deadline now res) else None)"
      "rr_carry r1 = carry_of red depth" "rr_carry_redacted r1 = Some flds"
      "rr_blob_key r1 = map_option br_key ref" "rr_blob_stored r1 = map_option br_stored ref" by (auto split: if_splits)
  from ops_undisturbed [OF ok1(1) a(7) r1(1,2) a(9) [unfolded a(8)] a(10) ok1(2)]
  have v: "resume_view r = resume_view r1" "token_only i t s2" by (simp_all add: a(8))
  have ok2: "store_ok s2"
    using ops_step [of ops s1] ok1(1) a(7) op_elsewhere_ok unfolding a(8) store_step_def by (auto simp: list_all_iff)
  from v(1) r1 have r: "rr_id r = i" "rr_state r = (if ref = None then Some (sr_state res) else None)" "rr_token r = Some t"
      "rr_deadline r = (if 0 < suspend_deadline now res then Some (suspend_deadline now res) else None)"
      "rr_carry r = carry_of red depth" "rr_carry_redacted r = Some flds"
      "rr_blob_key r = map_option br_key ref" "rr_blob_stored r = map_option br_stored ref"
    by (simp_all add: resume_view_def)
  have tok: "get_run_by_resume_token t s2 = Some r" by (rule token_lookup [OF ok2 v(2) a(9) r(3) a(2)])
  have live: "\<not> (0 < coalesce 0 (rr_deadline r) \<and> coalesce 0 (rr_deadline r) < later)"
    using a(12) by (simp add: r(4) coalesce_def split: if_splits)
  have cf: "coalesce [] (Some flds) = flds" by (simp add: coalesce_def)
  from carried_params [OF red a(5) refl a(16)] obtain ps where
    ps: "(case rr_carry r of None \<Rightarrow> Inr ([], 0)
       | Some c \<Rightarrow> (case restore_secret_backed_params (rc_secrets cfg) spec' (ry_params c)
                     (coalesce [] (rr_carry_redacted r)) of
                   Inl e \<Rightarrow> Inl e | Inr ps \<Rightarrow> Inr (ps, ry_depth c))) = (Inr (ps, depth) :: restore_error + _)"
    "map_of ps = map_of params" unfolding r(5,6) cf by blast
  have "\<exists>b3. resume_prepare cfg tasks guard daemons later t input (b2, s2) = (Inr (r, spec', ?co ps), b3, s2)"
  proof (cases ref)
    case None
    with tok a(10,13,14) live ps(1) r show ?thesis by (simp add: resume_prepare_def Let_def coalesce_def)
  next
    case (Some rb)
    with rf obtain st where st: "rc_store cfg = Some st" "blob_persist st (now div 1000) i (sr_state res) b = (Some rb, b1)"
      by blast
    with a(4) have c: "storage_contract (rs_runner st)" "crypto_contract (rs_crypto st)" by (simp_all add: stores_ok_def)
    note k = persist_fetch(1) [OF c st(2), of b1] persist_fetch(2) [OF c st(2), of b1]
    from persist_fetch(3) [OF c st(2)] a(11) k(1) have "fst (blob_fetch st i (br_key rb) (now div 1000) b2) = Inr (sr_state res)"
      by simp
    then obtain b3 where "blob_fetch st i (br_key rb) (now div 1000) b2 = (Inr (sr_state res), b3)" by (metis prod.collapse)
    with Some st(1) tok a(10,13,14) live ps(1) r k show ?thesis
      by (simp add: resume_prepare_def Let_def coalesce_def resume_state_key_prefix_def)
  qed
  then obtain b3 where p: "resume_prepare cfg tasks guard daemons later t input (b2, s2) = (Inr (r, spec', ?co ps), b3, s2)" ..
  have "spawn spec' (?co ps)" by (simp add: a(15))
  with a(9,10) r(1) obtain b4 s4 r4 where
    "resume_finish cfg spawn later (r, spec', ?co ps) (b3, s2) = (Inr (?co ps), b4, s4)"
    "get_run i s4 = Some r4" "rr_status r4 = status_resumed"
    using resume_finish_ok [of r s2 r spawn spec' "?co ps" cfg later b3] by metis
  with p ps(2) show "\<exists>ps b3 s3 r3. resume_run cfg tasks guard daemons spawn later t input (b2, s2) =
        (Inr (?co ps), b3, s3) \<and> map_of ps = map_of params \<and> get_run i s3 = Some r3 \<and> rr_status r3 = status_resumed"
    by (auto simp: resume_run_def)
qed

text \<open>A concrete store: a map, whose replies are those of the storage task, and a cipher that prepends the
  run.\<close>

definition map_storage :: storage_runner where
  "map_storage x b = (case x of
     OpPut k v \<Rightarrow> (Reply (JObj [(''ok'', JBool True)]), b(k \<mapsto> v))
   | OpGet k \<Rightarrow> (case b k of None \<Rightarrow> (Reply (JObj [(''ok'', JBool True)]), b)
                  | Some v \<Rightarrow> (Reply (JObj [(''ok'', JBool True), (''value'', JStr v)]), b))
   | OpDelete k \<Rightarrow> (Reply (JObj [(''ok'', JBool True)]), b(k := None)))"

definition tag_crypto :: state_crypto where
  "tag_crypto = \<lparr>cr_encrypt = (\<lambda>p i t. Some (CHR ''#'' # i @ p)),
     cr_decrypt = (\<lambda>c i t. if take (length i + 1) c = CHR ''#'' # i then Some (drop (length i + 1) c) else None),
     cr_base64 = (\<lambda>x. x), cr_unbase64 = Some\<rparr>"

definition ex_config :: resume_config where
  "ex_config = \<lparr>rc_secrets = Some ex_secrets, rc_store = Some \<lparr>rs_crypto = tag_crypto, rs_runner = map_storage\<rparr>, rc_threshold = 2\<rparr>"

lemma ex_config_ok: "stores_ok ex_config"
  by (auto simp: stores_ok_def ex_config_def storage_contract_def crypto_contract_def map_storage_def tag_crypto_def
      reply_result_def storage_result_def)

definition ex_run_store :: run_store where
  "ex_run_store = run_ops [StartRun 1 ''r1'' ''t'' [] ''manual'' ''task''] new_store"

lemma ex_run_store_rows: "st_runs ex_run_store = [fresh_row 1 ''r1'' ''t'' [] ''manual'' ''task'' ''r1'']"
  by (simp add: ex_run_store_def run_ops_def start_run_with_id_def new_store_def get_run_def Let_def)

definition ex_suspend_result :: suspend_result where
  "ex_suspend_result = \<lparr>sr_state = ''step2'', sr_schema = None, sr_deadline = 0\<rparr>"

definition ex_suspension :: "bool option \<times> blobs \<times> run_store" where
  "ex_suspension = engine_suspend_run ex_config ''tok'' 5 ex_granted ''r1'' [(''key'', ''hunter2''), (''url'', ''x'')] 2
     ex_suspend_result (Map.empty, ex_run_store)"

lemma ex_suspension_result:
  "fst ex_suspension = Some True"
  "\<exists>r. get_run ''r1'' (snd (snd ex_suspension)) = Some r \<and> is_suspended r \<and> rr_task r = ''t''"
  by (simp_all add: ex_suspension_def engine_suspend_run_def Let_def ex_config_def ex_redact ex_suspend_result_def
      blob_persist_def tag_crypto_def map_storage_def reply_result_def storage_result_def suspend_run_def sql_affected_def
      sql_update_def ex_run_store_rows has_id_def fresh_row_def get_run_def)

theorem suspended_work_reaches_continuation_witness:
  "\<exists>ps co b3 s3. resume_run ex_config [KSpec ex_granted] (\<lambda>_. True) Map.empty (\<lambda>_ _. True) 7 ''tok'' ''yes'' (snd ex_suspension) =
     (Inr co, b3, s3) \<and> co_state co = Some ''step2'' \<and> co_input co = ''yes'' \<and> map_of (co_params co) ''key'' = Some ''hunter2'' \<and>
     co_depth co = 2 \<and> co_parent co = ''r1''"
proof -
  obtain b1 s1 r where su: "ex_suspension = (Some True, b1, s1)" and r: "get_run ''r1'' s1 = Some r" "is_suspended r" "rr_task r = ''t''"
    using ex_suspension_result by (metis prod.collapse snd_conv)
  have "store_ok ex_run_store" unfolding ex_run_store_def by (rule run_ops_ok) simp
  moreover have "\<forall>r \<in> set (st_runs ex_run_store). rr_token r \<noteq> Some ''tok''" by (simp add: ex_run_store_rows fresh_row_def)
  moreover have "get_spec (rr_task r) [KSpec ex_granted] = Some ex_granted"
    using r(3) by (simp add: get_spec_def get_kinded_def ex_granted_def)
  ultimately show ?thesis
    using suspended_work_reaches_continuation [where s = ex_run_store and t = "''tok''" and cfg = ex_config and depth = 2
        and now = 5 and spec = ex_granted and i = "''r1''" and res = ex_suspend_result and b = Map.empty and ?b1.0 = b1 and ?s1.0 = s1
        and params = "[(''key'', ''hunter2''), (''url'', ''x'')]" and ops = "[]" and ?s2.0 = s1 and r = r and ?b2.0 = b1 and later = 7
        and tasks = "[KSpec ex_granted]" and spec' = ex_granted and guard = "\<lambda>_. True" and spawn = "\<lambda>_ _. True"
        and daemons = Map.empty and input = "''yes''"]
      ex_config_ok su r
    by (fastforce simp: ex_suspension_def run_ops_def ex_suspend_result_def default_resume_ttl_def)
qed

section \<open>Refused resumes\<close>

lemma token_update:
  assumes "\<And>r. rr_token (f r) = rr_token r"
  shows "get_run_by_resume_token t (sql_update P f s) =
    map_option (\<lambda>r. if P r then f r else r) (get_run_by_resume_token t s)"
proof -
  have "find (\<lambda>r. rr_token r = Some t) (map (\<lambda>r. if P r then f r else r) rs) =
      map_option (\<lambda>r. if P r then f r else r) (find (\<lambda>r. rr_token r = Some t) rs)" for rs
    by (induction rs) (auto simp: assms)
  then show ?thesis by (simp add: get_run_by_resume_token_def sql_update_def)
qed

lemma token_Some: "get_run_by_resume_token t s = Some r \<Longrightarrow> r \<in> set (st_runs s) \<and> rr_token r = Some t"
  by (auto simp: get_run_by_resume_token_def find_Some_iff split: if_splits)

lemma mark_refused: "mark_run_resumed now i s = (Some e, s') \<Longrightarrow> s' = s"
  using affected_pos [of "\<lambda>r. has_id i r \<and> rr_status r = status_suspended" s]
  by (auto simp: mark_run_resumed_def Let_def split: if_splits intro!: update_none)

lemma prepare_error:
  assumes "resume_prepare cfg tasks guard daemons now t input (b, s) = (Inl e, b', s')" "e \<noteq> Expired"
  shows "s' = s" "e \<noteq> SpawnFailed"
  using assms by (auto simp: resume_prepare_def Let_def split: option.splits if_splits sum.splits prod.splits)

lemma prepare_expired:
  assumes "resume_prepare cfg tasks guard daemons now t input (b, s) = (Inl Expired, b', s')" "store_ok s"
  shows "\<exists>r r'. get_run_by_resume_token t s = Some r \<and> get_run (rr_id r) s' = Some r' \<and>
    rr_status r' = status_cancelled \<and> rr_reason r' = reason_resume_timeout"
proof -
  from assms(1) obtain r where r: "get_run_by_resume_token t s = Some r" "is_suspended r"
      "0 < coalesce 0 (rr_deadline r)" "coalesce 0 (rr_deadline r) < now"
    and s': "s' = snd (snd (engine_sweep daemons now s))"
    by (auto simp: resume_prepare_def Let_def split: option.splits if_splits sum.splits prod.splits)
  have ex: "suspension_expired now r" using r by (auto simp: suspension_expired_def coalesce_def split: option.splits)
  have "get_run (rr_id r) s = Some r" using token_Some [OF r(1)] assms(2) by (auto simp: store_ok_def intro: get_run_mem)
  then have "get_run (rr_id r) s' = Some (timed_out now r)"
    unfolding s' by (simp add: engine_sweep_def sweep_is_one_update [OF assms(2)] get_run_update ex)
  with r(1) show ?thesis by auto
qed

text \<open>A refused resume. Unless the deadline had passed or the continuation could not be spawned, a
  refusal leaves the run log as it was, so that the token stays good for another attempt. An
  expired suspension is cancelled with the reason \<open>resume_timeout\<close>. A continuation that could not be
  spawned has used up the suspension: the run is \<open>resumed\<close> although nothing follows it, and every
  further attempt with the token is refused.\<close>

lemma refused_resume_keeps_suspension:
  "store_ok s \<and> resume_run cfg tasks guard daemons spawn now t input (b, s) = (Inl e, b', s') \<longrightarrow>
     (e \<noteq> Expired \<and> e \<noteq> SpawnFailed \<longrightarrow> s' = s) \<and>
     (e = Expired \<longrightarrow> (\<exists>r r'. get_run_by_resume_token t s = Some r \<and> get_run (rr_id r) s' = Some r' \<and>
        rr_status r' = status_cancelled \<and> rr_reason r' = reason_resume_timeout)) \<and>
     (e = SpawnFailed \<longrightarrow> (\<exists>r r'. get_run_by_resume_token t s = Some r \<and> get_run (rr_id r) s' = Some r' \<and>
        rr_status r' = status_resumed) \<and>
        (\<forall>later input2 b2. fst (resume_run cfg tasks guard daemons (\<lambda>_ _. True) later t input2 (b2, s')) = Inl NotSuspended))"
proof (intro impI, elim conjE)
  assume ok: "store_ok s" and res: "resume_run cfg tasks guard daemons spawn now t input (b, s) = (Inl e, b', s')"
  show "(e \<noteq> Expired \<and> e \<noteq> SpawnFailed \<longrightarrow> s' = s) \<and>
     (e = Expired \<longrightarrow> (\<exists>r r'. get_run_by_resume_token t s = Some r \<and> get_run (rr_id r) s' = Some r' \<and>
        rr_status r' = status_cancelled \<and> rr_reason r' = reason_resume_timeout)) \<and>
     (e = SpawnFailed \<longrightarrow> (\<exists>r r'. get_run_by_resume_token t s = Some r \<and> get_run (rr_id r) s' = Some r' \<and>
        rr_status r' = status_resumed) \<and>
        (\<forall>later input2 b2. fst (resume_run cfg tasks guard daemons (\<lambda>_ _. True) later t input2 (b2, s')) = Inl NotSuspended))"
  proof (cases "fst (resume_prepare cfg tasks guard daemons now t input (b, s))")
    case (Inl e0)
    with res have p: "resume_prepare cfg tasks guard daemons now t input (b, s) = (Inl e, b', s')"
      by (cases "resume_prepare cfg tasks guard daemons now t input (b, s)") (auto simp: resume_run_def)
    show ?thesis
    proof (cases "e = Expired")
      case True
      with p have "resume_prepare cfg tasks guard daemons now t input (b, s) = (Inl Expired, b', s')" by simp
      from prepare_expired [OF this ok] True show ?thesis by auto
    next
      case False
      with prepare_error [OF p] show ?thesis by auto
    qed
  next
    case (Inr p)
    then obtain run spec co b1 s1 where p: "resume_prepare cfg tasks guard daemons now t input (b, s) = (Inr (run, spec, co), b1, s1)"
      by (metis prod.collapse)
    then have run: "get_run_by_resume_token t s = Some run" "is_suspended run" and s1: "s1 = s"
      by (auto simp: resume_prepare_def Let_def split: option.splits if_splits sum.splits prod.splits)
    have g: "get_run (rr_id run) s = Some run"
      using token_Some [OF run(1)] ok by (auto simp: store_ok_def intro: get_run_mem)
    obtain s2 where m: "mark_run_resumed now (rr_id run) s = (None, s2)"
      "get_run (rr_id run) s2 = Some (run\<lparr>rr_status := status_resumed, rr_finished := Some now\<rparr>)"
      by (rule mark_suspended [OF g run(2)])
    from res p m(1) s1 have e: "e = SpawnFailed" "s' = s2"
      by (auto simp: resume_run_def resume_finish_def split: if_splits)
    have "s2 = sql_update (\<lambda>r. has_id (rr_id run) r \<and> rr_status r = status_suspended)
        (\<lambda>r. r\<lparr>rr_status := status_resumed, rr_finished := Some now\<rparr>) s"
      using m(1) by (auto simp: mark_run_resumed_def Let_def split: if_splits)
    then have "get_run_by_resume_token t s2 = Some (run\<lparr>rr_status := status_resumed, rr_finished := Some now\<rparr>)"
      using run by (simp add: token_update has_id_def)
    then have "fst (resume_run cfg tasks guard daemons (\<lambda>_ _. True) later t input2 (b2, s2)) = Inl NotSuspended"
      for later input2 b2 by (simp add: resume_run_def resume_prepare_def)
    with e m(2) run(1) show ?thesis by auto
  qed
qed

lemma ex_suspended_row:
  assumes "s = run_ops ex_suspending new_store"
  shows "\<exists>r. get_run_by_resume_token ''tok'' s = Some r \<and> is_suspended r \<and> rr_task r = ''t'' \<and> rr_deadline r = Some 100 \<and>
     rr_carry r = None \<and> rr_blob_key r = None \<and> rr_id r = ''r1''"
  using assms by (simp add: get_run_by_resume_token_def ex_suspending_row fresh_row_def)

lemma refused_resume_keeps_suspension_witness:
  "fst (resume_run ex_config [KSpec ex_granted] (\<lambda>_. True) Map.empty (\<lambda>_ _. False) 50 ''tok'' [] (Map.empty, run_ops ex_suspending new_store)) =
     Inl SpawnFailed \<and>
   (\<exists>s' r'. snd (snd (resume_run ex_config [KSpec ex_granted] (\<lambda>_. True) Map.empty (\<lambda>_ _. False) 50 ''tok'' []
        (Map.empty, run_ops ex_suspending new_store))) = s' \<and> get_run ''r1'' s' = Some r' \<and> rr_status r' = status_resumed)"
proof -
  let ?s = "run_ops ex_suspending new_store"
  let ?res = "resume_run ex_config [KSpec ex_granted] (\<lambda>_. True) Map.empty (\<lambda>_ _. False) 50 ''tok'' [] (Map.empty, ?s)"
  have ok: "store_ok ?s" by (rule run_ops_ok) (simp add: ex_suspending_def)
  obtain r where r: "get_run_by_resume_token ''tok'' ?s = Some r" "is_suspended r" "rr_task r = ''t''" "rr_deadline r = Some 100"
     "rr_carry r = None" "rr_blob_key r = None" "rr_id r = ''r1''"
    using ex_suspended_row by blast
  have g: "get_run ''r1'' ?s = Some r"
    using token_Some [OF r(1)] get_run_mem [of ?s r] ok r(7) by (auto simp: store_ok_def)
  obtain s1 where m: "mark_run_resumed 50 ''r1'' ?s = (None, s1)" by (rule mark_suspended [OF g r(2)])
  have e: "?res = (Inl SpawnFailed, Map.empty, s1)"
    using r m by (simp add: resume_run_def resume_prepare_def resume_finish_def coalesce_def get_spec_def get_kinded_def
        ex_granted_def)
  from refused_resume_keeps_suspension [of ?s ex_config "[KSpec ex_granted]" "\<lambda>_. True" Map.empty "\<lambda>_ _. False" 50
      "''tok''" "[]" Map.empty SpawnFailed Map.empty s1] ok e r(1,7)
  show ?thesis by auto
qed

end
