(* ===== verification/RunDispatch.thy ===== *)
theory RunDispatch
  imports Resume
begin

text \<open>
  The execution of one run: pkg/trigger/run.go, from the preflight to the terminal row, and what
  a waiter reads of it. The body of a task, the environment resolver and the fires of
  prerequisite tasks are parameters that may change the run log in any way; statements on the
  row succeed. A JSON return value is kept as its text, \<open>[]\<close> when there is none.
\<close>

section \<open>Worlds and results\<close>

record run_world =
  rw_store :: run_store
  rw_blobs :: blobs
  rw_cache :: "run_id \<rightharpoonup> string"
  rw_secrets :: "secrets_chain option"

text \<open>What an executor hands back (\<open>RunResult\<close>): \<open>xr_suspended\<close> is set when the task called
  \<open>dicode.suspend()\<close>.\<close>

record exec_result =
  xr_suspended :: "suspend_result option"
  xr_failed :: bool
  xr_return :: string
  xr_ctype :: string
  xr_content :: string
  xr_chain_input :: json

record run_finish =
  fn_status :: string
  fn_chain :: bool
  fn_output :: json

section \<open>Prerequisites\<close>

datatype if_missing_error =
    SecretCheckFailed string
  | PrereqNotRegistered task_id
  | PrereqNotFired task_id
  | SetupRequired string task_id
  | StillUnset string task_id

datatype prereq_outcome = NotFired | FiredFailed run_id | FiredOk run_id

text \<open>\<open>copyPrereqLogs\<close>.\<close>

definition copy_prereq_logs :: "time \<Rightarrow> run_id \<Rightarrow> run_id \<Rightarrow> task_id \<Rightarrow> run_store \<Rightarrow> run_store" where
  "copy_prereq_logs now prereqRun parent prereq s =
     (if parent = [] \<or> prereqRun = [] then s
      else fold (\<lambda>l. append_log now parent (lg_level l) (''[prereq '' @ prereq @ ''] '' @ lg_msg l)) (get_run_logs prereqRun s) s)"

text \<open>The loop of \<open>resolveIfMissing\<close>. \<open>fire\<close> is \<open>fireSync\<close> of the prerequisite, collapsed with the fires of
  other runs that wait for the same secret.\<close>

type_synonym prereq_fire = "spec \<Rightarrow> (string \<times> string) list \<Rightarrow> run_world \<Rightarrow> prereq_outcome \<times> run_world"

definition secret_of :: "run_world \<Rightarrow> string \<Rightarrow> secret_result" where
  "secret_of w n = (case rw_secrets w of None \<Rightarrow> SecretMissing | Some resolve \<Rightarrow> resolve n)"

definition copy_logs :: "time \<Rightarrow> run_id \<Rightarrow> run_id \<Rightarrow> task_id \<Rightarrow> run_world \<Rightarrow> run_world" where
  "copy_logs now prereqRun parent prereq w =
     w\<lparr>rw_store := copy_prereq_logs now prereqRun parent prereq (rw_store w)\<rparr>"

fun resolve_if_missing_entries ::
  "kinded list \<Rightarrow> prereq_fire \<Rightarrow> time \<Rightarrow> run_id \<Rightarrow> env_entry list \<Rightarrow> run_world \<Rightarrow> if_missing_error option \<times> run_world" where
  "resolve_if_missing_entries tasks fire now parent [] w = (None, w)"
| "resolve_if_missing_entries tasks fire now parent (en # ens) w =
     (case ee_if_missing en of
        None \<Rightarrow> resolve_if_missing_entries tasks fire now parent ens w
      | Some im \<Rightarrow>
          if im_task im = [] \<or> ee_secret en = [] then resolve_if_missing_entries tasks fire now parent ens w
          else (case secret_of w (ee_secret en) of
                  Secret v \<Rightarrow> resolve_if_missing_entries tasks fire now parent ens w
                | SecretFailed \<Rightarrow> (Some (SecretCheckFailed (ee_secret en)), w)
                | SecretMissing \<Rightarrow>
                    (case get_spec (im_task im) tasks of
                       None \<Rightarrow> (Some (PrereqNotRegistered (im_task im)), w)
                     | Some ps \<Rightarrow>
                         (case fire ps (im_params im) w of
                            (NotFired, w') \<Rightarrow> (Some (PrereqNotFired (im_task im)), w')
                          | (FiredFailed i, w') \<Rightarrow>
                              (Some (SetupRequired (ee_secret en) (im_task im)), copy_logs now i parent (im_task im) w')
                          | (FiredOk i, w') \<Rightarrow>
                              (case secret_of w' (ee_secret en) of
                                 Secret v \<Rightarrow> resolve_if_missing_entries tasks fire now parent ens w'
                               | _ \<Rightarrow> (Some (StillUnset (ee_secret en) (im_task im)), copy_logs now i parent (im_task im) w'))))))"

definition resolve_if_missing ::
  "kinded list \<Rightarrow> prereq_fire \<Rightarrow> time \<Rightarrow> spec \<Rightarrow> run_id \<Rightarrow> run_world \<Rightarrow> if_missing_error option \<times> run_world" where
  "resolve_if_missing tasks fire now spec parent w =
     (if rw_secrets w = None then (None, w)
      else resolve_if_missing_entries tasks fire now parent (pm_env (sp_permissions spec)) w)"

section \<open>Dispatch\<close>

datatype run_error =
    NoExecutor string
  | PrereqUnsatisfied if_missing_error
  | ExecutorError
  | SuspendFailed
  | PreflightFailed string
  | BodyFailed
  | RunStatus string

abbreviation run_failed :: run_finish where
  "run_failed \<equiv> \<lparr>fn_status = status_failure, fn_chain = False, fn_output = JNull\<rparr>"

definition finish_row :: "time \<Rightarrow> run_id \<Rightarrow> string \<Rightarrow> run_world \<Rightarrow> run_world" where
  "finish_row now i status w = w\<lparr>rw_store := finish_run now i status (rw_store w)\<rparr>"

text \<open>The suspended branch.\<close>

definition dispatch_suspended ::
  "resume_config \<Rightarrow> string \<Rightarrow> time \<Rightarrow> int \<Rightarrow> spec \<Rightarrow> run_id \<Rightarrow> (string \<times> string) list \<Rightarrow> suspend_result \<Rightarrow>
   run_world \<Rightarrow> run_finish \<times> run_error option \<times> run_world" where
  "dispatch_suspended cfg token now depth spec i params sr w =
     (case engine_suspend_run (cfg\<lparr>rc_secrets := rw_secrets w\<rparr>) token now spec i params depth sr (rw_blobs w, rw_store w) of
        (None, b, s) \<Rightarrow> (run_failed, Some SuspendFailed, finish_row now i status_failure (w\<lparr>rw_blobs := b, rw_store := s\<rparr>))
      | (Some False, b, s) \<Rightarrow>
          (\<lparr>fn_status = (case get_run i s of None \<Rightarrow> status_cancelled | Some r \<Rightarrow> rr_status r),
            fn_chain = False, fn_output = JNull\<rparr>, None, w\<lparr>rw_blobs := b, rw_store := s\<rparr>)
      | (Some True, b, s) \<Rightarrow>
          (\<lparr>fn_status = status_suspended, fn_chain = False, fn_output = JNull\<rparr>, None, w\<lparr>rw_blobs := b, rw_store := s\<rparr>))"

text \<open>The branch of an executed body: \<open>cancelled\<close> says that the run's context is over.\<close>

definition dispatch_finished ::
  "time \<Rightarrow> spec \<Rightarrow> run_id \<Rightarrow> bool \<Rightarrow> exec_result \<Rightarrow> run_world \<Rightarrow> run_finish \<times> run_error option \<times> run_world" where
  "dispatch_finished now spec i cancelled res w =
     (let status = (if xr_failed res then (if cancelled then status_cancelled else status_failure) else status_success);
          persist = persist_return_value spec;
          ret = (if persist then xr_return res else []);
          cache = (if \<not> persist \<and> xr_return res \<noteq> [] then (rw_cache w)(i \<mapsto> xr_return res) else rw_cache w)
      in (\<lparr>fn_status = status, fn_chain = True, fn_output = xr_chain_input res\<rparr>,
          if xr_failed res then Some BodyFailed else None,
          w\<lparr>rw_store := finish_run_with_result now i status ret (xr_ctype res) (xr_content res) (rw_store w),
            rw_cache := cache\<rparr>))"

record run_env =
  ev_config :: resume_config
  ev_token :: string
  ev_depth :: int
  ev_executor :: "string \<Rightarrow> bool"
  ev_tasks :: "kinded list"
  ev_fire :: prereq_fire
  ev_execute :: "spec \<Rightarrow> run_world \<Rightarrow> exec_result option \<times> bool \<times> run_world"
  ev_preflight_env :: "spec \<Rightarrow> run_world \<Rightarrow> string option \<times> run_world"

text \<open>\<open>dispatch\<close>. \<open>ev_execute\<close> is the executor: its result, \<open>None\<close> for an error, and whether the context of the
  run is over when it returns.\<close>

definition dispatch ::
  "run_env \<Rightarrow> time \<Rightarrow> spec \<Rightarrow> run_id \<Rightarrow> (string \<times> string) list \<Rightarrow> run_world \<Rightarrow> run_finish \<times> run_error option \<times> run_world" where
  "dispatch ev now spec i params w =
     (if \<not> ev_executor ev (sp_runtime spec)
      then (run_failed, Some (NoExecutor (sp_runtime spec)), finish_row now i status_failure w)
      else (case resolve_if_missing (ev_tasks ev) (ev_fire ev) now spec i w of
              (Some err, w1) \<Rightarrow> (run_failed, Some (PrereqUnsatisfied err), finish_row now i status_failure w1)
            | (None, w1) \<Rightarrow>
                (case ev_execute ev spec w1 of
                   (None, cancelled, w2) \<Rightarrow> (run_failed, Some ExecutorError, finish_row now i status_failure w2)
                 | (Some res, cancelled, w2) \<Rightarrow>
                     (case xr_suspended res of
                        Some sr \<Rightarrow> dispatch_suspended (ev_config ev) (ev_token ev) now (ev_depth ev) spec i params sr w2
                      | None \<Rightarrow> dispatch_finished now spec i cancelled res w2))))"

section \<open>A task run\<close>

text \<open>\<open>preflightParams\<close> as \<open>runTask\<close> uses it: the failure reason.\<close>

definition preflight_reason :: "spec \<Rightarrow> (string \<times> string) list \<Rightarrow> string option" where
  "preflight_reason spec params =
     (case missing_required_params (sp_params spec) (map_of params) of
        [] \<Rightarrow> None
      | [n] \<Rightarrow> Some (''params_invalid: '' @ n @ '' is required'')
      | ns \<Rightarrow> Some (''params_invalid: '' @ join_with '', '' ns @ '' are required''))"

text \<open>The preflight in its two legs.\<close>

definition run_preflight ::
  "run_env \<Rightarrow> spec \<Rightarrow> (string \<times> string) list \<Rightarrow> run_world \<Rightarrow> string option \<times> run_world" where
  "run_preflight ev spec params w =
     (case preflight_reason spec params of
        Some reason \<Rightarrow> (Some reason, w)
      | None \<Rightarrow> ev_preflight_env ev spec w)"

text \<open>\<open>runTask\<close> up to the finish of the handle.\<close>

definition run_task ::
  "run_env \<Rightarrow> time \<Rightarrow> spec \<Rightarrow> run_id \<Rightarrow> (string \<times> string) list \<Rightarrow> run_world \<Rightarrow> run_finish \<times> run_error option \<times> run_world" where
  "run_task ev now spec i params w =
     (case run_preflight ev spec params w of
        (Some reason, w1) \<Rightarrow>
          (\<lparr>fn_status = status_failure, fn_chain = True, fn_output = JNull\<rparr>, Some (PreflightFailed reason),
           w1\<lparr>rw_store := finish_run_with_reason now i status_failure reason (rw_store w1)\<rparr>)
      | (None, w1) \<Rightarrow> dispatch ev now spec i params w1)"

text \<open>\<open>fireSync\<close>, once the run is open: every outcome but success is an error.\<close>

definition sync_error :: "run_finish \<times> run_error option \<times> run_world \<Rightarrow> run_error option" where
  "sync_error x =
     (case x of (f, e, w) \<Rightarrow>
        (case e of Some err \<Rightarrow> Some err
         | None \<Rightarrow> if fn_status f \<noteq> status_success then Some (RunStatus (fn_status f)) else None))"

section \<open>What a waiter reads\<close>

definition is_json_content_type :: "string \<Rightarrow> bool" where
  "is_json_content_type ct = (trim_space (takeWhile (\<lambda>c. c \<noteq> CHR '';'') ct) = ''application/json'')"

record run_result =
  rt_run :: run_id
  rt_status :: string
  rt_return :: string

definition build_run_result :: "(run_id \<rightharpoonup> string) \<Rightarrow> run_id \<Rightarrow> run_row \<Rightarrow> run_result" where
  "build_run_result cache i r =
     (let ret1 = (if rr_return r = [] then coalesce [] (cache i) else rr_return r);
          ret2 = (if ret1 = [] \<and> rr_status r \<noteq> status_success \<and> rr_content r \<noteq> [] \<and> is_json_content_type (rr_ctype r)
                  then rr_content r else ret1)
      in \<lparr>rt_run = i, rt_status = rr_status r, rt_return = ret2\<rparr>)"

definition trigger_resume :: string where
  "trigger_resume = ''resume''"

definition resume_continuation_id :: "run_id \<Rightarrow> run_store \<Rightarrow> run_id" where
  "resume_continuation_id parent s =
     (case find (\<lambda>c. rr_source c = trigger_resume) (list_children parent 50 s) of None \<Rightarrow> [] | Some c \<Rightarrow> rr_id c)"

definition max_empty_resumed_polls :: nat where
  "max_empty_resumed_polls = 25"

text \<open>One pass of the loop of \<open>WaitRun\<close> sees the world when it reads the run, and a later log when it looks
  for the continuation. The list of what it sees ends when the context of the caller does.\<close>

type_synonym sight = "run_world \<times> run_store"

datatype wait_outcome = WaitOver | WaitNotFound | Waited run_result

fun wait_run :: "sight list \<Rightarrow> nat \<Rightarrow> run_id \<Rightarrow> wait_outcome" where
  "wait_run [] polls i = WaitOver"
| "wait_run ((w, later) # ss) polls i =
     (case get_run i (rw_store w) of
        None \<Rightarrow> WaitNotFound
      | Some r \<Rightarrow>
          (let res = build_run_result (rw_cache w) i r in
           if rt_status res = status_resumed then
             (let next = resume_continuation_id i later in
              if next \<noteq> [] then wait_run ss 0 next
              else if max_empty_resumed_polls < polls + 1 then Waited res
              else wait_run ss (polls + 1) i)
           else if rt_status res = status_suspended \<or> rt_status res = status_running then wait_run ss 0 i
           else Waited res))"

end
