(* ===== verification/RunDispatchSafety.thy ===== *)
theory RunDispatchSafety
  imports RunDispatch ResumeSafety
begin

text \<open>
  What the execution of a run guarantees: the row ends as the run is reported, return values reach
  the waiter whether or not they are stored, prerequisites are fired for missing secrets only,
  and a waiter is told the outcome of the last continuation.
\<close>

section \<open>The row and the report\<close>

text \<open>The run log is well formed and has the row of the run. The parameters keep it so; they may change the
  row.\<close>

definition has_row :: "run_id \<Rightarrow> run_world \<Rightarrow> bool" where
  "has_row i w \<longleftrightarrow> store_ok (rw_store w) \<and> get_run i (rw_store w) \<noteq> None"

definition keeps_row :: "run_id \<Rightarrow> run_env \<Rightarrow> bool" where
  "keeps_row i ev \<longleftrightarrow>
     (\<forall>sp ps w. has_row i w \<longrightarrow> has_row i (snd (ev_fire ev sp ps w))) \<and>
     (\<forall>sp w. has_row i w \<longrightarrow> has_row i (snd (snd (ev_execute ev sp w)))) \<and>
     (\<forall>sp w. has_row i w \<longrightarrow> has_row i (snd (ev_preflight_env ev sp w)))"

definition row_status :: "run_id \<Rightarrow> run_world \<Rightarrow> string option" where
  "row_status i w = map_option rr_status (get_run i (rw_store w))"

lemma finish_row_status:
  assumes "has_row i w"
  shows "row_status i (finish_row now i st w) = Some st"
proof -
  obtain r where "get_run i (rw_store w) = Some r" using assms by (auto simp: has_row_def)
  moreover from get_run_Some [OF this] have "has_id i r" by (simp add: has_id_def)
  ultimately show ?thesis by (simp add: row_status_def finish_row_def finish_run_def get_run_update)
qed

lemma finish_result_status:
  "get_run i s = Some r \<Longrightarrow> get_run i (finish_run_with_result now i st ret ct co s) =
     Some (r\<lparr>rr_status := st, rr_finished := Some now, rr_return := ret, rr_ctype := ct, rr_content := co\<rparr>)"
  by (auto simp: finish_run_with_result_def get_run_update has_id_def dest: get_run_Some)

lemma finish_reason_status:
  "get_run i s = Some r \<Longrightarrow> get_run i (finish_run_with_reason now i st reason s) =
     Some (r\<lparr>rr_status := st, rr_finished := Some now, rr_reason := reason\<rparr>)"
  by (auto simp: finish_run_with_reason_def get_run_update has_id_def dest: get_run_Some)

lemma append_logs_runs: "st_runs (fold (\<lambda>l. append_log now b (g l) (f l)) ls s) = st_runs s"
  by (induction ls arbitrary: s) (auto simp: append_log_def)

lemma copy_logs_runs [simp]: "st_runs (rw_store (copy_logs now a b c w)) = st_runs (rw_store w)"
  unfolding copy_logs_def copy_prereq_logs_def by (simp add: append_logs_runs)

lemma copy_logs_row [simp]: "has_row i (copy_logs now a b c w) = has_row i w"
  by (simp add: has_row_def get_run_def store_ok_def)

lemma prereqs_keep_row:
  assumes "\<And>sp ps w. has_row i w \<Longrightarrow> has_row i (snd (fire sp ps w))"
  shows "has_row i w \<Longrightarrow> has_row i (snd (resolve_if_missing_entries tasks fire now parent ens w))"
proof (induction ens arbitrary: w)
  case (Cons en ens)
  have f: "has_row i w'" if "fire sp ps w = (x, w')" for sp ps x w'
    using assms [OF Cons.prems, of sp ps] that by simp
  show ?case using Cons.IH Cons.prems f
    by (auto split: option.splits secret_result.splits prereq_outcome.splits prod.splits)
qed simp

lemma suspend_keeps_rows:
  "get_run i (snd (suspend_run j sta sc t at dl ca fs ref s)) = None \<longleftrightarrow> get_run i s = None"
  by (simp add: suspend_run_def Let_def get_run_update)

lemma engine_suspend_store:
  assumes "engine_suspend_run cfg t now spec i params depth res (b, s) = (x, b', s')"
  shows "x = None \<Longrightarrow> s' = s"
    "x \<noteq> None \<Longrightarrow> \<exists>sta sc at dl ca fs ref ok. x = Some ok \<and> suspend_run i sta sc t at dl ca fs ref s = (ok, s')"
  using assms unfolding engine_suspend_run_def Let_def
  by (auto split: prod.splits option.splits if_splits, blast+)

lemma dispatch_suspended_status:
  assumes "has_row i w" "dispatch_suspended cfg token now depth spec i params sr w = (f, e, w')"
  shows "row_status i w' = Some (fn_status f)" "\<not> fn_chain f"
proof -
  obtain x b s where x: "engine_suspend_run (cfg\<lparr>rc_secrets := rw_secrets w\<rparr>) token now spec i params depth sr
      (rw_blobs w, rw_store w) = (x, b, s)" by (metis prod.collapse)
  note st = engine_suspend_store [OF x]
  have "row_status i w' = Some (fn_status f) \<and> \<not> fn_chain f"
  proof (cases x)
    case None
    with st(1) assms(1) have "has_row i (w\<lparr>rw_blobs := b, rw_store := s\<rparr>)" by (simp add: has_row_def)
    from finish_row_status [OF this] None x assms(2) show ?thesis by (auto simp: dispatch_suspended_def)
  next
    case (Some ok)
    with st(2) obtain sta sc at dl ca fs ref where
      su: "suspend_run i sta sc token at dl ca fs ref (rw_store w) = (ok, s)" by auto
    then have "get_run i s \<noteq> None" using suspend_keeps_rows [of i i sta sc token at dl ca fs ref "rw_store w"] assms(1)
      by (simp add: has_row_def)
    then obtain r where r: "get_run i s = Some r" by auto
    show ?thesis
    proof (cases ok)
      case True
      from su True obtain r1 where r1: "r1 \<in> set (st_runs (rw_store w))" "has_id i r1" "rr_status r1 = status_running"
        by (auto simp: suspend_run_def Let_def affected_pos)
      then have "get_run i (rw_store w) = Some r1"
        using assms(1) get_run_mem [OF _ r1(1)] by (simp add: has_row_def store_ok_def has_id_def)
      moreover have "s = snd (suspend_run i sta sc token at dl ca fs ref (rw_store w))" using su by simp
      ultimately have "is_suspended r" using r r1(2,3) by (auto simp: suspend_run_def Let_def get_run_update)
      then show ?thesis using r x assms(2) Some True by (auto simp: dispatch_suspended_def row_status_def)
    next
      case False
      with r x assms(2) Some show ?thesis by (auto simp: dispatch_suspended_def row_status_def)
    qed
  qed
  then show "row_status i w' = Some (fn_status f)" "\<not> fn_chain f" by simp_all
qed

lemma dispatch_finished_status:
  assumes "has_row i w" "dispatch_finished now spec i cancelled res w = (f, e, w')"
  shows "row_status i w' = Some (fn_status f)" "fn_chain f"
    "fn_status f = (if xr_failed res then if cancelled then status_cancelled else status_failure else status_success)"
proof -
  from assms(1) obtain r where "get_run i (rw_store w) = Some r" by (auto simp: has_row_def)
  from finish_result_status [OF this] assms(2) show "row_status i w' = Some (fn_status f)" "fn_chain f"
    "fn_status f = (if xr_failed res then if cancelled then status_cancelled else status_failure else status_success)"
    by (auto simp: dispatch_finished_def Let_def row_status_def)
qed

lemma dispatch_status:
  assumes "keeps_row i ev" "has_row i w" "dispatch ev now spec i params w = (f, e, w')"
  shows "row_status i w' = Some (fn_status f)"
    "fn_chain f \<longleftrightarrow> (\<exists>w1 res c w2. ev_executor ev (sp_runtime spec) \<and>
       resolve_if_missing (ev_tasks ev) (ev_fire ev) now spec i w = (None, w1) \<and>
       ev_execute ev spec w1 = (Some res, c, w2) \<and> xr_suspended res = None)"
    "fn_chain f \<longrightarrow> fn_status f \<in> {status_success, status_failure, status_cancelled}"
proof -
  obtain er w1 where r1: "resolve_if_missing (ev_tasks ev) (ev_fire ev) now spec i w = (er, w1)" by fastforce
  obtain xr c w2 where x: "ev_execute ev spec w1 = (xr, c, w2)" by (metis prod.collapse)
  have k1: "has_row i w1"
    using prereqs_keep_row [of i "ev_fire ev" w] assms(1,2) r1
    unfolding keeps_row_def resolve_if_missing_def by (auto split: if_splits) (metis snd_conv)
  with x assms(1) have k2: "has_row i w2" unfolding keeps_row_def by (metis snd_conv)
  have "row_status i w' = Some (fn_status f) \<and>
    (fn_chain f \<longleftrightarrow> ev_executor ev (sp_runtime spec) \<and> er = None \<and> (\<exists>res. xr = Some res \<and> xr_suspended res = None)) \<and>
    (fn_chain f \<longrightarrow> fn_status f \<in> {status_success, status_failure, status_cancelled})"
  proof (cases "ev_executor ev (sp_runtime spec) \<and> er = None")
    case False
    with assms(3) r1 finish_row_status [OF assms(2)] finish_row_status [OF k1] show ?thesis
      by (auto simp: dispatch_def split: if_splits option.splits)
  next
    case True
    show ?thesis
    proof (cases xr)
      case None
      with True assms(3) r1 x finish_row_status [OF k2] show ?thesis by (auto simp: dispatch_def)
    next
      case (Some res)
      show ?thesis
      proof (cases "xr_suspended res")
        case None
        with True Some assms(3) r1 x have "dispatch_finished now spec i c res w2 = (f, e, w')" by (simp add: dispatch_def)
        from dispatch_finished_status [OF k2 this] True Some None show ?thesis by auto
      next
        case (Some sr)
        with \<open>xr = Some res\<close> True assms(3) r1 x
        have "dispatch_suspended (ev_config ev) (ev_token ev) now (ev_depth ev) spec i params sr w2 = (f, e, w')"
          by (simp add: dispatch_def)
        from dispatch_suspended_status [OF k2 this] \<open>xr = Some res\<close> Some show ?thesis by auto
      qed
    qed
  qed
  with r1 x show "row_status i w' = Some (fn_status f)"
    "fn_chain f \<longleftrightarrow> (\<exists>w1 res c w2. ev_executor ev (sp_runtime spec) \<and>
       resolve_if_missing (ev_tasks ev) (ev_fire ev) now spec i w = (None, w1) \<and>
       ev_execute ev spec w1 = (Some res, c, w2) \<and> xr_suspended res = None)"
    "fn_chain f \<longrightarrow> fn_status f \<in> {status_success, status_failure, status_cancelled}" by auto
qed

text \<open>C25. A run is recorded as it is reported. Whatever the resolver, the prerequisites and the body do to
  the run log, as long as the row stays: after \<open>runTask\<close> the row has the status that the hooks,
  the chains and the caller are told. Chains are dispatched exactly for a run whose preflight
  failed or whose body ran and did not suspend, and then the status is final.\<close>

theorem run_is_recorded_as_reported:
  "keeps_row i ev \<and> has_row i w \<and> run_task ev now spec i params w = (f, e, w') \<longrightarrow>
     row_status i w' = Some (fn_status f) \<and>
     (fn_chain f \<longrightarrow> fn_status f \<in> {status_success, status_failure, status_cancelled}) \<and>
     (fn_chain f \<longleftrightarrow> fst (run_preflight ev spec params w) \<noteq> None \<or>
        (\<exists>w0 w1 res c w2. run_preflight ev spec params w = (None, w0) \<and> ev_executor ev (sp_runtime spec) \<and>
           resolve_if_missing (ev_tasks ev) (ev_fire ev) now spec i w0 = (None, w1) \<and>
           ev_execute ev spec w1 = (Some res, c, w2) \<and> xr_suspended res = None))"
proof (intro impI, elim conjE)
  assume k: "keeps_row i ev" and h: "has_row i w" and r: "run_task ev now spec i params w = (f, e, w')"
  obtain pr w1 where p: "run_preflight ev spec params w = (pr, w1)" by fastforce
  have h1: "has_row i w1"
    using k h p unfolding keeps_row_def run_preflight_def by (auto split: option.splits) (metis snd_conv)
  have "row_status i w' = Some (fn_status f) \<and>
     (fn_chain f \<longrightarrow> fn_status f \<in> {status_success, status_failure, status_cancelled}) \<and>
     (fn_chain f \<longleftrightarrow> pr \<noteq> None \<or> (\<exists>w2 res c w3. ev_executor ev (sp_runtime spec) \<and>
           resolve_if_missing (ev_tasks ev) (ev_fire ev) now spec i w1 = (None, w2) \<and>
           ev_execute ev spec w2 = (Some res, c, w3) \<and> xr_suspended res = None))"
  proof (cases pr)
    case (Some reason)
    from h1 obtain row where "get_run i (rw_store w1) = Some row" by (auto simp: has_row_def)
    from finish_reason_status [OF this] Some r p show ?thesis by (auto simp: run_task_def row_status_def)
  next
    case None
    with r p have d: "dispatch ev now spec i params w1 = (f, e, w')" by (simp add: run_task_def)
    from dispatch_status [OF k h1 d] None show ?thesis by blast
  qed
  with p show "row_status i w' = Some (fn_status f) \<and>
     (fn_chain f \<longrightarrow> fn_status f \<in> {status_success, status_failure, status_cancelled}) \<and>
     (fn_chain f \<longleftrightarrow> fst (run_preflight ev spec params w) \<noteq> None \<or>
        (\<exists>w0 w1 res c w2. run_preflight ev spec params w = (None, w0) \<and> ev_executor ev (sp_runtime spec) \<and>
           resolve_if_missing (ev_tasks ev) (ev_fire ev) now spec i w0 = (None, w1) \<and>
           ev_execute ev spec w1 = (Some res, c, w2) \<and> xr_suspended res = None))" by auto
qed

text \<open>A body that suspends without a store, on a run that is running.\<close>

definition ex_run_env :: run_env where
  "ex_run_env = \<lparr>ev_config = \<lparr>rc_secrets = None, rc_store = None, rc_threshold = 0\<rparr>, ev_token = ''tok'', ev_depth = 0,
     ev_executor = (\<lambda>_. True), ev_tasks = [], ev_fire = (\<lambda>_ _ w. (NotFired, w)),
     ev_execute = (\<lambda>_ w. (Some \<lparr>xr_suspended = Some ex_suspend_result, xr_failed = False, xr_return = [], xr_ctype = [],
        xr_content = [], xr_chain_input = JNull\<rparr>, False, w)),
     ev_preflight_env = (\<lambda>_ w. (None, w))\<rparr>"

definition ex_run_world :: run_world where
  "ex_run_world = \<lparr>rw_store = ex_run_store, rw_blobs = Map.empty, rw_cache = Map.empty, rw_secrets = None\<rparr>"

lemma ex_run_world_row: "has_row ''r1'' ex_run_world" "keeps_row ''r1'' ex_run_env"
proof -
  have "store_ok ex_run_store" unfolding ex_run_store_def by (rule run_ops_ok) simp
  then show "has_row ''r1'' ex_run_world" by (simp add: has_row_def ex_run_world_def get_run_def ex_run_store_rows has_id_def fresh_row_def)
  show "keeps_row ''r1'' ex_run_env" by (simp add: keeps_row_def ex_run_env_def)
qed

theorem run_is_recorded_as_reported_witness:
  "\<exists>f e w'. run_task ex_run_env 5 empty_spec ''r1'' [] ex_run_world = (f, e, w') \<and> fn_status f = status_suspended \<and>
     row_status ''r1'' w' = Some status_suspended \<and> \<not> fn_chain f"
proof -
  have s: "fn_status (fst (run_task ex_run_env 5 empty_spec ''r1'' [] ex_run_world)) = status_suspended"
    by (simp add: run_task_def run_preflight_def preflight_reason_def missing_required_params_def dispatch_def ex_run_env_def
        resolve_if_missing_def ex_run_world_def dispatch_suspended_def engine_suspend_run_def redact_secret_backed_params_def
        ex_suspend_result_def Let_def suspend_run_def sql_affected_def ex_run_store_rows fresh_row_def has_id_def
        empty_spec_def)
  obtain f e w' where r: "run_task ex_run_env 5 empty_spec ''r1'' [] ex_run_world = (f, e, w')" by (metis prod.collapse)
  with run_is_recorded_as_reported [of "''r1''" ex_run_env ex_run_world 5 empty_spec "[]" f e w'] ex_run_world_row s
  show ?thesis by (auto simp: status_defs)
qed

section \<open>Return values\<close>

text \<open>A waiter gets the return value of a body whether or not the task lets it be stored: a value that
  is not stored is not in the row, and comes from memory. A failed body that returned nothing
  is reported with its output if that is declared as JSON.\<close>

lemma return_value_reaches_waiter:
  "has_row i w \<and> rw_cache w i = None \<and> dispatch_finished now spec i cancelled res w = (f, e, w') \<and>
   get_run i (rw_store w') = Some r \<and> rt = build_run_result (rw_cache w') i r \<longrightarrow>
     rt_status rt = fn_status f \<and>
     (xr_return res \<noteq> [] \<longrightarrow> rt_return rt = xr_return res) \<and>
     (xr_return res = [] \<longrightarrow>
        rt_return rt = (if xr_failed res \<and> is_json_content_type (xr_ctype res) then xr_content res else [])) \<and>
     (\<not> persist_return_value spec \<longrightarrow> rr_return r = [])"
proof (intro impI, elim conjE)
  assume a: "has_row i w" "rw_cache w i = None" "dispatch_finished now spec i cancelled res w = (f, e, w')"
    "get_run i (rw_store w') = Some r" "rt = build_run_result (rw_cache w') i r"
  let ?st = "if xr_failed res then if cancelled then status_cancelled else status_failure else status_success"
  let ?p = "persist_return_value spec"
  from a(1) obtain r0 where r0: "get_run i (rw_store w) = Some r0" by (auto simp: has_row_def)
  from a(3) have f: "fn_status f = ?st" and
    s: "rw_store w' = finish_run_with_result now i ?st (if ?p then xr_return res else []) (xr_ctype res) (xr_content res) (rw_store w)"
    and c: "rw_cache w' = (if \<not> ?p \<and> xr_return res \<noteq> [] then (rw_cache w)(i \<mapsto> xr_return res) else rw_cache w)"
    by (simp_all only: dispatch_finished_def Let_def prod.inject) auto
  from a(4) finish_result_status [OF r0] have r: "rr_status r = ?st" "rr_return r = (if ?p then xr_return res else [])"
    "rr_ctype r = xr_ctype res" "rr_content r = xr_content res" unfolding s by auto
  have nf: "?st = status_success \<longleftrightarrow> \<not> xr_failed res" by (simp add: status_defs)
  have "rt_status rt = fn_status f" by (simp add: a(5) build_run_result_def f r(1) Let_def)
  moreover have "xr_return res \<noteq> [] \<Longrightarrow> rt_return rt = xr_return res"
    by (simp add: a(5) build_run_result_def Let_def r(2) c coalesce_def)
  moreover have "xr_return res = [] \<Longrightarrow>
      rt_return rt = (if xr_failed res \<and> is_json_content_type (xr_ctype res) then xr_content res else [])"
    by (simp add: a(5) build_run_result_def Let_def r c coalesce_def a(2) nf del: if_split cong: if_cong)
  ultimately show "rt_status rt = fn_status f \<and>
     (xr_return res \<noteq> [] \<longrightarrow> rt_return rt = xr_return res) \<and>
     (xr_return res = [] \<longrightarrow>
        rt_return rt = (if xr_failed res \<and> is_json_content_type (xr_ctype res) then xr_content res else [])) \<and>
     (\<not> persist_return_value spec \<longrightarrow> rr_return r = [])" using r(2) by simp
qed

definition ex_failed_result :: exec_result where
  "ex_failed_result = \<lparr>xr_suspended = None, xr_failed = True, xr_return = [], xr_ctype = ''application/json; charset=utf-8'',
     xr_content = ''{}'', xr_chain_input = JNull\<rparr>"

lemma return_value_reaches_waiter_witness:
  "\<exists>f e w' r. dispatch_finished 5 empty_spec ''r1'' False ex_failed_result ex_run_world = (f, e, w') \<and>
     get_run ''r1'' (rw_store w') = Some r \<and> rt_return (build_run_result (rw_cache w') ''r1'' r) = ''{}''"
proof -
  obtain f e w' where d: "dispatch_finished 5 empty_spec ''r1'' False ex_failed_result ex_run_world = (f, e, w')"
    by (metis prod.collapse)
  from dispatch_finished_status(1) [OF ex_run_world_row(1) d] obtain r where r: "get_run ''r1'' (rw_store w') = Some r"
    by (auto simp: row_status_def)
  have "is_json_content_type (xr_ctype ex_failed_result)"
    by (simp add: is_json_content_type_def trim_space_def is_space_def ex_failed_result_def)
  moreover have "rw_cache ex_run_world ''r1'' = None" by (simp add: ex_run_world_def)
  ultimately have "rt_return (build_run_result (rw_cache w') ''r1'' r) = xr_content ex_failed_result"
    using return_value_reaches_waiter [of "''r1''" ex_run_world 5 empty_spec False ex_failed_result f e w' r
        "build_run_result (rw_cache w') ''r1'' r"] ex_run_world_row(1) d r
    by (simp only: ex_failed_result_def exec_result.simps) simp
  then have "rt_return (build_run_result (rw_cache w') ''r1'' r) = ''{}''" by (simp add: ex_failed_result_def)
  with d r show ?thesis by blast
qed

section \<open>Waiting through suspensions\<close>

text \<open>The hops seen along the way: a resumed run and the continuation found for it.\<close>

definition seen_hops :: "sight list \<Rightarrow> (run_id \<times> run_id) set" where
  "seen_hops ss = {(i, j). \<exists>(w, later) \<in> set ss. row_status i w = Some status_resumed \<and>
     resume_continuation_id i later = j \<and> j \<noteq> []}"

definition seen_result :: "sight list \<Rightarrow> run_result \<Rightarrow> bool" where
  "seen_result ss res \<longleftrightarrow> (\<exists>(w, later) \<in> set ss. \<exists>r. get_run (rt_run res) (rw_store w) = Some r \<and>
     res = build_run_result (rw_cache w) (rt_run res) r)"

definition empty_looks :: "run_id \<Rightarrow> sight list \<Rightarrow> nat" where
  "empty_looks i ss = length (filter (\<lambda>(w, later). row_status i w = Some status_resumed \<and> resume_continuation_id i later = []) ss)"

lemma build_status [simp]: "rt_status (build_run_result c i r) = rr_status r" "rt_run (build_run_result c i r) = i"
  by (simp_all add: build_run_result_def Let_def)

lemma seen_mono: "seen_hops ss \<subseteq> seen_hops (x # ss)" "seen_result ss res \<Longrightarrow> seen_result (x # ss) res"
  "empty_looks i ss \<le> empty_looks i (x # ss)"
  by (auto simp: seen_hops_def seen_result_def empty_looks_def)

lemma wait_run_sound:
  "wait_run ss n i = Waited res \<Longrightarrow>
     (i, rt_run res) \<in> (seen_hops ss)\<^sup>* \<and> seen_result ss res \<and>
     rt_status res \<notin> {status_suspended, status_running} \<and>
     (rt_status res = status_resumed \<longrightarrow>
        max_empty_resumed_polls < empty_looks (rt_run res) ss + (if rt_run res = i then n else 0))"
proof (induction ss n i rule: wait_run.induct)
  case (1 n i)
  then show ?case by simp
next
  case (2 w later ss n i)
  obtain r where r: "get_run i (rw_store w) = Some r" using "2.prems" by (cases "get_run i (rw_store w)") auto
  let ?x = "(w, later)"
  note mono = seen_mono [where x = ?x and ss = ss]
  have up: "(j, k) \<in> (seen_hops ss)\<^sup>* \<Longrightarrow> (j, k) \<in> (seen_hops (?x # ss))\<^sup>*" for j k
    using rtrancl_mono [OF mono(1)] by blast
  have stay: ?case if w1: "wait_run ss m i = Waited res" and
    ih: "wait_run ss m i = Waited res \<Longrightarrow> (i, rt_run res) \<in> (seen_hops ss)\<^sup>* \<and> seen_result ss res \<and>
       rt_status res \<notin> {status_suspended, status_running} \<and> (rt_status res = status_resumed \<longrightarrow>
        max_empty_resumed_polls < empty_looks (rt_run res) ss + (if rt_run res = i then m else 0))"
    and m: "m \<le> n \<or> (m = n + 1 \<and> empty_looks i (?x # ss) = Suc (empty_looks i ss))" for m
    using ih [OF w1] m up mono(2) mono(3) [of "rt_run res"] by (auto split: if_splits)
  have stop: ?case if "res = build_run_result (rw_cache w) i r" "rt_status res \<notin> {status_suspended, status_running}"
    "rt_status res = status_resumed \<Longrightarrow> max_empty_resumed_polls < n + 1 \<and> resume_continuation_id i later = []"
  proof -
    have "seen_result (?x # ss) res" using r that(1) by (auto simp: seen_result_def)
    moreover have "0 < empty_looks i (?x # ss)" if "rt_status res = status_resumed"
      using that \<open>res = _\<close> r \<open>rt_status res = status_resumed \<Longrightarrow> _\<close> by (auto simp: empty_looks_def row_status_def)
    ultimately show ?thesis using that by fastforce
  qed
  consider (hop) j where "rr_status r = status_resumed" "resume_continuation_id i later = j" "j \<noteq> []"
    | (none) "rr_status r = status_resumed" "resume_continuation_id i later = []"
    | (idle) "rr_status r \<noteq> status_resumed" "rr_status r \<in> {status_suspended, status_running}"
    | (final) "rr_status r \<notin> {status_resumed, status_suspended, status_running}" by blast
  then show ?case
  proof cases
    case (hop j)
    with "2.prems" r have wj: "wait_run ss 0 j = Waited res" by (simp add: Let_def)
    have "(i, j) \<in> seen_hops (?x # ss)" using hop r by (auto simp: seen_hops_def row_status_def)
    moreover from "2.IH"(1) [OF r refl _ refl] hop wj have ih: "(j, rt_run res) \<in> (seen_hops ss)\<^sup>*" "seen_result ss res"
      "rt_status res \<notin> {status_suspended, status_running}"
      "rt_status res = status_resumed \<Longrightarrow> max_empty_resumed_polls < empty_looks (rt_run res) ss" by (auto split: if_splits)
    ultimately show ?thesis using up mono(2) mono(3) [of "rt_run res"] by (fastforce intro: converse_rtrancl_into_rtrancl)
  next
    case none
    then show ?thesis
    proof (cases "max_empty_resumed_polls < n + 1")
      case True
      with none "2.prems" r show ?thesis by (intro stop) (auto simp: Let_def status_defs)
    next
      case False
      with none "2.prems" r have "wait_run ss (n + 1) i = Waited res" by (simp add: Let_def)
      moreover have "empty_looks i (?x # ss) = Suc (empty_looks i ss)" using none r by (simp add: empty_looks_def row_status_def)
      ultimately show ?thesis using "2.IH"(2) [OF r refl _ refl] none False by (intro stay [of "n + 1"]) auto
    qed
  next
    case idle
    with "2.prems" r have "wait_run ss 0 i = Waited res" by (auto simp: Let_def)
    then show ?thesis using "2.IH"(3) [OF r refl] idle by (intro stay [of 0]) auto
  next
    case final
    with "2.prems" r show ?thesis by (intro stop) (auto simp: Let_def)
  qed
qed

text \<open>A chain of resumed runs that ends in a run with a final status.\<close>

fun resume_path :: "run_world \<Rightarrow> run_id list \<Rightarrow> bool" where
  "resume_path w [] = False"
| "resume_path w [i] = (\<exists>st. row_status i w = Some st \<and> st \<notin> {status_resumed, status_suspended, status_running})"
| "resume_path w (i # j # js) =
     (row_status i w = Some status_resumed \<and> resume_continuation_id i (rw_store w) = j \<and> j \<noteq> [] \<and> resume_path w (j # js))"

lemma wait_run_path:
  "resume_path w is \<Longrightarrow> length is \<le> n \<Longrightarrow>
     \<exists>r. get_run (last is) (rw_store w) = Some r \<and>
       wait_run (replicate n (w, rw_store w)) k (hd is) = Waited (build_run_result (rw_cache w) (last is) r)"
proof (induction w "is" arbitrary: n k rule: resume_path.induct)
  case (2 w i)
  then obtain m r where "n = Suc m" "get_run i (rw_store w) = Some r"
    "rr_status r \<notin> {status_resumed, status_suspended, status_running}"
    by (cases n) (auto simp: row_status_def)
  then show ?case by (simp add: Let_def)
next
  case (3 w i j js)
  then obtain m r where m: "n = Suc m" "get_run i (rw_store w) = Some r" "rr_status r = status_resumed"
    by (cases n) (auto simp: row_status_def)
  from 3 m(1) obtain r' where "get_run (last (j # js)) (rw_store w) = Some r'"
    "wait_run (replicate m (w, rw_store w)) 0 j = Waited (build_run_result (rw_cache w) (last (j # js)) r')"
    by fastforce
  with 3(2) m show ?case by (auto simp: Let_def)
qed simp

text \<open>C26. Waiting for a run that suspends. Whatever a waiter sees of the run log while it waits, if it
  returns then it returns the row of a run that continues the one it was asked for, hop by hop
  over resumed runs; never one that is suspended or running, and a resumed one only if it has
  looked for its continuation more than 25 times in vain. And once the log holds a chain of
  resumed runs with a finished one at its end, the waiter returns that, after as many passes as
  the chain has runs.\<close>

theorem wait_follows_resumes:
  "(wait_run ss 0 i = Waited res \<longrightarrow>
     (i, rt_run res) \<in> (seen_hops ss)\<^sup>* \<and> seen_result ss res \<and>
     rt_status res \<notin> {status_suspended, status_running} \<and>
     (rt_status res = status_resumed \<longrightarrow> max_empty_resumed_polls < empty_looks (rt_run res) ss)) \<and>
   (resume_path w (i # is) \<and> length (i # is) \<le> n \<longrightarrow>
     (\<exists>r. get_run (last (i # is)) (rw_store w) = Some r \<and>
        wait_run (replicate n (w, rw_store w)) 0 i = Waited (build_run_result (rw_cache w) (last (i # is)) r)))"
  using wait_run_sound [of ss 0 i res] wait_run_path [of w "i # is" n 0] by auto

definition ex_resumed_store :: run_store where
  "ex_resumed_store = run_ops [StartRun 1 ''a'' ''t'' [] ''manual'' ''task'', Suspend ''a'' None None ''k'' 2 9 None [] None,
     MarkResumed 3 ''a'', StartRun 4 ''b'' ''t'' ''a'' ''resume'' ''task'', Finish 5 ''b'' status_success] new_store"

definition ex_resumed_world :: run_world where
  "ex_resumed_world = \<lparr>rw_store = ex_resumed_store, rw_blobs = Map.empty, rw_cache = Map.empty, rw_secrets = None\<rparr>"

lemma ex_resumed_rows: "map (\<lambda>r. (rr_id r, rr_status r, rr_parent r, rr_source r, rr_started r)) (st_runs ex_resumed_store) =
    [(''a'', status_resumed, [], ''manual'', 1), (''b'', status_success, ''a'', ''resume'', 4)]"
  by (simp add: ex_resumed_store_def run_ops_def start_run_with_id_def get_run_def new_store_def suspend_run_def Let_def
      sql_update_def has_id_def fresh_row_def finish_run_def mark_run_resumed_def run_kind_task_def get_root_run_id_def
      coalesce_def)

theorem wait_follows_resumes_witness:
  "\<exists>r. get_run ''b'' ex_resumed_store = Some r \<and>
     wait_run [(ex_resumed_world, ex_resumed_store), (ex_resumed_world, ex_resumed_store)] 0 ''a'' =
       Waited (build_run_result Map.empty ''b'' r)"
proof -
  have "\<exists>ra rb. st_runs ex_resumed_store = [ra, rb] \<and> rr_id ra = ''a'' \<and> rr_status ra = status_resumed \<and> rr_parent ra = [] \<and>
      rr_id rb = ''b'' \<and> rr_status rb = status_success \<and> rr_parent rb = ''a'' \<and> rr_source rb = ''resume''"
    using ex_resumed_rows by auto
  then have "resume_path ex_resumed_world [''a'', ''b'']"
    by (auto simp: ex_resumed_world_def row_status_def get_run_def has_id_def resume_continuation_id_def list_children_def
        newest_first_def sql_limit_def run_columns_def trigger_resume_def status_defs)
  from wait_follows_resumes [of "[]" "''a''" undefined ex_resumed_world "[''b'']" 2] this
  show ?thesis by (auto simp: ex_resumed_world_def numeral_2_eq_2)
qed

end
