(* ===== verification/RunLifecycle.thy ===== *)
theory RunLifecycle
  imports RunDispatchSafety ChainGuards
begin

text \<open>
  The life of runs in the engine: opening, queueing on the semaphore, killing, finishing and the
  drain at shutdown (pkg/trigger/runlifecycle.go, run.go, engine.go, and the gate of a synchronous
  webhook). A state holds what the engine keeps of its runs; an operation is one critical section
  or one wake-up of a goroutine, so a sequence of operations is an interleaving. An operation that
  is not enabled leaves the state as it is.
\<close>

section \<open>State\<close>

text \<open>\<open>lf_stop\<close> is the end of the engine's context, \<open>lf_down\<close> the latch that is set once the scheduler has
  stopped. \<open>lf_cancelled\<close> holds the runs whose context is over. \<open>lf_hooks\<close> and \<open>lf_chains\<close> record what
  was told to the hooks and to the chains.\<close>

text \<open>A fire: what \<open>beginRun\<close> gets. \<open>fq_slot\<close> is \<open>ChainParentTask\<close>, \<open>fq_gated\<close> tells whether the run needs a slot of
  the semaphore: a task that is not a daemon does, a pipeline does not.\<close>

record fire_req =
  fq_id :: run_id
  fq_task :: task_id
  fq_kind :: string
  fq_parent :: run_id
  fq_source :: string
  fq_slot :: task_id
  fq_depth :: "int option"
  fq_gated :: bool

text \<open>A handle and where its goroutine is. \<open>lv_within\<close> is the run in whose body a synchronous fire is nested:
  such a run has no slot of its own in the drain. \<open>lv_level\<close> is its nesting depth.\<close>

datatype run_phase = Queued | Executing

record live_run =
  lv_fire :: fire_req
  lv_phase :: run_phase
  lv_sem :: bool
  lv_within :: "run_id option"
  lv_level :: nat

record run_engine =
  lf_world :: run_world
  lf_stop :: bool
  lf_down :: bool
  lf_wg :: nat
  lf_sem :: nat
  lf_live :: "(run_id \<times> live_run) list"
  lf_cancelled :: "run_id set"
  lf_cancels :: "run_id set"
  lf_done :: "run_id set"
  lf_sources :: "run_id \<rightharpoonup> string"
  lf_depths :: "run_id \<rightharpoonup> int"
  lf_guards :: chain_guards
  lf_hooks :: "(run_id \<times> string) list"
  lf_chains :: "(run_id \<times> string) list"

definition engine_start :: "run_world \<Rightarrow> chain_guards \<Rightarrow> run_engine" where
  "engine_start w g = \<lparr>lf_world = w, lf_stop = False, lf_down = False, lf_wg = 0, lf_sem = 0, lf_live = [], lf_cancelled = {}, lf_cancels = {},
     lf_done = {}, lf_sources = Map.empty, lf_depths = Map.empty, lf_guards = g, lf_hooks = [], lf_chains = []\<rparr>"

section \<open>The drain\<close>

definition track_run :: "run_engine \<Rightarrow> bool \<times> run_engine" where
  "track_run l = (if lf_down l then (False, l) else (True, l\<lparr>lf_wg := lf_wg l + 1\<rparr>))"

definition drain_done :: "run_engine \<Rightarrow> run_engine" where
  "drain_done l = l\<lparr>lf_wg := lf_wg l - 1\<rparr>"

definition begin_shutdown :: "run_engine \<Rightarrow> run_engine" where
  "begin_shutdown l = (if lf_stop l then l\<lparr>lf_down := True\<rparr> else l)"

definition sem_free :: "nat option \<Rightarrow> run_engine \<Rightarrow> bool" where
  "sem_free cap l = (case cap of None \<Rightarrow> False | Some c \<Rightarrow> lf_sem l < c)"

section \<open>Opening and closing a run\<close>

text \<open>\<open>beginRun\<close>: the fire guard, the row, the registrations. The audit event, the stored input and the hook
  of the start are not part of the state.\<close>

definition begin_run :: "(task_id \<Rightarrow> bool) \<Rightarrow> time \<Rightarrow> fire_req \<Rightarrow> run_engine \<Rightarrow> run_engine option" where
  "begin_run guard now q l =
     (if \<not> guard (fq_task q) then None
      else (case start_run_with_id now (fq_id q) (fq_task q) (fq_parent q) (fq_source q) (fq_kind q) (rw_store (lf_world l)) of
              None \<Rightarrow> None
            | Some s \<Rightarrow>
                Some (l\<lparr>lf_world := (lf_world l)\<lparr>rw_store := s\<rparr>,
                        lf_cancels := insert (fq_id q) (lf_cancels l),
                        lf_sources := (lf_sources l)(fq_id q \<mapsto> fq_source q),
                        lf_done := insert (fq_id q) (lf_done l),
                        lf_depths := (case fq_depth q of None \<Rightarrow> lf_depths l | Some d \<Rightarrow> (lf_depths l)(fq_id q \<mapsto> d))\<rparr>)))"

definition drop_live :: "run_id \<Rightarrow> (run_id \<times> live_run) list \<Rightarrow> (run_id \<times> live_run) list" where
  "drop_live i = filter (\<lambda>x. fst x \<noteq> i)"

text \<open>\<open>release\<close> of the handle, which also ends the context of the run.\<close>

definition release_handle :: "run_id \<Rightarrow> fire_req \<Rightarrow> run_engine \<Rightarrow> run_engine" where
  "release_handle i q l =
     l\<lparr>lf_guards := (if fq_slot q \<noteq> [] then release_slot (fq_slot q) (lf_guards l) else lf_guards l),
       lf_cancels := lf_cancels l - {i},
       lf_sources := (lf_sources l)(i := None),
       lf_depths := (lf_depths l)(i := None),
       lf_cancelled := insert i (lf_cancelled l),
       lf_done := lf_done l - {i}\<rparr>"

text \<open>\<open>finish\<close>: the hooks, the wake-up of the waiters, the chains, the release.\<close>

definition finish_handle :: "run_id \<Rightarrow> fire_req \<Rightarrow> run_finish \<Rightarrow> run_engine \<Rightarrow> run_engine" where
  "finish_handle i q f l =
     (let l1 = l\<lparr>lf_hooks := lf_hooks l @ [(i, fn_status f)]\<rparr>;
          l2 = l1\<lparr>lf_done := lf_done l1 - {i}\<rparr>;
          l3 = (if fn_chain f then l2\<lparr>lf_chains := lf_chains l2 @ [(i, fn_status f)]\<rparr> else l2)
      in release_handle i q l3)"

text \<open>The end of the goroutine: the slots go back after the handle.\<close>

definition end_goroutine :: "run_id \<Rightarrow> live_run \<Rightarrow> run_engine \<Rightarrow> run_engine" where
  "end_goroutine i r l =
     (let l1 = l\<lparr>lf_live := drop_live i (lf_live l), lf_sem := (if lv_sem r then lf_sem l - 1 else lf_sem l)\<rparr>
      in if lv_within r = None then drain_done l1 else l1)"

definition finalize_cancelled :: "time \<Rightarrow> run_id \<Rightarrow> fire_req \<Rightarrow> run_engine \<Rightarrow> run_engine" where
  "finalize_cancelled now i q l =
     finish_handle i q \<lparr>fn_status = status_cancelled, fn_chain = False, fn_output = JNull\<rparr>
       (l\<lparr>lf_world := finish_row now i status_cancelled (lf_world l)\<rparr>)"

section \<open>Operations\<close>

definition spawn_run :: "fire_req \<Rightarrow> run_phase \<Rightarrow> bool \<Rightarrow> run_id option \<Rightarrow> nat \<Rightarrow> run_engine \<Rightarrow> run_engine" where
  "spawn_run q ph sem within level l =
     l\<lparr>lf_live := (fq_id q, \<lparr>lv_fire = q, lv_phase = ph, lv_sem = sem, lv_within = within, lv_level = level\<rparr>) # lf_live l\<rparr>"

text \<open>\<open>fireAsync\<close>, and \<open>firePipeline\<close> for a fire that needs no slot. \<open>cap\<close> is the capacity of the semaphore, if
  there is one.\<close>

definition fire_async :: "nat option \<Rightarrow> (task_id \<Rightarrow> bool) \<Rightarrow> time \<Rightarrow> fire_req \<Rightarrow> run_engine \<Rightarrow> bool \<times> run_engine" where
  "fire_async cap guard now q l =
     (case track_run l of
        (False, l1) \<Rightarrow> (False, l1)
      | (True, l1) \<Rightarrow>
          (case begin_run guard now q l1 of
             None \<Rightarrow> (False, drain_done l1)
           | Some l2 \<Rightarrow>
               (True, spawn_run q (if cap \<noteq> None \<and> fq_gated q then Queued else Executing) False None 0 l2)))"

text \<open>The synchronous branch of a webhook: a slot at once or not at all, then the drain, then the run.\<close>

definition fire_webhook_sync :: "nat option \<Rightarrow> (task_id \<Rightarrow> bool) \<Rightarrow> time \<Rightarrow> fire_req \<Rightarrow> run_engine \<Rightarrow> bool \<times> run_engine" where
  "fire_webhook_sync cap guard now q l =
     (let gated = cap \<noteq> None \<and> fq_gated q
      in if gated \<and> \<not> sem_free cap l then (False, l)
         else (let l0 = (if gated then l\<lparr>lf_sem := lf_sem l + 1\<rparr> else l);
                   give_back = (\<lambda>l. if gated then l\<lparr>lf_sem := lf_sem l - 1\<rparr> else l)
               in case track_run l0 of
                    (False, l1) \<Rightarrow> (False, give_back l1)
                  | (True, l1) \<Rightarrow>
                      (case begin_run guard now q l1 of
                         None \<Rightarrow> (False, give_back (drain_done l1))
                       | Some l2 \<Rightarrow> (True, spawn_run q Executing gated None 0 l2))))"

text \<open>A synchronous fire from inside the body of \<open>p\<close>: a prerequisite, or the storage task.\<close>

definition fire_nested :: "(task_id \<Rightarrow> bool) \<Rightarrow> time \<Rightarrow> run_id \<Rightarrow> fire_req \<Rightarrow> run_engine \<Rightarrow> bool \<times> run_engine" where
  "fire_nested guard now p q l =
     (case map_of (lf_live l) p of
        None \<Rightarrow> (False, l)
      | Some r \<Rightarrow>
          if lv_phase r \<noteq> Executing then (False, l)
          else (case begin_run guard now q l of
                  None \<Rightarrow> (False, l)
                | Some l1 \<Rightarrow> (True, spawn_run q Executing False (Some p) (lv_level r + 1) l1)))"

text \<open>The \<open>select\<close> of a queued run: the slot, or the end of its context or of the engine's.\<close>

definition acquire_sem :: "nat option \<Rightarrow> run_id \<Rightarrow> run_engine \<Rightarrow> run_engine" where
  "acquire_sem cap i l =
     (case map_of (lf_live l) i of
        None \<Rightarrow> l
      | Some r \<Rightarrow>
          if lv_phase r = Queued \<and> sem_free cap l
          then l\<lparr>lf_sem := lf_sem l + 1, lf_live := (i, r\<lparr>lv_phase := Executing, lv_sem := True\<rparr>) # drop_live i (lf_live l)\<rparr>
          else l)"

definition abort_queued :: "time \<Rightarrow> run_id \<Rightarrow> run_engine \<Rightarrow> run_engine" where
  "abort_queued now i l =
     (case map_of (lf_live l) i of
        None \<Rightarrow> l
      | Some r \<Rightarrow>
          if lv_phase r = Queued \<and> (i \<in> lf_cancelled l \<or> lf_stop l)
          then end_goroutine i r (finalize_cancelled now i (lv_fire r) l)
          else l)"

text \<open>The body of a run comes to its end, once the synchronous fires nested in it have.\<close>

definition end_body :: "run_env \<Rightarrow> time \<Rightarrow> spec \<Rightarrow> (string \<times> string) list \<Rightarrow> run_id \<Rightarrow> run_engine \<Rightarrow> run_engine" where
  "end_body ev now spec params i l =
     (case map_of (lf_live l) i of
        None \<Rightarrow> l
      | Some r \<Rightarrow>
          if lv_phase r = Executing \<and> list_all (\<lambda>x. lv_within (snd x) \<noteq> Some i) (lf_live l)
          then (case run_task ev now spec i params (lf_world l) of
                  (f, e, w) \<Rightarrow> end_goroutine i r (finish_handle i (lv_fire r) f (l\<lparr>lf_world := w\<rparr>)))
          else l)"

definition kill_run :: "run_id \<Rightarrow> run_engine \<Rightarrow> bool \<times> run_engine" where
  "kill_run i l =
     (if i \<in> lf_cancels l then (True, l\<lparr>lf_cancelled := insert i (lf_cancelled l)\<rparr>) else (False, l))"

definition active_run_count :: "run_engine \<Rightarrow> nat" where
  "active_run_count l = card (lf_cancels l)"

datatype life_op =
    FireAsync "task_id \<Rightarrow> bool" time fire_req
  | FireWebhook "task_id \<Rightarrow> bool" time fire_req
  | FireNested "task_id \<Rightarrow> bool" time run_id fire_req
  | Acquire run_id
  | Abort time run_id
  | EndBody run_env time spec "(string \<times> string) list" run_id
  | Kill run_id
  | Stop
  | Shutdown

fun life_exec :: "nat option \<Rightarrow> life_op \<Rightarrow> run_engine \<Rightarrow> run_engine" where
  "life_exec cap (FireAsync guard now q) l = snd (fire_async cap guard now q l)"
| "life_exec cap (FireWebhook guard now q) l = snd (fire_webhook_sync cap guard now q l)"
| "life_exec cap (FireNested guard now p q) l = snd (fire_nested guard now p q l)"
| "life_exec cap (Acquire i) l = acquire_sem cap i l"
| "life_exec cap (Abort now i) l = abort_queued now i l"
| "life_exec cap (EndBody ev now spec params i) l = end_body ev now spec params i l"
| "life_exec cap (Kill i) l = snd (kill_run i l)"
| "life_exec cap Stop l = l\<lparr>lf_stop := True\<rparr>"
| "life_exec cap Shutdown l = begin_shutdown l"

definition life_run :: "nat option \<Rightarrow> life_op list \<Rightarrow> run_engine \<Rightarrow> run_engine" where
  "life_run cap ops l = fold (life_exec cap) ops l"

end
