(* ===== verification/LifecycleSafety.thy ===== *)
theory LifecycleSafety
  imports RunLifecycle
begin

text \<open>
  What the life of runs guarantees under any interleaving: the semaphore and the drain count
  exactly the runs that hold them, a row is running exactly while a goroutine owns it, every run
  is announced once, and after a drained shutdown nothing writes any more.
\<close>

section \<open>Rows\<close>

definition row_states :: "run_world \<Rightarrow> (run_id \<times> string) list" where
  "row_states w = map (\<lambda>r. (rr_id r, rr_status r)) (st_runs (rw_store w))"

definition set_state :: "run_id \<Rightarrow> string \<Rightarrow> (run_id \<times> string) list \<Rightarrow> (run_id \<times> string) list" where
  "set_state i st = map (\<lambda>x. if fst x = i then (i, st) else x)"

text \<open>Bodies act on the rows only through the operations.\<close>

definition quiet_env :: "run_env \<Rightarrow> bool" where
  "quiet_env ev \<longleftrightarrow>
     (\<forall>sp ps w. st_runs (rw_store (snd (ev_fire ev sp ps w))) = st_runs (rw_store w)) \<and>
     (\<forall>sp w. st_runs (rw_store (snd (snd (ev_execute ev sp w)))) = st_runs (rw_store w)) \<and>
     (\<forall>sp w. st_runs (rw_store (snd (ev_preflight_env ev sp w))) = st_runs (rw_store w))"

lemma update_states:
  assumes "\<And>r. r \<in> set (st_runs s) \<Longrightarrow> P r \<longleftrightarrow> rr_id r = i" "\<And>r. rr_id (f r) = rr_id r" "\<And>r. rr_status (f r) = st"
  shows "map (\<lambda>r. (rr_id r, rr_status r)) (st_runs (sql_update P f s)) =
    set_state i st (map (\<lambda>r. (rr_id r, rr_status r)) (st_runs s))"
  using assms by (auto simp: sql_update_def set_state_def)

lemma finish_states:
  "row_states (finish_row now i st w) = set_state i st (row_states w)"
  "row_states (w\<lparr>rw_store := finish_run_with_reason now i st reason (rw_store w)\<rparr>) = set_state i st (row_states w)"
  "row_states (w\<lparr>rw_store := finish_run_with_result now i st ret ct co (rw_store w), rw_cache := c\<rparr>) =
     set_state i st (row_states w)"
  unfolding row_states_def finish_row_def finish_run_def finish_run_with_reason_def finish_run_with_result_def
  by (simp_all, (subst update_states, auto simp: has_id_def)+)

lemma states_running:
  assumes "distinct (map fst (row_states w))" "(i, status_running) \<in> set (row_states w)" "r \<in> set (st_runs (rw_store w))"
  shows "has_id i r \<and> rr_status r = status_running \<longleftrightarrow> rr_id r = i"
proof -
  have "distinct (map rr_id (st_runs (rw_store w)))" using assms(1) by (simp add: row_states_def comp_def)
  moreover obtain r0 where "r0 \<in> set (st_runs (rw_store w))" "rr_id r0 = i" "rr_status r0 = status_running"
    using assms(2) by (auto simp: row_states_def)
  ultimately show ?thesis using assms(3) rows_unique [of "rw_store w" r r0] by (auto simp: has_id_def)
qed

lemma dispatch_suspended_states:
  assumes "distinct (map fst (row_states w))" "(i, status_running) \<in> set (row_states w)"
    "dispatch_suspended cfg token now depth spec i params sr w = (f, e, w')"
  shows "row_states w' = set_state i (fn_status f) (row_states w) \<and> fn_status f \<noteq> status_running"
proof -
  obtain x b s where x: "engine_suspend_run (cfg\<lparr>rc_secrets := rw_secrets w\<rparr>) token now spec i params depth sr
      (rw_blobs w, rw_store w) = (x, b, s)" by (metis prod.collapse)
  note st = engine_suspend_store [OF x]
  show ?thesis
  proof (cases x)
    case None
    with st(1) have s: "s = rw_store w" by simp
    have "row_states (finish_row now i status_failure (w\<lparr>rw_blobs := b, rw_store := s\<rparr>)) = set_state i status_failure (row_states w)"
      unfolding finish_states(1) by (simp add: row_states_def s)
    with None x assms(3) show ?thesis by (auto simp: dispatch_suspended_def status_defs)
  next
    case (Some ok)
    with st(2) obtain sta sc at dl ca fs ref where
      su: "suspend_run i sta sc token at dl ca fs ref (rw_store w) = (ok, s)" by auto
    obtain r where r: "r \<in> set (st_runs (rw_store w))" "rr_id r = i" "rr_status r = status_running"
      using assms(2) by (auto simp: row_states_def)
    then have ok: ok using su by (auto simp: suspend_run_def Let_def affected_pos has_id_def)
    have "map (\<lambda>r. (rr_id r, rr_status r)) (st_runs s) = set_state i status_suspended (row_states w)"
      using su states_running [OF assms(1,2)]
      unfolding suspend_run_def Let_def row_states_def by (auto intro!: update_states)
    with x assms(3) Some ok show ?thesis by (auto simp: dispatch_suspended_def row_states_def status_defs)
  qed
qed

lemma prereqs_quiet:
  assumes "\<And>sp ps w. st_runs (rw_store (snd (fire sp ps w))) = st_runs (rw_store w)"
  shows "st_runs (rw_store (snd (resolve_if_missing_entries tasks fire now parent ens w))) = st_runs (rw_store w)"
proof (induction ens arbitrary: w)
  case (Cons en ens)
  have f: "st_runs (rw_store w') = st_runs (rw_store w)" if "fire sp ps w = (x, w')" for sp ps x w'
    using assms [of sp ps w] that by simp
  show ?case using Cons f by (auto split: option.splits secret_result.splits prereq_outcome.splits prod.splits)
qed simp

lemma run_task_states:
  assumes "quiet_env ev" "distinct (map fst (row_states w))" "(i, status_running) \<in> set (row_states w)"
    "run_task ev now spec i params w = (f, e, w')"
  shows "row_states w' = set_state i (fn_status f) (row_states w) \<and> fn_status f \<noteq> status_running"
proof -
  obtain pr w1 where p: "run_preflight ev spec params w = (pr, w1)" by fastforce
  have s1: "row_states w1 = row_states w"
    using assms(1) p unfolding quiet_env_def run_preflight_def row_states_def
    by (auto split: option.splits) (metis snd_conv)
  show ?thesis
  proof (cases pr)
    case (Some reason)
    with p assms(4) finish_states(2) s1 show ?thesis by (auto simp: run_task_def status_defs)
  next
    case None
    with p assms(4) have d: "dispatch ev now spec i params w1 = (f, e, w')" by (simp add: run_task_def)
    obtain er w2 where r2: "resolve_if_missing (ev_tasks ev) (ev_fire ev) now spec i w1 = (er, w2)" by fastforce
    obtain xr c w3 where x: "ev_execute ev spec w2 = (xr, c, w3)" by (metis prod.collapse)
    have s2: "row_states w2 = row_states w"
      using prereqs_quiet [of "ev_fire ev"] assms(1) r2 s1 unfolding quiet_env_def resolve_if_missing_def row_states_def
      by (auto split: if_splits) (metis snd_conv)
    have s3: "row_states w3 = row_states w"
      using assms(1) x s2 unfolding quiet_env_def row_states_def by (metis snd_conv)
    show ?thesis
    proof (cases "ev_executor ev (sp_runtime spec) \<and> er = None \<and> (\<exists>res. xr = Some res)")
      case False
      with d r2 x finish_states(1) s1 s2 s3 show ?thesis
        by (auto simp: dispatch_def status_defs split: if_splits option.splits)
    next
      case True
      then obtain res where res: "xr = Some res" by blast
      show ?thesis
      proof (cases "xr_suspended res")
        case None
        with True res d r2 x have df: "dispatch_finished now spec i c res w3 = (f, e, w')" by (simp add: dispatch_def)
        let ?st = "if xr_failed res then if c then status_cancelled else status_failure else status_success"
        from df have st: "fn_status f = ?st" unfolding dispatch_finished_def Let_def by (simp only: prod.inject) auto
        from df have "row_states w' = set_state i ?st (row_states w)"
          unfolding dispatch_finished_def Let_def by (simp only: prod.inject, elim conjE, hypsubst, simp only: finish_states(3) s3)
        moreover have "?st \<noteq> status_running" by (simp add: status_defs)
        ultimately show ?thesis using st by simp
      next
        case (Some sr)
        with True res d r2 x have ds: "dispatch_suspended (ev_config ev) (ev_token ev) now (ev_depth ev) spec i params sr w3 = (f, e, w')"
          by (simp add: dispatch_def)
        from dispatch_suspended_states [OF _ _ ds] assms(2,3) s3 show ?thesis by simp
      qed
    qed
  qed
qed

section \<open>Lists of live runs\<close>

lemma drop_live_set [simp]: "set (drop_live i xs) = {x \<in> set xs. fst x \<noteq> i}"
  by (auto simp: drop_live_def)

lemma drop_live_distinct: "distinct (map fst xs) \<Longrightarrow> distinct (map fst (drop_live i xs))"
  by (simp add: drop_live_def distinct_map_filter)

lemma count_drop:
  assumes "distinct (map fst xs)" "map_of xs i = Some r"
  shows "length (filter P xs) = (if P (i, r) then 1 else 0) + length (filter P (drop_live i xs))"
  using assms
proof (induction xs)
  case (Cons x xs)
  show ?case
  proof (cases "fst x = i")
    case True
    with Cons.prems have x: "x = (i, r)" "i \<notin> fst ` set xs" by (cases x; simp)+
    then have "drop_live i xs = xs" by (auto simp: drop_live_def intro!: filter_True)
    with x show ?thesis by (simp add: drop_live_def)
  next
    case False
    with Cons show ?thesis by (auto simp: drop_live_def split: if_splits)
  qed
qed simp

lemma live_mem: "distinct (map fst xs) \<Longrightarrow> map_of xs i = Some r \<longleftrightarrow> (i, r) \<in> set xs"
  by (rule map_of_eq_Some_iff)

section \<open>The invariant\<close>

text \<open>\<open>old\<close> are the runs that were over when the engine started.\<close>

definition live_ids :: "run_engine \<Rightarrow> run_id set" where
  "live_ids l = fst ` set (lf_live l)"

definition rows_inv :: "run_id set \<Rightarrow> run_engine \<Rightarrow> bool" where
  "rows_inv old l \<longleftrightarrow>
     distinct (map fst (row_states (lf_world l))) \<and>
     (\<forall>i. (i, status_running) \<in> set (row_states (lf_world l)) \<longleftrightarrow> i \<in> live_ids l) \<and>
     (\<forall>i st. (i, st) \<in> set (lf_hooks l) \<longrightarrow> (i, st) \<in> set (row_states (lf_world l)) \<and> st \<noteq> status_running \<and> i \<notin> old) \<and>
     (\<forall>i st. (i, st) \<in> set (row_states (lf_world l)) \<and> st \<noteq> status_running \<and> i \<notin> old \<longrightarrow> (i, st) \<in> set (lf_hooks l)) \<and>
     old \<subseteq> fst ` set (row_states (lf_world l)) \<and> old \<inter> live_ids l = {} \<and>
     distinct (map fst (lf_hooks l)) \<and>
     distinct (map fst (lf_chains l)) \<and> set (lf_chains l) \<subseteq> set (lf_hooks l)"

definition regs_inv :: "run_engine \<Rightarrow> bool" where
  "regs_inv l \<longleftrightarrow> lf_cancels l = live_ids l \<and> lf_done l = live_ids l \<and> dom (lf_sources l) = live_ids l \<and>
     dom (lf_depths l) \<subseteq> live_ids l"

definition live_inv :: "nat option \<Rightarrow> run_engine \<Rightarrow> bool" where
  "live_inv cap l \<longleftrightarrow>
     distinct (map fst (lf_live l)) \<and>
     lf_wg l = length (filter (\<lambda>x. lv_within (snd x) = None) (lf_live l)) \<and>
     lf_sem l = length (filter (\<lambda>x. lv_sem (snd x)) (lf_live l)) \<and>
     (\<forall>c. cap = Some c \<longrightarrow> lf_sem l \<le> c) \<and>
     (\<forall>(i, r) \<in> set (lf_live l). fq_id (lv_fire r) = i \<and>
        (lv_sem r \<longrightarrow> lv_phase r = Executing) \<and>
        (cap \<noteq> None \<and> fq_gated (lv_fire r) \<and> lv_within r = None \<and> lv_phase r = Executing \<longrightarrow> lv_sem r) \<and>
        (case lv_within r of None \<Rightarrow> lv_level r = 0
         | Some p \<Rightarrow> (\<exists>rp. (p, rp) \<in> set (lf_live l) \<and> lv_phase rp = Executing \<and> lv_level r = Suc (lv_level rp)))) \<and>
     (lf_down l \<longrightarrow> lf_stop l)"

definition life_inv :: "nat option \<Rightarrow> run_id set \<Rightarrow> run_engine \<Rightarrow> bool" where
  "life_inv cap old l \<longleftrightarrow> rows_inv old l \<and> regs_inv l \<and> live_inv cap l"

lemma rows_invI:
  assumes "distinct (map fst (row_states (lf_world l)))"
    "\<And>i. (i, status_running) \<in> set (row_states (lf_world l)) \<longleftrightarrow> i \<in> live_ids l"
    "\<And>i st. (i, st) \<in> set (lf_hooks l) \<Longrightarrow> (i, st) \<in> set (row_states (lf_world l)) \<and> st \<noteq> status_running \<and> i \<notin> old"
    "\<And>i st. (i, st) \<in> set (row_states (lf_world l)) \<Longrightarrow> st \<noteq> status_running \<Longrightarrow> i \<notin> old \<Longrightarrow> (i, st) \<in> set (lf_hooks l)"
    "old \<subseteq> fst ` set (row_states (lf_world l))" "old \<inter> live_ids l = {}"
    "distinct (map fst (lf_hooks l))" "distinct (map fst (lf_chains l))" "set (lf_chains l) \<subseteq> set (lf_hooks l)"
  shows "rows_inv old l"
  unfolding rows_inv_def
  apply (intro conjI)
  subgoal by (rule assms(1))
  subgoal by (intro allI) (rule assms(2))
  subgoal by (intro allI impI) (rule assms(3))
  subgoal by (intro allI impI, elim conjE) (rule assms(4))
  subgoal by (rule assms(5))
  subgoal by (rule assms(6))
  subgoal by (rule assms(7))
  subgoal by (rule assms(8))
  subgoal by (rule assms(9))
  done

lemma rows_invD:
  assumes "rows_inv old l"
  shows "distinct (map fst (row_states (lf_world l)))"
    "(i, status_running) \<in> set (row_states (lf_world l)) \<longleftrightarrow> i \<in> live_ids l"
    "(i, st) \<in> set (lf_hooks l) \<Longrightarrow> (i, st) \<in> set (row_states (lf_world l)) \<and> st \<noteq> status_running \<and> i \<notin> old"
    "(i, st) \<in> set (row_states (lf_world l)) \<Longrightarrow> st \<noteq> status_running \<Longrightarrow> i \<notin> old \<Longrightarrow> (i, st) \<in> set (lf_hooks l)"
    "old \<subseteq> fst ` set (row_states (lf_world l))" "old \<inter> live_ids l = {}"
    "distinct (map fst (lf_hooks l))" "distinct (map fst (lf_chains l))" "set (lf_chains l) \<subseteq> set (lf_hooks l)"
proof -
  from assms have a: "\<forall>i. (i, status_running) \<in> set (row_states (lf_world l)) \<longleftrightarrow> i \<in> live_ids l"
    "\<forall>i st. (i, st) \<in> set (lf_hooks l) \<longrightarrow> (i, st) \<in> set (row_states (lf_world l)) \<and> st \<noteq> status_running \<and> i \<notin> old"
    "\<forall>i st. (i, st) \<in> set (row_states (lf_world l)) \<and> st \<noteq> status_running \<and> i \<notin> old \<longrightarrow> (i, st) \<in> set (lf_hooks l)"
    unfolding rows_inv_def by - (elim conjE, assumption)+
  show "(i, status_running) \<in> set (row_states (lf_world l)) \<longleftrightarrow> i \<in> live_ids l" by (rule a(1) [THEN spec])
  show "(i, st) \<in> set (lf_hooks l) \<Longrightarrow> (i, st) \<in> set (row_states (lf_world l)) \<and> st \<noteq> status_running \<and> i \<notin> old"
    by (rule a(2) [rule_format])
  show "(i, st) \<in> set (row_states (lf_world l)) \<Longrightarrow> st \<noteq> status_running \<Longrightarrow> i \<notin> old \<Longrightarrow> (i, st) \<in> set (lf_hooks l)"
    by (rule a(3) [rule_format]) (intro conjI; assumption)
  from assms show "distinct (map fst (row_states (lf_world l)))" "old \<subseteq> fst ` set (row_states (lf_world l))"
    "old \<inter> live_ids l = {}" "distinct (map fst (lf_hooks l))" "distinct (map fst (lf_chains l))"
    "set (lf_chains l) \<subseteq> set (lf_hooks l)"
    unfolding rows_inv_def by - (elim conjE, assumption)+
qed

abbreviation level_ok :: "(run_id \<times> live_run) list \<Rightarrow> live_run \<Rightarrow> bool" where
  "level_ok xs r \<equiv> (case lv_within r of None \<Rightarrow> lv_level r = 0
     | Some p \<Rightarrow> (\<exists>rp. (p, rp) \<in> set xs \<and> lv_phase rp = Executing \<and> lv_level r = Suc (lv_level rp)))"

lemma live_invI:
  assumes "distinct (map fst (lf_live l))"
    "lf_wg l = length (filter (\<lambda>x. lv_within (snd x) = None) (lf_live l))"
    "lf_sem l = length (filter (\<lambda>x. lv_sem (snd x)) (lf_live l))"
    "\<forall>c. cap = Some c \<longrightarrow> lf_sem l \<le> c"
    "\<And>i r. (i, r) \<in> set (lf_live l) \<Longrightarrow> fq_id (lv_fire r) = i \<and> (lv_sem r \<longrightarrow> lv_phase r = Executing) \<and>
       (cap \<noteq> None \<and> fq_gated (lv_fire r) \<and> lv_within r = None \<and> lv_phase r = Executing \<longrightarrow> lv_sem r)"
    "\<forall>(i, r) \<in> set (lf_live l). level_ok (lf_live l) r"
    "lf_down l \<longrightarrow> lf_stop l"
  shows "live_inv cap l"
  unfolding live_inv_def
proof (intro conjI)
  show "\<forall>(i, r) \<in> set (lf_live l). fq_id (lv_fire r) = i \<and>
        (lv_sem r \<longrightarrow> lv_phase r = Executing) \<and>
        (cap \<noteq> None \<and> fq_gated (lv_fire r) \<and> lv_within r = None \<and> lv_phase r = Executing \<longrightarrow> lv_sem r) \<and>
        level_ok (lf_live l) r"
    using assms(5,6) by blast
qed (rule assms)+

lemma live_invD:
  assumes "live_inv cap l"
  shows "distinct (map fst (lf_live l))"
    "lf_wg l = length (filter (\<lambda>x. lv_within (snd x) = None) (lf_live l))"
    "lf_sem l = length (filter (\<lambda>x. lv_sem (snd x)) (lf_live l))"
    "\<forall>c. cap = Some c \<longrightarrow> lf_sem l \<le> c"
    "(i, r) \<in> set (lf_live l) \<Longrightarrow> fq_id (lv_fire r) = i \<and> (lv_sem r \<longrightarrow> lv_phase r = Executing) \<and>
       (cap \<noteq> None \<and> fq_gated (lv_fire r) \<and> lv_within r = None \<and> lv_phase r = Executing \<longrightarrow> lv_sem r)"
    "(i, r) \<in> set (lf_live l) \<Longrightarrow> level_ok (lf_live l) r"
    "lf_down l \<longrightarrow> lf_stop l"
  using assms unfolding live_inv_def by blast+

lemma begin_run_fields:
  assumes "begin_run guard now q l = Some l2"
  shows "lf_live l2 = lf_live l" "lf_wg l2 = lf_wg l" "lf_sem l2 = lf_sem l" "lf_down l2 = lf_down l" "lf_stop l2 = lf_stop l"
    "lf_hooks l2 = lf_hooks l" "lf_chains l2 = lf_chains l"
    "lf_cancels l2 = insert (fq_id q) (lf_cancels l)" "lf_done l2 = insert (fq_id q) (lf_done l)"
    "dom (lf_sources l2) = insert (fq_id q) (dom (lf_sources l))" "dom (lf_depths l2) \<subseteq> insert (fq_id q) (dom (lf_depths l))"
    "row_states (lf_world l2) = row_states (lf_world l) @ [(fq_id q, status_running)]"
    "fq_id q \<notin> fst ` set (row_states (lf_world l))"
proof -
  from assms obtain s where s: "start_run_with_id now (fq_id q) (fq_task q) (fq_parent q) (fq_source q) (fq_kind q)
      (rw_store (lf_world l)) = Some s" and l2: "l2 = l\<lparr>lf_world := (lf_world l)\<lparr>rw_store := s\<rparr>,
        lf_cancels := insert (fq_id q) (lf_cancels l), lf_sources := (lf_sources l)(fq_id q \<mapsto> fq_source q),
        lf_done := insert (fq_id q) (lf_done l),
        lf_depths := (case fq_depth q of None \<Rightarrow> lf_depths l | Some d \<Rightarrow> (lf_depths l)(fq_id q \<mapsto> d))\<rparr>"
    by (auto simp: begin_run_def split: if_splits option.splits)
  from s obtain row where "s = (rw_store (lf_world l))\<lparr>st_runs := st_runs (rw_store (lf_world l)) @ [row]\<rparr>"
    "rr_id row = fq_id q" "rr_status row = status_running" "get_run (fq_id q) (rw_store (lf_world l)) = None"
    by (auto simp: start_run_with_id_def Let_def fresh_row_def split: if_splits)
  then show "lf_live l2 = lf_live l" "lf_wg l2 = lf_wg l" "lf_sem l2 = lf_sem l" "lf_down l2 = lf_down l" "lf_stop l2 = lf_stop l"
    "lf_hooks l2 = lf_hooks l" "lf_chains l2 = lf_chains l"
    "lf_cancels l2 = insert (fq_id q) (lf_cancels l)" "lf_done l2 = insert (fq_id q) (lf_done l)"
    "dom (lf_sources l2) = insert (fq_id q) (dom (lf_sources l))" "dom (lf_depths l2) \<subseteq> insert (fq_id q) (dom (lf_depths l))"
    "row_states (lf_world l2) = row_states (lf_world l) @ [(fq_id q, status_running)]"
    "fq_id q \<notin> fst ` set (row_states (lf_world l))"
    unfolding l2 by (auto simp: row_states_def get_run_None split: option.splits)
qed

lemma spawn_fields [simp]:
  "lf_world (spawn_run q ph sem w lv l) = lf_world l" "lf_hooks (spawn_run q ph sem w lv l) = lf_hooks l"
  "lf_chains (spawn_run q ph sem w lv l) = lf_chains l" "lf_cancels (spawn_run q ph sem w lv l) = lf_cancels l"
  "lf_done (spawn_run q ph sem w lv l) = lf_done l" "lf_sources (spawn_run q ph sem w lv l) = lf_sources l"
  "lf_depths (spawn_run q ph sem w lv l) = lf_depths l" "lf_wg (spawn_run q ph sem w lv l) = lf_wg l"
  "lf_sem (spawn_run q ph sem w lv l) = lf_sem l" "lf_down (spawn_run q ph sem w lv l) = lf_down l"
  "lf_stop (spawn_run q ph sem w lv l) = lf_stop l"
  "live_ids (spawn_run q ph sem w lv l) = insert (fq_id q) (live_ids l)"
  "lf_live (spawn_run q ph sem w lv l) = (fq_id q, \<lparr>lv_fire = q, lv_phase = ph, lv_sem = sem, lv_within = w, lv_level = lv\<rparr>) # lf_live l"
  by (simp_all add: spawn_run_def live_ids_def)

lemma begin_spawn_rows:
  assumes "rows_inv old l" "regs_inv l" "begin_run guard now q l = Some l2"
  shows "rows_inv old (spawn_run q ph sem w lv l2)" "regs_inv (spawn_run q ph sem w lv l2)" "fq_id q \<notin> live_ids l"
proof -
  note f = begin_run_fields [OF assms(3)]
  have li: "live_ids l2 = live_ids l" by (simp add: live_ids_def f(1))
  have new: "(fq_id q, st) \<notin> set (row_states (lf_world l))" for st using f(13) by force
  show "fq_id q \<notin> live_ids l" using rows_invD(2) [OF assms(1)] new by blast
  have old: "fq_id q \<notin> old" using rows_invD(5) [OF assms(1)] f(13) by blast
  let ?l = "spawn_run q ph sem w lv l2"
  have rs: "row_states (lf_world ?l) = row_states (lf_world l) @ [(fq_id q, status_running)]"
    unfolding spawn_fields by (rule f(12))
  note d = rows_invD [OF assms(1)]
  show "rows_inv old ?l"
  proof (rule rows_invI)
    show "distinct (map fst (row_states (lf_world ?l)))" using d(1) f(13) unfolding rs by simp
    show "(i, status_running) \<in> set (row_states (lf_world ?l)) \<longleftrightarrow> i \<in> live_ids ?l" for i
      unfolding rs unfolding spawn_fields li using d(2) [of i] by auto
    show "(i, st) \<in> set (row_states (lf_world ?l)) \<and> st \<noteq> status_running \<and> i \<notin> old" if "(i, st) \<in> set (lf_hooks ?l)" for i st
      using d(3) [of i st] that unfolding rs unfolding spawn_fields f(6) by auto
    show "(i, st) \<in> set (lf_hooks ?l)"
      if "(i, st) \<in> set (row_states (lf_world ?l))" "st \<noteq> status_running" "i \<notin> old" for i st
      using d(4) [of i st] that unfolding rs unfolding spawn_fields f(6) by auto
    show "old \<subseteq> fst ` set (row_states (lf_world ?l))" using d(5) unfolding rs by auto
    show "old \<inter> live_ids ?l = {}" using d(6) old unfolding spawn_fields li by auto
  qed (use d(7-9) in \<open>simp_all add: f\<close>)
  show "regs_inv (spawn_run q ph sem w lv l2)"
    using assms(2) subset_trans [OF f(11) insert_mono, of "live_ids l"] unfolding regs_inv_def spawn_fields f(8-10) li by simp
qed

lemma live_inv_spawn:
  assumes "live_inv cap l" "fq_id q \<notin> live_ids l"
    "sem \<longrightarrow> ph = Executing" "cap \<noteq> None \<and> fq_gated q \<and> w = None \<and> ph = Executing \<longrightarrow> sem"
    "case w of None \<Rightarrow> lv = 0 | Some p \<Rightarrow> \<exists>rp. (p, rp) \<in> set (lf_live l) \<and> lv_phase rp = Executing \<and> lv = Suc (lv_level rp)"
    "lf_live l2 = lf_live l" "lf_wg l2 = (if w = None then lf_wg l + 1 else lf_wg l)"
    "lf_sem l2 = (if sem then lf_sem l + 1 else lf_sem l)" "\<forall>c. cap = Some c \<longrightarrow> lf_sem l2 \<le> c"
    "lf_down l2 = lf_down l" "lf_stop l2 = lf_stop l"
  shows "live_inv cap (spawn_run q ph sem w lv l2)"
proof -
  have w: "level_ok (lf_live (spawn_run q ph sem w lv l2)) r" if "(i, r) \<in> set (lf_live l)" for i r
    using live_invD(6) [OF assms(1) that] assms(6) by (auto split: option.splits)
  have "case w of None \<Rightarrow> lv = 0
     | Some p \<Rightarrow> \<exists>rp. (p, rp) \<in> set (lf_live (spawn_run q ph sem w lv l2)) \<and> lv_phase rp = Executing \<and> lv = Suc (lv_level rp)"
    using assms(5,6) by (auto split: option.splits)
  then have c: "\<forall>(i, r) \<in> set (lf_live (spawn_run q ph sem w lv l2)). case lv_within r of None \<Rightarrow> lv_level r = 0
     | Some p \<Rightarrow> \<exists>rp. (p, rp) \<in> set (lf_live (spawn_run q ph sem w lv l2)) \<and> lv_phase rp = Executing \<and>
         lv_level r = Suc (lv_level rp)" using w assms(6) by (cases w) auto
  note d = live_invD [OF assms(1)]
  show ?thesis
  proof (rule live_invI)
    show "distinct (map fst (lf_live (spawn_run q ph sem w lv l2)))" using d(1) assms(2,6) by (simp add: live_ids_def)
    show "lf_wg (spawn_run q ph sem w lv l2) =
       length (filter (\<lambda>x. lv_within (snd x) = None) (lf_live (spawn_run q ph sem w lv l2)))"
      using d(2) assms(6,7) by simp
    show "lf_sem (spawn_run q ph sem w lv l2) = length (filter (\<lambda>x. lv_sem (snd x)) (lf_live (spawn_run q ph sem w lv l2)))"
      using d(3) assms(6,8) by simp
    show "fq_id (lv_fire r) = i \<and> (lv_sem r \<longrightarrow> lv_phase r = Executing) \<and>
       (cap \<noteq> None \<and> fq_gated (lv_fire r) \<and> lv_within r = None \<and> lv_phase r = Executing \<longrightarrow> lv_sem r)"
      if "(i, r) \<in> set (lf_live (spawn_run q ph sem w lv l2))" for i r
      using d(5) [of i r] that assms(3,4,6) by auto
  qed (use c d(7) assms(9-11) in auto)
qed

lemma finish_fields:
  "lf_world (finish_handle i q f l) = lf_world l" "lf_hooks (finish_handle i q f l) = lf_hooks l @ [(i, fn_status f)]"
  "lf_chains (finish_handle i q f l) = (if fn_chain f then lf_chains l @ [(i, fn_status f)] else lf_chains l)"
  "lf_cancels (finish_handle i q f l) = lf_cancels l - {i}" "lf_done (finish_handle i q f l) = lf_done l - {i}"
  "lf_sources (finish_handle i q f l) = (lf_sources l)(i := None)" "lf_depths (finish_handle i q f l) = (lf_depths l)(i := None)"
  "lf_wg (finish_handle i q f l) = lf_wg l" "lf_sem (finish_handle i q f l) = lf_sem l"
  "lf_live (finish_handle i q f l) = lf_live l" "lf_down (finish_handle i q f l) = lf_down l"
  "lf_stop (finish_handle i q f l) = lf_stop l"
  by (auto simp: finish_handle_def release_handle_def Let_def)

lemma end_fields:
  "lf_world (end_goroutine i r l) = lf_world l" "lf_hooks (end_goroutine i r l) = lf_hooks l"
  "lf_chains (end_goroutine i r l) = lf_chains l" "lf_cancels (end_goroutine i r l) = lf_cancels l"
  "lf_done (end_goroutine i r l) = lf_done l" "lf_sources (end_goroutine i r l) = lf_sources l"
  "lf_depths (end_goroutine i r l) = lf_depths l" "lf_live (end_goroutine i r l) = drop_live i (lf_live l)"
  "lf_wg (end_goroutine i r l) = (if lv_within r = None then lf_wg l - 1 else lf_wg l)"
  "lf_sem (end_goroutine i r l) = (if lv_sem r then lf_sem l - 1 else lf_sem l)"
  "lf_down (end_goroutine i r l) = lf_down l" "lf_stop (end_goroutine i r l) = lf_stop l"
  by (auto simp: end_goroutine_def drain_done_def Let_def)

lemma set_state_keys [simp]: "map fst (set_state i st xs) = map fst xs"
  by (induction xs) (auto simp: set_state_def)

lemma set_state_mem: "(j, x) \<in> set (set_state i st xs) \<longleftrightarrow> (if j = i then x = st \<and> i \<in> fst ` set xs else (j, x) \<in> set xs)"
  by (induction xs) (auto simp: set_state_def split: if_splits)

text \<open>A run comes to its end: its row is set, the handle is finished, the goroutine ends.\<close>

lemma run_ends:
  assumes "life_inv cap old l" "map_of (lf_live l) i = Some r" "fn_status f \<noteq> status_running"
    "row_states w = set_state i (fn_status f) (row_states (lf_world l))"
    "list_all (\<lambda>x. lv_within (snd x) \<noteq> Some i) (lf_live l)"
  shows "life_inv cap old (end_goroutine i r (finish_handle i (lv_fire r) f (l\<lparr>lf_world := w\<rparr>)))" (is "life_inv cap old ?l")
proof -
  from assms(1) have R: "rows_inv old l" and G: "regs_inv l" and L: "live_inv cap l" by (simp_all only: life_inv_def)
  note d = rows_invD [OF R]
  note e = live_invD [OF L]
  have ir: "(i, r) \<in> set (lf_live l)" using assms(2) e(1) by (simp add: live_mem)
  then have il: "i \<in> live_ids l" by (force simp: live_ids_def)
  have ids: "live_ids ?l = live_ids l - {i}" by (auto simp: live_ids_def end_fields finish_fields)
  have irow: "(i, status_running) \<in> set (row_states (lf_world l))" using d(2) il by blast
  have rs: "row_states (lf_world ?l) = set_state i (fn_status f) (row_states (lf_world l))"
    unfolding end_fields finish_fields by (simp add: assms(4))
  have hk: "lf_hooks ?l = lf_hooks l @ [(i, fn_status f)]" unfolding end_fields finish_fields by simp
  have inew: "i \<notin> fst ` set (lf_hooks l)" "i \<notin> old"
    using d(3) d(6) il irow eq_key_imp_eq_value [OF d(1)] by force+
  have keys: "fst ` set (row_states (lf_world ?l)) = fst ` set (row_states (lf_world l))"
    unfolding rs using set_state_keys [of i "fn_status f" "row_states (lf_world l)"] by (metis set_map)
  have ik: "i \<in> fst ` set (row_states (lf_world l))" using irow by force
  have "rows_inv old ?l"
  proof (rule rows_invI)
    show "distinct (map fst (row_states (lf_world ?l)))" unfolding rs using d(1) by simp
    show "(j, status_running) \<in> set (row_states (lf_world ?l)) \<longleftrightarrow> j \<in> live_ids ?l" for j
      unfolding rs ids set_state_mem using d(2) [of j] assms(3) by auto
    show "(j, st) \<in> set (row_states (lf_world ?l)) \<and> st \<noteq> status_running \<and> j \<notin> old" if "(j, st) \<in> set (lf_hooks ?l)" for j st
      using that d(3) [of j st] inew assms(3) ik unfolding rs hk set_state_mem by force
    show "(j, st) \<in> set (lf_hooks ?l)"
      if "(j, st) \<in> set (row_states (lf_world ?l))" "st \<noteq> status_running" "j \<notin> old" for j st
      using that d(4) [of j st] unfolding rs hk set_state_mem by (auto split: if_splits)
    show "old \<subseteq> fst ` set (row_states (lf_world ?l))" unfolding keys by (rule d(5))
    show "old \<inter> live_ids ?l = {}" using d(6) unfolding ids by blast
    show "distinct (map fst (lf_hooks ?l))" using d(7) inew unfolding hk by simp
    have "i \<notin> fst ` set (lf_chains l)" using d(9) inew(1) by blast
    then show "distinct (map fst (lf_chains ?l))" using d(8) unfolding end_fields finish_fields by simp
    show "set (lf_chains ?l) \<subseteq> set (lf_hooks ?l)" using d(9) unfolding end_fields finish_fields by auto
  qed
  moreover have "regs_inv ?l"
    using G unfolding regs_inv_def ids end_fields finish_fields by auto
  moreover have "live_inv cap ?l"
  proof (rule live_invI)
    let ?P = "\<lambda>x :: run_id \<times> live_run. lv_within (snd x) = None" and ?S = "\<lambda>x :: run_id \<times> live_run. lv_sem (snd x)"
    have ll: "lf_live ?l = drop_live i (lf_live l)" unfolding end_fields finish_fields by simp
    show "distinct (map fst (lf_live ?l))" unfolding ll by (rule drop_live_distinct [OF e(1)])
    show "lf_wg ?l = length (filter ?P (lf_live ?l))"
      using count_drop [OF e(1) assms(2), of ?P] e(2) unfolding ll end_fields finish_fields by auto
    show sem: "lf_sem ?l = length (filter ?S (lf_live ?l))"
      using count_drop [OF e(1) assms(2), of ?S] e(3) unfolding ll end_fields finish_fields by auto
    show "\<forall>c. cap = Some c \<longrightarrow> lf_sem ?l \<le> c" using e(4) unfolding end_fields finish_fields by auto
    show "fq_id (lv_fire x) = j \<and> (lv_sem x \<longrightarrow> lv_phase x = Executing) \<and>
       (cap \<noteq> None \<and> fq_gated (lv_fire x) \<and> lv_within x = None \<and> lv_phase x = Executing \<longrightarrow> lv_sem x)"
      if "(j, x) \<in> set (lf_live ?l)" for j x
      using e(5) [of j x] that unfolding ll by auto
    show "\<forall>(j, x) \<in> set (lf_live ?l). level_ok (lf_live ?l) x"
    proof (intro ballI, clarify)
      fix j x assume "(j, x) \<in> set (lf_live ?l)"
      then have jx: "(j, x) \<in> set (lf_live l)" unfolding ll by simp
      then have "lv_within x \<noteq> Some i" using assms(5) by (auto simp: list_all_iff)
      with e(6) [OF jx] show "level_ok (lf_live ?l) x" unfolding ll by (auto split: option.splits)
    qed
    show "lf_down ?l \<longrightarrow> lf_stop ?l" using e(7) unfolding end_fields finish_fields by simp
  qed
  ultimately show ?thesis by (simp add: life_inv_def)
qed

lemma rows_inv_cong:
  assumes "rows_inv old l" "lf_world l' = lf_world l" "live_ids l' = live_ids l" "lf_hooks l' = lf_hooks l"
    "lf_chains l' = lf_chains l"
  shows "rows_inv old l'"
  using assms(1) unfolding rows_inv_def assms(2-5) .

lemma regs_inv_cong:
  assumes "regs_inv l" "live_ids l' = live_ids l" "lf_cancels l' = lf_cancels l" "lf_done l' = lf_done l"
    "lf_sources l' = lf_sources l" "lf_depths l' = lf_depths l"
  shows "regs_inv l'"
  using assms(1) unfolding regs_inv_def assms(2-6) .

lemma life_inv_cong:
  assumes "life_inv cap old l" "lf_world l' = lf_world l" "lf_live l' = lf_live l" "lf_hooks l' = lf_hooks l"
    "lf_chains l' = lf_chains l" "lf_cancels l' = lf_cancels l" "lf_done l' = lf_done l" "lf_sources l' = lf_sources l"
    "lf_depths l' = lf_depths l" "lf_wg l' = lf_wg l" "lf_sem l' = lf_sem l" "lf_down l' \<longrightarrow> lf_stop l'"
  shows "life_inv cap old l'"
proof -
  from assms(1) have R: "rows_inv old l" "regs_inv l" and L: "live_inv cap l" by (simp_all only: life_inv_def)
  have ids: "live_ids l' = live_ids l" by (simp only: live_ids_def assms(3))
  have "rows_inv old l'" by (rule rows_inv_cong [OF R(1)]) (fact assms ids)+
  moreover have "regs_inv l'" by (rule regs_inv_cong [OF R(2)]) (fact assms ids)+
  moreover have "live_inv cap l'"
    by (rule live_invI) (unfold assms(2-11), (rule live_invD(1-4) [OF L])+, erule live_invD(5) [OF L],
        use live_invD(6) [OF L] assms(12) in auto)
  ultimately show ?thesis by (simp only: life_inv_def)
qed

lemma engine_start_inv:
  assumes "store_ok (rw_store w)" "\<forall>r \<in> set (st_runs (rw_store w)). rr_status r \<noteq> status_running"
  shows "life_inv cap (rr_id ` set (st_runs (rw_store w))) (engine_start w g)"
proof -
  have "distinct (map fst (row_states w))" using assms(1) by (simp add: row_states_def comp_def store_ok_def)
  then have "rows_inv (rr_id ` set (st_runs (rw_store w))) (engine_start w g)" using assms(2)
    by (intro rows_invI) (force simp: engine_start_def live_ids_def row_states_def image_image)+
  moreover have "regs_inv (engine_start w g)" "live_inv cap (engine_start w g)"
    by (simp_all add: regs_inv_def live_inv_def engine_start_def live_ids_def)
  ultimately show ?thesis by (simp only: life_inv_def)
qed

lemma fire_async_inv:
  assumes "life_inv cap old l"
  shows "life_inv cap old (snd (fire_async cap guard now q l))"
proof (cases "lf_down l")
  case True
  with assms show ?thesis by (simp add: fire_async_def track_run_def)
next
  case False
  let ?l1 = "l\<lparr>lf_wg := lf_wg l + 1\<rparr>"
  from assms have R0: "rows_inv old l" "regs_inv l" and L: "live_inv cap l" by (simp_all only: life_inv_def)
  have R: "rows_inv old ?l1" by (rule rows_inv_cong [OF R0(1)]; simp add: live_ids_def)
  have R': "regs_inv ?l1" by (rule regs_inv_cong [OF R0(2)]; simp add: live_ids_def)
  have i1: "live_ids ?l1 = live_ids l" by (simp add: live_ids_def)
  show ?thesis
  proof (cases "begin_run guard now q ?l1")
    case None
    with False show ?thesis
      by (simp add: fire_async_def track_run_def drain_done_def) (rule life_inv_cong [OF assms], auto simp: live_invD(7) [OF L, rule_format])
  next
    case (Some l2)
    note f = begin_run_fields [OF Some]
    note b = begin_spawn_rows [OF R R' Some]
    let ?ph = "if cap \<noteq> None \<and> fq_gated q then Queued else Executing"
    have "live_inv cap (spawn_run q ?ph False None 0 l2)"
      by (rule live_inv_spawn [OF L]) (use b(3) i1 f live_invD(4) [OF L] in simp_all)
    with b(1,2) have "life_inv cap old (spawn_run q ?ph False None 0 l2)" by (simp only: life_inv_def)
    with Some False show ?thesis by (simp add: fire_async_def track_run_def)
  qed
qed

lemma fire_webhook_inv:
  assumes "life_inv cap old l"
  shows "life_inv cap old (snd (fire_webhook_sync cap guard now q l))"
proof -
  let ?g = "cap \<noteq> None \<and> fq_gated q"
  let ?l0 = "if ?g then l\<lparr>lf_sem := lf_sem l + 1\<rparr> else l"
  let ?l1 = "?l0\<lparr>lf_wg := lf_wg ?l0 + 1\<rparr>"
  from assms have R0: "rows_inv old l" "regs_inv l" and L: "live_inv cap l" by (simp_all only: life_inv_def)
  have R: "rows_inv old ?l1" by (rule rows_inv_cong [OF R0(1)]; simp add: live_ids_def)
  have R': "regs_inv ?l1" by (rule regs_inv_cong [OF R0(2)]; simp add: live_ids_def)
  have i1: "live_ids ?l1 = live_ids l" by (simp add: live_ids_def)
  have stop: "lf_down l \<Longrightarrow> lf_stop l" using live_invD(7) [OF L] by simp
  have undo: "life_inv cap old l'" if "lf_world l' = lf_world l" "lf_live l' = lf_live l" "lf_hooks l' = lf_hooks l"
    "lf_chains l' = lf_chains l" "lf_cancels l' = lf_cancels l" "lf_done l' = lf_done l" "lf_sources l' = lf_sources l"
    "lf_depths l' = lf_depths l" "lf_wg l' = lf_wg l" "lf_sem l' = lf_sem l" "lf_down l' = lf_down l" "lf_stop l' = lf_stop l" for l'
    by (rule life_inv_cong [OF assms]) (use that stop in simp_all)
  consider (full) "?g" "\<not> sem_free cap l" | (down) "\<not> (?g \<and> \<not> sem_free cap l)" "lf_down l"
    | (refused) "\<not> (?g \<and> \<not> sem_free cap l)" "\<not> lf_down l" "begin_run guard now q ?l1 = None"
    | (opened) l2 where "\<not> (?g \<and> \<not> sem_free cap l)" "\<not> lf_down l" "begin_run guard now q ?l1 = Some l2"
    by (cases "begin_run guard now q ?l1") blast+
  then show ?thesis
  proof cases
    case full
    with assms show ?thesis by (simp add: fire_webhook_sync_def)
  next
    case down
    with assms show ?thesis by (auto simp: fire_webhook_sync_def Let_def track_run_def intro!: undo)
  next
    case refused
    with assms show ?thesis by (auto simp: fire_webhook_sync_def Let_def track_run_def drain_done_def intro!: undo)
  next
    case (opened l2)
    note f = begin_run_fields [OF opened(3)]
    note b = begin_spawn_rows [OF R R' opened(3)]
    have cap: "lf_sem l + 1 \<le> c" if ?g "cap = Some c" for c using that opened(1) by (auto simp: sem_free_def)
    have "live_inv cap (spawn_run q Executing ?g None 0 l2)"
      by (rule live_inv_spawn [OF L]) (use b(3) i1 f cap live_invD(4) [OF L] in \<open>simp_all\<close>)
    with b(1,2) have "life_inv cap old (spawn_run q Executing ?g None 0 l2)" by (simp only: life_inv_def)
    with opened show ?thesis by (auto simp: fire_webhook_sync_def Let_def track_run_def)
  qed
qed

lemma fire_nested_inv:
  assumes "life_inv cap old l"
  shows "life_inv cap old (snd (fire_nested guard now p q l))"
proof (cases "\<exists>r l2. map_of (lf_live l) p = Some r \<and> lv_phase r = Executing \<and> begin_run guard now q l = Some l2")
  case False
  with assms show ?thesis by (auto simp: fire_nested_def split: option.splits)
next
  case True
  then obtain r l2 where r: "map_of (lf_live l) p = Some r" "lv_phase r = Executing" "begin_run guard now q l = Some l2" by blast
  from assms have R: "rows_inv old l" "regs_inv l" and L: "live_inv cap l" by (simp_all only: life_inv_def)
  note f = begin_run_fields [OF r(3)]
  note b = begin_spawn_rows [OF R r(3)]
  have pr: "(p, r) \<in> set (lf_live l)" using r(1) live_invD(1) [OF L] by (simp add: live_mem)
  have "live_inv cap (spawn_run q Executing False (Some p) (lv_level r + 1) l2)"
    by (rule live_inv_spawn [OF L]) (use b(3) f live_invD(4) [OF L] pr r(2) in auto)
  with b(1,2) have "life_inv cap old (spawn_run q Executing False (Some p) (lv_level r + 1) l2)" by (simp only: life_inv_def)
  with r show ?thesis by (simp add: fire_nested_def)
qed

lemma acquire_inv:
  assumes "life_inv cap old l"
  shows "life_inv cap old (acquire_sem cap i l)"
proof (cases "\<exists>r. map_of (lf_live l) i = Some r \<and> lv_phase r = Queued \<and> sem_free cap l")
  case False
  with assms show ?thesis by (auto simp: acquire_sem_def split: option.splits)
next
  case True
  then obtain r where r: "map_of (lf_live l) i = Some r" "lv_phase r = Queued" "sem_free cap l" by blast
  let ?r = "r\<lparr>lv_phase := Executing, lv_sem := True\<rparr>"
  let ?l = "l\<lparr>lf_sem := lf_sem l + 1, lf_live := (i, ?r) # drop_live i (lf_live l)\<rparr>"
  from assms have R: "rows_inv old l" "regs_inv l" and L: "live_inv cap l" by (simp_all only: life_inv_def)
  note d = rows_invD [OF R(1)]
  note e = live_invD [OF L]
  have ir: "(i, r) \<in> set (lf_live l)" using r(1) e(1) by (simp add: live_mem)
  have ids: "live_ids ?l = live_ids l" using ir by (force simp: live_ids_def)
  have "rows_inv old ?l" by (rule rows_inv_cong [OF R(1) _ ids]) simp_all
  moreover have "regs_inv ?l" by (rule regs_inv_cong [OF R(2) ids]) simp_all
  moreover have "live_inv cap ?l"
  proof (rule live_invI)
    let ?P = "\<lambda>x :: run_id \<times> live_run. lv_within (snd x) = None" and ?S = "\<lambda>x :: run_id \<times> live_run. lv_sem (snd x)"
    have ns: "\<not> lv_sem r" using e(5) [OF ir] r(2) by auto
    show "distinct (map fst (lf_live ?l))" using drop_live_distinct [OF e(1)] by auto
    show "lf_wg ?l = length (filter ?P (lf_live ?l))" using count_drop [OF e(1) r(1), of ?P] e(2) by simp
    show "lf_sem ?l = length (filter ?S (lf_live ?l))" using count_drop [OF e(1) r(1), of ?S] e(3) ns by simp
    show "\<forall>c. cap = Some c \<longrightarrow> lf_sem ?l \<le> c" using r(3) by (auto simp: sem_free_def)
    show "fq_id (lv_fire x) = j \<and> (lv_sem x \<longrightarrow> lv_phase x = Executing) \<and>
       (cap \<noteq> None \<and> fq_gated (lv_fire x) \<and> lv_within x = None \<and> lv_phase x = Executing \<longrightarrow> lv_sem x)"
      if "(j, x) \<in> set (lf_live ?l)" for j x
      using e(5) [of j x] e(5) [OF ir] that by auto
    have lev: "level_ok (lf_live ?l) x" if x: "level_ok (lf_live l) x" for x
    proof (cases "lv_within x")
      case (Some p)
      with x obtain rp where p: "(p, rp) \<in> set (lf_live l)" "lv_phase rp = Executing" "lv_level x = Suc (lv_level rp)" by auto
      have "p \<noteq> i" using p(1,2) ir r(2) e(1) eq_key_imp_eq_value [OF e(1)] by fastforce
      with p Some show ?thesis by auto
    qed (use x in simp)
    show "\<forall>(j, x) \<in> set (lf_live ?l). level_ok (lf_live ?l) x"
    proof (intro ballI, clarify)
      fix j x assume jx: "(j, x) \<in> set (lf_live ?l)"
      have "level_ok (lf_live l) ?r" using e(6) [OF ir] by (cases "lv_within r") auto
      then have q: "level_ok (lf_live ?l) ?r" by (rule lev)
      from jx have "(j = i \<and> x = ?r) \<or> (j, x) \<in> set (lf_live l)" by auto
      then show "level_ok (lf_live ?l) x"
      proof
        assume "j = i \<and> x = ?r"
        with q show ?thesis by (simp only:)
      qed (rule lev, rule e(6))
    qed
    show "lf_down ?l \<longrightarrow> lf_stop ?l" using e(7) by simp
  qed
  ultimately have "life_inv cap old ?l" by (simp only: life_inv_def)
  with r show ?thesis by (simp add: acquire_sem_def)
qed

fun op_quiet :: "life_op \<Rightarrow> bool" where
  "op_quiet (EndBody ev now spec params i) = quiet_env ev"
| "op_quiet _ = True"

lemma queued_has_no_child:
  assumes "live_inv cap l" "map_of (lf_live l) i = Some r" "lv_phase r = Queued"
  shows "list_all (\<lambda>x. lv_within (snd x) \<noteq> Some i) (lf_live l)"
proof -
  note e = live_invD [OF assms(1)]
  have ir: "(i, r) \<in> set (lf_live l)" using assms(2) e(1) by (simp add: live_mem)
  have "lv_within x \<noteq> Some i" if "(j, x) \<in> set (lf_live l)" for j x
  proof
    assume "lv_within x = Some i"
    with e(6) [OF that] obtain rp where rp: "(i, rp) \<in> set (lf_live l)" "lv_phase rp = Executing" by auto
    from eq_key_imp_eq_value [OF e(1) ir rp(1)] rp(2) assms(3) show False by simp
  qed
  then show ?thesis by (auto simp: list_all_iff)
qed

lemma live_row:
  assumes "life_inv cap old l" "map_of (lf_live l) i = Some r"
  shows "distinct (map fst (row_states (lf_world l)))" "(i, status_running) \<in> set (row_states (lf_world l))"
proof -
  from assms(1) have R: "rows_inv old l" by (simp only: life_inv_def)
  show "distinct (map fst (row_states (lf_world l)))" by (rule rows_invD(1) [OF R])
  have "i \<in> live_ids l" using map_of_SomeD [OF assms(2)] by (force simp: live_ids_def)
  then show "(i, status_running) \<in> set (row_states (lf_world l))" using rows_invD(2) [OF R] by blast
qed

lemma life_exec_inv:
  assumes "life_inv cap old l" "op_quiet x"
  shows "life_inv cap old (life_exec cap x l)"
proof (cases x)
  case (FireAsync guard now q)
  with fire_async_inv [OF assms(1)] show ?thesis by simp
next
  case (FireWebhook guard now q)
  with fire_webhook_inv [OF assms(1)] show ?thesis by simp
next
  case (FireNested guard now p q)
  with fire_nested_inv [OF assms(1)] show ?thesis by simp
next
  case (Acquire i)
  with acquire_inv [OF assms(1)] show ?thesis by simp
next
  case (Abort now i)
  show ?thesis
  proof (cases "\<exists>r. map_of (lf_live l) i = Some r \<and> lv_phase r = Queued \<and> (i \<in> lf_cancelled l \<or> lf_stop l)")
    case True
    then obtain r where r: "map_of (lf_live l) i = Some r" "lv_phase r = Queued" "i \<in> lf_cancelled l \<or> lf_stop l" by blast
    have "live_inv cap l" using assms(1) by (simp only: life_inv_def)
    from queued_has_no_child [OF this r(1,2)] have c: "list_all (\<lambda>x. lv_within (snd x) \<noteq> Some i) (lf_live l)" .
    let ?f = "\<lparr>fn_status = status_cancelled, fn_chain = False, fn_output = JNull\<rparr>"
    have "life_inv cap old (end_goroutine i r (finish_handle i (lv_fire r) ?f
        (l\<lparr>lf_world := finish_row now i status_cancelled (lf_world l)\<rparr>)))"
      by (rule run_ends [OF assms(1) r(1) _ _ c]) (simp_all add: finish_states status_defs)
    with Abort r show ?thesis by (auto simp: abort_queued_def finalize_cancelled_def)
  next
    case False
    with Abort assms(1) show ?thesis by (auto simp: abort_queued_def split: option.splits)
  qed
next
  case (EndBody ev now spec params i)
  show ?thesis
  proof (cases "\<exists>r. map_of (lf_live l) i = Some r \<and> lv_phase r = Executing \<and> list_all (\<lambda>x. lv_within (snd x) \<noteq> Some i) (lf_live l)")
    case True
    then obtain r where r: "map_of (lf_live l) i = Some r" "lv_phase r = Executing"
      "list_all (\<lambda>x. lv_within (snd x) \<noteq> Some i) (lf_live l)" by blast
    obtain f e w where t: "run_task ev now spec i params (lf_world l) = (f, e, w)" by (metis prod.collapse)
    have q: "quiet_env ev" using assms(2) EndBody by simp
    from run_task_states [OF q live_row [OF assms(1) r(1)] t]
    have "life_inv cap old (end_goroutine i r (finish_handle i (lv_fire r) f (l\<lparr>lf_world := w\<rparr>)))"
      by (intro run_ends [OF assms(1) r(1) _ _ r(3)]) simp_all
    with EndBody r t show ?thesis by (simp add: end_body_def)
  next
    case False
    with EndBody assms(1) show ?thesis by (auto simp: end_body_def split: option.splits)
  qed
next
  case (Kill i)
  have "live_inv cap l" using assms(1) by (simp only: life_inv_def)
  from live_invD(7) [OF this] Kill assms(1) show ?thesis
    by (auto simp: kill_run_def intro!: life_inv_cong [OF assms(1)])
next
  case Stop
  then show ?thesis by (auto intro!: life_inv_cong [OF assms(1)])
next
  case Shutdown
  with assms(1) show ?thesis by (auto simp: begin_shutdown_def intro!: life_inv_cong [OF assms(1)])
qed

lemma life_run_inv:
  "list_all op_quiet ops \<Longrightarrow> life_inv cap old l \<Longrightarrow> life_inv cap old (life_run cap ops l)"
  unfolding life_run_def by (induction ops arbitrary: l) (auto intro: life_exec_inv)

section \<open>Bookkeeping\<close>

definition quiet_history :: "nat option \<Rightarrow> life_op list \<Rightarrow> run_world \<Rightarrow> chain_guards \<Rightarrow> run_engine \<Rightarrow> bool" where
  "quiet_history cap ops w g l \<longleftrightarrow>
     list_all op_quiet ops \<and> store_ok (rw_store w) \<and> (\<forall>r \<in> set (st_runs (rw_store w)). rr_status r \<noteq> status_running) \<and>
     l = life_run cap ops (engine_start w g)"

lemma history_inv: "quiet_history cap ops w g l \<Longrightarrow> life_inv cap (rr_id ` set (st_runs (rw_store w))) l"
  unfolding quiet_history_def using life_run_inv [OF _ engine_start_inv] by blast

lemma filter_length_mono: "(\<And>x. x \<in> set xs \<Longrightarrow> P x \<Longrightarrow> Q x) \<Longrightarrow> length (filter P xs) \<le> length (filter Q xs)"
  by (induction xs) auto


definition ex_fire_req :: "run_id \<Rightarrow> fire_req" where
  "ex_fire_req i = \<lparr>fq_id = i, fq_task = ''t'', fq_kind = ''task'', fq_parent = [], fq_source = ''manual'', fq_slot = [],
     fq_depth = None, fq_gated = True\<rparr>"

definition ex_empty_world :: run_world where
  "ex_empty_world = \<lparr>rw_store = new_store, rw_blobs = Map.empty, rw_cache = Map.empty, rw_secrets = None\<rparr>"

definition ex_engine :: "life_op list \<Rightarrow> run_engine" where
  "ex_engine ops = life_run (Some 1) ops (engine_start ex_empty_world new_chain_guards)"

lemma ex_history: "list_all op_quiet ops \<Longrightarrow> quiet_history (Some 1) ops ex_empty_world new_chain_guards (ex_engine ops)"
  using store_ok_new by (simp add: quiet_history_def ex_engine_def ex_empty_world_def) (simp add: new_store_def)

lemmas ex_life_simps = ex_engine_def life_run_def engine_start_def fire_async_def track_run_def begin_run_def ex_fire_req_def
  ex_empty_world_def start_run_with_id_def get_run_def new_store_def spawn_run_def begin_shutdown_def abort_queued_def
  finalize_cancelled_def acquire_sem_def sem_free_def


section \<open>The drain at shutdown\<close>

lemma drained_is_empty:
  assumes "live_inv cap l" "lf_wg l = 0"
  shows "lf_live l = []"
proof -
  note e = live_invD [OF assms(1)]
  have w: "lv_within r \<noteq> None" if "(i, r) \<in> set (lf_live l)" for i r
    using e(2) assms(2) that by (auto simp: filter_empty_conv)
  have "(i, r) \<in> set (lf_live l) \<Longrightarrow> lv_level r = n \<Longrightarrow> False" for n i r
  proof (induction n arbitrary: i r)
    case 0
    with e(6) [OF 0(1)] w [OF 0(1)] show ?case by auto
  next
    case (Suc n)
    with e(6) [OF Suc.prems(1)] w [OF Suc.prems(1)] obtain p rp where "(p, rp) \<in> set (lf_live l)" "lv_level rp = n" by auto
    from Suc.IH [OF this] show ?case .
  qed
  then show ?thesis by (cases "lf_live l") auto
qed

definition engine_silent :: "run_engine \<Rightarrow> bool" where
  "engine_silent l \<longleftrightarrow> lf_down l \<and> lf_live l = [] \<and> lf_cancels l = {}"

lemma silent_exec:
  assumes "engine_silent l"
  shows "engine_silent (life_exec cap x l)" "lf_world (life_exec cap x l) = lf_world l"
    "lf_hooks (life_exec cap x l) = lf_hooks l" "lf_chains (life_exec cap x l) = lf_chains l"
  using assms
  by (cases x; auto simp: engine_silent_def fire_async_def track_run_def fire_webhook_sync_def Let_def fire_nested_def
      acquire_sem_def abort_queued_def end_body_def kill_run_def begin_shutdown_def)+

lemma silent_run:
  "engine_silent l \<Longrightarrow> lf_world (life_run cap ops l) = lf_world l \<and> lf_hooks (life_run cap ops l) = lf_hooks l \<and>
     lf_chains (life_run cap ops l) = lf_chains l"
  unfolding life_run_def by (induction ops arbitrary: l) (auto simp: silent_exec)



lemma drop_length:
  assumes "distinct (map fst xs)" "map_of xs i = Some r"
  shows "length xs = Suc (length (drop_live i xs))"
  using count_drop [OF assms, of "\<lambda>_. True"] by (simp del: One_nat_def)

lemma one_run_ends:
  assumes "life_inv cap old l" "lf_stop l" "lf_live l \<noteq> []" "quiet_env ev"
  shows "\<exists>x. op_quiet x \<and> lf_stop (life_exec cap x l) \<and> length (lf_live l) = Suc (length (lf_live (life_exec cap x l)))"
proof -
  from assms(1) have L: "live_inv cap l" by (simp only: life_inv_def)
  note e = live_invD [OF L]
  let ?lev = "\<lambda>x :: run_id \<times> live_run. lv_level (snd x)"
  have "\<exists>x \<in> set (lf_live l). \<forall>y \<in> set (lf_live l). ?lev y \<le> ?lev x"
  proof -
    have "Max (?lev ` set (lf_live l)) \<in> ?lev ` set (lf_live l)" by (rule Max_in) (use assms(3) in auto)
    then obtain x where "x \<in> set (lf_live l)" "?lev x = Max (?lev ` set (lf_live l))" by auto
    then show ?thesis by (intro bexI [of _ x]) simp_all
  qed
  then obtain i r where ir: "(i, r) \<in> set (lf_live l)" and top: "\<And>j x. (j, x) \<in> set (lf_live l) \<Longrightarrow> lv_level x \<le> lv_level r"
    by force
  have m: "map_of (lf_live l) i = Some r" using ir e(1) by (simp add: live_mem)
  have leaf: "lv_within x \<noteq> Some i" if jx: "(j, x) \<in> set (lf_live l)" for j x
  proof
    assume "lv_within x = Some i"
    with e(6) [OF jx] obtain rp where "(i, rp) \<in> set (lf_live l)" "lv_level x = Suc (lv_level rp)" by auto
    with eq_key_imp_eq_value [OF e(1) ir] top [OF jx] show False by auto
  qed
  show ?thesis
  proof (cases "lv_phase r")
    case Queued
    then show ?thesis using m assms(2) drop_length [OF e(1) m]
      by (intro exI [of _ "Abort 0 i"]) (simp add: abort_queued_def finalize_cancelled_def end_fields finish_fields)
  next
    case Executing
    have "list_all (\<lambda>x. lv_within (snd x) \<noteq> Some i) (lf_live l)" using leaf by (auto simp: list_all_iff)
    with Executing show ?thesis using m assms(2,4) drop_length [OF e(1) m]
      by (intro exI [of _ "EndBody ev 0 empty_spec [] i"]) (simp add: end_body_def end_fields finish_fields split: prod.split)
  qed
qed

text \<open>C29. The drain ends. Once the context of the engine is over, whatever runs are queued, executing or
  nested, as many ends of bodies and aborts of queued runs as there are runs bring the drain to
  zero: a queued run needs no slot to be given up, and a body never waits for another but the
  synchronous fires inside it.\<close>

theorem shutdown_drain_ends:
  "quiet_history cap ops w g l \<and> lf_stop l \<and> quiet_env ev \<longrightarrow>
     (\<exists>later. list_all op_quiet later \<and> length later = length (lf_live l) \<and>
        lf_live (life_run cap later l) = [] \<and> lf_wg (life_run cap later l) = 0)"
proof -
  have "\<exists>later. list_all op_quiet later \<and> length later = length (lf_live l) \<and>
        lf_live (life_run cap later l) = [] \<and> lf_wg (life_run cap later l) = 0"
    if "life_inv cap old l" "lf_stop l" "quiet_env ev" for old l
    using that(1,2)
  proof (induction "length (lf_live l)" arbitrary: l)
    case 0
    then have "live_inv cap l" "lf_live l = []" by (simp_all add: life_inv_def)
    with live_invD(2) [of cap l] show ?case by (intro exI [of _ "[]"]) (simp add: life_run_def)
  next
    case (Suc n)
    then have "lf_live l \<noteq> []" by auto
    from one_run_ends [OF Suc.prems this that(3)] obtain x where x: "op_quiet x" "lf_stop (life_exec cap x l)"
      "length (lf_live l) = Suc (length (lf_live (life_exec cap x l)))" by blast
    with Suc.hyps(2) have "n = length (lf_live (life_exec cap x l))" by simp
    from Suc.hyps(1) [OF this life_exec_inv [OF Suc.prems(1) x(1)] x(2)] obtain later where
      "list_all op_quiet later" "length later = length (lf_live (life_exec cap x l))"
      "lf_live (life_run cap later (life_exec cap x l)) = []" "lf_wg (life_run cap later (life_exec cap x l)) = 0" by blast
    with x show ?case by (intro exI [of _ "x # later"]) (simp add: life_run_def)
  qed
  then show ?thesis using history_inv by blast
qed

lemma ex_run_env_quiet: "quiet_env ex_run_env"
  by (simp add: quiet_env_def ex_run_env_def)

theorem shutdown_drain_ends_witness:
  "\<exists>later. length later = 1 \<and>
     lf_wg (life_run (Some 1) later (ex_engine [FireAsync (\<lambda>_. True) 1 (ex_fire_req ''r1''), Stop])) = 0"
proof -
  let ?ops = "[FireAsync (\<lambda>_. True) 1 (ex_fire_req ''r1''), Stop]"
  have "lf_stop (ex_engine ?ops) \<and> length (lf_live (ex_engine ?ops)) = 1" by (simp add: ex_life_simps)
  with shutdown_drain_ends [of "Some 1" ?ops ex_empty_world new_chain_guards "ex_engine ?ops" ex_run_env] ex_history [of ?ops]
    ex_run_env_quiet
  show ?thesis by auto
qed

end
