(* ===== verification/Reconciler.thy ===== *)
theory Reconciler
  imports ChainDispatch
begin

text \<open>
  The reconciler (pkg/registry/reconciler.go) and the registry's table of tasks. A step is one
  action of one goroutine: a forwarder hands an event of its source to the merged channel, a retry
  goroutine re-checks or re-emits a queued event, the main loop handles the event at the head of
  the channel. Sources and callbacks are outside: a source is the list of events it emits.
\<close>

section \<open>Providers\<close>

datatype from_kind = FromKindEnv | FromKindTask

definition parse_from :: "string \<Rightarrow> from_kind \<times> string" where
  "parse_from s0 =
     (let s = trim_space s0 in
      if s = [] then (FromKindEnv, [])
      else (case cut_prefix ''task:'' s of
              Some rest \<Rightarrow> (FromKindTask, trim_space rest)
            | None \<Rightarrow> (case cut_prefix ''env:'' s of
                        Some rest \<Rightarrow> (FromKindEnv, trim_space rest)
                      | None \<Rightarrow> (FromKindEnv, s))))"

datatype provider_error = EmptyTarget string | ProviderMissing string task_id

fun validate_providers :: "kinded list \<Rightarrow> env_entry list \<Rightarrow> provider_error option" where
  "validate_providers tasks [] = None"
| "validate_providers tasks (e # es) =
     (case parse_from (ee_from e) of
        (FromKindEnv, n) \<Rightarrow> validate_providers tasks es
      | (FromKindTask, target) \<Rightarrow>
          if target = [] then Some (EmptyTarget (ee_name e))
          else if get_spec target tasks = None then Some (ProviderMissing (ee_name e) target)
          else validate_providers tasks es)"

text \<open>Only a task has environment entries; a pipeline passes.\<close>

definition validate_task_providers :: "kinded list \<Rightarrow> kinded \<Rightarrow> provider_error option" where
  "validate_task_providers tasks k =
     (case k of KSpec s \<Rightarrow> validate_providers tasks (pm_env (sp_permissions s)) | KPipeline p \<Rightarrow> None)"

section \<open>The table of tasks\<close>

record task_table =
  tt_tasks :: "kinded list"
  tt_failures :: "task_id \<rightharpoonup> string"

definition registry_register :: "kinded \<Rightarrow> task_table \<Rightarrow> task_table" where
  "registry_register k t =
     t\<lparr>tt_tasks := put_kinded k (tt_tasks t), tt_failures := (tt_failures t)(task_id_of k := None)\<rparr>"

definition registry_unregister :: "task_id \<Rightarrow> task_table \<Rightarrow> task_table" where
  "registry_unregister i t =
     t\<lparr>tt_tasks := filter (\<lambda>k. task_id_of k \<noteq> i) (tt_tasks t), tt_failures := (tt_failures t)(i := None)\<rparr>"

definition set_load_failure :: "task_id \<Rightarrow> string \<Rightarrow> task_table \<Rightarrow> task_table" where
  "set_load_failure i msg t = t\<lparr>tt_failures := (tt_failures t)(i \<mapsto> msg)\<rparr>"

section \<open>Events\<close>

text \<open>An added and an updated task are handled alike. The barrier marks the end of a source's first scan.\<close>

datatype src_event = Present task_id kinded | Removed task_id

datatype item = Barrier | Event src_event

fun event_task :: "src_event \<Rightarrow> task_id" where
  "event_task (Present i k) = i"
| "event_task (Removed i) = i"

fun set_task_id :: "task_id \<Rightarrow> kinded \<Rightarrow> kinded" where
  "set_task_id i (KSpec s) = KSpec (s\<lparr>sp_id := i\<rparr>)"
| "set_task_id i (KPipeline p) = KPipeline (p\<lparr>pl_id := i\<rparr>)"

datatype callback = OnRegister kinded | OnUnregister task_id

text \<open>A retry goroutine: the event it is about to send, and those of its snapshot still to come.\<close>

record retry =
  rt_sending :: "src_event option"
  rt_rest :: "src_event list"

text \<open>\<open>rn_streams\<close> are the forwarders, \<open>rn_merged\<close> the channel, each entry with its forwarder (none for a
  retry). \<open>rn_handled\<close> and \<open>rn_calls\<close> record what was handled and called.\<close>

record reconciler =
  rn_streams :: "item list list"
  rn_merged :: "(nat option \<times> item) list"
  rn_retries :: "retry list"
  rn_pending :: "task_id \<rightharpoonup> src_event"
  rn_order :: "task_id list"
  rn_table :: task_table
  rn_init :: int
  rn_ready :: bool
  rn_handled :: "(nat option \<times> item) list"
  rn_calls :: "callback list"

definition merged_capacity :: nat where
  "merged_capacity = 64"

text \<open>\<open>startSource\<close> of the initial sources: \<open>n\<close> events of a source are its first scan, and the barrier follows
  them.\<close>

definition start_source :: "nat \<times> src_event list \<Rightarrow> item list" where
  "start_source x = (case x of (n, es) \<Rightarrow> map Event (take n es) @ [Barrier] @ map Event (drop n es))"

definition start_reconciler :: "(nat \<times> src_event list) list \<Rightarrow> reconciler" where
  "start_reconciler srcs =
     \<lparr>rn_streams = map start_source srcs, rn_merged = [], rn_retries = [], rn_pending = Map.empty, rn_order = [],
      rn_table = \<lparr>tt_tasks = [], tt_failures = Map.empty\<rparr>, rn_init = int (length srcs), rn_ready = (srcs = []),
      rn_handled = [], rn_calls = []\<rparr>"

text \<open>\<open>AddSource\<close>: no barrier.\<close>

definition add_source :: "src_event list \<Rightarrow> reconciler \<Rightarrow> reconciler" where
  "add_source es s = s\<lparr>rn_streams := rn_streams s @ [map Event es]\<rparr>"

text \<open>\<open>RemoveSource\<close> cancels the source, which closes its channel: the forwarder still delivers the \<open>k\<close> events
  buffered by then, and nothing after them, no outstanding barrier either.\<close>

definition remove_source :: "nat \<Rightarrow> nat \<Rightarrow> reconciler \<Rightarrow> reconciler" where
  "remove_source n k s = s\<lparr>rn_streams := (rn_streams s)[n := take k (rn_streams s ! n)]\<rparr>"

section \<open>Handling\<close>

definition mark_initial_source_synced :: "reconciler \<Rightarrow> reconciler" where
  "mark_initial_source_synced s =
     s\<lparr>rn_init := rn_init s - 1, rn_ready := (rn_ready s \<or> rn_init s - 1 \<le> 0)\<rparr>"

text \<open>The snapshot of the pending events comes in some order; \<open>rn_order\<close>, the keys of the map, fixes one.\<close>

definition retry_pending :: "reconciler \<Rightarrow> reconciler" where
  "retry_pending s =
     (if rn_order s = [] then s
      else s\<lparr>rn_retries := rn_retries s @
               [\<lparr>rt_sending = None, rt_rest = List.map_filter (rn_pending s) (rn_order s)\<rparr>]\<rparr>)"

definition queue_pending :: "task_id \<Rightarrow> src_event \<Rightarrow> reconciler \<Rightarrow> reconciler" where
  "queue_pending i e s =
     s\<lparr>rn_pending := (rn_pending s)(i \<mapsto> e), rn_order := (if i \<in> set (rn_order s) then rn_order s else rn_order s @ [i])\<rparr>"

definition unpend :: "task_id \<Rightarrow> reconciler \<Rightarrow> reconciler" where
  "unpend i s = s\<lparr>rn_pending := (rn_pending s)(i := None), rn_order := filter (\<lambda>j. j \<noteq> i) (rn_order s)\<rparr>"

fun handle_event :: "src_event \<Rightarrow> reconciler \<Rightarrow> reconciler" where
  "handle_event (Present i k0) s =
     (let k = set_task_id i k0 in
      case validate_task_providers (tt_tasks (rn_table s)) k of
        Some err \<Rightarrow> queue_pending i (Present i k0) s
      | None \<Rightarrow>
          (let s1 = unpend i (s\<lparr>rn_table := registry_register k (rn_table s)\<rparr>)
           in retry_pending (s1\<lparr>rn_calls := rn_calls s1 @ [OnRegister k]\<rparr>)))"
| "handle_event (Removed i) s =
     (let s1 = unpend i s
      in s1\<lparr>rn_table := registry_unregister i (rn_table s1), rn_calls := rn_calls s1 @ [OnUnregister i]\<rparr>)"

section \<open>Steps\<close>

datatype rc_step = Forward nat | RetryCheck nat | RetrySend nat | HandleNext | AddSource "src_event list" | RemoveSource nat nat

text \<open>A step that is not enabled does nothing.\<close>

definition rc_forward :: "nat \<Rightarrow> reconciler \<Rightarrow> reconciler" where
  "rc_forward n s =
     (if n < length (rn_streams s) \<and> length (rn_merged s) < merged_capacity then
        (case rn_streams s ! n of
           [] \<Rightarrow> s
         | x # xs \<Rightarrow> s\<lparr>rn_streams := (rn_streams s)[n := xs], rn_merged := rn_merged s @ [(Some n, x)]\<rparr>)
      else s)"

definition rc_retry_check :: "nat \<Rightarrow> reconciler \<Rightarrow> reconciler" where
  "rc_retry_check n s =
     (if n < length (rn_retries s) \<and> rt_sending (rn_retries s ! n) = None then
        (case rt_rest (rn_retries s ! n) of
           [] \<Rightarrow> s
         | e # es \<Rightarrow>
             s\<lparr>rn_retries := (rn_retries s)[n :=
                 \<lparr>rt_sending = (if rn_pending s (event_task e) = None then None else Some e), rt_rest = es\<rparr>]\<rparr>)
      else s)"

definition rc_retry_send :: "nat \<Rightarrow> reconciler \<Rightarrow> reconciler" where
  "rc_retry_send n s =
     (if n < length (rn_retries s) \<and> length (rn_merged s) < merged_capacity then
        (case rt_sending (rn_retries s ! n) of
           None \<Rightarrow> s
         | Some e \<Rightarrow>
             s\<lparr>rn_retries := (rn_retries s)[n := (rn_retries s ! n)\<lparr>rt_sending := None\<rparr>],
               rn_merged := rn_merged s @ [(None, Event e)]\<rparr>)
      else s)"

definition rc_handle :: "reconciler \<Rightarrow> reconciler" where
  "rc_handle s =
     (case rn_merged s of
        [] \<Rightarrow> s
      | (src, x) # q \<Rightarrow>
          (let s1 = s\<lparr>rn_merged := q, rn_handled := rn_handled s @ [(src, x)]\<rparr>
           in case x of Barrier \<Rightarrow> mark_initial_source_synced s1 | Event e \<Rightarrow> handle_event e s1))"

fun rc_exec :: "rc_step \<Rightarrow> reconciler \<Rightarrow> reconciler" where
  "rc_exec (Forward n) s = rc_forward n s"
| "rc_exec (RetryCheck n) s = rc_retry_check n s"
| "rc_exec (RetrySend n) s = rc_retry_send n s"
| "rc_exec HandleNext s = rc_handle s"
| "rc_exec (AddSource es) s = add_source es s"
| "rc_exec (RemoveSource n k) s = remove_source n k s"

definition rc_run :: "rc_step list \<Rightarrow> reconciler \<Rightarrow> reconciler" where
  "rc_run xs s = fold rc_exec xs s"

text \<open>Nothing is on its way.\<close>

definition quiescent :: "reconciler \<Rightarrow> bool" where
  "quiescent s \<longleftrightarrow>
     list_all (\<lambda>q. q = []) (rn_streams s) \<and> rn_merged s = [] \<and>
     list_all (\<lambda>r. rt_sending r = None \<and> rt_rest r = []) (rn_retries s)"

end
