(* ===== verification/ReconcilerSafety.thy ===== *)
theory ReconcilerSafety
  imports Reconciler
begin

text \<open>
  What the reconciler guarantees under any scheduling of its goroutines: a queued task is queued
  for a reason, a task without providers follows its source, readiness means that the first scans
  were handled; and what a stale retry does to a newer event.
\<close>

section \<open>The table of tasks\<close>

lemma get_put_kinded: "get_kinded i (put_kinded k ks) = (if i = task_id_of k then Some k else get_kinded i ks)"
  by (induction ks) (auto simp: get_kinded_def)

lemma get_filter_kinded: "get_kinded i (filter (\<lambda>k. task_id_of k \<noteq> j) ks) = (if i = j then None else get_kinded i ks)"
  by (induction ks) (auto simp: get_kinded_def)

lemma get_spec_filter: "get_spec i ks = None \<Longrightarrow> get_spec i (filter (\<lambda>k. task_id_of k \<noteq> j) ks) = None"
  by (simp add: get_spec_def get_filter_kinded)

lemma task_id_of_set [simp]: "task_id_of (set_task_id i k) = i"
  by (cases k) simp_all

lemma validate_filter:
  "validate_task_providers ks k \<noteq> None \<Longrightarrow> validate_task_providers (filter (\<lambda>k. task_id_of k \<noteq> j) ks) k \<noteq> None"
proof -
  have "validate_providers ks es \<noteq> None \<Longrightarrow> validate_providers (filter (\<lambda>k. task_id_of k \<noteq> j) ks) es \<noteq> None" for es
    by (induction es) (auto simp: get_spec_filter split: prod.splits from_kind.splits if_splits)
  then show "validate_task_providers ks k \<noteq> None \<Longrightarrow>
      validate_task_providers (filter (\<lambda>k. task_id_of k \<noteq> j) ks) k \<noteq> None"
    by (simp add: validate_task_providers_def split: kinded.splits)
qed

section \<open>Queued tasks\<close>

definition queued_tasks :: "(nat option \<times> item) list \<Rightarrow> task_id set" where
  "queued_tasks q = {event_task e | e src. (src, Event e) \<in> set q}"

definition retry_tasks :: "retry \<Rightarrow> task_id set" where
  "retry_tasks r = event_task ` (set_option (rt_sending r) \<union> set (rt_rest r))"

definition in_flight :: "reconciler \<Rightarrow> task_id set" where
  "in_flight s = queued_tasks (rn_merged s) \<union> \<Union> (retry_tasks ` set (rn_retries s))"

definition blocked :: "task_table \<Rightarrow> task_id \<Rightarrow> kinded \<Rightarrow> bool" where
  "blocked t i k \<longleftrightarrow> validate_task_providers (tt_tasks t) (set_task_id i k) \<noteq> None"

definition pending_inv :: "reconciler \<Rightarrow> bool" where
  "pending_inv s \<longleftrightarrow> dom (rn_pending s) = set (rn_order s) \<and>
     (\<forall>i e. rn_pending s i = Some e \<longrightarrow> (\<exists>k. e = Present i k \<and> (blocked (rn_table s) i k \<or> i \<in> in_flight s)))"

lemma pending_invD:
  assumes "pending_inv s"
  shows "dom (rn_pending s) = set (rn_order s)"
    "rn_pending s i = Some e \<Longrightarrow> \<exists>k. e = Present i k \<and> (blocked (rn_table s) i k \<or> i \<in> in_flight s)"
  using assms by (simp_all add: pending_inv_def)

lemma pending_invI:
  assumes "dom (rn_pending s) = set (rn_order s)"
    "\<And>i e. rn_pending s i = Some e \<Longrightarrow> \<exists>k. e = Present i k \<and> (blocked (rn_table s) i k \<or> i \<in> in_flight s)"
  shows "pending_inv s"
  using assms by (simp add: pending_inv_def)

lemma blocked_unregister: "blocked t i k \<Longrightarrow> blocked (registry_unregister j t) i k"
  using validate_filter by (simp add: blocked_def registry_unregister_def)

lemma queued_simps [simp]:
  "queued_tasks [] = {}" "queued_tasks ((src, Event e) # q) = insert (event_task e) (queued_tasks q)"
  "queued_tasks ((src, Barrier) # q) = queued_tasks q" "queued_tasks (p @ q) = queued_tasks p \<union> queued_tasks q"
  by (auto simp: queued_tasks_def)

lemma pending_inv_mono:
  assumes "pending_inv s" "rn_pending s' = rn_pending s" "rn_order s' = rn_order s" "rn_table s' = rn_table s"
    "in_flight s \<inter> dom (rn_pending s) \<subseteq> in_flight s'"
  shows "pending_inv s'"
proof (rule pending_invI)
  show "dom (rn_pending s') = set (rn_order s')" using pending_invD(1) [OF assms(1)] by (simp add: assms(2,3))
  fix i e assume e: "rn_pending s' i = Some e"
  then have "rn_pending s i = Some e" by (simp add: assms(2))
  with pending_invD(2) [OF assms(1) this] assms(5) show "\<exists>k. e = Present i k \<and> (blocked (rn_table s') i k \<or> i \<in> in_flight s')"
    unfolding assms(4) by auto
qed

lemma set_update_split: "n < length xs \<Longrightarrow> set (xs[n := y]) = insert y (set (take n xs) \<union> set (drop (Suc n) xs))"
  by (auto simp: upd_conv_take_nth_drop)

lemma set_nth_split: "n < length xs \<Longrightarrow> set xs = insert (xs ! n) (set (take n xs) \<union> set (drop (Suc n) xs))"
  by (metis Un_insert_right id_take_nth_drop list.simps(15) set_append)

lemma Union_update:
  "n < length xs \<Longrightarrow> \<Union> (f ` set xs) \<subseteq> f (xs ! n) \<union> \<Union> (f ` set (xs[n := y])) \<and> f y \<subseteq> \<Union> (f ` set (xs[n := y]))"
  by (simp add: set_update_split set_nth_split) blast

lemma forward_fields:
  "rn_pending (rc_forward n s) = rn_pending s" "rn_order (rc_forward n s) = rn_order s" "rn_table (rc_forward n s) = rn_table s"
  "rn_retries (rc_forward n s) = rn_retries s" "queued_tasks (rn_merged s) \<subseteq> queued_tasks (rn_merged (rc_forward n s))"
  by (auto simp: rc_forward_def split: list.splits)

lemma forward_pending:
  assumes "pending_inv s"
  shows "pending_inv (rc_forward n s)"
proof (rule pending_inv_mono [OF assms])
  have "queued_tasks (rn_merged s) \<subseteq> queued_tasks (rn_merged (rc_forward n s))" by (rule forward_fields(5))
  then show "in_flight s \<inter> dom (rn_pending s) \<subseteq> in_flight (rc_forward n s)"
    unfolding in_flight_def forward_fields(4) by blast
qed (rule forward_fields)+

lemma flow_sets:
  "P \<subseteq> T \<union> R \<and> U \<subseteq> R \<Longrightarrow> T \<inter> D \<subseteq> U \<Longrightarrow> (Q \<union> P) \<inter> D \<subseteq> Q \<union> R"
  "P \<subseteq> T \<union> R \<and> U \<subseteq> R \<Longrightarrow> T \<subseteq> insert x U \<Longrightarrow> (Q \<union> P) \<inter> D \<subseteq> insert x (Q \<union> R)"
  by blast+

lemma retry_check_pending:
  assumes "pending_inv s"
  shows "pending_inv (rc_retry_check n s)"
proof (cases "n < length (rn_retries s) \<and> rt_sending (rn_retries s ! n) = None \<and> rt_rest (rn_retries s ! n) \<noteq> []")
  case True
  then obtain e es where e: "n < length (rn_retries s)" "rt_sending (rn_retries s ! n) = None" "rt_rest (rn_retries s ! n) = e # es"
    by (metis neq_Nil_conv)
  define r where "r = \<lparr>rt_sending = (if rn_pending s (event_task e) = None then None else Some e), rt_rest = es\<rparr>"
  define rs where "rs = (rn_retries s)[n := r]"
  have eq: "rc_retry_check n s = s\<lparr>rn_retries := rs\<rparr>" using e by (simp add: rc_retry_check_def rs_def r_def)
  have old: "retry_tasks (rn_retries s ! n) \<inter> dom (rn_pending s) \<subseteq> retry_tasks r"
    using e by (auto simp: retry_tasks_def r_def)
  note u = Union_update [OF e(1), of retry_tasks r, folded rs_def]
  show ?thesis unfolding eq
  proof (rule pending_inv_mono [OF assms])
    show "in_flight s \<inter> dom (rn_pending s) \<subseteq> in_flight (s\<lparr>rn_retries := rs\<rparr>)"
    proof -
      have "in_flight (s\<lparr>rn_retries := rs\<rparr>) = queued_tasks (rn_merged s) \<union> \<Union> (retry_tasks ` set rs)"
        by (simp add: in_flight_def)
      moreover have "in_flight s = queued_tasks (rn_merged s) \<union> \<Union> (retry_tasks ` set (rn_retries s))" by (simp add: in_flight_def)
      ultimately show ?thesis using flow_sets(1) [OF u old] by (simp only:)
    qed
  qed simp_all
next
  case False
  then have "rc_retry_check n s = s" by (auto simp: rc_retry_check_def split: list.splits)
  with assms show ?thesis by simp
qed

lemma retry_send_pending:
  assumes "pending_inv s"
  shows "pending_inv (rc_retry_send n s)"
proof (cases "n < length (rn_retries s) \<and> length (rn_merged s) < merged_capacity \<and> rt_sending (rn_retries s ! n) \<noteq> None")
  case True
  then obtain e where e: "n < length (rn_retries s)" "length (rn_merged s) < merged_capacity" "rt_sending (rn_retries s ! n) = Some e"
    by auto
  define r where "r = (rn_retries s ! n)\<lparr>rt_sending := None\<rparr>"
  define rs where "rs = (rn_retries s)[n := r]"
  have eq: "rc_retry_send n s = s\<lparr>rn_retries := rs, rn_merged := rn_merged s @ [(None, Event e)]\<rparr>"
    using e by (simp add: rc_retry_send_def rs_def r_def)
  have old: "retry_tasks (rn_retries s ! n) \<subseteq> insert (event_task e) (retry_tasks r)" using e by (auto simp: retry_tasks_def r_def)
  note u = Union_update [OF e(1), of retry_tasks r, folded rs_def]
  show ?thesis unfolding eq
  proof (rule pending_inv_mono [OF assms])
    show "in_flight s \<inter> dom (rn_pending s) \<subseteq> in_flight (s\<lparr>rn_retries := rs, rn_merged := rn_merged s @ [(None, Event e)]\<rparr>)"
    proof -
      have "in_flight (s\<lparr>rn_retries := rs, rn_merged := rn_merged s @ [(None, Event e)]\<rparr>) =
          insert (event_task e) (queued_tasks (rn_merged s) \<union> \<Union> (retry_tasks ` set rs))"
        by (simp add: in_flight_def)
      moreover have "in_flight s = queued_tasks (rn_merged s) \<union> \<Union> (retry_tasks ` set (rn_retries s))" by (simp add: in_flight_def)
      ultimately show ?thesis using flow_sets(2) [OF u old] by (simp only:)
    qed
  qed simp_all
next
  case False
  then have "rc_retry_send n s = s" by (auto simp: rc_retry_send_def)
  with assms show ?thesis by simp
qed

lemma set_map_filter: "set (List.map_filter p xs) = {e. \<exists>i \<in> set xs. p i = Some e}"
  by (induction xs) (auto simp: map_filter_simps split: option.splits)

lemma map_filter_pending:
  assumes "dom p = set is" "\<And>i e. p i = Some e \<Longrightarrow> event_task e = i"
  shows "event_task ` set (List.map_filter p is) = dom p"
  unfolding set_map_filter using assms by (fastforce simp flip: assms(1))

lemma handle_pending:
  assumes "pending_inv s" "rn_merged s = (src, Event e) # q"
  shows "pending_inv (handle_event e (s\<lparr>rn_merged := q, rn_handled := h\<rparr>))"
proof (cases e)
  case (Removed i)
  show ?thesis
  proof (rule pending_invI)
    let ?s = "handle_event e (s\<lparr>rn_merged := q, rn_handled := h\<rparr>)"
    show "dom (rn_pending ?s) = set (rn_order ?s)" using pending_invD(1) [OF assms(1)] by (auto simp: Removed unpend_def Let_def)
    fix j x assume "rn_pending ?s j = Some x"
    then have x: "rn_pending s j = Some x" and ji: "j \<noteq> i" by (auto simp: Removed unpend_def Let_def split: if_splits)
    have fl: "in_flight s \<subseteq> insert i (in_flight ?s)"
      unfolding in_flight_def assms(2) Removed by (auto simp: unpend_def Let_def)
    from pending_invD(2) [OF assms(1) x] obtain k where "x = Present j k" "blocked (rn_table s) j k \<or> j \<in> in_flight s" by blast
    moreover have "rn_table ?s = registry_unregister i (rn_table s)" by (simp add: Removed unpend_def Let_def)
    ultimately show "\<exists>k. x = Present j k \<and> (blocked (rn_table ?s) j k \<or> j \<in> in_flight ?s)"
      using blocked_unregister fl ji by auto
  qed
next
  case (Present i k0)
  let ?k = "set_task_id i k0"
  let ?s = "handle_event e (s\<lparr>rn_merged := q, rn_handled := h\<rparr>)"
  have ev: "event_task e = i" if "rn_pending s i = Some e" for i e
    using pending_invD(2) [OF assms(1) that] by auto
  show ?thesis
  proof (cases "validate_task_providers (tt_tasks (rn_table s)) ?k")
    case (Some err)
    then have hs: "?s = queue_pending i (Present i k0) (s\<lparr>rn_merged := q, rn_handled := h\<rparr>)" by (simp add: Present Let_def)
    have fl: "in_flight s \<subseteq> insert i (in_flight ?s)"
      unfolding hs unfolding in_flight_def assms(2) Present by (auto simp: queue_pending_def)
    show ?thesis
    proof (rule pending_invI)
      show "dom (rn_pending ?s) = set (rn_order ?s)" unfolding hs using pending_invD(1) [OF assms(1)] by (auto simp: queue_pending_def)
      fix j x assume "rn_pending ?s j = Some x"
      then consider "j = i" "x = Present i k0" | "j \<noteq> i" "rn_pending s j = Some x"
        unfolding hs by (auto simp: queue_pending_def split: if_splits)
      then show "\<exists>k. x = Present j k \<and> (blocked (rn_table ?s) j k \<or> j \<in> in_flight ?s)"
      proof cases
        case 1
        with Some show ?thesis unfolding hs by (simp add: blocked_def queue_pending_def)
      next
        case 2
        have "rn_table ?s = rn_table s" unfolding hs by (simp add: queue_pending_def)
        with pending_invD(2) [OF assms(1) 2(2)] fl 2(1) show ?thesis by auto
      qed
    qed
  next
    case None
    let ?p = "(rn_pending s)(i := None)" and ?is = "filter (\<lambda>j. j \<noteq> i) (rn_order s)"
    have d: "dom ?p = set ?is" using pending_invD(1) [OF assms(1)] by auto
    have m: "event_task ` set (List.map_filter ?p ?is) = dom ?p"
      by (rule map_filter_pending [OF d]) (auto simp: ev split: if_splits)
    have pe: "rn_pending ?s = ?p" "rn_order ?s = ?is"
      using None by (simp_all add: Present Let_def unpend_def retry_pending_def)
    have fl: "dom ?p \<subseteq> in_flight ?s"
    proof
      fix j assume j: "j \<in> dom ?p"
      then have "?is \<noteq> []" using d by (metis empty_iff list.set(1))
      with None have "\<lparr>rt_sending = None, rt_rest = List.map_filter ?p ?is\<rparr> \<in> set (rn_retries ?s)"
        by (simp add: Present Let_def unpend_def retry_pending_def)
      moreover have "j \<in> retry_tasks \<lparr>rt_sending = None, rt_rest = List.map_filter ?p ?is\<rparr>"
        using j m by (simp add: retry_tasks_def)
      ultimately show "j \<in> in_flight ?s" unfolding in_flight_def by blast
    qed
    show ?thesis
    proof (rule pending_invI)
      show "dom (rn_pending ?s) = set (rn_order ?s)" unfolding pe by (rule d)
      fix j x assume x: "rn_pending ?s j = Some x"
      then have "rn_pending s j = Some x" unfolding pe by (simp split: if_splits)
      with x pending_invD(2) [OF assms(1)] fl show "\<exists>k. x = Present j k \<and> (blocked (rn_table ?s) j k \<or> j \<in> in_flight ?s)"
        unfolding pe by blast
    qed
  qed
qed

lemma retry_pending_fields [simp]:
  "rn_pending (retry_pending s) = rn_pending s" "rn_order (retry_pending s) = rn_order s" "rn_table (retry_pending s) = rn_table s"
  "rn_streams (retry_pending s) = rn_streams s" "rn_merged (retry_pending s) = rn_merged s" "rn_init (retry_pending s) = rn_init s"
  "rn_ready (retry_pending s) = rn_ready s" "rn_handled (retry_pending s) = rn_handled s" "rn_calls (retry_pending s) = rn_calls s"
  by (simp_all add: retry_pending_def)

lemma handle_fields [simp]:
  "rn_streams (handle_event e s) = rn_streams s" "rn_merged (handle_event e s) = rn_merged s" "rn_init (handle_event e s) = rn_init s"
  "rn_ready (handle_event e s) = rn_ready s" "rn_handled (handle_event e s) = rn_handled s"
  by (cases e; simp add: Let_def queue_pending_def unpend_def split: option.splits)+

lemma exec_pending:
  assumes "pending_inv s"
  shows "pending_inv (rc_exec x s)"
proof (cases x)
  case HandleNext
  show ?thesis
  proof (cases "rn_merged s")
    case Nil
    with HandleNext assms show ?thesis by (simp add: rc_handle_def)
  next
    case (Cons y q)
    obtain src it where y: "y = (src, it)" by (cases y)
    show ?thesis
    proof (cases it)
      case Barrier
      have "pending_inv (rc_handle s)"
        by (rule pending_inv_mono [OF assms])
          (auto simp: rc_handle_def Cons y Barrier mark_initial_source_synced_def in_flight_def Let_def)
      with HandleNext show ?thesis by simp
    next
      case (Event e)
      from handle_pending [OF assms, of src e q] HandleNext show ?thesis by (simp add: rc_handle_def Cons y Event Let_def)
    qed
  qed
next
  case (AddSource es)
  have "pending_inv (add_source es s)"
    by (rule pending_inv_mono [OF assms]) (simp_all add: add_source_def in_flight_def)
  with AddSource show ?thesis by simp
next
  case (RemoveSource n k)
  have "pending_inv (remove_source n k s)"
    by (rule pending_inv_mono [OF assms]) (simp_all add: remove_source_def in_flight_def)
  with RemoveSource show ?thesis by simp
qed (use assms in \<open>simp_all add: forward_pending retry_check_pending retry_send_pending\<close>)

lemma start_pending: "pending_inv (start_reconciler srcs)"
  by (simp add: pending_inv_def start_reconciler_def)

lemma run_induct:
  assumes "P s" "\<And>x s. P s \<Longrightarrow> P (rc_exec x s)"
  shows "P (rc_run xs s)"
  using assms(1) unfolding rc_run_def by (induction xs arbitrary: s) (auto intro: assms(2))

lemma quiescent_flight: "quiescent s \<Longrightarrow> in_flight s = {}"
  by (auto simp: quiescent_def in_flight_def retry_tasks_def list_all_iff)

definition rc_task :: "task_id \<Rightarrow> string \<Rightarrow> string \<Rightarrow> kinded" where
  "rc_task i descr provider = KSpec (empty_spec\<lparr>sp_id := i, sp_description := descr, sp_permissions := no_permissions\<lparr>pm_env :=
     (if provider = [] then [] else [\<lparr>ee_name = ''TOKEN'', ee_from = provider, ee_secret = [], ee_value = [], ee_default = [],
        ee_optional = False, ee_if_missing = None\<rparr>])\<rparr>\<rparr>)"

text \<open>Task \<open>a\<close> alone: its provider never comes, and it stays queued.\<close>

definition lone_sources :: "(nat \<times> src_event list) list" where
  "lone_sources = [(1, [Present ''a'' (rc_task ''a'' ''old'' ''task:b''), Present ''c'' (rc_task ''c'' [] [])])]"

definition lone_schedule :: "rc_step list" where
  "lone_schedule = [Forward 0, HandleNext, Forward 0, HandleNext, Forward 0, HandleNext, RetryCheck 0, RetrySend 0, HandleNext]"

lemma lone_run_parts:
  "quiescent (rc_run lone_schedule (start_reconciler lone_sources))"
  "rn_ready (rc_run lone_schedule (start_reconciler lone_sources))"
  "rn_pending (rc_run lone_schedule (start_reconciler lone_sources)) ''a'' = Some (Present ''a'' (rc_task ''a'' ''old'' ''task:b''))"
  by code_simp+

text \<open>C32. No task waits for nothing. However the goroutines are scheduled: when nothing is on its way any
  more, a task that is still queued references a provider that is not registered. A provider that
  arrives is never missed by a task that was queued for it.\<close>

theorem queued_tasks_lack_providers:
  "s = rc_run xs (start_reconciler srcs) \<and> quiescent s \<and> rn_pending s i = Some e \<longrightarrow>
     (\<exists>k. e = Present i k \<and> validate_task_providers (tt_tasks (rn_table s)) (set_task_id i k) \<noteq> None)"
proof (intro impI, elim conjE)
  assume a: "s = rc_run xs (start_reconciler srcs)" "quiescent s" "rn_pending s i = Some e"
  have "pending_inv s" unfolding a(1) by (rule run_induct) (simp_all add: start_pending exec_pending)
  from pending_invD(2) [OF this a(3)] quiescent_flight [OF a(2)]
  show "\<exists>k. e = Present i k \<and> validate_task_providers (tt_tasks (rn_table s)) (set_task_id i k) \<noteq> None"
    by (auto simp: blocked_def)
qed

theorem queued_tasks_lack_providers_witness:
  "validate_task_providers (tt_tasks (rn_table (rc_run lone_schedule (start_reconciler lone_sources)))) (rc_task ''a'' ''old'' ''task:b'') \<noteq> None"
proof -
  obtain k where "Present ''a'' (rc_task ''a'' ''old'' ''task:b'') = Present ''a'' k"
    "validate_task_providers (tt_tasks (rn_table (rc_run lone_schedule (start_reconciler lone_sources)))) (set_task_id ''a'' k) \<noteq> None"
    using queued_tasks_lack_providers [of "rc_run lone_schedule (start_reconciler lone_sources)" lone_schedule lone_sources "''a''"
      "Present ''a'' (rc_task ''a'' ''old'' ''task:b'')"] lone_run_parts by blast
  then show ?thesis by (auto simp: rc_task_def empty_spec_def)
qed

section \<open>Sources and readiness\<close>

definition items_of :: "nat \<Rightarrow> (nat option \<times> item) list \<Rightarrow> item list" where
  "items_of n q = map snd (filter (\<lambda>x. fst x = Some n) q)"

lemma items_of_simps [simp]:
  "items_of n [] = []" "items_of n (p @ q) = items_of n p @ items_of n q"
  "items_of n ((src, x) # q) = (if src = Some n then x # items_of n q else items_of n q)"
  by (simp_all add: items_of_def)

text \<open>What a source emitted is handled, in the channel, still with its forwarder, or dropped with its
  source, in this order; only an initial source has a barrier; the counter counts the initial sources
  whose barrier was not handled.\<close>

definition source_ok :: "(nat \<times> src_event list) list \<Rightarrow> item list list \<Rightarrow> (nat option \<times> item) list \<Rightarrow> int \<Rightarrow> bool \<Rightarrow>
    (nat option \<times> item) list \<Rightarrow> bool" where
  "source_ok srcs st mg i r h \<longleftrightarrow> length srcs \<le> length st \<and>
     (\<forall>n < length srcs. \<exists>l. start_source (srcs ! n) = items_of n h @ items_of n mg @ st ! n @ l) \<and>
     (\<forall>n. length srcs \<le> n \<and> n < length st \<longrightarrow> Barrier \<notin> set (st ! n)) \<and>
     (\<forall>src. (src, Barrier) \<in> set mg \<longrightarrow> (\<exists>n < length srcs. src = Some n)) \<and>
     i = int (card {n. n < length srcs \<and> Barrier \<notin> set (items_of n h)}) \<and>
     (r \<longrightarrow> i \<le> 0)"

lemma source_okD:
  assumes "source_ok srcs st mg i r h"
  shows "length srcs \<le> length st"
    "n < length srcs \<Longrightarrow> \<exists>l. start_source (srcs ! n) = items_of n h @ items_of n mg @ st ! n @ l"
    "length srcs \<le> n \<Longrightarrow> n < length st \<Longrightarrow> Barrier \<notin> set (st ! n)"
    "(src, Barrier) \<in> set mg \<Longrightarrow> \<exists>n < length srcs. src = Some n"
    "i = int (card {n. n < length srcs \<and> Barrier \<notin> set (items_of n h)})"
    "r \<Longrightarrow> i \<le> 0"
  using assms unfolding source_ok_def by blast+

lemma source_okI:
  assumes "length srcs \<le> length st"
    "\<And>n. n < length srcs \<Longrightarrow> \<exists>l. start_source (srcs ! n) = items_of n h @ items_of n mg @ st ! n @ l"
    "\<And>n. length srcs \<le> n \<Longrightarrow> n < length st \<Longrightarrow> Barrier \<notin> set (st ! n)"
    "\<And>src. (src, Barrier) \<in> set mg \<Longrightarrow> \<exists>n < length srcs. src = Some n"
    "i = int (card {n. n < length srcs \<and> Barrier \<notin> set (items_of n h)})"
    "r \<Longrightarrow> i \<le> 0"
  shows "source_ok srcs st mg i r h"
  using assms unfolding source_ok_def by blast

lemma marker_split: "xs @ a # ys = p @ a # q \<Longrightarrow> a \<notin> set xs \<Longrightarrow> a \<notin> set ys \<Longrightarrow> p = xs"
proof (induction xs arbitrary: p)
  case Nil
  then show ?case by (cases p) auto
next
  case (Cons x xs)
  then show ?case by (cases p) auto
qed

lemma one_barrier:
  assumes "start_source z = p @ Barrier # q"
  shows "p = map Event (take (fst z) (snd z))" "Barrier \<notin> set p"
proof -
  obtain n es where z: "z = (n, es)" by (cases z)
  have nb: "Barrier \<notin> set (map Event ys)" for ys by auto
  have "map Event (take n es) @ Barrier # map Event (drop n es) = p @ Barrier # q"
    using assms by (simp add: z start_source_def)
  from marker_split [OF this nb nb] have "p = map Event (take n es)" .
  with nb show "p = map Event (take (fst z) (snd z))" "Barrier \<notin> set p" by (simp_all add: z)
qed

lemma ok_forward:
  assumes "source_ok srcs st mg i r h" "n < length st" "st ! n = x # xs"
  shows "source_ok srcs (st[n := xs]) (mg @ [(Some n, x)]) i r h"
proof (rule source_okI)
  note d = source_okD [OF assms(1)]
  show "length srcs \<le> length (st[n := xs])" using d(1) by simp
  show "\<exists>l. start_source (srcs ! m) = items_of m h @ items_of m (mg @ [(Some n, x)]) @ st[n := xs] ! m @ l" if m: "m < length srcs" for m
    using d(2) [OF m] assms(2,3) by (cases "m = n") auto
  show "Barrier \<notin> set (st[n := xs] ! m)" if "length srcs \<le> m" "m < length (st[n := xs])" for m
    using d(3) [OF that(1)] that(2) assms(3) by (cases "m = n") auto
  show "\<exists>m < length srcs. src = Some m" if "(src, Barrier) \<in> set (mg @ [(Some n, x)])" for src
  proof (cases "(src, Barrier) \<in> set mg")
    case True
    then show ?thesis by (rule d(4))
  next
    case False
    with that have "src = Some n" "x = Barrier" by auto
    with d(3) [of n] assms(2,3) show ?thesis by (cases "n < length srcs") auto
  qed
qed (use source_okD(5,6) [OF assms(1)] in simp_all)

lemma ok_retry:
  assumes "source_ok srcs st mg i r h"
  shows "source_ok srcs st (mg @ [(None, Event e)]) i r h"
  by (rule source_okI) (use source_okD [OF assms] in auto)

lemma ok_add:
  assumes "source_ok srcs st mg i r h"
  shows "source_ok srcs (st @ [map Event es]) mg i r h"
proof (rule source_okI)
  note d = source_okD [OF assms]
  show "\<exists>l. start_source (srcs ! m) = items_of m h @ items_of m mg @ (st @ [map Event es]) ! m @ l" if "m < length srcs" for m
    using d(1) d(2) [OF that] that by (simp add: nth_append)
  show "Barrier \<notin> set ((st @ [map Event es]) ! m)" if "length srcs \<le> m" "m < length (st @ [map Event es])" for m
    using d(3) [OF that(1)] that(2) by (cases "m < length st") (auto simp: nth_append less_Suc_eq)
qed (use source_okD [OF assms] in auto)

lemma ok_remove:
  assumes "source_ok srcs st mg i r h"
  shows "source_ok srcs (st[n := take k (st ! n)]) mg i r h"
proof (rule source_okI)
  note d = source_okD [OF assms]
  show "\<exists>l. start_source (srcs ! m) = items_of m h @ items_of m mg @ st[n := take k (st ! n)] ! m @ l" if m: "m < length srcs" for m
  proof (cases "m = n")
    case True
    obtain l where l: "start_source (srcs ! m) = items_of m h @ items_of m mg @ st ! m @ l" using d(2) [OF m] by blast
    have "st ! m @ l = take k (st ! m) @ drop k (st ! m) @ l" by simp
    with l d(1) m True have "start_source (srcs ! m) = items_of m h @ items_of m mg @ st[n := take k (st ! n)] ! m @ drop k (st ! m) @ l"
      by (simp del: append_assoc add: append_assoc [symmetric])
    then show ?thesis by blast
  qed (use d(2) [OF m] in simp)
  show "Barrier \<notin> set (st[n := take k (st ! n)] ! m)" if "length srcs \<le> m" "m < length (st[n := take k (st ! n)])" for m
    using d(3) [OF that(1)] that(2) by (cases "m = n") (auto dest: in_set_takeD)
qed (use source_okD [OF assms] in auto)

lemma ok_event:
  assumes "source_ok srcs st ((src, Event e) # q) i r h"
  shows "source_ok srcs st q i r (h @ [(src, Event e)])"
proof (rule source_okI)
  note d = source_okD [OF assms]
  show "\<exists>l. start_source (srcs ! m) = items_of m (h @ [(src, Event e)]) @ items_of m q @ st ! m @ l" if "m < length srcs" for m
    using d(2) [OF that] by auto
  have "Barrier \<in> set (items_of m (h @ [(src, Event e)])) \<longleftrightarrow> Barrier \<in> set (items_of m h)" for m by simp
  then show "i = int (card {n. n < length srcs \<and> Barrier \<notin> set (items_of n (h @ [(src, Event e)]))})"
    using d(5) by (simp only:)
  show "\<exists>m < length srcs. o' = Some m" if "(o', Barrier) \<in> set q" for o' using d(4) [of o'] that by simp
qed (use source_okD(1,3,6) [OF assms] in simp_all)

lemma ok_barrier:
  assumes "source_ok srcs st ((src, Barrier) # q) i r h"
  shows "source_ok srcs st q (i - 1) (r \<or> i \<le> 1) (h @ [(src, Barrier)])"
proof (rule source_okI)
  note d = source_okD [OF assms]
  show "\<exists>l. start_source (srcs ! m) = items_of m (h @ [(src, Barrier)]) @ items_of m q @ st ! m @ l" if "m < length srcs" for m
    using d(2) [OF that] by auto
  show "\<exists>m < length srcs. o' = Some m" if "(o', Barrier) \<in> set q" for o' using d(4) [of o'] that by simp
  let ?U = "\<lambda>h. {n. n < length srcs \<and> Barrier \<notin> set (items_of n h)}"
  obtain n where n: "src = Some n" "n < length srcs" using d(4) [of src] by auto
  from d(2) [OF n(2)] obtain l where "start_source (srcs ! n) = items_of n h @ Barrier # items_of n q @ st ! n @ l"
    by (auto simp: n(1))
  from one_barrier(2) [OF this] have nb: "n \<in> ?U h" using n(2) by simp
  have U: "?U (h @ [(src, Barrier)]) = ?U h - {n}" by (auto simp: n(1))
  have "0 < card (?U h)" using nb by (auto simp only: card_gt_0_iff)
  moreover have "card (?U h - {n}) = card (?U h) - 1" by (rule card_Diff_singleton [OF nb])
  ultimately show "i - 1 = int (card (?U (h @ [(src, Barrier)])))" unfolding U d(5) by simp
  show "i - 1 \<le> 0" if "r \<or> i \<le> 1" using that d(6) by linarith
qed (use source_okD(1,3) [OF assms] in simp_all)

definition source_inv :: "(nat \<times> src_event list) list \<Rightarrow> reconciler \<Rightarrow> bool" where
  "source_inv srcs s \<longleftrightarrow> source_ok srcs (rn_streams s) (rn_merged s) (rn_init s) (rn_ready s) (rn_handled s)"

lemma start_sources: "source_inv srcs (start_reconciler srcs)"
  by (auto simp: source_inv_def source_ok_def start_reconciler_def)

lemma exec_sources:
  assumes "source_inv srcs s"
  shows "source_inv srcs (rc_exec x s)"
proof (cases x)
  case (Forward n)
  with assms show ?thesis by (auto simp: source_inv_def rc_forward_def ok_forward split: list.splits)
next
  case (RetryCheck n)
  with assms show ?thesis by (auto simp: source_inv_def rc_retry_check_def split: list.splits)
next
  case (RetrySend n)
  with assms show ?thesis by (auto simp: source_inv_def rc_retry_send_def ok_retry split: option.splits)
next
  case HandleNext
  with assms show ?thesis
    by (auto simp: source_inv_def rc_handle_def mark_initial_source_synced_def ok_event Let_def dest: ok_barrier split: list.splits item.splits)
next
  case (AddSource es)
  with assms show ?thesis by (simp add: source_inv_def add_source_def ok_add)
next
  case (RemoveSource n k)
  with assms show ?thesis by (simp add: source_inv_def remove_source_def ok_remove)
qed

text \<open>C31. The reconciler is ready only when every source it was started with was scanned: in every reachable
  state in which readiness was announced, each of these sources has had all events of its first scan
  handled by the main loop, in their order and before anything else of that source, whatever sources
  were added and removed meanwhile.\<close>

theorem ready_means_scanned:
  "s = rc_run xs (start_reconciler srcs) \<and> rn_ready s \<and> n < length srcs \<longrightarrow>
     (\<exists>rest. items_of n (rn_handled s) = map Event (take (fst (srcs ! n)) (snd (srcs ! n))) @ Barrier # rest)"
proof (intro impI, elim conjE)
  assume a: "s = rc_run xs (start_reconciler srcs)" "rn_ready s" "n < length srcs"
  have "source_inv srcs s" unfolding a(1) by (rule run_induct) (simp_all add: start_sources exec_sources)
  then have ok: "source_ok srcs (rn_streams s) (rn_merged s) (rn_init s) (rn_ready s) (rn_handled s)" by (simp add: source_inv_def)
  note d = source_okD [OF this]
  have "card {n. n < length srcs \<and> Barrier \<notin> set (items_of n (rn_handled s))} = 0" using d(5) d(6) [OF a(2)] by linarith
  then have "Barrier \<in> set (items_of n (rn_handled s))" using a(3) by (auto simp: card_eq_0_iff)
  then obtain p q where pq: "items_of n (rn_handled s) = p @ Barrier # q" by (auto simp: in_set_conv_decomp)
  from d(2) [OF a(3)] obtain l where "start_source (srcs ! n) = p @ Barrier # q @ l" by (auto simp: pq)
  from one_barrier(1) [OF this] pq
  show "\<exists>rest. items_of n (rn_handled s) = map Event (take (fst (srcs ! n)) (snd (srcs ! n))) @ Barrier # rest" by auto
qed

theorem ready_means_scanned_witness:
  "\<exists>rest. items_of 0 (rn_handled (rc_run lone_schedule (start_reconciler lone_sources))) =
     [Event (Present ''a'' (rc_task ''a'' ''old'' ''task:b''))] @ Barrier # rest"
  using ready_means_scanned [of "rc_run lone_schedule (start_reconciler lone_sources)" lone_schedule lone_sources 0] lone_run_parts
  by (simp add: lone_sources_def)

section \<open>Tasks that wait for nobody\<close>

fun about :: "task_id \<Rightarrow> item list \<Rightarrow> src_event list" where
  "about i [] = []"
| "about i (Barrier # q) = about i q"
| "about i (Event e # q) = (if event_task e = i then e # about i q else about i q)"

lemma about_append [simp]: "about i (p @ q) = about i p @ about i q"
  by (induction i p rule: about.induct) simp_all

lemma about_events [simp]: "about i (map Event es) = filter (\<lambda>e. event_task e = i) es"
  by (induction es) simp_all

lemma about_start: "about i (start_source z) = filter (\<lambda>e. event_task e = i) (snd z)"
proof -
  obtain n es where z: "z = (n, es)" by (cases z)
  have "filter (\<lambda>e. event_task e = i) (take n es) @ filter (\<lambda>e. event_task e = i) (drop n es) = filter (\<lambda>e. event_task e = i) es"
    by (simp flip: filter_append)
  then show ?thesis by (simp add: z start_source_def)
qed

lemma about_take: "about i q = [] \<Longrightarrow> about i (take k q) = []"
  by (metis about_append append_is_Nil_conv append_take_drop_id)

text \<open>What a task is registered as, when its events are handled in order and none is queued.\<close>

fun effect_of :: "src_event \<Rightarrow> kinded option" where
  "effect_of (Present i k) = Some (set_task_id i k)"
| "effect_of (Removed i) = None"

definition outcome :: "src_event list \<Rightarrow> kinded option" where
  "outcome es = (if es = [] then None else effect_of (last es))"

text \<open>A task none of whose environment entries takes its value from a provider.\<close>

fun provider_free :: "src_event \<Rightarrow> bool" where
  "provider_free (Present i (KSpec s)) = list_all (\<lambda>e. fst (parse_from (ee_from e)) = FromKindEnv) (pm_env (sp_permissions s))"
| "provider_free (Present i (KPipeline p)) = True"
| "provider_free (Removed i) = True"

lemma provider_free_valid:
  assumes "provider_free (Present i k)"
  shows "validate_task_providers ks (set_task_id i k) = None"
proof -
  have "list_all (\<lambda>e. fst (parse_from (ee_from e)) = FromKindEnv) es \<Longrightarrow> validate_providers ks es = None" for es
    by (induction es) (auto split: prod.splits from_kind.splits)
  with assms show ?thesis by (cases k) (simp_all add: validate_task_providers_def)
qed

text \<open>Only forwarder \<open>n\<close> speaks of task \<open>i\<close>, its events are in one line, and no retry holds one.\<close>

definition follows :: "task_id \<Rightarrow> nat \<Rightarrow> src_event list \<Rightarrow> item list list \<Rightarrow> (nat option \<times> item) list \<Rightarrow> retry list \<Rightarrow>
    (task_id \<rightharpoonup> src_event) \<Rightarrow> task_table \<Rightarrow> (nat option \<times> item) list \<Rightarrow> bool" where
  "follows i n es st mg rs pd tb h \<longleftrightarrow> n < length st \<and>
     about i (map snd h) @ about i (map snd mg) @ about i (st ! n) = es \<and>
     (\<forall>m < length st. m \<noteq> n \<longrightarrow> about i (st ! m) = []) \<and>
     (\<forall>r \<in> set rs. i \<notin> retry_tasks r) \<and> pd i = None \<and>
     (\<forall>j e. pd j = Some e \<longrightarrow> event_task e = j) \<and>
     get_kinded i (tt_tasks tb) = outcome (about i (map snd h))"

lemma followsD:
  assumes "follows i n es st mg rs pd tb h"
  shows "n < length st" "about i (map snd h) @ about i (map snd mg) @ about i (st ! n) = es"
    "m < length st \<Longrightarrow> m \<noteq> n \<Longrightarrow> about i (st ! m) = []"
    "r \<in> set rs \<Longrightarrow> i \<notin> retry_tasks r" "pd i = None" "pd j = Some e \<Longrightarrow> event_task e = j"
    "get_kinded i (tt_tasks tb) = outcome (about i (map snd h))"
  using assms unfolding follows_def by blast+

lemma followsI:
  assumes "n < length st" "about i (map snd h) @ about i (map snd mg) @ about i (st ! n) = es"
    "\<And>m. m < length st \<Longrightarrow> m \<noteq> n \<Longrightarrow> about i (st ! m) = []"
    "\<And>r. r \<in> set rs \<Longrightarrow> i \<notin> retry_tasks r" "pd i = None" "\<And>j e. pd j = Some e \<Longrightarrow> event_task e = j"
    "get_kinded i (tt_tasks tb) = outcome (about i (map snd h))"
  shows "follows i n es st mg rs pd tb h"
  using assms unfolding follows_def by blast

lemma follows_forward:
  assumes "follows i n es st mg rs pd tb h" "m < length st" "st ! m = x # xs"
  shows "follows i n es (st[m := xs]) (mg @ [(Some m, x)]) rs pd tb h"
proof (rule followsI)
  note d = followsD [OF assms(1)]
  have x: "about i (x # xs) = about i [x] @ about i xs" by (cases x) simp_all
  show "about i (map snd h) @ about i (map snd (mg @ [(Some m, x)])) @ about i (st[m := xs] ! n) = es"
  proof (cases "m = n")
    case True
    with d(2) x assms show ?thesis by simp
  next
    case False
    with d(3) [OF assms(2)] x assms(3) have "about i [x] = []" by simp
    with d(2) False show ?thesis by simp
  qed
  show "about i (st[m := xs] ! k) = []" if "k < length (st[m := xs])" "k \<noteq> n" for k
    using d(3) [of k] that x assms(3) by (cases "k = m") simp_all
qed (use followsD [OF assms(1)] in simp_all)

lemma follows_retries:
  assumes "follows i n es st mg rs pd tb h" "\<And>r. r \<in> set rs' \<Longrightarrow> i \<notin> retry_tasks r"
  shows "follows i n es st mg rs' pd tb h"
  by (rule followsI) (use followsD [OF assms(1)] assms(2) in \<open>simp_all\<close>)

lemma follows_retry_send:
  assumes "follows i n es st mg rs pd tb h" "event_task e \<noteq> i"
  shows "follows i n es st (mg @ [(None, Event e)]) rs pd tb h"
  by (rule followsI) (use followsD [OF assms(1)] assms(2) in simp_all)

lemma follows_add:
  assumes "follows i n es st mg rs pd tb h" "filter (\<lambda>e. event_task e = i) as = []"
  shows "follows i n es (st @ [map Event as]) mg rs pd tb h"
proof (rule followsI)
  note d = followsD [OF assms(1)]
  show "about i ((st @ [map Event as]) ! m) = []" if "m < length (st @ [map Event as])" "m \<noteq> n" for m
    using d(3) [of m] that assms(2) by (cases "m < length st") (auto simp: nth_append less_Suc_eq)
qed (use followsD [OF assms(1)] in \<open>simp_all add: nth_append\<close>)

lemma follows_remove:
  assumes "follows i n es st mg rs pd tb h" "m \<noteq> n"
  shows "follows i n es (st[m := take k (st ! m)]) mg rs pd tb h"
proof (rule followsI)
  note d = followsD [OF assms(1)]
  show "about i (st[m := take k (st ! m)] ! j) = []" if "j < length (st[m := take k (st ! m)])" "j \<noteq> n" for j
    using d(3) [of j] that by (cases "j = m") (simp_all add: about_take)
qed (use followsD [OF assms(1)] assms(2) in simp_all)

lemma follows_handle_other:
  assumes "follows i n es st ((src, x) # q) rs pd tb h" "x = Barrier \<or> (\<exists>e. x = Event e \<and> event_task e \<noteq> i)"
    "pd' i = None" "\<And>j e. pd' j = Some e \<Longrightarrow> event_task e = j" "get_kinded i (tt_tasks tb') = get_kinded i (tt_tasks tb)"
    "\<And>r. r \<in> set rs' \<Longrightarrow> i \<notin> retry_tasks r"
  shows "follows i n es st q rs' pd' tb' (h @ [(src, x)])"
  by (rule followsI) (use followsD [OF assms(1)] assms(2-6) in auto)

lemma follows_handle_own:
  assumes "follows i n es st ((src, Event e) # q) rs pd tb h" "event_task e = i"
    "pd' i = None" "\<And>j e. pd' j = Some e \<Longrightarrow> event_task e = j" "get_kinded i (tt_tasks tb') = effect_of e"
    "\<And>r. r \<in> set rs' \<Longrightarrow> i \<notin> retry_tasks r"
  shows "follows i n es st q rs' pd' tb' (h @ [(src, Event e)])"
  by (rule followsI) (use followsD [OF assms(1)] assms(2-6) in \<open>auto simp: outcome_def\<close>)

definition follow_inv :: "task_id \<Rightarrow> nat \<Rightarrow> src_event list \<Rightarrow> reconciler \<Rightarrow> bool" where
  "follow_inv i n es s \<longleftrightarrow>
     follows i n es (rn_streams s) (rn_merged s) (rn_retries s) (rn_pending s) (rn_table s) (rn_handled s)"

text \<open>What handling does to the table, the queue and the retries.\<close>

lemma handle_event_effect:
  "get_kinded j (tt_tasks (rn_table (handle_event e s))) =
     (if j \<noteq> event_task e then get_kinded j (tt_tasks (rn_table s))
      else case e of Removed i \<Rightarrow> None
        | Present i k \<Rightarrow> (if validate_task_providers (tt_tasks (rn_table s)) (set_task_id i k) = None
                        then Some (set_task_id i k) else get_kinded j (tt_tasks (rn_table s))))"
  by (cases e) (auto simp: Let_def registry_register_def registry_unregister_def unpend_def queue_pending_def
      get_put_kinded get_filter_kinded split: option.splits)

lemma handle_event_pending:
  assumes "\<And>j e. rn_pending s j = Some e \<Longrightarrow> event_task e = j" "rn_pending (handle_event e s) j = Some x"
  shows "event_task x = j"
  using assms by (cases e) (auto simp: Let_def unpend_def queue_pending_def split: option.splits if_splits)

lemma handle_event_retries:
  assumes "r \<in> set (rn_retries (handle_event e s))"
  shows "r \<in> set (rn_retries s) \<or> (\<exists>is. r = \<lparr>rt_sending = None, rt_rest = List.map_filter (rn_pending (handle_event e s)) is\<rparr>)"
  using assms by (cases e) (auto simp: Let_def unpend_def queue_pending_def retry_pending_def split: option.splits if_splits)

lemma handle_event_retry_tasks:
  assumes "\<And>j e. rn_pending s j = Some e \<Longrightarrow> event_task e = j" "rn_pending (handle_event e s) i = None"
    "\<And>r. r \<in> set (rn_retries s) \<Longrightarrow> i \<notin> retry_tasks r" "r \<in> set (rn_retries (handle_event e s))"
  shows "i \<notin> retry_tasks r"
  using handle_event_retries [OF assms(4)]
proof
  assume "\<exists>is. r = \<lparr>rt_sending = None, rt_rest = List.map_filter (rn_pending (handle_event e s)) is\<rparr>"
  then obtain "is" where r: "r = \<lparr>rt_sending = None, rt_rest = List.map_filter (rn_pending (handle_event e s)) is\<rparr>" by blast
  show ?thesis
  proof
    assume "i \<in> retry_tasks r"
    then obtain x j where x: "rn_pending (handle_event e s) j = Some x" "event_task x = i"
      unfolding r retry_tasks_def by (auto simp: set_map_filter)
    with handle_event_pending [OF assms(1) x(1)] assms(2) show False by simp
  qed
qed (rule assms(3))

lemma follow_handle:
  assumes "follow_inv i n es s" "list_all provider_free es" "rn_merged s = (src, Event e) # q"
  shows "follow_inv i n es (handle_event e (s\<lparr>rn_merged := q, rn_handled := rn_handled s @ [(src, Event e)]\<rparr>))"
proof -
  let ?s = "s\<lparr>rn_merged := q, rn_handled := rn_handled s @ [(src, Event e)]\<rparr>"
  let ?t = "handle_event e ?s"
  have f: "follows i n es (rn_streams s) ((src, Event e) # q) (rn_retries s) (rn_pending s) (rn_table s) (rn_handled s)"
    using assms(1) by (simp add: follow_inv_def assms(3))
  note d = followsD [OF f]
  have ev: "event_task x = j" if "rn_pending ?s j = Some x" for j x using d(6) that by simp
  have free: "validate_task_providers ks (set_task_id i k) = None" if "e = Present i k" for ks k
  proof (rule provider_free_valid)
    have "e \<in> set es" using d(2) that by (auto simp flip: d(2))
    with assms(2) that show "provider_free (Present i k)" by (simp add: list_all_iff)
  qed
  have own: "get_kinded i (tt_tasks (rn_table ?t)) = (if event_task e = i then effect_of e else get_kinded i (tt_tasks (rn_table s)))"
    unfolding handle_event_effect using free by (cases e) auto
  have pn: "rn_pending ?t i = None"
    using d(5) free by (cases e) (auto simp: Let_def unpend_def queue_pending_def split: option.splits)
  have pe: "event_task x = j" if "rn_pending ?t j = Some x" for j x by (rule handle_event_pending [OF ev that])
  have rt: "i \<notin> retry_tasks r" if "r \<in> set (rn_retries ?t)" for r
    by (rule handle_event_retry_tasks [OF ev pn _ that]) (use d(4) in simp_all)
  have "follows i n es (rn_streams s) q (rn_retries ?t) (rn_pending ?t) (rn_table ?t) (rn_handled s @ [(src, Event e)])"
  proof (cases "event_task e = i")
    case True
    with own have "get_kinded i (tt_tasks (rn_table ?t)) = effect_of e" by simp
    from pe rt show ?thesis by (intro follows_handle_own [where rs = "rn_retries s" and pd = "rn_pending s" and tb = "rn_table s"] f True pn \<open>get_kinded i (tt_tasks (rn_table ?t)) = effect_of e\<close>)
  next
    case False
    with own have g: "get_kinded i (tt_tasks (rn_table ?t)) = get_kinded i (tt_tasks (rn_table s))" by simp
    have ne: "Event e = Barrier \<or> (\<exists>e'. Event e = Event e' \<and> event_task e' \<noteq> i)" using False by simp
    from pe rt show ?thesis by (intro follows_handle_other [where rs = "rn_retries s" and pd = "rn_pending s" and tb = "rn_table s"] f ne pn g)
  qed
  then show ?thesis by (simp add: follow_inv_def)
qed

lemma retry_update_tasks:
  assumes "r \<in> set (rs[n := x])" "\<And>r. r \<in> set rs \<Longrightarrow> i \<notin> retry_tasks r" "n < length rs" "retry_tasks x \<subseteq> retry_tasks (rs ! n)"
  shows "i \<notin> retry_tasks r"
  using set_update_subset_insert [of rs n x] assms(1) assms(2) [of r] assms(2) [of "rs ! n"] assms(3,4) by auto

fun spares :: "task_id \<Rightarrow> nat \<Rightarrow> rc_step \<Rightarrow> bool" where
  "spares i n (AddSource es) = list_all (\<lambda>e. event_task e \<noteq> i) es"
| "spares i n (RemoveSource m k) = (m \<noteq> n)"
| "spares i n _ = True"

lemma follow_exec:
  assumes "follow_inv i n es s" "list_all provider_free es" "spares i n x"
  shows "follow_inv i n es (rc_exec x s)"
proof (cases x)
  case (Forward m)
  with assms(1) show ?thesis by (auto simp: follow_inv_def rc_forward_def follows_forward split: list.splits)
next
  case (RetryCheck m)
  show ?thesis
  proof (cases "rc_retry_check m s = s")
    case False
    then obtain e rest where e: "m < length (rn_retries s)" "rt_sending (rn_retries s ! m) = None" "rt_rest (rn_retries s ! m) = e # rest"
      by (auto simp: rc_retry_check_def split: if_splits list.splits)
    let ?r = "\<lparr>rt_sending = (if rn_pending s (event_task e) = None then None else Some e), rt_rest = rest\<rparr>"
    have sub: "retry_tasks ?r \<subseteq> retry_tasks (rn_retries s ! m)" by (auto simp: retry_tasks_def e)
    have "follows i n es (rn_streams s) (rn_merged s) ((rn_retries s)[m := ?r]) (rn_pending s) (rn_table s) (rn_handled s)"
      by (rule follows_retries [OF assms(1) [unfolded follow_inv_def]], rule retry_update_tasks [OF _ _ e(1) sub], assumption)
        (rule followsD(4) [OF assms(1) [unfolded follow_inv_def]])
    then show ?thesis by (simp add: RetryCheck rc_retry_check_def e follow_inv_def)
  qed (use assms(1) RetryCheck in simp)
next
  case (RetrySend m)
  show ?thesis
  proof (cases "rc_retry_send m s = s")
    case False
    then obtain e where e: "m < length (rn_retries s)" "length (rn_merged s) < merged_capacity" "rt_sending (rn_retries s ! m) = Some e"
      by (auto simp: rc_retry_send_def split: if_splits option.splits)
    let ?r = "(rn_retries s ! m)\<lparr>rt_sending := None\<rparr>"
    have sub: "retry_tasks ?r \<subseteq> retry_tasks (rn_retries s ! m)" by (auto simp: retry_tasks_def)
    note d = followsD [OF assms(1) [unfolded follow_inv_def]]
    have "event_task e \<in> retry_tasks (rn_retries s ! m)" by (simp add: retry_tasks_def e)
    then have "event_task e \<noteq> i" using d(4) [of "rn_retries s ! m"] e(1) by auto
    from follows_retry_send [OF assms(1) [unfolded follow_inv_def] this]
    have "follows i n es (rn_streams s) (rn_merged s @ [(None, Event e)]) ((rn_retries s)[m := ?r]) (rn_pending s) (rn_table s) (rn_handled s)"
      by (rule follows_retries) (rule retry_update_tasks [OF _ d(4) e(1) sub], assumption, assumption)
    then show ?thesis by (simp add: RetrySend rc_retry_send_def e follow_inv_def)
  qed (use assms(1) RetrySend in simp)
next
  case HandleNext
  show ?thesis
  proof (cases "rn_merged s")
    case Nil
    with HandleNext assms(1) show ?thesis by (simp add: rc_handle_def)
  next
    case (Cons y q)
    obtain src it where y: "y = (src, it)" by (cases y)
    note f = assms(1) [unfolded follow_inv_def Cons y]
    show ?thesis
    proof (cases it)
      case Barrier
      have "follows i n es (rn_streams s) q (rn_retries s) (rn_pending s) (rn_table s) (rn_handled s @ [(src, it)])"
        by (rule follows_handle_other [OF f]) (use followsD [OF f] Barrier in simp_all)
      then show ?thesis by (simp add: HandleNext rc_handle_def Cons y Barrier Let_def mark_initial_source_synced_def follow_inv_def)
    next
      case (Event e)
      from follow_handle [OF assms(1,2), of src e q] show ?thesis by (simp add: HandleNext rc_handle_def Cons y Event Let_def)
    qed
  qed
next
  case (AddSource as)
  have "filter (\<lambda>e. event_task e = i) as = []" using assms(3) by (simp add: AddSource filter_empty_conv list_all_iff)
  from follows_add [OF assms(1) [unfolded follow_inv_def] this] show ?thesis by (simp add: AddSource add_source_def follow_inv_def)
next
  case (RemoveSource m k)
  with follows_remove [OF assms(1) [unfolded follow_inv_def], of m k] assms(3) show ?thesis by (simp add: remove_source_def follow_inv_def)
qed

lemma start_follows:
  assumes "n < length srcs" "\<And>m. m < length srcs \<Longrightarrow> m \<noteq> n \<Longrightarrow> filter (\<lambda>e. event_task e = i) (snd (srcs ! m)) = []"
  shows "follow_inv i n (filter (\<lambda>e. event_task e = i) (snd (srcs ! n))) (start_reconciler srcs)"
  unfolding follow_inv_def
  by (rule followsI) (use assms in \<open>simp_all add: start_reconciler_def about_start outcome_def get_kinded_def\<close>)

text \<open>C30. A task without providers follows its source. If one source only speaks of task \<open>i\<close>, is not removed,
  and never gives it an environment entry that another task provides, then however the goroutines are
  scheduled and whatever the other sources do: once nothing is on its way, the task is registered as
  its source last said, and not registered when its source last removed it.\<close>

theorem provider_free_task_follows_source:
  assumes "n < length srcs" "\<And>m. m < length srcs \<Longrightarrow> m \<noteq> n \<Longrightarrow> filter (\<lambda>e. event_task e = i) (snd (srcs ! m)) = []"
    "list_all provider_free (filter (\<lambda>e. event_task e = i) (snd (srcs ! n)))" "list_all (spares i n) xs"
    "quiescent (rc_run xs (start_reconciler srcs))"
  shows "get_kinded i (tt_tasks (rn_table (rc_run xs (start_reconciler srcs)))) =
    outcome (filter (\<lambda>e. event_task e = i) (snd (srcs ! n)))"
proof -
  let ?es = "filter (\<lambda>e. event_task e = i) (snd (srcs ! n))"
  have "follow_inv i n ?es (rc_run xs s)" if "follow_inv i n ?es s" for s
    using that assms(4) unfolding rc_run_def
    by (induction xs arbitrary: s) (simp_all add: follow_exec [OF _ assms(3)])
  from this [OF start_follows [OF assms(1,2)]]
  have inv: "follow_inv i n ?es (rc_run xs (start_reconciler srcs))" by simp
  note d = followsD [OF inv [unfolded follow_inv_def]]
  have "rn_merged (rc_run xs (start_reconciler srcs)) = []" "rn_streams (rc_run xs (start_reconciler srcs)) ! n = []"
    using assms(5) d(1) by (simp_all add: quiescent_def list_all_length)
  with d(2,7) show ?thesis by simp
qed

theorem provider_free_task_follows_source_witness:
  "get_kinded ''c'' (tt_tasks (rn_table (rc_run lone_schedule (start_reconciler lone_sources)))) = Some (rc_task ''c'' [] [])"
proof -
  have "filter (\<lambda>e. event_task e = ''c'') (snd (lone_sources ! 0)) = [Present ''c'' (rc_task ''c'' [] [])]"
    by (simp add: lone_sources_def)
  with provider_free_task_follows_source [of 0 lone_sources "''c''" lone_schedule] lone_run_parts(1)
  show ?thesis by (simp add: outcome_def lone_sources_def lone_schedule_def rc_task_def empty_spec_def no_permissions_def)
qed

section \<open>Retries that come too late\<close>

text \<open>Task \<open>a\<close> needs a value from task \<open>b\<close>; its source emits it, and later \<open>e\<close>. Task \<open>b\<close> is registered, the retry
  finds \<open>a\<close> still queued, and \<open>e\<close> is on its way already when the retry sends.\<close>

definition late_sources :: "src_event \<Rightarrow> (nat \<times> src_event list) list" where
  "late_sources e = [(1, [Present ''a'' (rc_task ''a'' ''old'' ''task:b''), e]), (1, [Present ''b'' (rc_task ''b'' [] [])])]"

definition late_schedule :: "rc_step list" where
  "late_schedule =
     [Forward 0, HandleNext, Forward 0, HandleNext, Forward 1, HandleNext,
      Forward 0, RetryCheck 0, RetrySend 0, HandleNext, HandleNext, Forward 1, HandleNext]"

definition late_run :: "src_event \<Rightarrow> reconciler" where
  "late_run e = rc_run late_schedule (start_reconciler (late_sources e))"

lemma late_run_parts:
  "quiescent (late_run (Removed ''a''))" "quiescent (late_run (Present ''a'' (rc_task ''a'' ''new'' ''task:b'')))"
  "get_kinded ''a'' (tt_tasks (rn_table (late_run (Removed ''a'')))) = Some (rc_task ''a'' ''old'' ''task:b'')"
  "get_kinded ''a'' (tt_tasks (rn_table (late_run (Present ''a'' (rc_task ''a'' ''new'' ''task:b''))))) =
     Some (rc_task ''a'' ''old'' ''task:b'')"
  by code_simp+


end
