(* ===== verification/Gateway.thy ===== *)
theory Gateway
  imports EngineRegister
begin

text \<open>
  The gateway's table of routes (pkg/ipc/gateway.go), and how the daemon keeps it in step with the
  engine's table of webhooks when a task is armed and disarmed (pkg/daemon/webhook_register.go,
  daemon.go). The handlers themselves are in WebhookHttp.
\<close>

section \<open>The table\<close>

text \<open>The handler of all webhooks, or the connection of a daemon task that registered a pattern.\<close>

datatype route_handler = WebhookEndpoint | TaskConnection nat

type_synonym gateway = "(string \<times> route_handler) list"

definition path_matches :: "string \<Rightarrow> string \<Rightarrow> bool" where
  "path_matches pattern u = (u = pattern \<or> has_prefix (trim_slash pattern @ ''/'') u)"

fun replace_handler :: "string \<Rightarrow> route_handler \<Rightarrow> gateway \<Rightarrow> gateway option" where
  "replace_handler p h [] = None"
| "replace_handler p h ((q, g) # rs) =
     (if q = p then Some ((q, h) # rs) else map_option (\<lambda>rs. (q, g) # rs) (replace_handler p h rs))"

text \<open>\<open>sort.Slice\<close> leaves the order of patterns of one length open; here it is that of the insertions.\<close>

definition gateway_register :: "string \<Rightarrow> route_handler \<Rightarrow> gateway \<Rightarrow> gateway" where
  "gateway_register p h g =
     (case replace_handler p h g of
        Some g' \<Rightarrow> g'
      | None \<Rightarrow> sort_key (\<lambda>r. - int (length (fst r))) (g @ [(p, h)]))"

fun gateway_unregister :: "string \<Rightarrow> gateway \<Rightarrow> gateway" where
  "gateway_unregister p [] = []"
| "gateway_unregister p ((q, h) # rs) = (if q = p then rs else (q, h) # gateway_unregister p rs)"

text \<open>\<open>ServeHTTP\<close>: the handler of the first pattern that matches.\<close>

definition gateway_dispatch :: "string \<Rightarrow> gateway \<Rightarrow> route_handler option" where
  "gateway_dispatch u g = map_option snd (find (\<lambda>r. path_matches (fst r) u) g)"

datatype gateway_op = GwRegister string route_handler | GwUnregister string

fun gateway_exec :: "gateway_op \<Rightarrow> gateway \<Rightarrow> gateway" where
  "gateway_exec (GwRegister p h) g = gateway_register p h g"
| "gateway_exec (GwUnregister p) g = gateway_unregister p g"

section \<open>Arming and disarming\<close>

record http_surface =
  hs_engine :: reg_engine
  hs_gateway :: gateway
  hs_paths :: "task_id \<rightharpoonup> string"

fun webhook_of :: "kinded \<Rightarrow> string" where
  "webhook_of (KSpec s) = tc_webhook (sp_trigger s)"
| "webhook_of (KPipeline p) = pt_webhook (pl_trigger p)"

definition register_gateway_webhook :: "kinded \<Rightarrow> http_surface \<Rightarrow> http_surface" where
  "register_gateway_webhook k s =
     (let path = webhook_of k in
      if path = [] then s
      else s\<lparr>hs_gateway := gateway_register path WebhookEndpoint (hs_gateway s),
             hs_paths := (hs_paths s)(task_id_of k \<mapsto> path)\<rparr>)"

text \<open>The task comes with the daemon's overrides applied, and the registry holds it already.\<close>

definition arm_task ::
    "(string \<Rightarrow> time \<Rightarrow> time option) \<Rightarrow> time \<Rightarrow> kinded \<Rightarrow> http_surface \<Rightarrow> register_error option \<times> http_surface" where
  "arm_task nxt now k s =
     (case register nxt now k (hs_engine s) of
        (Some err, e) \<Rightarrow> (Some err, s\<lparr>hs_engine := e\<rparr>)
      | (None, e) \<Rightarrow> (None, register_gateway_webhook k (s\<lparr>hs_engine := e\<rparr>)))"

definition disarm_task :: "task_id \<Rightarrow> http_surface \<Rightarrow> http_surface" where
  "disarm_task i s =
     (let path = (case hs_paths s i of None \<Rightarrow> [] | Some p \<Rightarrow> p);
          s1 = s\<lparr>hs_paths := (hs_paths s)(i := None)\<rparr>;
          s2 = (if path \<noteq> [] then s1\<lparr>hs_gateway := gateway_unregister path (hs_gateway s1)\<rparr> else s1)
      in s2\<lparr>hs_engine := unregister i (hs_engine s2)\<rparr>)"

definition http_start :: http_surface where
  "http_start = \<lparr>hs_engine = reg_init, hs_gateway = [], hs_paths = Map.empty\<rparr>"

text \<open>A request reaches the webhook that claims its path only over both tables.\<close>

definition reaches :: "string \<Rightarrow> http_surface \<Rightarrow> task_id option" where
  "reaches u s =
     (if gateway_dispatch u (hs_gateway s) = Some WebhookEndpoint then map_option fst (resolve_webhook_path u (hs_engine s)) else None)"

section \<open>Longest match\<close>

lemma gateway_unregister_filter: "distinct (map fst g) \<Longrightarrow> gateway_unregister p g = filter (\<lambda>r. fst r \<noteq> p) g"
proof (induction g)
  case (Cons r g)
  then have "fst r \<notin> fst ` set g" by simp
  then have "filter (\<lambda>x. fst x \<noteq> fst r) g = g" by (intro filter_True) (auto simp: image_iff)
  with Cons show ?case by (cases r) auto
qed simp

lemma replace_handler_None: "replace_handler p h g = None \<longleftrightarrow> p \<notin> fst ` set g"
  by (induction g) (auto split: if_splits)

lemma map_of_snoc: "p \<notin> fst ` set g \<Longrightarrow> map_of (g @ [(p, h)]) = (map_of g)(p \<mapsto> h)"
  by (induction g) (auto simp: fun_eq_iff)

lemma replace_handler_Some:
  "replace_handler p h g = Some g' \<Longrightarrow> map fst g' = map fst g \<and> map_of g' = (map_of g)(p \<mapsto> h)"
  by (induction g arbitrary: g') (auto split: if_splits simp: fun_eq_iff)

definition gateway_ok :: "gateway \<Rightarrow> bool" where
  "gateway_ok g \<longleftrightarrow> distinct (map fst g) \<and> sorted_wrt (\<lambda>p q. length q \<le> length p) (map fst g)"

lemma gateway_ok_register:
  assumes "gateway_ok g"
  shows "gateway_ok (gateway_register p h g)" "map_of (gateway_register p h g) = (map_of g)(p \<mapsto> h)"
proof -
  let ?k = "\<lambda>r::string \<times> route_handler. - int (length (fst r))"
  have both: "gateway_ok (gateway_register p h g) \<and> map_of (gateway_register p h g) = (map_of g)(p \<mapsto> h)"
  proof (cases "replace_handler p h g")
    case None
    let ?g = "sort_key ?k (g @ [(p, h)])"
    have new: "p \<notin> fst ` set g" using None by (simp add: replace_handler_None)
    have d: "distinct (map fst (g @ [(p, h)]))" using assms new by (simp add: gateway_ok_def)
    have "mset (map fst ?g) = mset (map fst (g @ [(p, h)]))" by (simp only: mset_map mset_sort)
    then have dd: "distinct (map fst ?g)" using d by (metis mset_eq_imp_distinct_iff)
    have "sorted (map ?k ?g)" by (rule sorted_sort_key)
    then have s: "sorted_wrt (\<lambda>p q. length q \<le> length p) (map fst ?g)" by (simp add: sorted_wrt_map)
    have "map_of ?g = map_of (g @ [(p, h)])"
      by (rule map_of_inject_set [THEN iffD2, OF dd d]) simp
    moreover have "map_of (g @ [(p, h)]) = (map_of g)(p \<mapsto> h)"
      using new by (rule map_of_snoc)
    ultimately show ?thesis using dd s None by (simp add: gateway_register_def gateway_ok_def)
  next
    case (Some g')
    with replace_handler_Some [OF Some] assms show ?thesis by (simp add: gateway_register_def gateway_ok_def)
  qed
  then show "gateway_ok (gateway_register p h g)" "map_of (gateway_register p h g) = (map_of g)(p \<mapsto> h)" by auto
qed

lemma gateway_ok_unregister:
  assumes "gateway_ok g"
  shows "gateway_ok (gateway_unregister p g)" "map_of (gateway_unregister p g) = (map_of g)(p := None)"
proof -
  have d: "distinct (map fst g)" "sorted_wrt (\<lambda>p q. length q \<le> length p) (map fst g)" using assms by (simp_all add: gateway_ok_def)
  have f: "map fst (filter (\<lambda>r. fst r \<noteq> p) g) = filter (\<lambda>q. q \<noteq> p) (map fst g)" by (induction g) simp_all
  show "gateway_ok (gateway_unregister p g)"
    unfolding gateway_unregister_filter [OF d(1)] gateway_ok_def f using d by (simp add: sorted_wrt_filter)
  have "map_of (filter (\<lambda>r. fst r \<noteq> p) g) = (map_of g)(p := None)" by (induction g) (auto simp: fun_eq_iff)
  then show "map_of (gateway_unregister p g) = (map_of g)(p := None)" by (simp only: gateway_unregister_filter [OF d(1)])
qed

text \<open>Of two patterns of one length at most one matches.\<close>

lemma trim_slash_cases: "trim_slash p = p \<and> (p = [] \<or> last p \<noteq> CHR ''/'') \<or> p = trim_slash p @ ''/''"
  by (cases p rule: rev_cases) (auto simp: trim_slash_def)

lemma path_matches_length:
  assumes "path_matches p u" "path_matches q u" "length p = length q"
  shows "p = q"
proof -
  have m: "(u = p \<or> (\<exists>t. u = trim_slash p @ ''/'' @ t)) \<and> (u = q \<or> (\<exists>t. u = trim_slash q @ ''/'' @ t))"
    using assms(1,2) by (auto simp: path_matches_def has_prefix_iff)
  show ?thesis
  proof (cases "u = p \<or> u = q")
    case True
    have whole: "x = u" if len: "length x = length u" and ex: "\<exists>t. u = trim_slash x @ ''/'' @ t" for x
    proof -
      obtain t where t: "u = trim_slash x @ ''/'' @ t" using ex by blast
      from trim_slash_cases [of x] show ?thesis
      proof
        assume "x = trim_slash x @ ''/''"
        then have "u = x @ t" using t by (metis append_assoc)
        with len show ?thesis by simp
      next
        assume "trim_slash x = x \<and> (x = [] \<or> last x \<noteq> CHR ''/'')"
        with t len show ?thesis by simp
      qed
    qed
    from True m assms(3) whole [of p] whole [of q] show ?thesis by auto
  next
    case False
    with m obtain s t where st: "u = trim_slash p @ ''/'' @ s" "u = trim_slash q @ ''/'' @ t" by blast
    have full: "x = take (length x) u" if "u = trim_slash x @ ''/'' @ r" "x = trim_slash x @ ''/''" for x r
      using that by (metis append_assoc append_eq_conv_conj)
    have part: "x = take (length x) u \<and> u ! length x = CHR ''/''" if "u = trim_slash x @ ''/'' @ r" "trim_slash x = x" for x r
      using that by (metis append_Cons append_Nil append_eq_conv_conj nth_append_length)
    from trim_slash_cases [of p] trim_slash_cases [of q] full part st assms(3) show ?thesis by metis
  qed
qed

lemma dispatch_longest:
  assumes "gateway_ok g"
  shows "gateway_dispatch u g = Some h \<longleftrightarrow>
    (\<exists>p. map_of g p = Some h \<and> path_matches p u \<and> (\<forall>q. q \<in> dom (map_of g) \<and> path_matches q u \<and> q \<noteq> p \<longrightarrow> length q < length p))"
    (is "_ \<longleftrightarrow> (\<exists>p. ?best p h)")
proof -
  have d: "distinct (map fst g)" "sorted_wrt (\<lambda>p q. length q \<le> length p) (map fst g)" using assms by (simp_all add: gateway_ok_def)
  have best: "?best p k" if "find (\<lambda>r. path_matches (fst r) u) g = Some (p, k)" for p k
  proof -
    from that obtain i where i: "i < length g" "path_matches (fst (g ! i)) u" "g ! i = (p, k)" "\<forall>j < i. \<not> path_matches (fst (g ! j)) u"
      unfolding find_Some_iff by metis
    have "length q < length p" if q: "q \<in> dom (map_of g)" and m: "path_matches q u" and ne: "q \<noteq> p" for q
    proof -
      obtain j where j: "j < length g" "fst (g ! j) = q" using q by (auto simp: dom_map_of_conv_image_fst in_set_conv_nth)
      have "j \<noteq> i" using j i(3) ne by auto
      moreover have "\<not> j < i" using i(4) j m by auto
      ultimately have "length q \<le> length p" using sorted_wrt_nth_less [OF d(2), of i j] i(1,3) j by simp
      with path_matches_length [OF m, of p] i(2,3) ne show ?thesis by fastforce
    qed
    moreover have "map_of g p = Some k" using d(1) i(1,3) by (metis map_of_eq_Some_iff nth_mem)
    ultimately show ?thesis using i(2,3) by auto
  qed
  show ?thesis
  proof
    assume "gateway_dispatch u g = Some h"
    then obtain p where "find (\<lambda>r. path_matches (fst r) u) g = Some (p, h)" by (auto simp: gateway_dispatch_def)
    from best [OF this] show "\<exists>p. ?best p h" by blast
  next
    assume "\<exists>p. ?best p h"
    then obtain p where p: "?best p h" by blast
    then have "(p, h) \<in> set g" by (simp add: map_of_SomeD)
    with p have "find (\<lambda>r. path_matches (fst r) u) g \<noteq> None" by (auto simp: find_None_iff)
    then obtain q k where f: "find (\<lambda>r. path_matches (fst r) u) g = Some (q, k)" by auto
    from best [OF f] have q: "?best q k" .
    have "q = p"
    proof (rule ccontr)
      assume "q \<noteq> p"
      with p q have "length q < length p" "length p < length q" by auto
      then show False by simp
    qed
    with p q f show "gateway_dispatch u g = Some h" by (simp add: gateway_dispatch_def)
  qed
qed

text \<open>The gateway is a map of patterns served by longest match. After any series of registrations and
  removals, the table is the map of the latest registrations not removed since; and a request goes to
  the handler of the longest pattern that matches it, of which there is only one, whatever order
  sorting gave to patterns of one length.\<close>

lemma gateway_serves_longest_match:
  "g = fold gateway_exec ops [] \<longrightarrow>
     map_of g = fold (\<lambda>op m. case op of GwRegister p h \<Rightarrow> m(p \<mapsto> h) | GwUnregister p \<Rightarrow> m(p := None)) ops Map.empty \<and>
     (gateway_dispatch u g = Some h \<longleftrightarrow>
        (\<exists>p. map_of g p = Some h \<and> path_matches p u \<and> (\<forall>q. q \<in> dom (map_of g) \<and> path_matches q u \<and> q \<noteq> p \<longrightarrow> length q < length p)))"
proof
  assume g: "g = fold gateway_exec ops []"
  have run: "gateway_ok (fold gateway_exec ops g0) \<and> map_of (fold gateway_exec ops g0) =
      fold (\<lambda>op m. case op of GwRegister p h \<Rightarrow> m(p \<mapsto> h) | GwUnregister p \<Rightarrow> m(p := None)) ops (map_of g0)" if "gateway_ok g0" for g0
    using that
  proof (induction ops arbitrary: g0)
    case (Cons op ops)
    have "gateway_ok (gateway_exec op g0)" "map_of (gateway_exec op g0) =
        (case op of GwRegister p h \<Rightarrow> (map_of g0)(p \<mapsto> h) | GwUnregister p \<Rightarrow> (map_of g0)(p := None))"
      using gateway_ok_register [OF Cons.prems] gateway_ok_unregister [OF Cons.prems] by (cases op; simp)+
    with Cons.IH [of "gateway_exec op g0"] show ?case by simp
  qed simp
  have "gateway_ok []" by (simp add: gateway_ok_def)
  from run [OF this] have ok: "gateway_ok g" and m: "map_of g = fold (\<lambda>op m. case op of GwRegister p h \<Rightarrow> m(p \<mapsto> h) | GwUnregister p \<Rightarrow> m(p := None)) ops Map.empty"
    by (simp_all add: g)
  with dispatch_longest [OF ok, of u h]
  show "map_of g = fold (\<lambda>op m. case op of GwRegister p h \<Rightarrow> m(p \<mapsto> h) | GwUnregister p \<Rightarrow> m(p := None)) ops Map.empty \<and>
     (gateway_dispatch u g = Some h \<longleftrightarrow>
        (\<exists>p. map_of g p = Some h \<and> path_matches p u \<and> (\<forall>q. q \<in> dom (map_of g) \<and> path_matches q u \<and> q \<noteq> p \<longrightarrow> length q < length p)))"
    by (intro conjI)
qed

lemma gateway_serves_longest_match_witness:
  "gateway_dispatch ''/h/a/c'' (fold gateway_exec [GwRegister ''/h/a'' WebhookEndpoint, GwRegister ''/h/b'' WebhookEndpoint,
     GwRegister ''/h/'' (TaskConnection 1), GwUnregister ''/h/b''] []) = Some WebhookEndpoint"
proof -
  let ?ops = "[GwRegister ''/h/a'' WebhookEndpoint, GwRegister ''/h/b'' WebhookEndpoint, GwRegister ''/h/'' (TaskConnection 1), GwUnregister ''/h/b'']"
  note l = gateway_serves_longest_match [of "fold gateway_exec ?ops []" ?ops "''/h/a/c''" WebhookEndpoint, rule_format, OF refl]
  have m: "map_of (fold gateway_exec ?ops []) = [''/h/a'' \<mapsto> WebhookEndpoint, ''/h/'' \<mapsto> TaskConnection 1]"
    using conjunct1 [OF l] by (auto simp: fun_eq_iff)
  have "path_matches ''/h/a'' ''/h/a/c''" by (simp add: path_matches_def trim_slash_def)
  then show ?thesis unfolding conjunct2 [OF l] m by (intro exI [of _ "''/h/a''"]) auto
qed

section \<open>Two tasks on one path\<close>

definition hook_task :: "task_id \<Rightarrow> kinded" where
  "hook_task i = KSpec (empty_spec\<lparr>sp_id := i, sp_name := i, sp_enabled := True, sp_trigger := no_trigger\<lparr>tc_webhook := ''/hooks/x''\<rparr>\<rparr>)"

definition no_schedule :: "string \<Rightarrow> time \<Rightarrow> time option" where
  "no_schedule x now = None"

definition shared_path :: http_surface where
  "shared_path = snd (arm_task no_schedule 0 (hook_task ''b'') (snd (arm_task no_schedule 0 (hook_task ''a'') http_start)))"

lemma shared_path_parts:
  "fst (arm_task no_schedule 0 (hook_task ''b'') (snd (arm_task no_schedule 0 (hook_task ''a'') http_start))) = None"
  "reaches ''/hooks/x'' shared_path = Some ''a''"
  "reaches ''/hooks/x'' (disarm_task ''b'' shared_path) = None"
  "re_webhooks (hs_engine (disarm_task ''b'' shared_path)) ''/hooks/x'' = Some ''a''"
  by code_simp+

text \<open>C39. A refused claim of a path takes the path down when it goes. The engine refuses the second task that declares a
  path and reports no error; the daemon registers the route again and books it for the second task.
  When that task is disarmed, because it was removed or its next version is held for approval, the
  route is deleted: the first task still owns the path in the engine and no request reaches it.\<close>

theorem refused_claim_takes_route_down:
  "\<exists>s. fst (arm_task no_schedule 0 (hook_task ''b'') s) = None \<and>
     (let s2 = snd (arm_task no_schedule 0 (hook_task ''b'') s) in
        reaches ''/hooks/x'' s = Some ''a'' \<and> reaches ''/hooks/x'' s2 = Some ''a'' \<and>
        reaches ''/hooks/x'' (disarm_task ''b'' s2) = None \<and>
        re_webhooks (hs_engine (disarm_task ''b'' s2)) ''/hooks/x'' = Some ''a'')"
proof -
  have "reaches ''/hooks/x'' (snd (arm_task no_schedule 0 (hook_task ''a'') http_start)) = Some ''a''" by code_simp
  with shared_path_parts show ?thesis
    by (intro exI [of _ "snd (arm_task no_schedule 0 (hook_task ''a'') http_start)"]) (simp add: shared_path_def Let_def)
qed

end
