(* ===== verification/WebhookSign.thy ===== *)
theory WebhookSign
  imports TaskSpec ApprovalLock "HOL-Library.AList"
begin

text \<open>
  Who may fire a webhook by its signature: the preimage and its digest (webhooksign.go), the check
  of timestamp and signature (webhook.go), and the cache of digests that were used already
  (replay_cache.go). HMAC is a parameter; times are nanoseconds since 1970, and the arithmetic of
  \<open>time.Time\<close> and \<open>time.Duration\<close> is that of 64 bits.
\<close>

section \<open>Times at 64 bits\<close>

definition wrap64 :: "int \<Rightarrow> int" where
  "wrap64 x = (x + 2 ^ 63) mod 2 ^ 64 - 2 ^ 63"

definition saturate64 :: "int \<Rightarrow> int" where
  "saturate64 x = (if x < - (2 ^ 63) then - (2 ^ 63) else if x > 2 ^ 63 - 1 then 2 ^ 63 - 1 else x)"

text \<open>\<open>time.Unix\<close> counts its seconds from year 1.\<close>

definition unix_to_internal :: int where
  "unix_to_internal = 62135596800"

text \<open>\<open>time.Since(time.Unix(ts, 0))\<close>, and the absolute value as the code takes it.\<close>

definition since_unix :: "time \<Rightarrow> int \<Rightarrow> duration" where
  "since_unix now ts = saturate64 (now + unix_to_internal * second - wrap64 (ts + unix_to_internal) * second)"

definition abs_duration :: "duration \<Rightarrow> duration" where
  "abs_duration d = (if d < 0 then wrap64 (- d) else d)"

text \<open>\<open>strconv.ParseInt(s, 10, 64)\<close>.\<close>

definition digits_value :: "string \<Rightarrow> int" where
  "digits_value s = foldl (\<lambda>n c. 10 * n + (int (of_char c) - 48)) 0 s"

definition parse_int64 :: "string \<Rightarrow> int option" where
  "parse_int64 s =
     (let neg = (s \<noteq> [] \<and> hd s = CHR ''-'');
          ds = (if s \<noteq> [] \<and> (hd s = CHR ''-'' \<or> hd s = CHR ''+'') then tl s else s);
          v = (if neg then - digits_value ds else digits_value ds)
      in if ds = [] \<or> \<not> list_all is_digit ds then None
         else if v < - (2 ^ 63) \<or> v > 2 ^ 63 - 1 then None else Some v)"

section \<open>The digest\<close>

type_synonym mac_fn = "string \<Rightarrow> string \<Rightarrow> string"

definition newline :: string where
  "newline = [CHR 0x0A]"

definition preimage_digest :: "mac_fn \<Rightarrow> string \<Rightarrow> string \<Rightarrow> string \<Rightarrow> string" where
  "preimage_digest mac secret ts body = mac secret (if ts \<noteq> [] then ts @ newline @ body else body)"

definition signature_value :: "string \<Rightarrow> string" where
  "signature_value digest = ''sha256='' @ hex_encode digest"

section \<open>Requests\<close>

text \<open>\<open>wr_header\<close> is \<open>Header.Get\<close>, the empty string for a header that is absent.\<close>

record webhook_request =
  wr_method :: string
  wr_path :: string
  wr_header :: "string \<Rightarrow> string"
  wr_query :: "(string \<times> string list) list"
  wr_body :: string

definition signature_header :: string where
  "signature_header = ''X-Hub-Signature-256''"

definition timestamp_header :: string where
  "timestamp_header = ''X-Dicode-Timestamp''"

definition webhook_max_body_bytes :: nat where
  "webhook_max_body_bytes = 5 * 2 ^ 20"

definition webhook_timestamp_tolerance :: duration where
  "webhook_timestamp_tolerance = 5 * 60 * second"

definition read_webhook_body :: "webhook_request \<Rightarrow> string" where
  "read_webhook_body r = (if wr_method r = ''GET'' then [] else take webhook_max_body_bytes (wr_body r))"

section \<open>Signature\<close>

datatype signature_error = GetWithSecret | MissingTimestamp | InvalidTimestamp | TimestampOutOfWindow
  | MissingSignature | SignatureMismatch

definition timestamp_error :: "time \<Rightarrow> bool \<Rightarrow> string \<Rightarrow> signature_error option" where
  "timestamp_error now required raw =
     (if raw = [] then (if required then Some MissingTimestamp else None)
      else (case parse_int64 raw of
              None \<Rightarrow> Some InvalidTimestamp
            | Some ts \<Rightarrow>
                if abs_duration (since_unix now ts) > webhook_timestamp_tolerance then Some TimestampOutOfWindow else None))"

text \<open>The result is the timestamp and the digest, no digest for a webhook without a secret.\<close>

definition verify_webhook_signature_secret ::
    "mac_fn \<Rightarrow> time \<Rightarrow> string \<Rightarrow> bool \<Rightarrow> webhook_request \<Rightarrow> string \<Rightarrow> signature_error + (string \<times> string option)" where
  "verify_webhook_signature_secret mac now secret required r body =
     (if secret = [] then Inr ([], None)
      else if wr_method r = ''GET'' then Inl GetWithSecret
      else (let raw = wr_header r timestamp_header in
        case timestamp_error now required raw of
          Some err \<Rightarrow> Inl err
        | None \<Rightarrow>
            (let got = wr_header r signature_header;
                 digest = preimage_digest mac secret raw body
             in if got = [] then Inl MissingSignature
                else if got \<noteq> signature_value digest then Inl SignatureMismatch
                else Inr (raw, Some digest))))"

definition verify_webhook_signature ::
    "mac_fn \<Rightarrow> time \<Rightarrow> trigger_config \<Rightarrow> webhook_request \<Rightarrow> string \<Rightarrow> signature_error + (string \<times> string option)" where
  "verify_webhook_signature mac now t r body =
     verify_webhook_signature_secret mac now (tc_webhook_secret t) (tc_require_timestamp t = Some True) r body"

section \<open>The replay cache\<close>

text \<open>\<open>rc_entries\<close> has each key once.\<close>

record replay_cache =
  rc_ttl :: duration
  rc_max :: nat
  rc_entries :: "(string \<times> time) list"
  rc_order :: "(string \<times> time) list"

definition new_replay_cache :: "duration \<Rightarrow> replay_cache" where
  "new_replay_cache ttl = \<lparr>rc_ttl = ttl, rc_max = 10000, rc_entries = [], rc_order = []\<rparr>"

definition webhook_replay_ttl :: duration where
  "webhook_replay_ttl = 3600 * second"

text \<open>The loop of \<open>evictExpired\<close>, and the loop of \<open>seen\<close> that makes room for one more entry.\<close>

fun evict_before :: "time \<Rightarrow> (string \<times> time) list \<Rightarrow> (string \<times> time) list \<Rightarrow> (string \<times> time) list \<times> (string \<times> time) list" where
  "evict_before cutoff es [] = (es, [])"
| "evict_before cutoff es ((d, t) # q) =
     (if t < cutoff then evict_before cutoff (AList.delete d es) q else (es, (d, t) # q))"

fun make_room :: "nat \<Rightarrow> (string \<times> time) list \<Rightarrow> (string \<times> time) list \<Rightarrow> (string \<times> time) list \<times> (string \<times> time) list" where
  "make_room n es [] = (es, [])"
| "make_room n es ((d, t) # q) = (if n \<le> length es then make_room n (AList.delete d es) q else (es, (d, t) # q))"

definition evict_expired :: "time \<Rightarrow> replay_cache \<Rightarrow> replay_cache" where
  "evict_expired now c =
     (case evict_before (now - rc_ttl c) (rc_entries c) (rc_order c) of (es, q) \<Rightarrow> c\<lparr>rc_entries := es, rc_order := q\<rparr>)"

definition replay_seen :: "string \<Rightarrow> time \<Rightarrow> replay_cache \<Rightarrow> bool \<times> replay_cache" where
  "replay_seen d now c0 =
     (let c = evict_expired now c0;
          hit = (case map_of (rc_entries c) d of Some t \<Rightarrow> now - t < rc_ttl c | None \<Rightarrow> False)
      in if hit then (True, c)
         else (case make_room (rc_max c) (rc_entries c) (rc_order c) of (es, q) \<Rightarrow>
                (False, c\<lparr>rc_entries := AList.update d now es, rc_order := q @ [(d, now)]\<rparr>)))"

definition check_webhook_replay ::
    "string \<Rightarrow> bool option \<Rightarrow> string option \<Rightarrow> time \<Rightarrow> replay_cache \<Rightarrow> bool \<times> replay_cache" where
  "check_webhook_replay secret protection digest now c =
     (if secret = [] then (False, c)
      else if protection = Some False then (False, c)
      else replay_seen (hex_encode (case digest of Some d \<Rightarrow> d | None \<Rightarrow> [])) now c)"

section \<open>Admission\<close>

text \<open>The part of a hook the checks read, and the two checks in the order both dispatch paths make them.
  A request of an authenticated session skips them.\<close>

record hook_auth =
  ha_secret :: string
  ha_require_timestamp :: bool
  ha_replay_protection :: "bool option"

datatype rejection = Forbidden signature_error | ReplayRejected

definition admit_webhook ::
    "mac_fn \<Rightarrow> time \<Rightarrow> hook_auth \<Rightarrow> bool \<Rightarrow> webhook_request \<Rightarrow> replay_cache \<Rightarrow> rejection option \<times> replay_cache" where
  "admit_webhook mac now h session r c =
     (if session then (None, c)
      else (case verify_webhook_signature_secret mac now (ha_secret h) (ha_require_timestamp h) r (read_webhook_body r) of
              Inl err \<Rightarrow> (Some (Forbidden err), c)
            | Inr (ts, digest) \<Rightarrow>
                (case check_webhook_replay (ha_secret h) (ha_replay_protection h) digest now c of
                   (True, c1) \<Rightarrow> (Some ReplayRejected, c1)
                 | (False, c1) \<Rightarrow> (None, c1))))"

text \<open>A series of requests against one engine.\<close>

record hook_call =
  hc_now :: time
  hc_hook :: hook_auth
  hc_session :: bool
  hc_request :: webhook_request

fun admit_all :: "mac_fn \<Rightarrow> hook_call list \<Rightarrow> replay_cache \<Rightarrow> rejection option list \<times> replay_cache" where
  "admit_all mac [] c = ([], c)"
| "admit_all mac (x # xs) c =
     (case admit_webhook mac (hc_now x) (hc_hook x) (hc_session x) (hc_request x) c of (a, c1) \<Rightarrow>
        (case admit_all mac xs c1 of (as, c2) \<Rightarrow> (a # as, c2)))"

end
