(* ===== verification/WebhookSignSafety.thy ===== *)
theory WebhookSignSafety
  imports WebhookSign
begin

text \<open>
  What signature, timestamp and replay cache guarantee together, and where they do not: the cache
  answers from the history of accepted digests; a request signed with a required timestamp fires
  once; a timestamp too far ahead never expires, and one that is not required can be stripped.
\<close>

section \<open>The cache against its history\<close>

definition take_last :: "nat \<Rightarrow> 'a list \<Rightarrow> 'a list" where
  "take_last n xs = drop (length xs - n) xs"

lemma take_last_Nil [simp]: "take_last n [] = []"
  by (simp add: take_last_def)

lemma take_last_Cons: "take_last n (x # xs) = (if length xs < n then x # xs else take_last n xs)"
  by (auto simp: take_last_def Suc_diff_le not_less)

lemma take_last_all: "length xs \<le> n \<Longrightarrow> take_last n xs = xs"
  by (simp add: take_last_def)

lemma take_last_snoc: "0 < n \<Longrightarrow> take_last n (xs @ [x]) = take_last (n - 1) xs @ [x]"
  by (simp add: take_last_def)

lemma take_last_take_last: "m \<le> n \<Longrightarrow> take_last m (take_last n xs) = take_last m xs"
  unfolding take_last_def drop_drop length_drop by (cases "n \<le> length xs") (simp_all, arith?)

lemma set_take_last: "x \<in> set (take_last n xs) \<Longrightarrow> x \<in> set xs"
  by (auto simp: take_last_def dest: in_set_dropD)

lemma take_last_append: "length ys < n \<Longrightarrow> x \<in> set (take_last n (xs @ x # ys))"
  by (auto simp: take_last_def)

lemma delete_hd: "d \<notin> fst ` set q \<Longrightarrow> AList.delete d ((d, t) # q) = q"
  by (simp add: AList.delete_idem)

text \<open>What the cache holds at time \<open>now\<close>, of the digests accepted so far.\<close>

definition kept :: "duration \<Rightarrow> nat \<Rightarrow> time \<Rightarrow> (string \<times> time) list \<Rightarrow> (string \<times> time) list" where
  "kept ttl mx now h = take_last mx (filter (\<lambda>x. now - snd x \<le> ttl) h)"

lemma filter_take_last:
  assumes "sorted (map snd h)"
  shows "filter (\<lambda>x. now - snd x \<le> ttl) (take_last m h) = take_last m (filter (\<lambda>x. now - snd x \<le> (ttl::int)) h)"
  using assms
proof (induction h)
  case (Cons x h)
  show ?case
  proof (cases "length h < m")
    case True
    then have "length (filter (\<lambda>x. now - snd x \<le> ttl) (x # h)) \<le> m"
      using length_filter_le [of "\<lambda>x. now - snd x \<le> ttl" "x # h"] by simp
    with True show ?thesis by (simp only: take_last_Cons if_True take_last_all)
  next
    case False
    show ?thesis
    proof (cases "now - snd x \<le> ttl")
      case True
      then have "filter (\<lambda>x. now - snd x \<le> ttl) h = h" using Cons.prems by (intro filter_True) fastforce
      with Cons False True show ?thesis by (simp add: take_last_Cons)
    qed (use Cons False in \<open>simp add: take_last_Cons\<close>)
  qed
qed simp

lemma kept_later:
  assumes "sorted (map snd h)" "now \<le> now'"
  shows "filter (\<lambda>x. now' - snd x \<le> ttl) (kept ttl mx now h) = kept ttl mx now' h"
proof -
  have s: "sorted (map snd (filter (\<lambda>x. now - snd x \<le> ttl) h))" using assms(1) by (rule sorted_filter)
  have "(\<lambda>x. now' - snd x \<le> ttl \<and> now - snd x \<le> ttl) = (\<lambda>x::string \<times> time. now' - snd x \<le> ttl)" using assms(2) by (auto simp: fun_eq_iff)
  then show ?thesis unfolding kept_def filter_take_last [OF s] by (simp add: conj_commute)
qed

lemma evict_before_distinct:
  assumes "distinct (map fst q)" "sorted (map snd q)"
  shows "evict_before cutoff q q = (filter (\<lambda>x. cutoff \<le> snd x) q, filter (\<lambda>x. cutoff \<le> snd x) q)"
  using assms
proof (induction q)
  case (Cons x q)
  obtain d t where x: "x = (d, t)" by (cases x)
  have del: "AList.delete d ((d, t) # q) = q" using Cons.prems(1) by (intro delete_hd) (simp add: x)
  show ?case
  proof (cases "t < cutoff")
    case True
    with Cons del show ?thesis by (simp add: x)
  next
    case False
    then have "filter (\<lambda>x. cutoff \<le> snd x) q = q" using Cons.prems(2) by (intro filter_True) (fastforce simp: x)
    with False show ?thesis by (simp add: x)
  qed
qed simp

lemma make_room_distinct:
  "distinct (map fst q) \<Longrightarrow> 0 < n \<Longrightarrow> make_room n q q = (take_last (n - 1) q, take_last (n - 1) q)"
proof (induction q)
  case (Cons x q)
  obtain d t where x: "x = (d, t)" by (cases x)
  have del: "AList.delete d ((d, t) # q) = q" using Cons.prems(1) by (intro delete_hd) (simp add: x)
  show ?case
  proof (cases "n \<le> length ((d, t) # q)")
    case True
    with Cons del show ?thesis by (auto simp: x take_last_Cons)
  next
    case False
    then have "take_last (n - 1) ((d, t) # q) = (d, t) # q" by (intro take_last_all) simp
    with False show ?thesis by (simp add: x)
  qed
qed simp

lemma update_new: "d \<notin> fst ` set q \<Longrightarrow> AList.update d t q = q @ [(d, t)]"
  by (induction q) auto

definition cache_ok :: "time \<Rightarrow> (string \<times> time) list \<Rightarrow> replay_cache \<Rightarrow> bool" where
  "cache_ok now h c \<longleftrightarrow> rc_order c = kept (rc_ttl c) (rc_max c) now h \<and> rc_entries c = rc_order c \<and>
     distinct (map fst (rc_order c)) \<and> sorted (map snd h) \<and> (\<forall>x \<in> set h. snd x \<le> now) \<and>
     0 < rc_max c \<and> 0 \<le> rc_ttl c"

lemma kept_sorted: "sorted (map snd h) \<Longrightarrow> sorted (map snd (kept ttl mx now h))"
  by (simp add: kept_def take_last_def drop_map [symmetric] sorted_wrt_drop sorted_filter)

lemma in_kept: "x \<in> set (kept ttl mx now h) \<Longrightarrow> x \<in> set h \<and> now - snd x \<le> ttl"
  by (auto simp: kept_def dest!: set_take_last)

text \<open>The history of a cache after a call.\<close>

definition log_call :: "bool \<Rightarrow> string \<Rightarrow> time \<Rightarrow> (string \<times> time) list \<Rightarrow> (string \<times> time) list" where
  "log_call hit d now h = (if hit then h else h @ [(d, now)])"

lemma replay_seen_ok:
  assumes "cache_ok now0 h c" "now0 \<le> now" "\<forall>x \<in> set h. now - snd x \<noteq> rc_ttl c"
  shows "fst (replay_seen d now c) \<longleftrightarrow> d \<in> fst ` set (kept (rc_ttl c) (rc_max c) now h)"
    "cache_ok now (log_call (fst (replay_seen d now c)) d now h) (snd (replay_seen d now c))"
    "rc_ttl (snd (replay_seen d now c)) = rc_ttl c" "rc_max (snd (replay_seen d now c)) = rc_max c"
proof -
  let ?k = "kept (rc_ttl c) (rc_max c) now h"
  have h: "rc_order c = kept (rc_ttl c) (rc_max c) now0 h" "rc_entries c = rc_order c" "distinct (map fst (rc_order c))"
    "sorted (map snd h)" "\<forall>x \<in> set h. snd x \<le> now0" "0 < rc_max c" "0 \<le> rc_ttl c"
    using assms(1) unfolding cache_ok_def by blast+
  have le: "\<forall>x \<in> set h. snd x \<le> now" using h(5) assms(2) by fastforce
  have "filter (\<lambda>x. now - rc_ttl c \<le> snd x) (kept (rc_ttl c) (rc_max c) now0 h) = ?k"
    unfolding kept_later [OF h(4) assms(2), symmetric] by (rule filter_cong) auto
  then have ev: "evict_expired now c = c\<lparr>rc_entries := ?k, rc_order := ?k\<rparr>"
    using evict_before_distinct [OF h(3)] kept_sorted [OF h(4)] h(1) by (simp add: evict_expired_def h(2))
  have dk: "distinct (map fst ?k)"
    unfolding kept_later [OF h(4) assms(2), symmetric] h(1) [symmetric] using h(3) by (rule distinct_map_filter)
  have young: "now - snd x < rc_ttl c" if "x \<in> set ?k" for x using in_kept [OF that] assms(3) by force
  have hit: "(case map_of ?k d of Some t \<Rightarrow> now - t < rc_ttl c | None \<Rightarrow> False) \<longleftrightarrow> d \<in> fst ` set ?k"
  proof (cases "map_of ?k d")
    case (Some t)
    then have "(d, t) \<in> set ?k" by (rule map_of_SomeD)
    with young [OF this] Some show ?thesis by force
  next
    case None
    then have "d \<notin> fst ` set ?k" by (simp add: map_of_eq_None_iff)
    with None show ?thesis by simp
  qed
  show f: "fst (replay_seen d now c) \<longleftrightarrow> d \<in> fst ` set ?k"
    by (simp add: replay_seen_def ev hit Let_def cong: option.case_cong split: prod.splits)
  have room: "make_room (rc_max c) ?k ?k = (take_last (rc_max c - 1) ?k, take_last (rc_max c - 1) ?k)"
    by (rule make_room_distinct [OF dk h(6)])
  show "rc_ttl (snd (replay_seen d now c)) = rc_ttl c" "rc_max (snd (replay_seen d now c)) = rc_max c"
    by (simp_all add: replay_seen_def ev hit Let_def cong: option.case_cong split: prod.splits)
  show "cache_ok now (log_call (fst (replay_seen d now c)) d now h) (snd (replay_seen d now c))"
  proof (cases "d \<in> fst ` set ?k")
    case True
    then have s: "replay_seen d now c = (True, c\<lparr>rc_entries := ?k, rc_order := ?k\<rparr>)" by (simp add: replay_seen_def ev hit Let_def cong: option.case_cong)
    show ?thesis unfolding s using dk h(4,6,7) le by (simp add: cache_ok_def log_call_def)
  next
    case False
    let ?q = "take_last (rc_max c - 1) ?k"
    have nq: "d \<notin> fst ` set ?q" using False by (auto dest: set_take_last)
    have s: "replay_seen d now c = (False, c\<lparr>rc_entries := ?q @ [(d, now)], rc_order := ?q @ [(d, now)]\<rparr>)"
      using False by (simp add: replay_seen_def ev hit room update_new [OF nq] Let_def cong: option.case_cong del: One_nat_def)
    have ttl: "kept (rc_ttl c) (rc_max c) now (h @ [(d, now)]) = ?q @ [(d, now)]"
      using h(7) by (simp add: kept_def take_last_snoc [OF h(6)] take_last_take_last del: One_nat_def)
    have "sorted (map snd (h @ [(d, now)]))" using h(4) le by (auto simp: sorted_append)
    moreover have "distinct (map fst ?q)" using dk by (simp add: take_last_def drop_map [symmetric])
    then have "distinct (map fst (?q @ [(d, now)]))" using nq by simp
    ultimately show ?thesis unfolding s using h(6,7) le by (simp add: cache_ok_def log_call_def ttl)
  qed
qed

text \<open>The answers of a cache to a series of calls, and the answers its history gives: a digest is a replay when
  it was accepted less than the lifetime ago and fewer than the capacity have been accepted since.\<close>

fun replay_answers :: "(string \<times> time) list \<Rightarrow> replay_cache \<Rightarrow> bool list" where
  "replay_answers [] c = []"
| "replay_answers ((d, now) # xs) c = fst (replay_seen d now c) # replay_answers xs (snd (replay_seen d now c))"

fun replay_reference :: "duration \<Rightarrow> nat \<Rightarrow> (string \<times> time) list \<Rightarrow> (string \<times> time) list \<Rightarrow> bool list" where
  "replay_reference ttl mx h [] = []"
| "replay_reference ttl mx h ((d, now) # xs) =
     (let hit = list_ex (\<lambda>x. fst x = d \<and> now - snd x < ttl) (take_last mx h)
      in hit # replay_reference ttl mx (log_call hit d now h) xs)"

lemma kept_hit:
  assumes "sorted (map snd h)" "\<forall>x \<in> set h. now - snd x \<noteq> ttl"
  shows "d \<in> fst ` set (kept ttl mx now h) \<longleftrightarrow> list_ex (\<lambda>x. fst x = d \<and> now - snd x < ttl) (take_last mx h)"
proof -
  have "set (kept ttl mx now h) = {x \<in> set (take_last mx h). now - snd x < ttl}"
    unfolding kept_def filter_take_last [OF assms(1), symmetric] using assms(2) by (auto dest: set_take_last simp: order_le_less)
  then show ?thesis by (auto simp: list_ex_iff image_iff) force
qed

lemma answers_reference:
  assumes "cache_ok now0 h c" "sorted (now0 # map snd xs)" "\<forall>x \<in> set xs. \<forall>y \<in> set h \<union> set xs. snd x - snd y \<noteq> rc_ttl c"
  shows "replay_answers xs c = replay_reference (rc_ttl c) (rc_max c) h xs"
  using assms
proof (induction xs arbitrary: now0 h c)
  case (Cons x xs)
  obtain d now where x: "x = (d, now)" by (cases x)
  have le: "now0 \<le> now" using Cons.prems(2) by (simp add: x)
  have tie: "\<forall>y \<in> set h. now - snd y \<noteq> rc_ttl c" using Cons.prems(3) by (auto simp: x)
  note r = replay_seen_ok [OF Cons.prems(1) le tie, of d]
  have s: "sorted (map snd h)" using Cons.prems(1) unfolding cache_ok_def by blast
  let ?hit = "fst (replay_seen d now c)"
  have hit: "?hit \<longleftrightarrow> list_ex (\<lambda>x. fst x = d \<and> now - snd x < rc_ttl c) (take_last (rc_max c) h)"
    using r(1) kept_hit [OF s tie] by simp
  have "sorted (now # map snd xs)" using Cons.prems(2) by (simp add: x)
  moreover have "\<forall>z \<in> set xs. \<forall>y \<in> set (log_call ?hit d now h) \<union> set xs. snd z - snd y \<noteq> rc_ttl (snd (replay_seen d now c))"
    using Cons.prems(3) by (auto simp: x r(3) log_call_def split: if_splits)
  ultimately have "replay_answers xs (snd (replay_seen d now c)) = replay_reference (rc_ttl c) (rc_max c) (log_call ?hit d now h) xs"
    using Cons.IH [OF r(2)] by (simp add: r(3,4))
  then show ?case by (simp add: x hit [symmetric] Let_def)
qed simp

lemma new_cache_ok: "0 \<le> ttl \<Longrightarrow> cache_ok now [] (new_replay_cache ttl)"
  by (simp add: cache_ok_def new_replay_cache_def kept_def)



text \<open>A digest seen again exactly one lifetime after it was accepted leaves its first entry in the order queue;
  the next call evicts that entry and with it the new one, so the same digest is accepted at once again.\<close>

lemma replay_at_expiry_is_forgotten:
  assumes "0 < ttl" "0 < k" "k < ttl"
  shows "replay_answers [(d, t), (d, t + ttl), (d, t + ttl + k)] (new_replay_cache ttl) = [False, False, False]"
  using assms by (simp add: replay_seen_def evict_expired_def new_replay_cache_def Let_def)

lemma replay_at_expiry_is_forgotten_witness:
  "replay_answers [(''a'', 0), (''a'', 10), (''a'', 11)] (new_replay_cache 10) = [False, False, False]"
  using replay_at_expiry_is_forgotten [of 10 1 "''a''" 0] by simp

section \<open>Signed requests\<close>

text \<open>The call of the cache that admission makes, if it comes to one.\<close>

definition cache_call :: "mac_fn \<Rightarrow> hook_call \<Rightarrow> (string \<times> time) option" where
  "cache_call mac x =
     (if hc_session x \<or> ha_secret (hc_hook x) = [] \<or> ha_replay_protection (hc_hook x) = Some False then None
      else (case verify_webhook_signature_secret mac (hc_now x) (ha_secret (hc_hook x)) (ha_require_timestamp (hc_hook x))
                   (hc_request x) (read_webhook_body (hc_request x)) of
              Inl err \<Rightarrow> None
            | Inr (ts, digest) \<Rightarrow> Some (hex_encode (case digest of Some d \<Rightarrow> d | None \<Rightarrow> []), hc_now x)))"

lemma admit_cache:
  "snd (admit_webhook mac (hc_now x) (hc_hook x) (hc_session x) (hc_request x) c) =
     (case cache_call mac x of None \<Rightarrow> c | Some (d, now) \<Rightarrow> snd (replay_seen d now c))"
  "cache_call mac x = Some (d, now) \<Longrightarrow>
     fst (admit_webhook mac (hc_now x) (hc_hook x) (hc_session x) (hc_request x) c) =
       (if fst (replay_seen d now c) then Some ReplayRejected else None)"
  by (auto simp: admit_webhook_def cache_call_def check_webhook_replay_def split: sum.splits option.splits prod.splits if_splits bool.splits)

lemma cache_call_now: "cache_call mac x = Some (d, now) \<Longrightarrow> now = hc_now x"
  by (auto simp: cache_call_def split: if_splits sum.splits)

definition log_admit :: "mac_fn \<Rightarrow> replay_cache \<Rightarrow> hook_call \<Rightarrow> (string \<times> time) list \<Rightarrow> (string \<times> time) list" where
  "log_admit mac c x h =
     (case cache_call mac x of None \<Rightarrow> h | Some (d, now) \<Rightarrow> log_call (fst (replay_seen d now c)) d now h)"

lemma cache_ok_later: "cache_ok now h c \<Longrightarrow> now \<le> now' \<Longrightarrow> rc_order c = kept (rc_ttl c) (rc_max c) now' h \<Longrightarrow> cache_ok now' h c"
  unfolding cache_ok_def by fastforce

text \<open>The invariant between the calls of a series: the time of the last call need not have touched the cache.\<close>

definition admits_ok :: "duration \<Rightarrow> time \<Rightarrow> (string \<times> time) list \<Rightarrow> replay_cache \<Rightarrow> bool" where
  "admits_ok ttl now h c \<longleftrightarrow> rc_ttl c = ttl \<and> rc_max c = 10000 \<and> (\<exists>now0 \<le> now. cache_ok now0 h c)"

lemma admit_ok:
  assumes "admits_ok ttl now h c" "now \<le> hc_now x" "\<forall>y \<in> set h. hc_now x - snd y \<noteq> ttl"
  shows "admits_ok ttl (hc_now x) (log_admit mac c x h) (snd (admit_webhook mac (hc_now x) (hc_hook x) (hc_session x) (hc_request x) c))"
proof (cases "cache_call mac x")
  case None
  with assms show ?thesis unfolding admits_ok_def admit_cache(1) log_admit_def by (auto intro: order_trans)
next
  case (Some call)
  obtain d t where call: "call = (d, t)" by (cases call)
  with Some cache_call_now have t: "t = hc_now x" by blast
  from assms(1) obtain now0 where n: "rc_ttl c = ttl" "rc_max c = 10000" "now0 \<le> now" "cache_ok now0 h c"
    unfolding admits_ok_def by blast
  have le: "now0 \<le> t" using n(3) assms(2) t by simp
  have tie: "\<forall>y \<in> set h. t - snd y \<noteq> rc_ttl c" using assms(3) t n(1) by simp
  note r = replay_seen_ok [OF n(4) le tie, of d]
  have "admits_ok ttl (hc_now x) (log_call (fst (replay_seen d t c)) d t h) (snd (replay_seen d t c))"
    unfolding admits_ok_def using r(2,3,4) n(1,2) t by auto
  with Some call show ?thesis unfolding admit_cache(1) log_admit_def by simp
qed

lemma admit_all_Cons:
  "fst (admit_all mac (x # xs) c) = fst (admit_webhook mac (hc_now x) (hc_hook x) (hc_session x) (hc_request x) c) #
     fst (admit_all mac xs (snd (admit_webhook mac (hc_now x) (hc_hook x) (hc_session x) (hc_request x) c)))"
  "snd (admit_all mac (x # xs) c) =
     snd (admit_all mac xs (snd (admit_webhook mac (hc_now x) (hc_hook x) (hc_session x) (hc_request x) c)))"
  by (simp_all add: case_prod_unfold)

lemma admit_all_append:
  "fst (admit_all mac (xs @ ys) c) = fst (admit_all mac xs c) @ fst (admit_all mac ys (snd (admit_all mac xs c)))"
  "snd (admit_all mac (xs @ ys) c) = snd (admit_all mac ys (snd (admit_all mac xs c)))"
  by (induction xs arbitrary: c) (simp_all only: append.simps admit_all_Cons, simp_all)

lemma admit_all_length [simp]: "length (fst (admit_all mac xs c)) = length xs"
  by (induction xs arbitrary: c) (simp_all only: admit_all_Cons list.size, simp_all)

lemma log_admit_extends: "\<exists>e. log_admit mac c x h = h @ e \<and> length e \<le> 1 \<and> snd ` set e \<subseteq> {hc_now x}"
proof (cases "cache_call mac x")
  case (Some call)
  obtain d t where call: "call = (d, t)" by (cases call)
  with Some cache_call_now have "t = hc_now x" by blast
  with Some call show ?thesis
    by (cases "fst (replay_seen d t c)") (auto simp: log_admit_def log_call_def)
qed (simp add: log_admit_def)

lemma admit_all_ok:
  assumes "admits_ok ttl now h c" "sorted (now # map hc_now xs)"
    "\<forall>x \<in> set xs. \<forall>t \<in> snd ` set h \<union> hc_now ` set xs. hc_now x - t \<noteq> ttl"
  shows "\<exists>h'. admits_ok ttl (last (now # map hc_now xs)) (h @ h') (snd (admit_all mac xs c)) \<and> length h' \<le> length xs \<and>
     snd ` set h' \<subseteq> hc_now ` set xs"
  using assms
proof (induction xs arbitrary: now h c)
  case (Cons x xs)
  let ?c = "snd (admit_webhook mac (hc_now x) (hc_hook x) (hc_session x) (hc_request x) c)"
  have ok: "admits_ok ttl (hc_now x) (log_admit mac c x h) ?c"
    by (rule admit_ok [OF Cons.prems(1)]) (use Cons.prems(2,3) in auto)
  obtain e where e: "log_admit mac c x h = h @ e" "length e \<le> 1" "snd ` set e \<subseteq> {hc_now x}"
    using log_admit_extends by blast
  have s: "sorted (hc_now x # map hc_now xs)" using Cons.prems(2) by simp
  have tie: "\<forall>z \<in> set xs. \<forall>t \<in> snd ` set (log_admit mac c x h) \<union> hc_now ` set xs. hc_now z - t \<noteq> ttl"
  proof (intro ballI)
    fix z t assume z: "z \<in> set xs" and "t \<in> snd ` set (log_admit mac c x h) \<union> hc_now ` set xs"
    then have t: "t \<in> snd ` set h \<union> hc_now ` set (x # xs)" using e(3) unfolding e(1) by auto
    have "z \<in> set (x # xs)" using z by simp
    from Cons.prems(3) [rule_format, OF this t] show "hc_now z - t \<noteq> ttl" .
  qed
  from Cons.IH [OF ok s tie] obtain h' where h': "admits_ok ttl (last (hc_now x # map hc_now xs)) ((h @ e) @ h') (snd (admit_all mac xs ?c))"
    "length h' \<le> length xs" "snd ` set h' \<subseteq> hc_now ` set xs"
    unfolding e(1) by blast
  have "snd (admit_all mac (x # xs) c) = snd (admit_all mac xs ?c)" by (rule admit_all_Cons(2))
  with h' e show ?case by (intro exI [of _ "e @ h'"]) auto
qed (auto intro: exI [of _ "[]"])

section \<open>Timestamps\<close>

text \<open>For the years 1970 to 2116 the checks of the timestamp do not leave 64 bits.\<close>

definition plain_time :: "time \<Rightarrow> bool" where
  "plain_time t \<longleftrightarrow> 0 \<le> t \<and> t \<le> 2 ^ 62"

lemma since_unix_plain:
  assumes "plain_time now" "0 \<le> ts" "ts \<le> 2 ^ 33"
  shows "abs_duration (since_unix now ts) = \<bar>now - ts * second\<bar>"
proof -
  have w: "wrap64 (ts + unix_to_internal) = ts + unix_to_internal"
    using assms(2,3) by (simp add: wrap64_def unix_to_internal_def)
  have d: "now + unix_to_internal * second - (ts + unix_to_internal) * second = now - ts * second" by (simp add: algebra_simps)
  have b: "- (2 ^ 63) < now - ts * second" "now - ts * second < 2 ^ 63" using assms by (auto simp: second_def plain_time_def)
  then have s: "since_unix now ts = now - ts * second" unfolding since_unix_def w d by (simp add: saturate64_def)
  show ?thesis unfolding s abs_duration_def using b by (auto simp: wrap64_def)
qed

lemma since_unix_far:
  assumes "plain_time now" "2 ^ 34 \<le> ts" "ts \<le> 2 ^ 62"
  shows "abs_duration (since_unix now ts) = - (2 ^ 63)"
proof -
  have w: "wrap64 (ts + unix_to_internal) = ts + unix_to_internal"
    using assms(2,3) by (simp add: wrap64_def unix_to_internal_def)
  have d: "now + unix_to_internal * second - (ts + unix_to_internal) * second = now - ts * second" by (simp add: algebra_simps)
  have "now - ts * second < - (2 ^ 63)" using assms by (auto simp: second_def plain_time_def)
  then have s: "since_unix now ts = - (2 ^ 63)" unfolding since_unix_def w d by (simp add: saturate64_def)
  show ?thesis unfolding s by (simp add: abs_duration_def wrap64_def)
qed

lemma timestamp_window:
  assumes "timestamp_error now True raw = None" "parse_int64 raw = Some ts" "plain_time now" "0 \<le> ts" "ts \<le> 2 ^ 33"
  shows "\<bar>now - ts * second\<bar> \<le> webhook_timestamp_tolerance"
  using assms(1,2) since_unix_plain [OF assms(3-5)] by (auto simp: timestamp_error_def split: if_splits)

section \<open>What admission promises\<close>

text \<open>A call that is subject to the checks, and its digest.\<close>

definition checked_call :: "hook_call \<Rightarrow> bool" where
  "checked_call x \<longleftrightarrow> \<not> hc_session x \<and> ha_secret (hc_hook x) \<noteq> [] \<and> ha_require_timestamp (hc_hook x) \<and>
     ha_replay_protection (hc_hook x) \<noteq> Some False"

definition signed_content :: "hook_call \<Rightarrow> string \<times> string \<times> string" where
  "signed_content x = (ha_secret (hc_hook x), wr_header (hc_request x) timestamp_header, read_webhook_body (hc_request x))"

lemma checked_admitted:
  assumes "checked_call x" "fst (admit_webhook mac (hc_now x) (hc_hook x) (hc_session x) (hc_request x) c) = None"
    "signed_content x = (secret, raw, body)"
  shows "cache_call mac x = Some (hex_encode (preimage_digest mac secret raw body), hc_now x)"
    "timestamp_error (hc_now x) True raw = None" "wr_method (hc_request x) \<noteq> ''GET''"
    "wr_header (hc_request x) signature_header = signature_value (preimage_digest mac secret raw body)"
  using assms
  by (auto simp: checked_call_def signed_content_def cache_call_def admit_webhook_def verify_webhook_signature_secret_def Let_def
      split: if_splits option.splits sum.splits)

lemma remembered:
  assumes "admits_ok ttl now (h1 @ (d, t) # h2) c" "length h2 < 10000" "now \<le> now'" "now' - t < ttl"
    "\<forall>x \<in> set (h1 @ (d, t) # h2). now' - snd x \<noteq> ttl"
  shows "fst (replay_seen d now' c)"
proof -
  from assms(1) obtain now0 where n: "rc_ttl c = ttl" "rc_max c = 10000" "now0 \<le> now" "cache_ok now0 (h1 @ (d, t) # h2) c"
    unfolding admits_ok_def by blast
  have s: "sorted (map snd (h1 @ (d, t) # h2))" using n(4) unfolding cache_ok_def by blast
  have "now0 \<le> now'" "\<forall>x \<in> set (h1 @ (d, t) # h2). now' - snd x \<noteq> rc_ttl c" using n(1,3) assms(3,5) by simp_all
  note r = replay_seen_ok(1) [OF n(4) this, of d]
  have "(d, t) \<in> set (kept ttl 10000 now' (h1 @ (d, t) # h2))"
    unfolding kept_def filter_take_last [OF s, symmetric] using take_last_append [OF assms(2)] assms(4) by simp
  then show ?thesis unfolding r n(1,2) by force
qed

lemma sorted_last: "sorted (a # map f xs) \<Longrightarrow> \<forall>z \<in> set xs. f z \<le> b \<Longrightarrow> a \<le> b \<Longrightarrow> last (a # map f xs) \<le> b"
  by (cases xs rule: rev_cases) auto

lemma started_ok: "admits_ok webhook_replay_ttl now [] (new_replay_cache webhook_replay_ttl)"
  unfolding admits_ok_def using new_cache_ok [of webhook_replay_ttl now]
  by (auto simp: new_replay_cache_def webhook_replay_ttl_def second_def)

lemma admitted_is_remembered:
  assumes "sorted (map hc_now (pre @ x # mid @ [y]))" "\<forall>z \<in> set (pre @ x # mid @ [y]). 0 \<le> hc_now z"
    "\<And>z w. z \<in> set (pre @ x # mid @ [y]) \<Longrightarrow> w \<in> set (pre @ x # mid @ [y]) \<Longrightarrow> hc_now z - hc_now w \<noteq> webhook_replay_ttl"
    "cache_call mac x = Some (d, hc_now x)"
    "fst (admit_webhook mac (hc_now x) (hc_hook x) (hc_session x) (hc_request x)
       (snd (admit_all mac pre (new_replay_cache webhook_replay_ttl)))) = None"
    "hc_now y - hc_now x < webhook_replay_ttl" "length mid < 10000"
  shows "fst (replay_seen d (hc_now y) (snd (admit_all mac mid
      (snd (admit_webhook mac (hc_now x) (hc_hook x) (hc_session x) (hc_request x)
        (snd (admit_all mac pre (new_replay_cache webhook_replay_ttl))))))))"
proof -
  let ?c0 = "new_replay_cache webhook_replay_ttl"
  let ?c1 = "snd (admit_all mac pre ?c0)"
  let ?adm = "\<lambda>z c. admit_webhook mac (hc_now z) (hc_hook z) (hc_session z) (hc_request z) c"
  let ?c2 = "snd (?adm x ?c1)" and ?c3 = "snd (admit_all mac mid (snd (?adm x ?c1)))"
  have srt: "sorted (map hc_now pre)" "sorted (hc_now x # map hc_now mid)" "\<forall>z \<in> set pre. hc_now z \<le> hc_now x"
    "\<forall>z \<in> set mid. hc_now z \<le> hc_now y" "hc_now x \<le> hc_now y"
    using assms(1) by (auto simp: sorted_append)
  have tie: "\<forall>z \<in> set (pre @ x # mid @ [y]). \<forall>t \<in> hc_now ` set (pre @ x # mid @ [y]). hc_now z - t \<noteq> webhook_replay_ttl"
    using assms(3) by blast
  have "\<forall>z \<in> set pre. 0 \<le> hc_now z" using assms(2) by simp
  then have "sorted (0 # map hc_now pre)" "\<forall>z \<in> set pre. \<forall>t \<in> snd ` set [] \<union> hc_now ` set pre. hc_now z - t \<noteq> webhook_replay_ttl"
    using srt(1) tie by simp_all
  from admit_all_ok [OF started_ok this, of mac, unfolded append_Nil] obtain h1 where
    h1: "admits_ok webhook_replay_ttl (last (0 # map hc_now pre)) h1 ?c1" "snd ` set h1 \<subseteq> hc_now ` set pre" by blast
  have l1: "last (0 # map hc_now pre) \<le> hc_now x" using sorted_last [OF \<open>sorted (0 # map hc_now pre)\<close> srt(3)] assms(2) by simp
  have t1: "\<forall>z \<in> set h1. hc_now x - snd z \<noteq> webhook_replay_ttl" using h1(2) tie by auto
  have fresh: "\<not> fst (replay_seen d (hc_now x) ?c1)" using admit_cache(2) [OF assms(4), of ?c1] assms(5) by (simp split: if_splits)
  from admit_ok [OF h1(1) l1 t1, of mac] have h2: "admits_ok webhook_replay_ttl (hc_now x) (h1 @ [(d, hc_now x)]) ?c2"
    unfolding log_admit_def assms(4) using fresh by (simp add: log_call_def)
  have in2: "snd ` set (h1 @ [(d, hc_now x)]) \<subseteq> hc_now ` set (pre @ x # mid @ [y])" using h1(2) by auto
  have "\<forall>z \<in> set mid. \<forall>t \<in> snd ` set (h1 @ [(d, hc_now x)]) \<union> hc_now ` set mid. hc_now z - t \<noteq> webhook_replay_ttl"
    using in2 tie by (intro ballI) (auto simp: subset_iff)
  from admit_all_ok [OF h2 srt(2) this] obtain h3 where
    h3: "admits_ok webhook_replay_ttl (last (hc_now x # map hc_now mid)) ((h1 @ [(d, hc_now x)]) @ h3) ?c3"
      "length h3 \<le> length mid" "snd ` set h3 \<subseteq> hc_now ` set mid" by blast
  have l3: "last (hc_now x # map hc_now mid) \<le> hc_now y" by (rule sorted_last [OF srt(2,4,5)])
  have t3: "\<forall>z \<in> set (h1 @ (d, hc_now x) # h3). hc_now y - snd z \<noteq> webhook_replay_ttl" using h1(2) h3(3) tie by auto
  have "length h3 < 10000" using h3(2) assms(7) by simp
  from remembered [OF _ this l3 assms(6) t3, of ?c3] h3(1) show "fst (replay_seen d (hc_now y) ?c3)"
    by (simp only: append_assoc append_Cons append_Nil)
qed


text \<open>A hook with secret \<open>k\<close>, and a request with its signature.\<close>

definition ex_mac :: mac_fn where
  "ex_mac k m = k @ m"

definition ex_hook :: "bool \<Rightarrow> hook_auth" where
  "ex_hook required = \<lparr>ha_secret = ''k'', ha_require_timestamp = required, ha_replay_protection = None\<rparr>"

definition ex_request :: "string \<Rightarrow> string \<Rightarrow> string \<Rightarrow> webhook_request" where
  "ex_request sig raw body = \<lparr>wr_method = ''POST'', wr_path = ''/hooks/a'',
     wr_header = (\<lambda>h. if h = signature_header then sig else if h = timestamp_header then raw else []),
     wr_query = [], wr_body = body\<rparr>"

definition ex_call :: "time \<Rightarrow> bool \<Rightarrow> webhook_request \<Rightarrow> hook_call" where
  "ex_call now required r = \<lparr>hc_now = now, hc_hook = ex_hook required, hc_session = False, hc_request = r\<rparr>"

definition ex_signed :: "string \<Rightarrow> webhook_request" where
  "ex_signed raw = ex_request (signature_value (preimage_digest ex_mac ''k'' raw ''b'')) raw ''b''"

lemmas ex_webhook_defs = ex_call_def ex_hook_def ex_signed_def ex_request_def signature_header_def timestamp_header_def

lemma ex_timestamp: "parse_int64 ''1000'' = Some 1000" "parse_int64 ''99999999999'' = Some 99999999999"
  by code_simp+

lemma ex_digest: "take webhook_max_body_bytes ''b'' = ''b''"
  by (simp add: webhook_max_body_bytes_def)

lemma ex_admitted:
  assumes "timestamp_error now required raw = None"
  shows "fst (admit_webhook ex_mac now (ex_hook required) False (ex_signed raw) (new_replay_cache webhook_replay_ttl)) = None"
  using assms
  by (simp add: admit_webhook_def verify_webhook_signature_secret_def read_webhook_body_def ex_webhook_defs ex_digest Let_def
      signature_value_def check_webhook_replay_def replay_seen_def evict_expired_def new_replay_cache_def)


text \<open>C37. A timestamp far enough ahead never expires. From the year 2514 on, the distance to the timestamp does not fit a
  \<open>time.Duration\<close>: \<open>time.Since\<close> returns the least one, its negation overflows to itself, and the comparison with
  five minutes succeeds. A request signed with such a timestamp is admitted, and admitted again as
  soon as the cache has forgotten it, although the hook requires a timestamp.\<close>

theorem far_timestamp_never_expires:
  assumes "parse_int64 (wr_header r timestamp_header) = Some ts" "2 ^ 34 \<le> ts" "ts \<le> 2 ^ 62" "ha_secret h \<noteq> []"
    "wr_method r \<noteq> ''GET''" "plain_time t1" "plain_time t2" "webhook_replay_ttl < t2 - t1"
    "wr_header r signature_header =
       signature_value (preimage_digest mac (ha_secret h) (wr_header r timestamp_header) (read_webhook_body r))"
  shows "fst (admit_all mac [\<lparr>hc_now = t1, hc_hook = h, hc_session = False, hc_request = r\<rparr>,
      \<lparr>hc_now = t2, hc_hook = h, hc_session = False, hc_request = r\<rparr>] (new_replay_cache webhook_replay_ttl)) = [None, None]"
proof -
  have raw: "wr_header r timestamp_header \<noteq> []" using assms(1) by (auto simp: parse_int64_def Let_def split: if_splits)
  have sig: "signature_value x \<noteq> []" for x by (simp add: signature_value_def)
  have te: "timestamp_error t b (wr_header r timestamp_header) = None" if "plain_time t" for t b
    using since_unix_far [OF that assms(2,3)] assms(1) raw by (simp add: timestamp_error_def webhook_timestamp_tolerance_def second_def)
  have v: "verify_webhook_signature_secret mac t (ha_secret h) b r (read_webhook_body r) =
      Inr (wr_header r timestamp_header, Some (preimage_digest mac (ha_secret h) (wr_header r timestamp_header) (read_webhook_body r)))"
    if "plain_time t" for t b
    unfolding verify_webhook_signature_secret_def using assms(4,5,9) te [OF that] sig by (simp add: Let_def)
  show ?thesis
    using assms(8) by (auto simp: admit_webhook_def v [OF assms(6)] v [OF assms(7)] check_webhook_replay_def assms(4) replay_seen_def
        evict_expired_def new_replay_cache_def Let_def)
qed

theorem far_timestamp_never_expires_witness:
  "fst (admit_all ex_mac [ex_call 0 True (ex_signed ''99999999999''), ex_call (4000 * second) True (ex_signed ''99999999999'')]
     (new_replay_cache webhook_replay_ttl)) = [None, None]"
proof -
  let ?r = "ex_signed ''99999999999''"
  have r: "wr_header ?r timestamp_header = ''99999999999''" "wr_method ?r = ''POST''" "read_webhook_body ?r = ''b''"
    "wr_header ?r signature_header = signature_value (preimage_digest ex_mac ''k'' ''99999999999'' ''b'')"
    by (simp_all add: ex_webhook_defs read_webhook_body_def ex_digest)
  have "plain_time 0" "plain_time (4000 * second)" "webhook_replay_ttl < 4000 * second - 0"
    by (simp_all add: plain_time_def second_def webhook_replay_ttl_def)
  from far_timestamp_never_expires [of ?r 99999999999 "ex_hook True", OF _ _ _ _ _ this] r ex_timestamp(2)
  show ?thesis by (simp add: ex_call_def) (simp add: ex_hook_def)
qed

text \<open>C38. A timestamp that is not required can be stripped. The digest of a timestamp and a body is the digest of the
  body that starts with the timestamp and a line feed. Who saw a signed request can send that body
  without the timestamp header, and the signature is accepted at any time; only the replay cache, for its hour,
  refuses the second of the two.\<close>

theorem timestamp_can_be_stripped:
  assumes "verify_webhook_signature_secret mac now secret b r body = Inr (raw, Some digest)" "raw \<noteq> []"
    "wr_header r' timestamp_header = []" "wr_header r' signature_header = wr_header r signature_header" "wr_method r' \<noteq> ''GET''"
  shows "verify_webhook_signature_secret mac now' secret False r' (raw @ newline @ body) = Inr ([], Some digest)"
  using assms
  by (auto simp: verify_webhook_signature_secret_def timestamp_error_def preimage_digest_def Let_def split: if_splits option.splits)

theorem timestamp_can_be_stripped_witness:
  "verify_webhook_signature_secret ex_mac (10 ^ 15) ''k'' False
     (ex_request (signature_value (preimage_digest ex_mac ''k'' ''1000'' ''b'')) [] (''1000'' @ newline @ ''b'')) (''1000'' @ newline @ ''b'') =
   Inr ([], Some (preimage_digest ex_mac ''k'' ''1000'' ''b''))"
proof -
  have "timestamp_error (1001 * second) True ''1000'' = None"
    using since_unix_plain [of "1001 * second" 1000]
    by (simp add: timestamp_error_def ex_timestamp plain_time_def second_def webhook_timestamp_tolerance_def)
  then have "verify_webhook_signature_secret ex_mac (1001 * second) ''k'' True (ex_signed ''1000'') ''b'' =
      Inr (''1000'', Some (preimage_digest ex_mac ''k'' ''1000'' ''b''))"
    by (simp add: verify_webhook_signature_secret_def ex_webhook_defs signature_value_def Let_def)
  from timestamp_can_be_stripped [OF this] show ?thesis by (simp add: ex_webhook_defs)
qed

end
