(* ===== verification/WebhookHttp.thy ===== *)
theory WebhookHttp
  imports Gateway WebhookSign SpecValidate
begin

text \<open>
  The HTTP side of webhooks: the guard in front of the gateway (pkg/webui/auth.go), the handler with
  its payloads, assets and user interfaces (pkg/trigger/webhook.go), and the containment of paths
  (internal/pathguard). The file system, \<open>ParseForm\<close> and the JSON decoder are arguments; what a request
  ends in is a value, the run it fires is that of RunLifecycle.
\<close>

section \<open>Containment of paths\<close>

definition path_join :: "path list \<Rightarrow> path" where
  "path_join ps = (let qs = filter (\<lambda>p. p \<noteq> []) ps in if qs = [] then [] else clean_path (join_with ''/'' qs))"

definition path_within :: "path \<Rightarrow> path \<Rightarrow> bool" where
  "path_within root p =
     (let r = clean_path root; q = clean_path p
      in q = r \<or> has_prefix (if has_suffix ''/'' r then r else r @ ''/'') q)"

text \<open>\<open>filepath.Dir\<close> and \<open>filepath.Base\<close>.\<close>

definition path_dir :: "path \<Rightarrow> path" where
  "path_dir p = (case last_index CHR ''/'' p of None \<Rightarrow> ''.'' | Some i \<Rightarrow> clean_path (take (Suc i) p))"

definition path_base :: "path \<Rightarrow> path" where
  "path_base p =
     (if p = [] then ''.''
      else (let q = rev (dropWhile (\<lambda>c. c = CHR ''/'') (rev p));
                b = (case last_index CHR ''/'' q of None \<Rightarrow> q | Some i \<Rightarrow> drop (Suc i) q)
            in if b = [] then ''/'' else b))"

text \<open>What \<open>filepath.EvalSymlinks\<close> says of a path.\<close>

datatype link_result = Resolved path | NotExist | LinkError

text \<open>The loop of \<open>ResolveExisting\<close> over the ancestors of a path, at most as many as it has characters.\<close>

fun resolve_ancestors :: "(path \<Rightarrow> link_result) \<Rightarrow> nat \<Rightarrow> path \<Rightarrow> path list \<Rightarrow> path option" where
  "resolve_ancestors links 0 p below = None"
| "resolve_ancestors links (Suc n) p below =
     (case links p of
        Resolved r \<Rightarrow> Some (if below = [] then r else path_join (r # below))
      | LinkError \<Rightarrow> None
      | NotExist \<Rightarrow> (let d = path_dir p in if d = p then None else resolve_ancestors links n d (path_base p # below)))"

definition resolve_existing :: "(path \<Rightarrow> link_result) \<Rightarrow> path \<Rightarrow> path option" where
  "resolve_existing links p = (let q = clean_path p in resolve_ancestors links (length q + 2) q [])"

text \<open>\<open>WithinResolved\<close>; an error is not within.\<close>

definition within_resolved :: "(path \<Rightarrow> link_result) \<Rightarrow> path \<Rightarrow> path \<Rightarrow> bool" where
  "within_resolved links root p =
     (case links (clean_path root) of
        Resolved r \<Rightarrow> (case resolve_existing links p of Some q \<Rightarrow> path_within r q | None \<Rightarrow> False)
      | _ \<Rightarrow> False)"

section \<open>Payloads\<close>

definition flatten_values :: "(string \<times> string list) list \<Rightarrow> json" where
  "flatten_values vals = JObj (map (\<lambda>(k, v). (k, case v of [x] \<Rightarrow> JStr x | _ \<Rightarrow> JArr (map JStr v))) vals)"

record hook_env =
  he_mac :: mac_fn
  he_now :: time
  he_file :: "path \<Rightarrow> string option"
  he_links :: "path \<Rightarrow> link_result"
  he_form :: "webhook_request \<Rightarrow> string \<Rightarrow> (string \<times> string list) list option"
  he_json :: "string \<Rightarrow> json option"

definition form_type :: string where
  "form_type = ''application/x-www-form-urlencoded''"

text \<open>The input and whether a form was submitted. What is no JSON leaves the input nil.\<close>

definition decode_webhook_payload :: "hook_env \<Rightarrow> webhook_request \<Rightarrow> string \<Rightarrow> json \<times> bool" where
  "decode_webhook_payload ev r body =
     (if wr_method r = ''GET'' then (if wr_query r \<noteq> [] then flatten_values (wr_query r) else JNull, False)
      else if contains_sub form_type (wr_header r ''Content-Type'') then
        (case he_form ev r body of Some vals \<Rightarrow> (flatten_values vals, True) | None \<Rightarrow> (JNull, False))
      else (if body = [] then JNull else case he_json ev body of Some v \<Rightarrow> v | None \<Rightarrow> JNull, False))"

section \<open>User interfaces and assets\<close>

text \<open>\<open>filepath.Ext\<close>.\<close>

fun ext_back :: "string \<Rightarrow> string \<Rightarrow> string" where
  "ext_back acc [] = []"
| "ext_back acc (c # cs) = (if c = CHR ''/'' then [] else if c = CHR ''.'' then c # acc else ext_back (c # acc) cs)"

definition path_ext :: "path \<Rightarrow> string" where
  "path_ext p = ext_back [] (rev p)"

definition allowed_asset_types :: "(string \<times> string) list" where
  "allowed_asset_types =
     [(''.html'', ''text/html; charset=utf-8''), (''.css'', ''text/css; charset=utf-8''),
      (''.js'', ''application/javascript; charset=utf-8''), (''.json'', ''application/json; charset=utf-8''),
      (''.svg'', ''image/svg+xml''), (''.png'', ''image/png''), (''.jpg'', ''image/jpeg''), (''.jpeg'', ''image/jpeg''),
      (''.ico'', ''image/x-icon''), (''.woff'', ''font/woff''), (''.woff2'', ''font/woff2'')]"

text \<open>\<open>html.EscapeString\<close>.\<close>

definition quote_char :: char where
  "quote_char = CHR 0x22"

definition escape_char :: "char \<Rightarrow> string" where
  "escape_char c =
     (if c = CHR ''<'' then ''&lt;'' else if c = CHR ''>'' then ''&gt;'' else if c = CHR ''&'' then ''&amp;''
      else if c = CHR 0x27 then ''&#39;'' else if c = quote_char then ''&#34;'' else [c])"

definition escape_html :: "string \<Rightarrow> string" where
  "escape_html s = concat (map escape_char s)"

definition is_valid_relay_base :: "string \<Rightarrow> bool" where
  "is_valid_relay_base s =
     (has_prefix ''/u/'' s \<and> length s = 67 \<and> list_all (\<lambda>c. is_digit c \<or> char_between CHR ''a'' CHR ''f'' c) (drop 3 s))"

fun index_sub :: "'a list \<Rightarrow> 'a list \<Rightarrow> nat option" where
  "index_sub p [] = (if p = [] then Some 0 else None)"
| "index_sub p (c # s) = (if has_prefix p (c # s) then Some 0 else map_option Suc (index_sub p s))"

definition quoted :: "string \<Rightarrow> string" where
  "quoted s = [quote_char] @ s @ [quote_char]"

definition sdk_tags :: "string \<Rightarrow> string \<Rightarrow> string \<Rightarrow> string" where
  "sdk_tags basePath taskID src =
     ''<base href='' @ quoted (escape_html basePath @ ''/'') @ ''>'' @
     ''<meta name='' @ quoted ''dicode-task'' @ '' content='' @ quoted (escape_html taskID) @ ''>'' @
     ''<meta name='' @ quoted ''dicode-hook'' @ '' content='' @ quoted (escape_html basePath) @ ''>'' @
     ''<script src='' @ quoted (escape_html src) @ ''></script>''"

definition inject_sdk :: "string \<Rightarrow> string \<Rightarrow> string \<Rightarrow> string \<Rightarrow> string" where
  "inject_sdk doc hookPath taskID relayHeader =
     (let relayBase = (if relayHeader \<noteq> [] \<and> \<not> is_valid_relay_base relayHeader then [] else relayHeader);
          basePath = (if relayBase \<noteq> [] then relayBase @ hookPath else hookPath);
          src = (if relayBase \<noteq> [] then relayBase @ ''/dicode.js'' else ''/dicode.js'');
          injection = sdk_tags basePath taskID src
      in case index_sub ''<head>'' doc of
           Some i \<Rightarrow> take (i + 6) doc @ newline @ injection @ drop (i + 6) doc
         | None \<Rightarrow> injection @ newline @ doc)"

datatype asset_refusal = PathForbidden | TypeNotAllowed

datatype hook_reply =
    HookNotFound
  | TaskNotFound
  | HookDenied
  | HookRejected rejection
  | AssetRefused asset_refusal
  | ServedUI task_id string
  | ServedAsset task_id path string
  | AssetMissing
  | FireRun task_id json "(string \<times> string) list" bool bool
  | FireStages task_id json "(string \<times> string) list"

definition serve_task_ui :: "hook_env \<Rightarrow> webhook_request \<Rightarrow> path \<Rightarrow> string \<Rightarrow> task_id \<Rightarrow> hook_reply option" where
  "serve_task_ui ev r taskDir hookPath taskID =
     (case he_file ev (path_join [taskDir, ''index.html'']) of
        None \<Rightarrow> None
      | Some doc \<Rightarrow> Some (ServedUI taskID (inject_sdk doc hookPath taskID (wr_header r ''X-Relay-Base''))))"

definition serve_task_asset :: "hook_env \<Rightarrow> task_id \<Rightarrow> path \<Rightarrow> path \<Rightarrow> hook_reply" where
  "serve_task_asset ev taskID taskDir assetPath =
     (if contains_sub ''..'' assetPath then AssetRefused PathForbidden
      else (let clean = clean_path assetPath in
        if is_abs clean then AssetRefused PathForbidden
        else (case map_of allowed_asset_types (to_lower (path_ext clean)) of
                None \<Rightarrow> AssetRefused TypeNotAllowed
              | Some ct \<Rightarrow>
                  (let full = path_join [taskDir, clean] in
                   if \<not> within_resolved (he_links ev) taskDir full then AssetRefused PathForbidden
                   else (case he_file ev full of None \<Rightarrow> AssetMissing | Some dat \<Rightarrow> ServedAsset taskID full ct)))))"

section \<open>The handler\<close>

definition query_get :: "(string \<times> string list) list \<Rightarrow> string \<Rightarrow> string" where
  "query_get q k = (case map_of q k of Some (x # _) \<Rightarrow> x | _ \<Rightarrow> [])"

fun hook_auth_of :: "kinded \<Rightarrow> hook_auth" where
  "hook_auth_of (KSpec s) = (let t = sp_trigger s in \<lparr>ha_secret = tc_webhook_secret t,
     ha_require_timestamp = (tc_require_timestamp t = Some True), ha_replay_protection = tc_replay_protection t\<rparr>)"
| "hook_auth_of (KPipeline p) = (let t = pl_trigger p in \<lparr>ha_secret = pt_webhook_secret t,
     ha_require_timestamp = (pt_require_timestamp t = Some True), ha_replay_protection = pt_replay_protection t\<rparr>)"

definition fire_webhook_task ::
    "hook_env \<Rightarrow> spec \<Rightarrow> task_id \<Rightarrow> bool \<Rightarrow> webhook_request \<Rightarrow> replay_cache \<Rightarrow> hook_reply \<times> replay_cache" where
  "fire_webhook_task ev s tid session r c =
     (case decode_webhook_payload ev r (read_webhook_body r) of (input, isForm) \<Rightarrow>
        (case admit_webhook (he_mac ev) (he_now ev) (hook_auth_of (KSpec s)) session r c of
           (Some rej, c1) \<Rightarrow> (HookRejected rej, c1)
         | (None, c1) \<Rightarrow>
             (FireRun tid input (flat_string_map input) (query_get (wr_query r) ''wait'' = ''false'') isForm, c1)))"

definition handle_pipeline_webhook ::
    "hook_env \<Rightarrow> pipeline_task \<Rightarrow> task_id \<Rightarrow> path \<Rightarrow> bool \<Rightarrow> webhook_request \<Rightarrow> replay_cache \<Rightarrow> hook_reply \<times> replay_cache" where
  "handle_pipeline_webhook ev p tid assetPath session r c =
     (if assetPath \<noteq> [] then (HookNotFound, c)
      else (case decode_webhook_payload ev r (read_webhook_body r) of (input, isForm) \<Rightarrow>
        (case admit_webhook (he_mac ev) (he_now ev) (hook_auth_of (KPipeline p)) session r c of
           (Some rej, c1) \<Rightarrow> (HookRejected rej, c1)
         | (None, c1) \<Rightarrow> (FireStages tid input (flat_string_map input), c1))))"

definition webhook_handler ::
    "hook_env \<Rightarrow> reg_engine \<Rightarrow> bool \<Rightarrow> webhook_request \<Rightarrow> replay_cache \<Rightarrow> hook_reply \<times> replay_cache" where
  "webhook_handler ev e session r c =
     (case resolve_webhook_path (wr_path r) e of
        None \<Rightarrow> (HookNotFound, c)
      | Some (tid, hook, assetPath) \<Rightarrow>
          (case get_kinded tid (re_tasks e) of
             None \<Rightarrow> (TaskNotFound, c)
           | Some (KPipeline p) \<Rightarrow> handle_pipeline_webhook ev p tid assetPath session r c
           | Some (KSpec s) \<Rightarrow>
               if assetPath \<noteq> [] then
                 (if contains_sub ''..'' assetPath then (AssetRefused PathForbidden, c)
                  else (case (if wr_method r = ''GET'' \<and> path_ext assetPath = [] then serve_task_ui ev r (sp_task_dir s) hook tid else None) of
                          Some reply \<Rightarrow> (reply, c)
                        | None \<Rightarrow> (serve_task_asset ev tid (sp_task_dir s) assetPath, c)))
               else (case (if wr_method r = ''GET'' then serve_task_ui ev r (sp_task_dir s) hook tid else None) of
                       Some reply \<Rightarrow> (reply, c)
                     | None \<Rightarrow> fire_webhook_task ev s tid session r c)))"

section \<open>The guard\<close>

datatype webhook_auth_outcome = WebhookPass | WebhookPassSession | WebhookHMAC | WebhookDeny

definition resolve_webhook_auth :: "webhook_auth \<Rightarrow> bool \<Rightarrow> bool \<Rightarrow> string \<Rightarrow> bool \<Rightarrow> bool \<Rightarrow> webhook_auth_outcome" where
  "resolve_webhook_auth mode hasSecret isAsset meth relayed hasSession =
     (if mode = AuthNone then WebhookPass
      else (let canHMAC = (mode = AuthAny \<and> hasSecret \<and> meth \<noteq> ''GET'' \<and> \<not> isAsset) in
        if relayed then (if canHMAC then WebhookHMAC else WebhookDeny)
        else if hasSession then (if mode = AuthAny then WebhookPassSession else WebhookPass)
        else if canHMAC then WebhookHMAC else WebhookDeny))"

record webhook_auth_info =
  wi_matched :: bool
  wi_task :: task_id
  wi_mode :: webhook_auth
  wi_has_secret :: bool
  wi_is_asset :: bool

definition no_auth_info :: webhook_auth_info where
  "no_auth_info = \<lparr>wi_matched = False, wi_task = [], wi_mode = AuthNone, wi_has_secret = False, wi_is_asset = False\<rparr>"

fun webhook_mode :: "kinded \<Rightarrow> webhook_auth" where
  "webhook_mode (KSpec s) = tc_webhook_auth (sp_trigger s)"
| "webhook_mode (KPipeline p) = pt_webhook_auth (pl_trigger p)"

definition resolve_auth_info :: "string \<Rightarrow> reg_engine \<Rightarrow> webhook_auth_info" where
  "resolve_auth_info path e =
     (case resolve_webhook_path path e of
        None \<Rightarrow> no_auth_info
      | Some (tid, hook, assetPath) \<Rightarrow>
          (case get_kinded tid (re_tasks e) of
             None \<Rightarrow> no_auth_info
           | Some k \<Rightarrow> \<lparr>wi_matched = True, wi_task = tid, wi_mode = webhook_mode k,
               wi_has_secret = (ha_secret (hook_auth_of k) \<noteq> []), wi_is_asset = (assetPath \<noteq> [])\<rparr>))"

text \<open>\<open>webhookAuthGuard\<close> in front of the webhook endpoint. Whether the request has a valid session is looked
  at only where the code does.\<close>

definition guarded_webhook ::
    "hook_env \<Rightarrow> reg_engine \<Rightarrow> bool \<Rightarrow> webhook_request \<Rightarrow> replay_cache \<Rightarrow> hook_reply \<times> replay_cache" where
  "guarded_webhook ev e validSession r c =
     (let info = resolve_auth_info (wr_path r) e in
      if wi_mode info = AuthNone then webhook_handler ev e False r c
      else (let relayed = (wr_header r ''X-Relay-Base'' \<noteq> []);
                hasSession = (\<not> relayed \<and> validSession)
            in case resolve_webhook_auth (wi_mode info) (wi_has_secret info) (wi_is_asset info) (wr_method r) relayed hasSession of
                 WebhookPassSession \<Rightarrow> webhook_handler ev e True r c
               | WebhookHMAC \<Rightarrow> webhook_handler ev e False r c
               | WebhookPass \<Rightarrow> webhook_handler ev e False r c
               | WebhookDeny \<Rightarrow> (HookDenied, c)))"

section \<open>What the caller of a synchronous run gets\<close>

record sync_result =
  sy_content :: string
  sy_content_type :: string
  sy_return :: "json option"
  sy_error :: "string option"

text \<open>The status, and the envelope the body is written in.\<close>

datatype hook_body = Redirect string | Content string string | ReturnJson json | ErrorPage string string "string list"
  | ErrorJson run_id string "string list" | SuccessJson run_id "string list"

definition sync_reply :: "run_id \<Rightarrow> sync_result \<Rightarrow> string list \<Rightarrow> bool \<Rightarrow> string \<Rightarrow> nat \<times> hook_body" where
  "sync_reply i y logs isForm accept =
     (if isForm then (303, Redirect (''/runs/'' @ i @ ''/result''))
      else if sy_content y \<noteq> [] then
        (if sy_error y \<noteq> None then 500 else 200,
         Content ((if sy_content_type y = [] then ''text/plain'' else sy_content_type y) @ ''; charset=utf-8'') (sy_content y))
      else (case sy_return y of
              Some v \<Rightarrow> (if sy_error y \<noteq> None then 500 else 200, ReturnJson v)
            | None \<Rightarrow>
                (case sy_error y of
                   Some err \<Rightarrow>
                     if contains_sub ''text/html'' accept then (500, ErrorPage (escape_html i) (escape_html err) logs)
                     else (500, ErrorJson i err logs)
                 | None \<Rightarrow> (200, SuccessJson i logs))))"

end
