(* ===== verification/WebhookHttpSafety.thy ===== *)
theory WebhookHttpSafety
  imports WebhookHttp WebhookSignSafety
begin

text \<open>
  What guard and handler guarantee together: whatever a webhook serves or fires was authorised as the
  task that owns the path declares; the containment check is that of the directory tree; and what
  the handler writes into a page is inert.
\<close>

section \<open>Directories\<close>

definition path_segments :: "path \<Rightarrow> string list" where
  "path_segments p = clean_onto (is_abs p) [] (split_on CHR ''/'' p)"

definition plain_segment :: "string \<Rightarrow> bool" where
  "plain_segment g \<longleftrightarrow> g \<noteq> [] \<and> CHR ''/'' \<notin> set g"

lemma plain_parent [simp]: "plain_segment ''..''"
  by (simp add: plain_segment_def)

lemma clean_onto_segments:
  "list_all plain_segment acc \<Longrightarrow> list_all (\<lambda>g. CHR ''/'' \<notin> set g) gs \<Longrightarrow> list_all plain_segment (clean_onto rooted acc gs)"
proof (induction rooted acc gs rule: clean_onto.induct)
  case (1 rooted acc)
  then show ?case by (simp add: list_all_iff)
next
  case (2 rooted acc h hs)
  have h: "plain_segment h" if "h \<noteq> []" using that 2 by (simp add: plain_segment_def)
  from 2 h show ?case by (cases acc) simp_all
qed

lemma segments_plain: "g \<in> set (path_segments p) \<Longrightarrow> g \<noteq> [] \<and> CHR ''/'' \<notin> set g"
proof -
  have "list_all (\<lambda>g. CHR ''/'' \<notin> set g) (split_on CHR ''/'' p)" using split_on_no_sep by (fastforce simp: list_all_iff)
  from clean_onto_segments [OF _ this, of "[]" "is_abs p"]
  show "g \<in> set (path_segments p) \<Longrightarrow> g \<noteq> [] \<and> CHR ''/'' \<notin> set g"
    by (simp add: path_segments_def list_all_iff plain_segment_def)
qed

lemma clean_abs: "is_abs p \<Longrightarrow> clean_path p = CHR ''/'' # join_with ''/'' (path_segments p)"
  by (simp add: clean_path_def path_segments_def Let_def)

lemma join_append: "gs \<noteq> [] \<Longrightarrow> hs \<noteq> [] \<Longrightarrow> join_with sep (gs @ hs) = join_with sep gs @ sep @ join_with sep hs"
proof (induction sep gs rule: join_with.induct)
  case (2 sep w)
  then show ?case by (cases hs) simp_all
qed simp_all

lemma join_inject:
  assumes "\<forall>g \<in> set gs. CHR ''/'' \<notin> set g" "\<forall>h \<in> set hs. CHR ''/'' \<notin> set h" "gs \<noteq> []" "hs \<noteq> []"
    "join_with ''/'' gs = join_with ''/'' hs"
  shows "gs = hs"
  using split_join [of gs "CHR ''/''"] split_join [of hs "CHR ''/''"] assms by metis

lemma split_append: "split_on c (s @ c # t) = split_on c s @ split_on c t"
  by (induction s) (auto split: list.splits)

lemma last_join: "gs \<noteq> [] \<Longrightarrow> \<forall>g \<in> set gs. g \<noteq> [] \<and> CHR ''/'' \<notin> set g \<Longrightarrow> join_with ''/'' gs \<noteq> [] \<and> last (join_with ''/'' gs) \<noteq> CHR ''/''"
proof (induction gs rule: induct_list012)
  case (2 w)
  then show ?case by (auto dest: last_in_set)
next
  case (3 w v ws)
  then show ?case by simp
qed simp

text \<open>The containment check is the directory tree. Of two absolute paths, the second lies within the first exactly
  when its segments, after \<open>.\<close>, \<open>..\<close> and empty segments are resolved, continue those of the first: no
  sibling whose name starts like the directory's passes, and no path that climbs out.\<close>

lemma path_within_is_subtree:
  assumes "is_abs root" "is_abs p"
  shows "path_within root p \<longleftrightarrow> (\<exists>rest. path_segments p = path_segments root @ rest)"
proof -
  let ?rs = "path_segments root" and ?qs = "path_segments p"
  have rs: "\<forall>g \<in> set ?rs. g \<noteq> [] \<and> CHR ''/'' \<notin> set g" and qs: "\<forall>g \<in> set ?qs. g \<noteq> [] \<and> CHR ''/'' \<notin> set g"
    using segments_plain by blast+
  note c = clean_abs [OF assms(1)] clean_abs [OF assms(2)]
  show ?thesis
  proof (cases "?rs = []")
    case True
    then show ?thesis by (simp add: path_within_def c has_suffix_def Let_def)
  next
    case False
    note l = last_join [OF False rs]
    have ns: "\<not> has_suffix ''/'' (CHR ''/'' # join_with ''/'' ?rs)"
      using l by (auto simp: has_suffix_iff) (metis append_butlast_last_id last_snoc snoc_eq_iff_butlast append_Cons)
    have split: "split_on CHR ''/'' (join_with ''/'' ?rs) = ?rs" using split_join [OF False, of "CHR ''/''"] rs by simp
    have w: "path_within root p \<longleftrightarrow> join_with ''/'' ?qs = join_with ''/'' ?rs \<or> (\<exists>t. join_with ''/'' ?qs = join_with ''/'' ?rs @ CHR ''/'' # t)"
      using ns by (simp add: path_within_def c Let_def has_prefix_iff)
    show ?thesis
    proof
      assume "path_within root p"
      then have q: "join_with ''/'' ?qs = join_with ''/'' ?rs \<or> (\<exists>t. join_with ''/'' ?qs = join_with ''/'' ?rs @ CHR ''/'' # t)" by (simp only: w)
      then have ne: "?qs \<noteq> []" using l by auto
      have "split_on CHR ''/'' (join_with ''/'' ?qs) = ?qs" using split_join [OF ne, of "CHR ''/''"] qs by simp
      with q split split_append show "\<exists>rest. ?qs = ?rs @ rest" by (metis append_Nil2)
    next
      assume "\<exists>rest. ?qs = ?rs @ rest"
      then obtain rest where r: "?qs = ?rs @ rest" by blast
      show "path_within root p"
      proof (cases "rest = []")
        case False
        with join_append [OF \<open>?rs \<noteq> []\<close> this, of "''/''"] show ?thesis by (simp add: w r)
      qed (simp add: w r)
    qed
  qed
qed

lemma path_within_is_subtree_witness:
  "path_within ''/srv/tasks/'' ''/srv/tasks/a/../b'' \<and> \<not> path_within ''/srv/tasks'' ''/srv/tasks-evil''"
proof -
  have s: "path_segments ''/srv/tasks/'' = [''srv'', ''tasks'']" "path_segments ''/srv/tasks/a/../b'' = [''srv'', ''tasks'', ''b'']"
    "path_segments ''/srv/tasks'' = [''srv'', ''tasks'']" "path_segments ''/srv/tasks-evil'' = [''srv'', ''tasks-evil'']"
    by (simp_all add: path_segments_def is_abs_def)
  show ?thesis
    using path_within_is_subtree [of "''/srv/tasks/''" "''/srv/tasks/a/../b''"] path_within_is_subtree [of "''/srv/tasks''" "''/srv/tasks-evil''"]
    by (simp add: s is_abs_def)
qed

section \<open>Pages\<close>

lemma escape_char_inert: "set (escape_char c) \<inter> {CHR ''<'', CHR ''>'', CHR 0x27, quote_char} = {}"
  by (auto simp: escape_char_def quote_char_def)

lemma escape_html_inert: "set (escape_html s) \<inter> {CHR ''<'', CHR ''>'', CHR 0x27, quote_char} = {}"
  using escape_char_inert by (auto simp: escape_html_def)

section \<open>Authorisation\<close>

text \<open>What a reply does for a task: nothing, show its pages, or run it.\<close>

fun hook_effect :: "hook_reply \<Rightarrow> (task_id \<times> bool) option" where
  "hook_effect (ServedUI t doc) = Some (t, False)"
| "hook_effect (ServedAsset t p ct) = Some (t, False)"
| "hook_effect (FireRun t input ps async isForm) = Some (t, True)"
| "hook_effect (FireStages t input ps) = Some (t, True)"
| "hook_effect _ = None"

definition signed_request :: "hook_env \<Rightarrow> kinded \<Rightarrow> webhook_request \<Rightarrow> bool" where
  "signed_request ev k r \<longleftrightarrow>
     wr_method r \<noteq> ''GET'' \<and> ha_secret (hook_auth_of k) \<noteq> [] \<and>
     timestamp_error (he_now ev) (ha_require_timestamp (hook_auth_of k)) (wr_header r timestamp_header) = None \<and>
     wr_header r signature_header =
       signature_value (preimage_digest (he_mac ev) (ha_secret (hook_auth_of k)) (wr_header r timestamp_header) (read_webhook_body r))"

lemma admit_signed:
  assumes "fst (admit_webhook (he_mac ev) (he_now ev) (hook_auth_of k) False r c) = None" "ha_secret (hook_auth_of k) \<noteq> []"
  shows "signed_request ev k r"
  using assms by (auto simp: admit_webhook_def verify_webhook_signature_secret_def signed_request_def Let_def split: if_splits option.splits)

lemma fire_task_effect:
  assumes "hook_effect (fst (fire_webhook_task ev s tid session r c)) = Some (t, fires)"
  shows "t = tid \<and> fires \<and> (\<not> session \<and> ha_secret (hook_auth_of (KSpec s)) \<noteq> [] \<longrightarrow> signed_request ev (KSpec s) r)"
  using assms admit_signed [of ev "KSpec s" r c]
  by (auto simp: fire_webhook_task_def simp del: hook_auth_of.simps split: prod.splits option.splits)

lemma fire_pipeline_effect:
  assumes "hook_effect (fst (handle_pipeline_webhook ev p tid assetPath session r c)) = Some (t, fires)"
  shows "t = tid \<and> fires \<and> assetPath = [] \<and> (\<not> session \<and> ha_secret (hook_auth_of (KPipeline p)) \<noteq> [] \<longrightarrow> signed_request ev (KPipeline p) r)"
  using assms admit_signed [of ev "KPipeline p" r c]
  by (auto simp: handle_pipeline_webhook_def simp del: hook_auth_of.simps split: prod.splits option.splits if_splits)

lemma asset_effect: "hook_effect (serve_task_asset ev tid dir p) = Some (t, fires) \<Longrightarrow> t = tid \<and> \<not> fires"
  by (auto simp: serve_task_asset_def Let_def split: if_splits option.splits)

lemma ui_effect: "serve_task_ui ev r dir hook tid = Some reply \<Longrightarrow> hook_effect reply = Some (tid, False)"
  by (auto simp: serve_task_ui_def split: option.splits)

text \<open>The handler alone: the task is the one the path resolves to, what fires is the hook itself, and without a
  session a secret means a signature.\<close>

lemma handler_effect:
  assumes "hook_effect (fst (webhook_handler ev e session r c)) = Some (t, fires)"
  shows "\<exists>hook assetPath k. resolve_webhook_path (wr_path r) e = Some (t, hook, assetPath) \<and> get_kinded t (re_tasks e) = Some k \<and>
    (fires \<longrightarrow> assetPath = [] \<and> (\<not> session \<and> ha_secret (hook_auth_of k) \<noteq> [] \<longrightarrow> signed_request ev k r)) \<and>
    (\<not> fires \<longrightarrow> assetPath \<noteq> [] \<or> wr_method r = ''GET'')"
proof -
  obtain tid hook assetPath where res: "resolve_webhook_path (wr_path r) e = Some (tid, hook, assetPath)"
    using assms by (auto simp: webhook_handler_def split: option.splits)
  obtain k where k: "get_kinded tid (re_tasks e) = Some k" using assms res by (auto simp: webhook_handler_def split: option.splits)
  show ?thesis
  proof (cases k)
    case (KPipeline p)
    with assms res k fire_pipeline_effect [of ev p tid assetPath session r c t fires] show ?thesis by (simp add: webhook_handler_def del: hook_auth_of.simps)
  next
    case (KSpec s)
    show ?thesis
    proof (cases "assetPath = []")
      case True
      with assms res k KSpec fire_task_effect [of ev s tid session r c t fires] show ?thesis
        by (auto simp: webhook_handler_def simp del: hook_auth_of.simps split: option.splits if_splits dest: ui_effect)
    next
      case False
      with assms res k KSpec asset_effect [of ev tid "sp_task_dir s" assetPath t fires] show ?thesis
        by (auto simp: webhook_handler_def simp del: hook_auth_of.simps split: option.splits if_splits dest: ui_effect)
    qed
  qed
qed

lemma guard_cases:
  assumes "resolve_webhook_path (wr_path r) e = Some (t, hook, assetPath)" "get_kinded t (re_tasks e) = Some k"
    "hook_effect (fst (guarded_webhook ev e valid r c)) = Some x"
  obtains "webhook_mode k = AuthNone" "guarded_webhook ev e valid r c = webhook_handler ev e False r c"
  | "webhook_mode k = AuthSession" "valid" "wr_header r ''X-Relay-Base'' = []" "guarded_webhook ev e valid r c = webhook_handler ev e False r c"
  | "webhook_mode k = AuthAny" "valid" "wr_header r ''X-Relay-Base'' = []" "guarded_webhook ev e valid r c = webhook_handler ev e True r c"
  | "webhook_mode k = AuthAny" "ha_secret (hook_auth_of k) \<noteq> []" "wr_method r \<noteq> ''GET''" "assetPath = []"
    "guarded_webhook ev e valid r c = webhook_handler ev e False r c"
proof -
  have i: "wi_mode (resolve_auth_info (wr_path r) e) = webhook_mode k"
    "wi_has_secret (resolve_auth_info (wr_path r) e) = (ha_secret (hook_auth_of k) \<noteq> [])"
    "wi_is_asset (resolve_auth_info (wr_path r) e) = (assetPath \<noteq> [])"
    by (simp_all add: resolve_auth_info_def assms(1,2) del: hook_auth_of.simps)
  show ?thesis
    using assms(3) that
    by (cases "webhook_mode k")
      (auto simp: guarded_webhook_def i resolve_webhook_auth_def Let_def simp del: hook_auth_of.simps split: if_splits)
qed

text \<open>C34. No webhook does more than its task declares. Whatever comes of a request, if a page or a file of a task is
  served or a run of it fired, then that task owns the path it resolved to, and:
  where the task asks for authentication, the request came directly with a valid session, or, with
  \<open>auth: any\<close> only, it fires the hook itself and carries a signature under the task's secret with a
  timestamp in its window; a relayed request never profits from a session; and a secret means a
  signature for every run, unless a session stands in for it under \<open>auth: any\<close>.\<close>

theorem webhook_effects_are_authorised:
  assumes "hook_effect (fst (guarded_webhook ev e valid r c)) = Some (t, fires)"
  shows "\<exists>hook assetPath k. resolve_webhook_path (wr_path r) e = Some (t, hook, assetPath) \<and> get_kinded t (re_tasks e) = Some k \<and>
    (webhook_mode k \<noteq> AuthNone \<longrightarrow>
       valid \<and> wr_header r ''X-Relay-Base'' = [] \<or> webhook_mode k = AuthAny \<and> fires \<and> assetPath = [] \<and> signed_request ev k r) \<and>
    (fires \<and> ha_secret (hook_auth_of k) \<noteq> [] \<longrightarrow>
       signed_request ev k r \<or> webhook_mode k = AuthAny \<and> valid \<and> wr_header r ''X-Relay-Base'' = [])"
proof -
  have "\<exists>s. hook_effect (fst (webhook_handler ev e s r c)) = Some (t, fires)"
    using assms by (auto simp: guarded_webhook_def Let_def split: if_splits webhook_auth_outcome.splits)
  then obtain hook assetPath k where res: "resolve_webhook_path (wr_path r) e = Some (t, hook, assetPath)" "get_kinded t (re_tasks e) = Some k"
    using handler_effect by blast
  have h: "(fires \<longrightarrow> assetPath = [] \<and> (\<not> s \<and> ha_secret (hook_auth_of k) \<noteq> [] \<longrightarrow> signed_request ev k r)) \<and>
      (\<not> fires \<longrightarrow> assetPath \<noteq> [] \<or> wr_method r = ''GET'')"
    if "hook_effect (fst (webhook_handler ev e s r c)) = Some (t, fires)" for s
    using handler_effect [OF that] res by auto
  have "(webhook_mode k \<noteq> AuthNone \<longrightarrow>
       valid \<and> wr_header r ''X-Relay-Base'' = [] \<or> webhook_mode k = AuthAny \<and> fires \<and> assetPath = [] \<and> signed_request ev k r) \<and>
    (fires \<and> ha_secret (hook_auth_of k) \<noteq> [] \<longrightarrow>
       signed_request ev k r \<or> webhook_mode k = AuthAny \<and> valid \<and> wr_header r ''X-Relay-Base'' = [])"
    using assms by (rule_tac guard_cases [OF res assms]) (use h in auto)
  with res show ?thesis by blast
qed

definition ex_gated :: kinded where
  "ex_gated = KSpec (empty_spec\<lparr>sp_id := ''a'', sp_trigger := no_trigger\<lparr>tc_webhook := ''/hooks/a'', tc_webhook_secret := ''k'',
     tc_webhook_auth := AuthAny\<rparr>\<rparr>)"

definition ex_hook_engine :: reg_engine where
  "ex_hook_engine = reg_init\<lparr>re_tasks := [ex_gated], re_webhooks := [''/hooks/a'' \<mapsto> ''a'']\<rparr>"

definition ex_hook_env :: hook_env where
  "ex_hook_env = \<lparr>he_mac = ex_mac, he_now = 0, he_file = (\<lambda>p. None), he_links = (\<lambda>p. NotExist), he_form = (\<lambda>r b. None), he_json = (\<lambda>b. None)\<rparr>"

lemma ex_gated_fires:
  "hook_effect (fst (guarded_webhook ex_hook_env ex_hook_engine False (ex_signed []) (new_replay_cache webhook_replay_ttl))) = Some (''a'', True)"
proof -
  have "timestamp_error 0 False [] = None" by (simp add: timestamp_error_def)
  note adm = ex_admitted [OF this, unfolded ex_hook_def]
  have path: "wr_path (ex_signed []) = ''/hooks/a''" "wr_method (ex_signed []) = ''POST''" "wr_header (ex_signed []) ''X-Relay-Base'' = []"
    "wr_header (ex_signed []) ''Content-Type'' = []"
    by (simp_all add: ex_webhook_defs)
  have k: "get_kinded ''a'' (re_tasks ex_hook_engine) = Some ex_gated" "resolve_webhook_path ''/hooks/a'' ex_hook_engine = Some (''a'', ''/hooks/a'', [])"
    by (simp_all add: ex_hook_engine_def get_kinded_def ex_gated_def empty_spec_def resolve_webhook_path_def)
  have i: "resolve_auth_info ''/hooks/a'' ex_hook_engine =
      \<lparr>wi_matched = True, wi_task = ''a'', wi_mode = AuthAny, wi_has_secret = True, wi_is_asset = False\<rparr>"
    by (simp add: resolve_auth_info_def k ex_gated_def)
  have "guarded_webhook ex_hook_env ex_hook_engine False (ex_signed []) (new_replay_cache webhook_replay_ttl) =
      webhook_handler ex_hook_env ex_hook_engine False (ex_signed []) (new_replay_cache webhook_replay_ttl)"
    by (simp add: guarded_webhook_def path i resolve_webhook_auth_def)
  also have "\<dots> = fire_webhook_task ex_hook_env (case ex_gated of KSpec s \<Rightarrow> s) ''a'' False (ex_signed []) (new_replay_cache webhook_replay_ttl)"
    by (simp add: webhook_handler_def path k) (simp add: ex_gated_def path)
  finally show ?thesis using adm
    by (auto simp: fire_webhook_task_def ex_gated_def ex_hook_env_def no_trigger_def split: prod.splits option.splits)
qed

theorem webhook_effects_are_authorised_witness:
  "signed_request ex_hook_env ex_gated (ex_signed [])"
proof -
  have "get_kinded ''a'' (re_tasks ex_hook_engine) = Some ex_gated"
    by (simp add: ex_hook_engine_def get_kinded_def ex_gated_def empty_spec_def)
  with webhook_effects_are_authorised [OF ex_gated_fires] show ?thesis by (auto simp: ex_gated_def)
qed

end
