(* ===== verification/NetAddr.thy ===== *)
theory NetAddr
  imports WebhookSign "HOL-Library.Word"
begin

unbundle bit_operations_syntax

text \<open>
  Internet addresses as the guards use them: \<open>netip.ParseAddr\<close> and \<open>net.ParseIP\<close> with their grammar,
  the predicates of \<open>net.IP\<close>, and networks. An address is 32 or 128 bits, the latter with its zone.
\<close>

section \<open>Addresses\<close>

datatype ip_addr = V4 "32 word" | V6 "128 word" string

definition octet_ok :: "string \<Rightarrow> bool" where
  "octet_ok f = (f \<noteq> [] \<and> list_all is_digit f \<and> (length f = 1 \<or> hd f \<noteq> CHR ''0'') \<and> digits_value f \<le> 255)"

definition parse_ipv4 :: "string \<Rightarrow> 32 word option" where
  "parse_ipv4 s =
     (let fs = split_on CHR ''.'' s in
      if length fs = 4 \<and> list_all octet_ok fs
      then Some (foldl (\<lambda>w f. push_bit 8 w OR word_of_int (digits_value f)) 0 fs) else None)"

definition hex_value :: "char \<Rightarrow> nat option" where
  "hex_value c =
     (let n = (of_char c :: nat) in
      if is_digit c then Some (n - 48)
      else if char_between CHR ''a'' CHR ''f'' c then Some (n - 87)
      else if char_between CHR ''A'' CHR ''F'' c then Some (n - 55) else None)"

definition is_hex :: "char \<Rightarrow> bool" where
  "is_hex c = (hex_value c \<noteq> None)"

definition hex_word :: "string \<Rightarrow> 16 word" where
  "hex_word ds = foldl (\<lambda>w c. push_bit 4 w OR of_nat (the (hex_value c))) 0 ds"

text \<open>The groups of an IPv6 address from the left, with the place of the double colon, and what was not read.\<close>

fun parse_groups :: "nat \<Rightarrow> string \<Rightarrow> 16 word list \<Rightarrow> nat option \<Rightarrow> (16 word list \<times> nat option \<times> string) option" where
  "parse_groups 0 s gs e = Some (gs, e, s)"
| "parse_groups (Suc n) s gs e =
     (let ds = takeWhile is_hex s; rest = dropWhile is_hex s in
      if ds = [] \<or> 4 < length ds then None
      else if rest \<noteq> [] \<and> hd rest = CHR ''.'' then
        (if e = None \<and> length gs \<noteq> 6 \<or> 6 < length gs then None
         else (case parse_ipv4 s of
                 None \<Rightarrow> None
               | Some w \<Rightarrow> Some (gs @ [ucast (drop_bit 16 w), ucast w], e, [])))
      else (let gs1 = gs @ [hex_word ds] in
        if rest = [] then Some (gs1, e, [])
        else if hd rest \<noteq> CHR '':'' \<or> tl rest = [] then None
        else if hd (tl rest) = CHR '':'' then
          (if e \<noteq> None then None
           else if tl (tl rest) = [] then Some (gs1, Some (length gs1), [])
           else parse_groups n (tl (tl rest)) gs1 (Some (length gs1)))
        else parse_groups n (tl rest) gs1 e))"

definition groups_word :: "16 word list \<Rightarrow> 128 word" where
  "groups_word gs = foldl (\<lambda>w g. push_bit 16 w OR ucast g) 0 gs"

definition parse_ipv6 :: "string \<Rightarrow> ip_addr option" where
  "parse_ipv6 s0 =
     (case (case index_byte CHR ''%'' s0 of None \<Rightarrow> Some (s0, []) | Some i \<Rightarrow> if drop (Suc i) s0 = [] then None else Some (take i s0, drop (Suc i) s0)) of
        None \<Rightarrow> None
      | Some (s, zone) \<Rightarrow>
          (let lead = has_prefix ''::'' s; s1 = (if lead then drop 2 s else s) in
           if lead \<and> s1 = [] then Some (V6 0 zone)
           else (case parse_groups 8 s1 [] (if lead then Some 0 else None) of
                   None \<Rightarrow> None
                 | Some (gs, e, rest) \<Rightarrow>
                     if rest \<noteq> [] then None
                     else (case e of
                             None \<Rightarrow> if length gs < 8 then None else Some (V6 (groups_word gs) zone)
                           | Some k \<Rightarrow>
                               if 8 \<le> length gs then None
                               else Some (V6 (groups_word (take k gs @ replicate (8 - length gs) 0 @ drop k gs)) zone)))))"

definition parse_addr :: "string \<Rightarrow> ip_addr option" where
  "parse_addr s =
     (case find (\<lambda>c. c = CHR ''.'' \<or> c = CHR '':'' \<or> c = CHR ''%'') s of
        None \<Rightarrow> None
      | Some c \<Rightarrow> if c = CHR ''.'' then map_option V4 (parse_ipv4 s) else if c = CHR '':'' then parse_ipv6 s else None)"

text \<open>\<open>Addr.Unmap\<close>, and \<open>net.ParseIP\<close>, which knows no zones and whose addresses are used unmapped.\<close>

fun unmap :: "ip_addr \<Rightarrow> ip_addr" where
  "unmap (V4 w) = V4 w"
| "unmap (V6 w z) = (if drop_bit 32 w = 0xffff then V4 (ucast w) else V6 w z)"

definition parse_ip :: "string \<Rightarrow> ip_addr option" where
  "parse_ip s = (case parse_addr s of Some (V6 w z) \<Rightarrow> if z = [] then Some (unmap (V6 w z)) else None | r \<Rightarrow> r)"

section \<open>Networks\<close>

text \<open>An address as the network that its first \<open>n\<close> bits are; \<open>IPNet.Contains\<close> on unmapped addresses.\<close>

fun in_network :: "ip_addr \<times> nat \<Rightarrow> ip_addr \<Rightarrow> bool" where
  "in_network (V4 a, n) (V4 b) = (n \<le> 32 \<and> drop_bit (32 - n) a = drop_bit (32 - n) b)"
| "in_network (V6 a z, n) (V6 b y) = (n \<le> 128 \<and> drop_bit (128 - n) a = drop_bit (128 - n) b)"
| "in_network _ _ = False"

section \<open>Predicates of net.IP\<close>

definition octet :: "nat \<Rightarrow> 32 word \<Rightarrow> 8 word" where
  "octet i w = ucast (drop_bit (24 - 8 * i) w)"

definition octet6 :: "nat \<Rightarrow> 128 word \<Rightarrow> 8 word" where
  "octet6 i w = ucast (drop_bit (120 - 8 * i) w)"

fun is_loopback :: "ip_addr \<Rightarrow> bool" where
  "is_loopback (V4 w) = (octet 0 w = 127)"
| "is_loopback (V6 w z) = (w = 1)"

fun is_private :: "ip_addr \<Rightarrow> bool" where
  "is_private (V4 w) = (octet 0 w = 10 \<or> octet 0 w = 172 \<and> octet 1 w AND 0xf0 = 16 \<or> octet 0 w = 192 \<and> octet 1 w = 168)"
| "is_private (V6 w z) = (octet6 0 w AND 0xfe = 0xfc)"

fun is_link_local_unicast :: "ip_addr \<Rightarrow> bool" where
  "is_link_local_unicast (V4 w) = (octet 0 w = 169 \<and> octet 1 w = 254)"
| "is_link_local_unicast (V6 w z) = (octet6 0 w = 0xfe \<and> octet6 1 w AND 0xc0 = 0x80)"

fun is_link_local_multicast :: "ip_addr \<Rightarrow> bool" where
  "is_link_local_multicast (V4 w) = (octet 0 w = 224 \<and> octet 1 w = 0 \<and> octet 2 w = 0)"
| "is_link_local_multicast (V6 w z) = (octet6 0 w = 0xff \<and> octet6 1 w AND 0x0f = 2)"

fun is_multicast :: "ip_addr \<Rightarrow> bool" where
  "is_multicast (V4 w) = (octet 0 w AND 0xf0 = 0xe0)"
| "is_multicast (V6 w z) = (octet6 0 w = 0xff)"

fun is_unspecified :: "ip_addr \<Rightarrow> bool" where
  "is_unspecified (V4 w) = (w = 0)"
| "is_unspecified (V6 w z) = (w = 0)"

section \<open>The guards of git remotes\<close>

definition cgnat_block :: "ip_addr \<times> nat" where
  "cgnat_block = (V4 0x64400000, 10)"

definition is_blocked_ip :: "ip_addr \<Rightarrow> bool" where
  "is_blocked_ip ip =
     (is_loopback ip \<or> is_private ip \<or> is_link_local_unicast ip \<or> is_link_local_multicast ip \<or> is_unspecified ip \<or>
      is_multicast ip \<or> in_network cgnat_block ip)"

text \<open>\<open>normalizeHost\<close>: brackets off both ends, lower case, dots off the end.\<close>

definition trim_chars :: "string \<Rightarrow> string \<Rightarrow> string" where
  "trim_chars cs s = rev (dropWhile (\<lambda>c. c \<in> set cs) (rev (dropWhile (\<lambda>c. c \<in> set cs) s)))"

definition trim_dots :: "string \<Rightarrow> string" where
  "trim_dots s = rev (dropWhile (\<lambda>c. c = CHR ''.'') (rev s))"

definition normalize_host :: "string \<Rightarrow> string" where
  "normalize_host h = trim_dots (to_lower (trim_chars ''[]'' h))"

record allowlist =
  al_hosts :: "string list"
  al_nets :: "(ip_addr \<times> nat) list"

definition single_ip_net :: "ip_addr \<Rightarrow> ip_addr \<times> nat" where
  "single_ip_net ip = (case ip of V4 w \<Rightarrow> (V4 w, 32) | V6 w z \<Rightarrow> (V6 w z, 128))"

text \<open>\<open>net.ParseCIDR\<close>: the digits of the length have no sign and no leading zero is looked at.\<close>

definition parse_cidr :: "string \<Rightarrow> (ip_addr \<times> nat) option" where
  "parse_cidr s =
     (case index_byte CHR ''/'' s of
        None \<Rightarrow> None
      | Some i \<Rightarrow>
          (let m = drop (Suc i) s; n = nat (digits_value m) in
           case parse_addr (take i s) of
             None \<Rightarrow> None
           | Some a \<Rightarrow>
               if m = [] \<or> \<not> list_all is_digit m then None
               else (case a of
                       V4 w \<Rightarrow> if 32 < n then None else Some (V4 w, n)
                     | V6 w z \<Rightarrow> if z \<noteq> [] \<or> 128 < n then None
                                 else if drop_bit 32 w = 0xffff \<and> 96 \<le> n then Some (V4 (ucast w), n - 96) else Some (V6 w [], n))))"

definition bad_host_chars :: string where
  "bad_host_chars = '':%[]@ '' @ [CHR 0x09]"

fun parse_allowlist :: "string list \<Rightarrow> allowlist \<Rightarrow> string + allowlist" where
  "parse_allowlist [] a = Inr a"
| "parse_allowlist (raw # es) a =
     (let e = trim_space raw in
      if e = [] then parse_allowlist es a
      else if CHR ''/'' \<in> set e then
        (case parse_cidr e of None \<Rightarrow> Inl raw | Some n \<Rightarrow> parse_allowlist es (a\<lparr>al_nets := al_nets a @ [n]\<rparr>))
      else (case parse_ip e of
              Some ip \<Rightarrow> parse_allowlist es (a\<lparr>al_nets := al_nets a @ [single_ip_net ip]\<rparr>)
            | None \<Rightarrow>
                (let h = trim_dots (to_lower e) in
                 if h = [] \<or> list_ex (\<lambda>c. c \<in> set bad_host_chars) h then Inl raw
                 else parse_allowlist es (a\<lparr>al_hosts := h # al_hosts a\<rparr>))))"

definition allows_ip :: "allowlist \<Rightarrow> ip_addr \<Rightarrow> bool" where
  "allows_ip a ip = list_ex (\<lambda>n. in_network n ip) (al_nets a)"

definition allows_host :: "allowlist \<Rightarrow> string \<Rightarrow> bool" where
  "allows_host a host =
     (let h = normalize_host host in
      if h = [] then False
      else if h \<in> set (al_hosts a) then True
      else (case parse_ip h of Some ip \<Rightarrow> allows_ip a ip | None \<Rightarrow> False))"

datatype host_error = NoRemoteHost | BlockedHost

text \<open>\<open>ValidateRemoteHost\<close>, with the host go-git's parser finds in the URL, if it finds an endpoint.\<close>

definition validate_remote_host :: "allowlist \<Rightarrow> string option \<Rightarrow> host_error option" where
  "validate_remote_host a endpoint =
     (case endpoint of
        None \<Rightarrow> Some NoRemoteHost
      | Some raw \<Rightarrow>
          (let host = normalize_host raw in
           if host = [] then Some NoRemoteHost
           else if CHR ''%'' \<in> set host then Some BlockedHost
           else if allows_host a host then None
           else (case parse_ip host of
                   Some ip \<Rightarrow> if is_blocked_ip ip then Some BlockedHost else None
                 | None \<Rightarrow>
                     if host = ''localhost'' \<or> has_suffix ''.localhost'' host \<or> has_suffix ''.local'' host \<or> has_suffix ''.internal'' host
                     then Some BlockedHost else None)))"

datatype dial_target = DialName string | DialIP ip_addr

datatype dial_error = ResolveFailed | NoAddresses | DialBlocked ip_addr | DialFailed

text \<open>\<open>guardedDialContext\<close>: what is dialled, in order, up to the first that connects. The resolver, the proxies and
  the network are arguments.\<close>

fun dial_first :: "(dial_target \<Rightarrow> bool) \<Rightarrow> ip_addr list \<Rightarrow> dial_target list \<times> bool" where
  "dial_first connects [] = ([], False)"
| "dial_first connects (ip # ips) =
     (if connects (DialIP ip) then ([DialIP ip], True)
      else (case dial_first connects ips of (ds, ok) \<Rightarrow> (DialIP ip # ds, ok)))"

definition guarded_dial ::
    "allowlist \<Rightarrow> string list \<Rightarrow> (string \<Rightarrow> ip_addr list option) \<Rightarrow> (dial_target \<Rightarrow> bool) \<Rightarrow> string \<Rightarrow> dial_target list \<times> dial_error option" where
  "guarded_dial a proxies resolve connects host =
     (if host \<in> set proxies then ([DialName host], if connects (DialName host) then None else Some DialFailed)
      else (case (case parse_ip host of Some ip \<Rightarrow> Some [ip] | None \<Rightarrow> map_option (map unmap) (resolve host)) of
              None \<Rightarrow> ([], Some ResolveFailed)
            | Some ips \<Rightarrow>
                if ips = [] then ([], Some NoAddresses)
                else (case find (\<lambda>ip. is_blocked_ip ip \<and> \<not> allows_ip a ip) ips of
                        Some ip \<Rightarrow> ([], Some (DialBlocked ip))
                      | None \<Rightarrow> (case dial_first connects ips of (ds, ok) \<Rightarrow> (ds, if ok then None else Some DialFailed)))))"

end
