(* ===== verification/NetAddrSafety.thy ===== *)
theory NetAddrSafety
  imports NetAddr
begin

unbundle bit_operations_syntax

text \<open>
  What the guards of git remotes let through: the predicates on octets are a list of networks, and no
  connection is made into one of them that the operator did not allow.
\<close>

section \<open>Bits of addresses\<close>

lemma prefix_bits:
  fixes a b :: "'a::len word"
  assumes "n \<le> LENGTH('a)"
  shows "drop_bit (LENGTH('a) - n) a = drop_bit (LENGTH('a) - n) b \<longleftrightarrow> (\<forall>i < n. bit a (LENGTH('a) - n + i) = bit b (LENGTH('a) - n + i))"
proof
  assume "\<forall>i < n. bit a (LENGTH('a) - n + i) = bit b (LENGTH('a) - n + i)"
  then have "bit a (LENGTH('a) - n + i) = bit b (LENGTH('a) - n + i)" for i
    using assms bit_imp_le_length [of a "LENGTH('a) - n + i"] bit_imp_le_length [of b "LENGTH('a) - n + i"] by (cases "i < n") auto
  then show "drop_bit (LENGTH('a) - n) a = drop_bit (LENGTH('a) - n) b" by (simp add: bit_eq_iff bit_drop_bit_eq)
next
  assume "drop_bit (LENGTH('a) - n) a = drop_bit (LENGTH('a) - n) b"
  then have "bit (drop_bit (LENGTH('a) - n) a) i = bit (drop_bit (LENGTH('a) - n) b) i" for i by simp
  then show "\<forall>i < n. bit a (LENGTH('a) - n + i) = bit b (LENGTH('a) - n + i)" by (simp only: bit_drop_bit_eq o_apply) simp
qed

lemma split_bits: "(\<forall>i < m + n. P (k + i)) \<longleftrightarrow> (\<forall>i < m. P (k + i)) \<and> (\<forall>i < n. P (k + m + (i::nat)))"
proof safe
  fix i assume a: "\<forall>i < m. P (k + i)" "\<forall>i < n. P (k + m + i)" "i < m + n"
  show "P (k + i)"
  proof (cases "i < m")
    case False
    with a(3) have "i - m < n" "k + m + (i - m) = k + i" by simp_all
    with a(2) show ?thesis by metis
  qed (use a(1) in simp)
next
  fix i assume a: "\<forall>i < m + n. P (k + i)" "i < n"
  then have "P (k + (m + i))" by simp
  then show "P (k + m + i)" by (simp add: add.assoc)
qed auto

lemma byte_bits: "(x::8 word) = y \<longleftrightarrow> (\<forall>n < 8. bit x n = bit y n)"
proof
  assume "\<forall>n < 8. bit x n = bit y n"
  then have "bit x n = bit y n" for n using bit_imp_le_length [of x n] bit_imp_le_length [of y n] by (cases "n < 8") auto
  then show "x = y" by (simp add: bit_eq_iff)
qed simp

lemma octet_bits: "i < 4 \<Longrightarrow> n < 8 \<Longrightarrow> bit (octet i w) n = bit w (24 - 8 * i + n)"
  by (simp add: octet_def bit_simps)

lemma octet6_bits: "n < 8 \<Longrightarrow> bit (octet6 i w) n = bit w (120 - 8 * i + n)"
  by (simp add: octet6_def bit_simps)

lemma octet_eq: "i < 4 \<Longrightarrow> octet i a = octet i b \<longleftrightarrow> (\<forall>j < 8. bit a (24 - 8 * i + j) = bit b (24 - 8 * i + j))"
  by (simp add: byte_bits octet_bits)

lemma octet6_eq: "octet6 i a = octet6 i b \<longleftrightarrow> (\<forall>j < 8. bit a (120 - 8 * i + j) = bit b (120 - 8 * i + j))"
  by (simp add: byte_bits octet6_bits)

text \<open>The first bits of an octet.\<close>

lemma high_bits:
  assumes "n \<le> 8"
  shows "drop_bit (8 - n) (x::8 word) = drop_bit (8 - n) y \<longleftrightarrow> (\<forall>j < n. bit x (8 - n + j) = bit y (8 - n + j))"
  using prefix_bits [of n x y] assms by simp

lemma v4_prefix:
  "n \<le> 8 \<Longrightarrow> in_network (V4 a, n) (V4 w) \<longleftrightarrow> drop_bit (8 - n) (octet 0 a) = drop_bit (8 - n) (octet 0 w)"
  "n \<le> 8 \<Longrightarrow> in_network (V4 a, n + 8) (V4 w) \<longleftrightarrow> octet 0 a = octet 0 w \<and> drop_bit (8 - n) (octet 1 a) = drop_bit (8 - n) (octet 1 w)"
proof -
  assume n: "n \<le> 8"
  have e: "24 + (8 - n + j) = 32 - n + j" "16 + (8 - n + j) = 24 - n + j" "24 - n + (n + j) = 24 + j" for j using n by simp_all
  show "in_network (V4 a, n) (V4 w) \<longleftrightarrow> drop_bit (8 - n) (octet 0 a) = drop_bit (8 - n) (octet 0 w)"
    using prefix_bits [of n a w] n by (simp add: high_bits octet_bits e)
  have "in_network (V4 a, n + 8) (V4 w) \<longleftrightarrow> (\<forall>j < n + 8. bit a (24 - n + j) = bit w (24 - n + j))"
    using prefix_bits [of "n + 8" a w] n by simp
  also have "\<dots> \<longleftrightarrow> (\<forall>j < n. bit a (24 - n + j) = bit w (24 - n + j)) \<and> (\<forall>j < 8. bit a (24 + j) = bit w (24 + j))"
    using split_bits [of n 8 "\<lambda>k. bit a k = bit w k" "24 - n"] n by simp
  also have "\<dots> \<longleftrightarrow> octet 0 a = octet 0 w \<and> drop_bit (8 - n) (octet 1 a) = drop_bit (8 - n) (octet 1 w)"
    using n octet_eq [of 0 a w] by (auto simp: high_bits octet_bits e)
  finally show "in_network (V4 a, n + 8) (V4 w) \<longleftrightarrow> octet 0 a = octet 0 w \<and> drop_bit (8 - n) (octet 1 a) = drop_bit (8 - n) (octet 1 w)" .
qed

lemma v6_prefix:
  "n \<le> 8 \<Longrightarrow> in_network (V6 a y, n) (V6 w z) \<longleftrightarrow> drop_bit (8 - n) (octet6 0 a) = drop_bit (8 - n) (octet6 0 w)"
  "n \<le> 8 \<Longrightarrow> in_network (V6 a y, n + 8) (V6 w z) \<longleftrightarrow> octet6 0 a = octet6 0 w \<and> drop_bit (8 - n) (octet6 1 a) = drop_bit (8 - n) (octet6 1 w)"
proof -
  assume n: "n \<le> 8"
  have e: "120 + (8 - n + j) = 128 - n + j" "112 + (8 - n + j) = 120 - n + j" for j using n by simp_all
  show "in_network (V6 a y, n) (V6 w z) \<longleftrightarrow> drop_bit (8 - n) (octet6 0 a) = drop_bit (8 - n) (octet6 0 w)"
    using prefix_bits [of n a w] n by (simp add: high_bits octet6_bits e)
  have "in_network (V6 a y, n + 8) (V6 w z) \<longleftrightarrow> (\<forall>j < n + 8. bit a (120 - n + j) = bit w (120 - n + j))"
    using prefix_bits [of "n + 8" a w] n by simp
  also have "\<dots> \<longleftrightarrow> (\<forall>j < n. bit a (120 - n + j) = bit w (120 - n + j)) \<and> (\<forall>j < 8. bit a (120 + j) = bit w (120 + j))"
    using split_bits [of n 8 "\<lambda>k. bit a k = bit w k" "120 - n"] n by simp
  also have "\<dots> \<longleftrightarrow> octet6 0 a = octet6 0 w \<and> drop_bit (8 - n) (octet6 1 a) = drop_bit (8 - n) (octet6 1 w)"
    using n octet6_eq [of 0 a w] by (auto simp: high_bits octet6_bits e)
  finally show "in_network (V6 a y, n + 8) (V6 w z) \<longleftrightarrow> octet6 0 a = octet6 0 w \<and> drop_bit (8 - n) (octet6 1 a) = drop_bit (8 - n) (octet6 1 w)" .
qed

definition masks_agree :: "8 word \<Rightarrow> bool" where
  "masks_agree x = ((x AND 0xf0 = 16) = (drop_bit 4 x = 1) \<and> (x AND 0xf0 = 0xe0) = (drop_bit 4 x = 14) \<and>
     (x AND 0xfe = 0xfc) = (drop_bit 1 x = 126) \<and> (x AND 0xc0 = 0x80) = (drop_bit 6 x = 2))"

lemma masks_all: "list_all (\<lambda>k. masks_agree (word_of_int (int k))) [0..<256]"
  by code_simp

lemma octet_masks:
  "(x::8 word) AND 0xf0 = 16 \<longleftrightarrow> drop_bit 4 x = 1" "x AND 0xf0 = 0xe0 \<longleftrightarrow> drop_bit 4 x = 14"
  "x AND 0xfe = 0xfc \<longleftrightarrow> drop_bit 1 x = 126" "x AND 0xc0 = 0x80 \<longleftrightarrow> drop_bit 6 x = 2"
proof -
  have "unat x < 256" using unsigned_less [of x] by simp
  then have k: "unat x \<in> {0..<256}" by simp
  have "\<forall>k \<in> {0..<256}. masks_agree (word_of_nat k)" using masks_all by (simp add: list_all_iff)
  from bspec [OF this k] have "masks_agree (word_of_nat (unat x))" .
  then have "masks_agree x" by simp
  then show "x AND 0xf0 = 16 \<longleftrightarrow> drop_bit 4 x = 1" "x AND 0xf0 = 0xe0 \<longleftrightarrow> drop_bit 4 x = 14"
    "x AND 0xfe = 0xfc \<longleftrightarrow> drop_bit 1 x = 126" "x AND 0xc0 = 0x80 \<longleftrightarrow> drop_bit 6 x = 2"
    by (simp_all add: masks_agree_def)
qed

section \<open>The list of networks\<close>

definition blocked_networks :: "(ip_addr \<times> nat) list" where
  "blocked_networks =
     [(V4 0x7f000000, 8), (V4 0x0a000000, 8), (V4 0xac100000, 12), (V4 0xc0a80000, 16), (V4 0xa9fe0000, 16), (V4 0xe0000000, 4),
      (V4 0x64400000, 10), (V4 0, 32), (V6 1 [], 128), (V6 0 [], 128), (V6 (push_bit 120 0xfc) [], 7),
      (V6 (push_bit 112 0xfe80) [], 10), (V6 (push_bit 120 0xff) [], 8)]"

lemma list_ex_step: "list_ex P [] \<longleftrightarrow> False" "list_ex P (x # xs) \<longleftrightarrow> P x \<or> list_ex P xs"
  by simp_all

lemmas blocked_defs = is_blocked_ip_def blocked_networks_def cgnat_block_def list_ex_step is_loopback.simps is_private.simps
  is_link_local_unicast.simps is_link_local_multicast.simps is_unspecified.simps is_multicast.simps

lemma blocked_v4: "is_blocked_ip (V4 w) \<longleftrightarrow> list_ex (\<lambda>n. in_network n (V4 w)) blocked_networks"
proof -
  have n: "in_network (V4 0x7f000000, 8) (V4 w) \<longleftrightarrow> octet 0 w = 127" "in_network (V4 0x0a000000, 8) (V4 w) \<longleftrightarrow> octet 0 w = 10"
    using v4_prefix(1) [of 8 "0x7f000000" w] v4_prefix(1) [of 8 "0x0a000000" w] by (auto simp: octet_def simp del: in_network.simps)
  have n12: "in_network (V4 0xac100000, 12) (V4 w) \<longleftrightarrow> octet 0 w = 172 \<and> octet 1 w AND 0xf0 = 16"
    using v4_prefix(2) [of 4 "0xac100000" w] by (auto simp: octet_def octet_masks simp del: in_network.simps)
  have n16: "in_network (V4 0xc0a80000, 16) (V4 w) \<longleftrightarrow> octet 0 w = 192 \<and> octet 1 w = 168"
    "in_network (V4 0xa9fe0000, 16) (V4 w) \<longleftrightarrow> octet 0 w = 169 \<and> octet 1 w = 254"
    using v4_prefix(2) [of 8 "0xc0a80000" w] v4_prefix(2) [of 8 "0xa9fe0000" w] by (auto simp: octet_def simp del: in_network.simps)
  have n4: "in_network (V4 0xe0000000, 4) (V4 w) \<longleftrightarrow> octet 0 w AND 0xf0 = 0xe0"
    using v4_prefix(1) [of 4 "0xe0000000" w] by (auto simp: octet_def octet_masks simp del: in_network.simps)
  have n32: "in_network (V4 0, 32) (V4 w) \<longleftrightarrow> w = 0" by auto
  have no: "in_network (V6 a z, k) (V4 w) \<longleftrightarrow> False" for a z k by simp
  have m: "octet 0 w = 224 \<Longrightarrow> octet 0 w AND 0xf0 = 0xe0" by simp
  show ?thesis unfolding blocked_defs n n12 n16 n4 n32 no using m by blast
qed

lemma blocked_v6: "is_blocked_ip (V6 w z) \<longleftrightarrow> list_ex (\<lambda>n. in_network n (V6 w z)) blocked_networks"
proof -
  have n7: "in_network (V6 (push_bit 120 0xfc) [], 7) (V6 w z) \<longleftrightarrow> octet6 0 w AND 0xfe = 0xfc"
    using v6_prefix(1) [of 7 "push_bit 120 0xfc" "[]" w z] by (auto simp: octet6_def octet_masks simp del: in_network.simps)
  have n10: "in_network (V6 (push_bit 112 0xfe80) [], 10) (V6 w z) \<longleftrightarrow> octet6 0 w = 0xfe \<and> octet6 1 w AND 0xc0 = 0x80"
    using v6_prefix(2) [of 2 "push_bit 112 0xfe80" "[]" w z] by (auto simp: octet6_def octet_masks simp del: in_network.simps)
  have n8: "in_network (V6 (push_bit 120 0xff) [], 8) (V6 w z) \<longleftrightarrow> octet6 0 w = 0xff"
    using v6_prefix(1) [of 8 "push_bit 120 0xff" "[]" w z] by (auto simp: octet6_def simp del: in_network.simps)
  have n128: "in_network (V6 1 [], 128) (V6 w z) \<longleftrightarrow> w = 1" "in_network (V6 0 [], 128) (V6 w z) \<longleftrightarrow> w = 0" by auto
  have no: "in_network (V4 a, k) (V6 w z) \<longleftrightarrow> False" for a k by simp
  show ?thesis unfolding blocked_defs n7 n8 n10 n128 no by blast
qed

lemma blocked_exact: "is_blocked_ip ip \<longleftrightarrow> list_ex (\<lambda>n. in_network n ip) blocked_networks"
  using blocked_v4 blocked_v6 by (cases ip) simp_all

section \<open>What is dialled\<close>

lemma dial_first_targets: "set (fst (dial_first connects ips)) \<subseteq> DialIP ` set ips"
  by (induction ips) (auto split: prod.splits)

lemma unproxied_targets:
  assumes "host \<notin> set proxies" "t \<in> set (fst (guarded_dial a proxies resolve connects host))"
  shows "\<exists>ip. t = DialIP ip \<and> (\<not> is_blocked_ip ip \<or> allows_ip a ip)"
proof -
  define cands where "cands = (case parse_ip host of Some ip \<Rightarrow> Some [ip] | None \<Rightarrow> map_option (map unmap) (resolve host))"
  obtain ips where c: "cands = Some ips" using assms by (cases cands) (simp_all add: guarded_dial_def flip: cands_def)
  have f: "find (\<lambda>ip. is_blocked_ip ip \<and> \<not> allows_ip a ip) ips = None"
    using assms by (cases "find (\<lambda>ip. is_blocked_ip ip \<and> \<not> allows_ip a ip) ips") (simp_all add: guarded_dial_def c flip: cands_def split: if_splits)
  have "t \<in> set (fst (dial_first connects ips))" using assms by (simp add: guarded_dial_def c f flip: cands_def split: if_splits prod.splits)
  with dial_first_targets [of connects ips] obtain ip where "t = DialIP ip" "ip \<in> set ips" by auto
  with f show ?thesis by (auto simp: find_None_iff)
qed



end
