(* ===== verification/Spec2Isabelle.thy ===== *)
theory Spec2Isabelle
  imports Prelude TaskSpec InputRef SpecValidate ApprovalLock ApprovalGate GateSafety ReviewState ApprovalToken Overrides DaemonSlots CrashLoop DaemonLifecycle DaemonSafety
    ChainGuards ChainDispatch ChainSafety FailureChains ChainSystem
    PipelineSpec PipelineRun PipelineSafety EngineRegister RegisterSafety
    RunStore RunSafety Resume ResumeSafety RunDispatch RunDispatchSafety RunLifecycle LifecycleSafety Reconciler ReconcilerSafety
    Gateway WebhookSign WebhookSignSafety WebhookHttp WebhookHttpSafety NetAddr NetAddrSafety
begin

text \<open>
  A verification development for the core of dicode (dicode-ayo/dicode-core): a task runner
  whose daemon loads task directories from git, holds new content back until a human approved
  it, fires tasks on triggers, chains them and keeps long-running tasks alive.

  \<^bold>\<open>How the parts interact.\<close> A task source yields directories; \<open>pkg/task\<close> decodes and validates
  them, \<open>pkg/taskset\<close> applies override layers to them. The reconciler of \<open>pkg/registry\<close> registers
  them and hands each to the approval gate (\<open>pkg/approval\<close>), which compares its content hash
  with a lockfile. The trigger engine (\<open>pkg/trigger\<close>) arms cron, webhook, chain and daemon
  triggers, consults the gate once more on every fire, and on the end of a run fires the tasks,
  pipelines and failure handlers chained to it. An operator approves from the web UI or through
  a signed link (\<open>pkg/approval\<close> tokens).

  \<^bold>\<open>Theories and code.\<close>
  \<^item> \<open>Prelude\<close>: collections of rules, types, and the functions of Go's package \<open>strings\<close> the
    components use. \<open>TaskSpec\<close>: the structs of pkg/task (spec.go, overrides.go, pipeline.go,
    onfailurechain.go, kinded.go) as records; a nil pointer is \<open>None\<close>, a slice a list.
  \<^item> \<open>InputRef\<close>: inputref.go, interpolation of upstream results. The regular expressions are
    scanners on strings; the load-time gate is compared with the dispatch-time resolver.
  \<^item> \<open>SpecValidate\<close>: \<open>Spec.Validate\<close> with every check, in the order of the code; error messages are
    constructors. \<open>PipelineSpec\<close>: \<open>PipelineTask.Validate\<close> and its three-colour cycle search.
  \<^item> \<open>Overrides\<close>: pkg/taskset/override.go and the merging half of resolver.go.
  \<^item> \<open>ApprovalLock\<close>: lock.go (records, MAC, load, save). \<open>ApprovalGate\<close>, \<open>GateSafety\<close>: gate.go. The
    locale \<open>approval_store\<close> is the lock as the gate uses it. \<open>ReviewState\<close>: state.go and the input
    of the content hash. \<open>ApprovalToken\<close>: token.go, comparelink.go and the link handlers of
    pkg/webui/approval.go.
  \<^item> \<open>DaemonSlots\<close>, \<open>CrashLoop\<close>, \<open>DaemonLifecycle\<close>, \<open>DaemonSafety\<close>: daemon_slot.go, crashloop.go,
    daemon_state.go, daemon.go. Slots are shared entries in a store of addresses. The system is
    a step relation whose steps are the critical sections of registrations, removals, exits,
    suspensions, resumes and sweeps.
  \<^item> \<open>ChainGuards\<close>, \<open>ChainDispatch\<close>, \<open>ChainSafety\<close>, \<open>FailureChains\<close>, \<open>ChainSystem\<close>: chain.go and
    engine_guardrails.go: success edges, pipeline edges, failure chains with depth, cooldown,
    concurrency and storm guards. \<open>ChainSystem\<close> cuts a dispatch between its critical sections.
  \<^item> \<open>PipelineRun\<close>, \<open>PipelineSafety\<close>: pipeline_runner.go, the sequential runner as a function of what
    the stages' runs do and the parallel runner as a step relation over stage goroutines.
  \<^item> \<open>EngineRegister\<close>: \<open>Register\<close>, \<open>Unregister\<close>, cron entries, catch-up and webhook paths of
    engine.go, registerpipeline.go and webhook.go.

  \<^bold>\<open>What the lemmas show.\<close> For each state component there is an invariant preserved by every
  operation (\<open>slots_ok\<close>, the gate's and the daemon system's invariants, the counters of the
  chain guards, the scheduler's entries), then the properties that follow. The approval part
  shows that untrusted content fires only after its live hash was approved, that a lockfile
  round-trips and fails closed, and that links are single use and bind the reviewed version. The daemon
  part shows that at most one body of a daemon is live. The chain part shows that the cycle
  check is exact, that chains end after ten hops, and that the counters are the slot holders
  under every interleaving. The pipeline part shows that stages wait for their dependencies and
  that an accepted parallel pipeline ends. Where the code falls short of its
  documentation the theorem states what it does and gives a concrete trace.

  \<^bold>\<open>Bounds and termination.\<close> All functions are total; no fuel is used where a bound is not proved.
  The parallel runner's bound is three steps per stage; the depth-first searches
  terminate on the set of unvisited nodes; time is an integer (seconds or nanoseconds as the
  source has it), without wrap-around; Go's \<open>int\<close> counters are integers or naturals, as their
  values are bounded by the number of goroutines.

  \<^bold>\<open>Not modelled.\<close> YAML and JSON decoding, SQL, HTTP, sockets, git, files and child processes are
  parameters or events. Cryptographic functions (SHA-256, HMAC) are parameters with the
  hypotheses named in the theorems (injectivity on the inputs at hand). The run goroutine of
  the engine is an event from outside: how a run ends is arbitrary. Manual fires of daemon
  tasks bypass the slots and are not steps of the daemon system. The runtimes, the web UI
  beyond the approval links, configuration, onboarding and the command line are not modelled:
  they are I/O around the parts above. \<open>PROJECT.json\<close> lists every component.
\<close>

end
